(* ===== verification/Prelude.thy ===== *)
theory Prelude imports Main "HOL-Library.Word" begin

text \<open>
  What every component of the development shares: the machine types of the C++ code, the
  outcome type that makes failed assertions, out-of-range accesses and thrown exceptions
  values, the model of contiguous memory (\<open>std::vector<char>\<close>, \<open>char[]\<close>, \<open>memcpy\<close>,
  \<open>std::copy\<close>), and the lemmas on lists and outcomes that the component proofs use.

  Sizes (\<open>size_t\<close>) are natural numbers: the buffers live in memory, so the sums the code
  forms from their sizes stay far below \<open>2^64\<close>.  Integers that go on the wire or that the
  code narrows are words of their width.
\<close>

unbundle bit_operations_syntax

subsection \<open>Machine types\<close>

type_synonym byte = "8 word"
type_synonym bytes = "8 word list"

text \<open>A string literal as the bytes the compiler puts in the program.\<close>

definition lit :: "string \<Rightarrow> bytes" where
  "lit s = map of_char s"

lemma length_lit [simp]: "length (lit s) = length s"
  by (simp add: lit_def)

subsection \<open>Outcomes\<close>

text \<open>
  \<open>Abort\<close> is a failed \<open>assert\<close> or a call of \<open>abort()\<close>; \<open>OutOfBounds\<close> is an access outside
  the memory the code owns, which C++ leaves undefined; \<open>Throw m\<close> is a
  \<open>muduo::Exception\<close> with message \<open>m\<close>; \<open>DivByZero\<close> is an integer division by zero.
\<close>

datatype fault = Abort | OutOfBounds | DivByZero | Throw bytes

type_synonym 'a res = "fault + 'a"

fun bind_res :: "'a res \<Rightarrow> ('a \<Rightarrow> 'b res) \<Rightarrow> 'b res" where
  "bind_res (Inl e) f = Inl e"
| "bind_res (Inr x) f = f x"

definition assert_res :: "bool \<Rightarrow> 'a res \<Rightarrow> 'a res" where
  "assert_res c r = (if c then r else Inl Abort)"

lemma assert_res_simps [simp]:
  "assert_res True r = r" "assert_res False r = Inl Abort"
  by (simp_all add: assert_res_def)

lemma assert_res_Inr: "assert_res c r = Inr x \<longleftrightarrow> c \<and> r = Inr x"
  by (simp add: assert_res_def)

lemma bind_res_Inr: "bind_res r f = Inr y \<longleftrightarrow> (\<exists>x. r = Inr x \<and> f x = Inr y)"
  by (cases r) auto

lemma bind_res_InrE:
  assumes "bind_res r f = Inr y"
  obtains x where "r = Inr x" "f x = Inr y"
  using assms by (auto simp: bind_res_Inr)

subsection \<open>Contiguous memory\<close>

text \<open>The \<open>n\<close> bytes at offset \<open>i\<close>, and the memory after writing \<open>xs\<close> there.\<close>

definition mem_read :: "'a list \<Rightarrow> nat \<Rightarrow> nat \<Rightarrow> 'a list res" where
  "mem_read m i n = (if i + n \<le> length m then Inr (take n (drop i m)) else Inl OutOfBounds)"

definition mem_write :: "'a list \<Rightarrow> nat \<Rightarrow> 'a list \<Rightarrow> 'a list res" where
  "mem_write m i xs =
     (if i + length xs \<le> length m then Inr (take i m @ xs @ drop (i + length xs) m)
      else Inl OutOfBounds)"

lemma mem_write_ok:
  "i + length xs \<le> length m \<Longrightarrow> mem_write m i xs = Inr (take i m @ xs @ drop (i + length xs) m)"
  by (simp add: mem_write_def)

lemma mem_read_ok: "i + n \<le> length m \<Longrightarrow> mem_read m i n = Inr (take n (drop i m))"
  by (simp add: mem_read_def)

lemma mem_write_length: "mem_write m i xs = Inr m' \<Longrightarrow> length m' = length m"
  by (auto simp: mem_write_def split: if_splits)

text \<open>\<open>std::vector<char>::resize\<close>: new elements are zero.\<close>

definition vec_resize :: "nat \<Rightarrow> bytes \<Rightarrow> bytes" where
  "vec_resize n v = take n v @ replicate (n - length v) 0"

lemma length_vec_resize [simp]: "length (vec_resize n v) = n"
  by (simp add: vec_resize_def)

lemma take_vec_resize: "i \<le> length v \<Longrightarrow> i \<le> n \<Longrightarrow> take i (vec_resize n v) = take i v"
  by (simp add: vec_resize_def min_def)

lemma take_drop_vec_resize:
  "i + k \<le> length v \<Longrightarrow> i + k \<le> n \<Longrightarrow> take k (drop i (vec_resize n v)) = take k (drop i v)"
  by (simp add: take_drop take_vec_resize add.commute)

text \<open>
  A C string: the bytes before the first NUL of an array.  Reading an array that has none
  runs past its end.
\<close>

definition c_string :: "bytes \<Rightarrow> bytes res" where
  "c_string a = (if 0 \<in> set a then Inr (takeWhile (\<lambda>c. c \<noteq> 0) a) else Inl OutOfBounds)"

text \<open>
  \<open>n\<close> bytes read through \<open>s.c_str()\<close>: the string's own bytes and its terminating NUL are
  readable, nothing behind them is.
\<close>

definition c_str_read :: "bytes \<Rightarrow> nat \<Rightarrow> bytes res" where
  "c_str_read s n = mem_read (s @ [0]) 0 n"

subsection \<open>Searching\<close>

text \<open>\<open>std::search\<close>: the offset of the first occurrence of \<open>p\<close>, the length if there is none.\<close>

fun std_search :: "'a list \<Rightarrow> 'a list \<Rightarrow> nat" where
  "std_search [] p = 0"
| "std_search (x # xs) p =
     (if take (length p) (x # xs) = p then 0 else Suc (std_search xs p))"

text \<open>\<open>std::find\<close>: the offset of the first occurrence of an element, the length if none.\<close>

fun std_find :: "'a list \<Rightarrow> 'a \<Rightarrow> nat" where
  "std_find [] c = 0"
| "std_find (x # xs) c = (if x = c then 0 else Suc (std_find xs c))"

lemma std_search_le: "std_search xs p \<le> length xs"
  by (induction xs) auto

lemma std_search_found:
  "std_search xs p < length xs \<Longrightarrow> take (length p) (drop (std_search xs p) xs) = p"
  by (induction xs) auto

lemma std_search_first:
  "k < std_search xs p \<Longrightarrow> take (length p) (drop k xs) \<noteq> p"
proof (induction xs arbitrary: k)
  case Nil
  then show ?case by simp
next
  case (Cons x xs)
  then show ?case by (cases k) (auto split: if_splits)
qed

lemma std_find_le: "std_find xs c \<le> length xs"
  by (induction xs) auto

lemma std_find_eq_takeWhile: "std_find xs c = length (takeWhile (\<lambda>x. x \<noteq> c) xs)"
  by (induction xs) auto

subsection \<open>Words and lists\<close>

text \<open>Reading a range of memory back after a write right behind it, or right before it.\<close>

lemma read_write_behind:
  assumes "r \<le> w" and "w + length xs \<le> length m"
  shows "take (w + length xs - r) (drop r (take w m @ xs @ drop (w + length xs) m))
           = take (w - r) (drop r m) @ xs"
proof -
  have "drop r (take w m @ xs @ drop (w + length xs) m)
          = take (w - r) (drop r m) @ xs @ drop (w + length xs) m"
    using assms by (simp add: drop_take)
  moreover have "length (take (w - r) (drop r m) @ xs) = w + length xs - r"
    using assms by simp
  ultimately show ?thesis by (metis append_assoc append_eq_conv_conj)
qed

lemma read_write_before:
  assumes "length xs \<le> r" and "r \<le> w" and "w \<le> length m"
  shows "take (w - (r - length xs)) (drop (r - length xs)
           (take (r - length xs) m @ xs @ drop r m)) = xs @ take (w - r) (drop r m)"
proof -
  have "drop (r - length xs) (take (r - length xs) m @ xs @ drop r m) = xs @ drop r m"
    using assms by simp
  moreover have "w - (r - length xs) = length xs + (w - r)" using assms by simp
  ultimately show ?thesis by simp
qed

lemma list_eq_take_drop: "i \<le> length xs \<Longrightarrow> take i xs @ drop i xs = xs"
  by simp

lemma take_append_exact: "length xs = n \<Longrightarrow> take n (xs @ ys) = xs"
  by simp

lemma drop_append_exact: "length xs = n \<Longrightarrow> drop n (xs @ ys) = ys"
  by simp

lemma drop_append_short: "n \<le> length xs \<Longrightarrow> drop n (xs @ ys) = drop n xs @ ys"
  by simp

end
