(* ===== verification/Endian.thy ===== *)
theory Endian imports Prelude begin

text \<open>
  \<open>muduo/net/Endian.h\<close>: conversion between host and network byte order.  The server runs
  on a little-endian host (x86), where \<open>htobe16/32/64\<close> reverse the bytes of a word and a word
  is stored least significant byte first.  \<open>mem16\<close> \<dots> \<open>mem64\<close> give the bytes a word occupies in
  memory (what \<open>memcpy(dst, &x, sizeof x)\<close> copies); \<open>load16\<close> \<dots> read them back.  The lemmas show
  that a converted word lies in memory most significant byte first, and the round trips.
\<close>

subsection \<open>Words in memory\<close>

definition mem16 :: "16 word \<Rightarrow> bytes" where
  "mem16 x = [ucast x, ucast (drop_bit 8 x)]"

definition mem32 :: "32 word \<Rightarrow> bytes" where
  "mem32 x = [ucast x, ucast (drop_bit 8 x), ucast (drop_bit 16 x), ucast (drop_bit 24 x)]"

definition mem64 :: "64 word \<Rightarrow> bytes" where
  "mem64 x = map (\<lambda>i. ucast (drop_bit (8 * i) x)) [0..<8]"

fun load16 :: "bytes \<Rightarrow> 16 word" where
  "load16 (a # b # _) = ucast a OR push_bit 8 (ucast b)"
| "load16 _ = 0"

fun load32 :: "bytes \<Rightarrow> 32 word" where
  "load32 (a # b # c # d # _) =
     ucast a OR push_bit 8 (ucast b) OR push_bit 16 (ucast c) OR push_bit 24 (ucast d)"
| "load32 _ = 0"

subsection \<open>The conversions\<close>

definition hostToNetwork16 :: "16 word \<Rightarrow> 16 word" where
  "hostToNetwork16 x = push_bit 8 x OR drop_bit 8 x"

definition hostToNetwork32 :: "32 word \<Rightarrow> 32 word" where
  "hostToNetwork32 x =
     push_bit 24 x OR push_bit 8 (x AND 0xFF00) OR drop_bit 8 (x AND 0xFF0000) OR drop_bit 24 x"

definition hostToNetwork64 :: "64 word \<Rightarrow> 64 word" where
  "hostToNetwork64 x =
     push_bit 56 x OR push_bit 40 (x AND 0xFF00) OR push_bit 24 (x AND 0xFF0000)
     OR push_bit 8 (x AND 0xFF000000) OR drop_bit 8 (x AND 0xFF00000000)
     OR drop_bit 24 (x AND 0xFF0000000000) OR drop_bit 40 (x AND 0xFF000000000000)
     OR drop_bit 56 x"

definition networkToHost16 :: "16 word \<Rightarrow> 16 word" where
  "networkToHost16 x = push_bit 8 x OR drop_bit 8 x"

definition networkToHost32 :: "32 word \<Rightarrow> 32 word" where
  "networkToHost32 x =
     push_bit 24 x OR push_bit 8 (x AND 0xFF00) OR drop_bit 8 (x AND 0xFF0000) OR drop_bit 24 x"

definition networkToHost64 :: "64 word \<Rightarrow> 64 word" where
  "networkToHost64 x =
     push_bit 56 x OR push_bit 40 (x AND 0xFF00) OR push_bit 24 (x AND 0xFF0000)
     OR push_bit 8 (x AND 0xFF000000) OR drop_bit 8 (x AND 0xFF00000000)
     OR drop_bit 24 (x AND 0xFF0000000000) OR drop_bit 40 (x AND 0xFF000000000000)
     OR drop_bit 56 x"

subsection \<open>Facts\<close>

lemma length_mem [simp]: "length (mem16 x) = 2" "length (mem32 y) = 4" "length (mem64 z) = 8"
  by (simp_all add: mem16_def mem32_def mem64_def)

lemma upt_8: "[0..<8] = [0, 1, 2, 3, 4, 5, 6, 7]"
  by code_simp

lemma upt_16: "[0..<16] = [0, 1, 2, 3, 4, 5, 6, 7, 8, 9, 10, 11, 12, 13, 14, 15]"
  by code_simp

lemma upt_32: "[0..<32] = [0, 1, 2, 3, 4, 5, 6, 7, 8, 9, 10, 11, 12, 13, 14, 15, 16, 17, 18, 19,
    20, 21, 22, 23, 24, 25, 26, 27, 28, 29, 30, 31]"
  by code_simp

lemma upt_64: "[0..<64] = [0, 1, 2, 3, 4, 5, 6, 7, 8, 9, 10, 11, 12, 13, 14, 15, 16, 17, 18, 19,
    20, 21, 22, 23, 24, 25, 26, 27, 28, 29, 30, 31, 32, 33, 34, 35, 36, 37, 38, 39, 40, 41, 42,
    43, 44, 45, 46, 47, 48, 49, 50, 51, 52, 53, 54, 55, 56, 57, 58, 59, 60, 61, 62, 63]"
  by code_simp

lemma bit_beyond: "LENGTH('a) \<le> n \<Longrightarrow> bit x n = False"
  for x :: "'a::len word"
  using bit_imp_le_length [of x n] by auto

lemmas bit_enum = bit_simps bit_beyond upt_8 upt_16 upt_32 upt_64

lemma word16_eqI: "list_all (\<lambda>n. bit x n = bit y n) [0..<16] \<Longrightarrow> x = y"
  for x y :: "16 word"
  by (rule bit_word_eqI) (simp add: list_all_iff)

lemma word32_eqI: "list_all (\<lambda>n. bit x n = bit y n) [0..<32] \<Longrightarrow> x = y"
  for x y :: "32 word"
  by (rule bit_word_eqI) (simp add: list_all_iff)

lemma word64_eqI: "list_all (\<lambda>n. bit x n = bit y n) [0..<64] \<Longrightarrow> x = y"
  for x y :: "64 word"
  by (rule bit_word_eqI) (simp add: list_all_iff)

lemma byte_eqI: "list_all (\<lambda>n. bit x n = bit y n) [0..<8] \<Longrightarrow> x = y"
  for x y :: byte
  by (rule bit_word_eqI) (simp add: list_all_iff)

lemma load16_mem16 [simp]: "load16 (mem16 x @ r) = x"
  unfolding mem16_def by (simp, rule word16_eqI) (simp add: bit_enum)

lemma load32_mem32 [simp]: "load32 (mem32 x @ r) = x"
  unfolding mem32_def by (simp, rule word32_eqI) (simp add: bit_enum)

lemma networkToHost16_inverse [simp]: "networkToHost16 (hostToNetwork16 x) = x"
  unfolding networkToHost16_def hostToNetwork16_def
  by (rule word16_eqI) (simp add: bit_enum)

lemma networkToHost32_inverse [simp]: "networkToHost32 (hostToNetwork32 x) = x"
  unfolding networkToHost32_def hostToNetwork32_def
  by (rule word32_eqI) (simp add: bit_enum)

lemma networkToHost64_inverse [simp]: "networkToHost64 (hostToNetwork64 x) = x"
  unfolding networkToHost64_def hostToNetwork64_def
  by (rule word64_eqI) (simp add: bit_enum)

lemma network_order16: "mem16 (hostToNetwork16 x) = [ucast (drop_bit 8 x), ucast x]"
  unfolding mem16_def hostToNetwork16_def
  by (simp, intro conjI; rule byte_eqI) (simp_all add: bit_enum)

lemma network_order32:
  "mem32 (hostToNetwork32 x) =
     [ucast (drop_bit 24 x), ucast (drop_bit 16 x), ucast (drop_bit 8 x), ucast x]"
  unfolding mem32_def hostToNetwork32_def
  by (simp, intro conjI; rule byte_eqI) (simp_all add: bit_enum)

end
