(* ===== verification/MD5.thy ===== *)
theory MD5 imports Endian begin

text \<open>
  \<open>bankserver/MD5.h\<close> and \<open>MD5.cc\<close>: the digest that seals every packet of the bank protocol.
  \<open>MD5Update\<close> absorbs a message piecewise through a 64-byte buffer and a split 64-bit bit count,
  \<open>MD5Final\<close> pads in place, \<open>MD5Transform\<close> is the unrolled compression function.

  The lemmas show that the unrolled transform is the loop of RFC 1321, that a context that has
  absorbed a message is determined by it (\<open>absorbed\<close>) and every update keeps this, and so that
  \<open>MD5Make\<close> is the digest of the RFC: pad, cut into blocks, compress.
\<close>

type_synonym u32 = "32 word"
type_synonym md5_state = "u32 \<times> u32 \<times> u32 \<times> u32"

subsection \<open>The compression function\<close>

definition F1 :: "u32 \<Rightarrow> u32 \<Rightarrow> u32 \<Rightarrow> u32" where
  "F1 x y z = z XOR (x AND (y XOR z))"

definition F2 :: "u32 \<Rightarrow> u32 \<Rightarrow> u32 \<Rightarrow> u32" where
  "F2 x y z = F1 z x y"

definition F3 :: "u32 \<Rightarrow> u32 \<Rightarrow> u32 \<Rightarrow> u32" where
  "F3 x y z = x XOR y XOR z"

definition F4 :: "u32 \<Rightarrow> u32 \<Rightarrow> u32 \<Rightarrow> u32" where
  "F4 x y z = y XOR (x OR NOT z)"

text \<open>The value the macro \<open>MD5STEP\<close> gives its second operand.\<close>

definition MD5STEP ::
  "(u32 \<Rightarrow> u32 \<Rightarrow> u32 \<Rightarrow> u32) \<Rightarrow> u32 \<Rightarrow> u32 \<Rightarrow> u32 \<Rightarrow> u32 \<Rightarrow> u32 \<Rightarrow> nat \<Rightarrow> u32" where
  "MD5STEP f w x y z data s =
     (let w = w + (f x y z + data);
          w = push_bit s w OR drop_bit (32 - s) w
      in w + x)"

text \<open>
  The 64 uses of the macro come in groups of four that update \<open>a\<close>, \<open>d\<close>, \<open>c\<close> and \<open>b\<close> in this
  order.
\<close>

fun md5_four :: "(u32 \<Rightarrow> u32 \<Rightarrow> u32 \<Rightarrow> u32) \<Rightarrow> md5_state \<Rightarrow>
    u32 \<Rightarrow> nat \<Rightarrow> u32 \<Rightarrow> nat \<Rightarrow> u32 \<Rightarrow> nat \<Rightarrow> u32 \<Rightarrow> nat \<Rightarrow> md5_state" where
  "md5_four f (a, b, c, d) x0 s0 x1 s1 x2 s2 x3 s3 =
     (let a = MD5STEP f a b c d x0 s0;
          d = MD5STEP f d a b c x1 s1;
          c = MD5STEP f c d a b x2 s2;
          b = MD5STEP f b c d a x3 s3
      in (a, b, c, d))"

definition MD5Transform :: "md5_state \<Rightarrow> u32 list \<Rightarrow> md5_state" where
  "MD5Transform buf m =
     (let s = buf;
      s = md5_four F1 s (m ! 0 + 0xd76aa478) 7 (m ! 1 + 0xe8c7b756) 12
            (m ! 2 + 0x242070db) 17 (m ! 3 + 0xc1bdceee) 22;
      s = md5_four F1 s (m ! 4 + 0xf57c0faf) 7 (m ! 5 + 0x4787c62a) 12
            (m ! 6 + 0xa8304613) 17 (m ! 7 + 0xfd469501) 22;
      s = md5_four F1 s (m ! 8 + 0x698098d8) 7 (m ! 9 + 0x8b44f7af) 12
            (m ! 10 + 0xffff5bb1) 17 (m ! 11 + 0x895cd7be) 22;
      s = md5_four F1 s (m ! 12 + 0x6b901122) 7 (m ! 13 + 0xfd987193) 12
            (m ! 14 + 0xa679438e) 17 (m ! 15 + 0x49b40821) 22;
      s = md5_four F2 s (m ! 1 + 0xf61e2562) 5 (m ! 6 + 0xc040b340) 9
            (m ! 11 + 0x265e5a51) 14 (m ! 0 + 0xe9b6c7aa) 20;
      s = md5_four F2 s (m ! 5 + 0xd62f105d) 5 (m ! 10 + 0x02441453) 9
            (m ! 15 + 0xd8a1e681) 14 (m ! 4 + 0xe7d3fbc8) 20;
      s = md5_four F2 s (m ! 9 + 0x21e1cde6) 5 (m ! 14 + 0xc33707d6) 9
            (m ! 3 + 0xf4d50d87) 14 (m ! 8 + 0x455a14ed) 20;
      s = md5_four F2 s (m ! 13 + 0xa9e3e905) 5 (m ! 2 + 0xfcefa3f8) 9
            (m ! 7 + 0x676f02d9) 14 (m ! 12 + 0x8d2a4c8a) 20;
      s = md5_four F3 s (m ! 5 + 0xfffa3942) 4 (m ! 8 + 0x8771f681) 11
            (m ! 11 + 0x6d9d6122) 16 (m ! 14 + 0xfde5380c) 23;
      s = md5_four F3 s (m ! 1 + 0xa4beea44) 4 (m ! 4 + 0x4bdecfa9) 11
            (m ! 7 + 0xf6bb4b60) 16 (m ! 10 + 0xbebfbc70) 23;
      s = md5_four F3 s (m ! 13 + 0x289b7ec6) 4 (m ! 0 + 0xeaa127fa) 11
            (m ! 3 + 0xd4ef3085) 16 (m ! 6 + 0x04881d05) 23;
      s = md5_four F3 s (m ! 9 + 0xd9d4d039) 4 (m ! 12 + 0xe6db99e5) 11
            (m ! 15 + 0x1fa27cf8) 16 (m ! 2 + 0xc4ac5665) 23;
      s = md5_four F4 s (m ! 0 + 0xf4292244) 6 (m ! 7 + 0x432aff97) 10
            (m ! 14 + 0xab9423a7) 15 (m ! 5 + 0xfc93a039) 21;
      s = md5_four F4 s (m ! 12 + 0x655b59c3) 6 (m ! 3 + 0x8f0ccc92) 10
            (m ! 10 + 0xffeff47d) 15 (m ! 1 + 0x85845dd1) 21;
      s = md5_four F4 s (m ! 8 + 0x6fa87e4f) 6 (m ! 15 + 0xfe2ce6e0) 10
            (m ! 6 + 0xa3014314) 15 (m ! 13 + 0x4e0811a1) 21;
      s = md5_four F4 s (m ! 4 + 0xf7537e82) 6 (m ! 11 + 0xbd3af235) 10
            (m ! 2 + 0x2ad7d2bb) 15 (m ! 9 + 0xeb86d391) 21;
      (b0, b1, b2, b3) = buf; (a, b, c, d) = s
      in (b0 + a, b1 + b, b2 + c, b3 + d))"

subsection \<open>The context\<close>

record md5_ctx =
  md_buf :: md5_state
  md_bits :: "u32 \<times> u32"
  md_in :: bytes

definition MD5Init :: "md5_ctx \<Rightarrow> md5_ctx" where
  "MD5Init ctx = ctx\<lparr>md_buf := (0x67452301, 0xefcdab89, 0x98badcfe, 0x10325476),
                    md_bits := (0, 0)\<rparr>"

text \<open>The 64 bytes of \<open>in\<close> read as sixteen \<open>word32\<close>.\<close>

definition md5_words :: "bytes \<Rightarrow> u32 list" where
  "md5_words blk = map (\<lambda>i. load32 (drop (4 * i) blk)) [0..<16]"

definition md5_block :: "md5_ctx \<Rightarrow> md5_ctx" where
  "md5_block ctx = ctx\<lparr>md_buf := MD5Transform (md_buf ctx) (md5_words (md_in ctx))\<rparr>"

text \<open>The loop over whole chunks, and the bytes that remain.\<close>

function md5_chunks :: "md5_ctx \<Rightarrow> bytes \<Rightarrow> nat \<Rightarrow> md5_ctx" where
  "md5_chunks ctx buf len =
     (if 64 \<le> len
      then md5_chunks (md5_block (ctx\<lparr>md_in := take 64 buf\<rparr>)) (drop 64 buf) (len - 64)
      else ctx\<lparr>md_in := take len buf @ drop len (md_in ctx)\<rparr>)"
  by pat_completeness auto
termination
  by (relation "measure (\<lambda>(ctx, buf, len). len)") auto

declare md5_chunks.simps [simp del]

definition MD5Update :: "md5_ctx \<Rightarrow> bytes \<Rightarrow> u32 \<Rightarrow> md5_ctx res" where
  "MD5Update ctx buf len =
     (if length buf < unat len then Inl OutOfBounds
      else
        let (t, hi) = md_bits ctx;
            lo = t + push_bit 3 len;
            hi = (if lo < t then hi + 1 else hi);
            hi = hi + drop_bit 29 len;
            ctx = ctx\<lparr>md_bits := (lo, hi)\<rparr>;
            t = unat (drop_bit 3 t AND 0x3f);
            n = unat len
        in if t \<noteq> 0 then
             let p = t; t = 64 - t in
             if n < t then Inr (ctx\<lparr>md_in := take p (md_in ctx) @ take n buf @ drop (p + n) (md_in ctx)\<rparr>)
             else Inr (md5_chunks (md5_block (ctx\<lparr>md_in := take p (md_in ctx) @ take t buf\<rparr>))
                        (drop t buf) (n - t))
           else Inr (md5_chunks ctx buf n))"

fun md5_bytes :: "md5_state \<Rightarrow> bytes" where
  "md5_bytes (a, b, c, d) = mem32 a @ mem32 b @ mem32 c @ mem32 d"

text \<open>
  The digest.  \<open>memset(ctx, 0, sizeof(ctx))\<close> clears the first eight bytes of the context, which
  the caller discards.
\<close>

definition MD5Final :: "md5_ctx \<Rightarrow> bytes" where
  "MD5Final ctx =
     (let count = unat (drop_bit 3 (fst (md_bits ctx)) AND 0x3f);
          ctx = ctx\<lparr>md_in := (md_in ctx)[count := 0x80]\<rparr>;
          p = count + 1;
          count = 64 - 1 - count;
          ctx = (if count < 8
                 then (md5_block (ctx\<lparr>md_in := take p (md_in ctx) @ replicate count 0\<rparr>))
                        \<lparr>md_in := replicate 56 0\<rparr>
                 else ctx\<lparr>md_in := take p (md_in ctx) @ replicate (count - 8) 0\<rparr>);
          (lo, hi) = md_bits ctx;
          ctx = md5_block (ctx\<lparr>md_in := take 56 (md_in ctx) @ mem32 lo @ mem32 hi\<rparr>)
      in md5_bytes (md_buf ctx))"

text \<open>\<open>MD5Make\<close>; the context on the stack is uninitialised, so it is an argument.\<close>

definition MD5Make :: "md5_ctx \<Rightarrow> bytes \<Rightarrow> u32 \<Rightarrow> bytes res" where
  "MD5Make ctx buf len = bind_res (MD5Update (MD5Init ctx) buf len) (\<lambda>ctx. Inr (MD5Final ctx))"

subsection \<open>The digest of RFC 1321\<close>

definition rfc_table :: "u32 list" where
  "rfc_table = [
    0xd76aa478, 0xe8c7b756, 0x242070db, 0xc1bdceee, 0xf57c0faf, 0x4787c62a, 0xa8304613,
    0xfd469501, 0x698098d8, 0x8b44f7af, 0xffff5bb1, 0x895cd7be, 0x6b901122, 0xfd987193,
    0xa679438e, 0x49b40821, 0xf61e2562, 0xc040b340, 0x265e5a51, 0xe9b6c7aa, 0xd62f105d,
    0x02441453, 0xd8a1e681, 0xe7d3fbc8, 0x21e1cde6, 0xc33707d6, 0xf4d50d87, 0x455a14ed,
    0xa9e3e905, 0xfcefa3f8, 0x676f02d9, 0x8d2a4c8a, 0xfffa3942, 0x8771f681, 0x6d9d6122,
    0xfde5380c, 0xa4beea44, 0x4bdecfa9, 0xf6bb4b60, 0xbebfbc70, 0x289b7ec6, 0xeaa127fa,
    0xd4ef3085, 0x04881d05, 0xd9d4d039, 0xe6db99e5, 0x1fa27cf8, 0xc4ac5665, 0xf4292244,
    0x432aff97, 0xab9423a7, 0xfc93a039, 0x655b59c3, 0x8f0ccc92, 0xffeff47d, 0x85845dd1,
    0x6fa87e4f, 0xfe2ce6e0, 0xa3014314, 0x4e0811a1, 0xf7537e82, 0xbd3af235, 0x2ad7d2bb,
    0xeb86d391]"

definition rfc_shift :: "nat \<Rightarrow> nat" where
  "rfc_shift i = [[7, 12, 17, 22], [5, 9, 14, 20], [4, 11, 16, 23], [6, 10, 15, 21]] ! (i div 16) ! (i mod 4)"

definition rfc_index :: "nat \<Rightarrow> nat" where
  "rfc_index i = [i, 5 * i + 1, 3 * i + 5, 7 * i] ! (i div 16) mod 16"

definition rfc_F :: "nat \<Rightarrow> u32 \<Rightarrow> u32 \<Rightarrow> u32 \<Rightarrow> u32" where
  "rfc_F i x y z = [(x AND y) OR (NOT x AND z), (x AND z) OR (y AND NOT z), x XOR y XOR z,
                    y XOR (x OR NOT z)] ! (i div 16)"

fun rfc_step :: "u32 list \<Rightarrow> nat \<Rightarrow> md5_state \<Rightarrow> md5_state" where
  "rfc_step m i (a, b, c, d) =
     (d, b + word_rotl (rfc_shift i) (a + rfc_F i b c d + rfc_table ! i + m ! rfc_index i), b, c)"

definition rfc_compress :: "u32 list \<Rightarrow> md5_state \<Rightarrow> md5_state" where
  "rfc_compress m buf =
     (let (b0, b1, b2, b3) = buf; (a, b, c, d) = fold (rfc_step m) [0..<64] buf
      in (b0 + a, b1 + b, b2 + c, b3 + d))"

lemma F1_mux: "F1 x y z = (x AND y) OR (NOT x AND z)"
  unfolding F1_def by (rule bit_word_eqI) (auto simp: bit_simps)

lemma F2_mux: "F2 x y z = (x AND z) OR (y AND NOT z)"
  unfolding F2_def F1_def by (rule bit_word_eqI) (auto simp: bit_simps)


lemma rotate_or: "0 < s \<Longrightarrow> s < 32 \<Longrightarrow> push_bit s w OR drop_bit (32 - s) w = word_rotl s (w :: u32)"
proof (rule bit_word_eqI)
  fix n assume s: "0 < s" "s < 32" and n: "n < LENGTH(32)"
  have r: "bit (word_rotl s w) n \<longleftrightarrow> bit w ((n + (32 - s)) mod 32)"
    using s n by (simp add: bit_word_rotl_iff)
  have l: "bit (push_bit s w OR drop_bit (32 - s) w) n \<longleftrightarrow> (s \<le> n \<and> bit w (n - s)) \<or> bit w (32 - s + n)"
    using n by (auto simp: bit_simps)
  show "bit (push_bit s w OR drop_bit (32 - s) w) n \<longleftrightarrow> bit (word_rotl s w) n"
  proof (cases "n < s")
    case True
    then have "(n + (32 - s)) mod 32 = 32 - s + n" using s by simp
    then show ?thesis unfolding l r using True by (simp only: not_le [symmetric]) simp
  next
    case False
    then have "n + (32 - s) = 32 + (n - s)" using s n by simp
    moreover have "(32 + (n - s)) mod 32 = n - s" using n by simp
    ultimately have "(n + (32 - s)) mod 32 = n - s" by (simp only:)
    moreover have "\<not> bit w (32 - s + n)" using False s by (simp add: bit_beyond)
    ultimately show ?thesis unfolding l r using False by (simp only: not_less) simp
  qed
qed

lemma MD5STEP_rotl:
  "0 < s \<Longrightarrow> s < 32 \<Longrightarrow> MD5STEP f w x y z data s = x + word_rotl s (w + f x y z + data)"
  by (simp add: MD5STEP_def Let_def rotate_or ac_simps)

text \<open>One use of the macro is one step of the loop, up to the rotation of the four registers.\<close>

definition step_params :: "u32 list \<Rightarrow> nat \<Rightarrow> (u32 \<Rightarrow> u32 \<Rightarrow> u32 \<Rightarrow> u32) \<Rightarrow> u32 \<Rightarrow> nat \<Rightarrow> bool" where
  "step_params m i f x s \<longleftrightarrow>
     rfc_F i = f \<and> rfc_shift i = s \<and> 0 < s \<and> s < 32 \<and> rfc_table ! i + m ! rfc_index i = x"

lemma rfc_step_macro:
  assumes "step_params m i f x s"
  shows "rfc_step m i (a, b, c, d) = (d, MD5STEP f a b c d x s, b, c)"
  using assms unfolding step_params_def by (auto simp: MD5STEP_rotl add.assoc)

lemma fold_four:
  assumes "step_params m i f x0 s0" "step_params m (i + 1) f x1 s1"
    "step_params m (i + 2) f x2 s2" "step_params m (i + 3) f x3 s3"
  shows "fold (rfc_step m) [i..<i + 4] st = md5_four f st x0 s0 x1 s1 x2 s2 x3 s3"
proof -
  have "[i..<i + 4] = [i, i + 1, i + 2, i + 3]" by (simp add: upt_rec)
  then show ?thesis
    by (cases st) (simp only: fold.simps comp_def id_apply rfc_step_macro [OF assms(1)]
        rfc_step_macro [OF assms(2)] rfc_step_macro [OF assms(3)] rfc_step_macro [OF assms(4)]
        md5_four.simps Let_def)
qed

lemma rfc_functions:
  "i div 16 = 0 \<Longrightarrow> rfc_F i = F1" "i div 16 = 1 \<Longrightarrow> rfc_F i = F2"
  "i div 16 = 2 \<Longrightarrow> rfc_F i = F3" "i div 16 = 3 \<Longrightarrow> rfc_F i = F4"
  by (simp_all add: fun_eq_iff rfc_F_def F1_mux F2_mux F3_def F4_def)

lemma fold_split_64:
  "fold f [0..<64] s = fold f [60..<64] (fold f [56..<60] (fold f [52..<56] (fold f [48..<52]
    (fold f [44..<48] (fold f [40..<44] (fold f [36..<40] (fold f [32..<36]
    (fold f [28..<32] (fold f [24..<28] (fold f [20..<24] (fold f [16..<20]
    (fold f [12..<16] (fold f [8..<12] (fold f [4..<8] (fold f [0..<4] s)))))))))))))))"
proof -
  have "[0..<64] = [0..<4] @ [4..<8] @ [8..<12] @ [12..<16] @ [16..<20] @ [20..<24] @ [24..<28] @
      [28..<32] @ [32..<36] @ [36..<40] @ [40..<44] @ [44..<48] @ [48..<52] @ [52..<56] @
      [56..<60] @ [60..<64]"
    by code_simp
  then show ?thesis by (simp only: fold_append comp_def)
qed

lemma four_cong:
  assumes "st = st'" and "j = i + 4"
    and "step_params m i f x0 s0" "step_params m (i + 1) f x1 s1"
    "step_params m (i + 2) f x2 s2" "step_params m (i + 3) f x3 s3"
  shows "md5_four f st x0 s0 x1 s1 x2 s2 x3 s3 = fold (rfc_step m) [i..<j] st'"
  using fold_four [OF assms(3-6)] assms(1,2) by simp

lemma MD5Transform_rfc: "MD5Transform buf m = rfc_compress m buf"
  unfolding MD5Transform_def rfc_compress_def fold_split_64 Let_def
  apply (rule arg_cong [where f = "\<lambda>s. case buf of (b0, b1, b2, b3) \<Rightarrow> case s of (a, b, c, d) \<Rightarrow>
      (b0 + a, b1 + b, b2 + c, b3 + d)"])
  apply (intro four_cong refl)
  apply (simp_all add: step_params_def rfc_functions rfc_shift_def rfc_index_def rfc_table_def)
  apply (simp add: numeral_2_eq_2)
  done


subsection \<open>What a context has absorbed\<close>

abbreviation md5_init :: md5_state where
  "md5_init \<equiv> (0x67452301, 0xefcdab89, 0x98badcfe, 0x10325476)"

definition compress :: "md5_state \<Rightarrow> bytes \<Rightarrow> md5_state" where
  "compress st blk = MD5Transform st (md5_words blk)"

text \<open>The state after all whole blocks of a message, and the bytes behind them.\<close>

function blocks :: "md5_state \<Rightarrow> bytes \<Rightarrow> md5_state" where
  "blocks st msg = (if 64 \<le> length msg then blocks (compress st (take 64 msg)) (drop 64 msg) else st)"
  by pat_completeness auto
termination
  by (relation "measure (\<lambda>(st, msg). length msg)") auto

declare blocks.simps [simp del]

definition partial :: "bytes \<Rightarrow> bytes" where
  "partial msg = drop (64 * (length msg div 64)) msg"

lemma blocks_short: "length msg < 64 \<Longrightarrow> blocks st msg = st"
  by (subst blocks.simps) simp

lemma blocks_long: "64 \<le> length msg \<Longrightarrow> blocks st msg = blocks (compress st (take 64 msg)) (drop 64 msg)"
  by (subst blocks.simps) simp

lemma length_partial: "length (partial msg) = length msg mod 64"
  by (simp add: partial_def minus_mult_div_eq_mod)

lemma partial_short: "length msg < 64 \<Longrightarrow> partial msg = msg"
  by (simp add: partial_def)

lemma partial_long: "64 \<le> length msg \<Longrightarrow> partial msg = partial (drop 64 msg)"
proof -
  assume "64 \<le> length msg"
  then obtain k where k: "length msg = 64 + k" by (metis le_Suc_ex)
  moreover have "(64 + k) div 64 = k div 64 + 1" using div_add_self1 [of 64 k] by linarith
  ultimately show ?thesis
    unfolding partial_def drop_drop length_drop k by (simp only: diff_add_inverse distrib_left mult_1_right)
qed

lemma blocks_append: "blocks st (msg @ xs) = blocks (blocks st msg) (partial msg @ xs)"
proof (induction st msg rule: blocks.induct)
  case (1 st msg)
  show ?case
  proof (cases "64 \<le> length msg")
    case True
    then show ?thesis
      using 1 by (simp add: blocks_long [of "msg @ xs"] blocks_long [of msg] partial_long)
  next
    case False
    then show ?thesis by (simp add: blocks_short partial_short)
  qed
qed

lemma partial_append: "partial (msg @ xs) = partial (partial msg @ xs)"
proof (induction "length msg" arbitrary: msg rule: less_induct)
  case less
  show ?case
  proof (cases "64 \<le> length msg")
    case True
    then show ?thesis
      using less [of "drop 64 msg"] by (simp add: partial_long [of "msg @ xs"] partial_long [of msg])
  next
    case False
    then show ?thesis by (simp add: partial_short)
  qed
qed

lemma chunks_absorb:
  assumes "len = length xs" and "length (md_in ctx) = 64"
  shows "md_buf (md5_chunks ctx xs len) = blocks (md_buf ctx) xs \<and>
    md_bits (md5_chunks ctx xs len) = md_bits ctx \<and>
    length (md_in (md5_chunks ctx xs len)) = 64 \<and>
    take (len mod 64) (md_in (md5_chunks ctx xs len)) = partial xs"
  using assms
proof (induction ctx xs len rule: md5_chunks.induct)
  case (1 ctx xs len)
  show ?case
  proof (cases "64 \<le> len")
    case True
    then have "(len - 64) mod 64 = len mod 64" by (metis le_mod_geq)
    then show ?thesis
      using 1 True by (subst (1 2 3 4) md5_chunks.simps)
        (simp add: blocks_long [of xs] partial_long [of xs] md5_block_def compress_def)
  next
    case False
    then show ?thesis
      using 1(2,3) by (subst (1 2 3 4) md5_chunks.simps) (simp add: blocks_short partial_short)
  qed
qed

text \<open>The invariant: the context has absorbed \<open>msg\<close>.\<close>

definition bit_count :: "u32 \<times> u32 \<Rightarrow> nat" where
  "bit_count b = unat (fst b) + 2 ^ 32 * unat (snd b)"

definition absorbed :: "md5_ctx \<Rightarrow> bytes \<Rightarrow> bool" where
  "absorbed ctx msg \<longleftrightarrow>
     md_buf ctx = blocks md5_init msg \<and> length (md_in ctx) = 64 \<and>
     take (length msg mod 64) (md_in ctx) = partial msg \<and>
     bit_count (md_bits ctx) = 8 * length msg mod 2 ^ 64"

lemma u32_less: "unat (x :: u32) < 2 ^ 32"
  using unsigned_less [of x, where ?'a = nat] by simp

lemma count_low:
  assumes "bit_count (lo, hi) = 8 * n mod 2 ^ 64"
  shows "unat lo = 8 * n mod 2 ^ 32" and "unat (drop_bit 3 lo AND 0x3f) = n mod 64"
proof -
  have "unat lo = bit_count (lo, hi) mod 2 ^ 32"
    using u32_less [of lo] by (simp add: bit_count_def)
  also have "\<dots> = 8 * n mod 2 ^ 32" unfolding assms by (simp add: mod_mod_cancel)
  finally show lo: "unat lo = 8 * n mod 2 ^ 32" .
  have "unat (drop_bit 3 lo AND 0x3f) = unat (take_bit 6 (drop_bit 3 lo))"
    by (simp add: take_bit_eq_mask mask_eq_exp_minus_1)
  also have "\<dots> = (8 * n mod 2 ^ 32) div 8 mod 64"
    by (simp only: unsigned_take_bit_eq unat_drop_bit_eq lo) (simp add: take_bit_eq_mod drop_bit_eq_div)
  also have "\<dots> = n mod 2 ^ 29 mod 64"
  proof -
    have "8 * n mod 2 ^ 32 = 8 * (n mod 2 ^ 29)" using mult_mod_right [of 8 n "2 ^ 29"] by simp
    then show ?thesis by (simp only: nonzero_mult_div_cancel_left)
  qed
  also have "\<dots> = n mod 64" by (simp add: mod_mod_cancel)
  finally show "unat (drop_bit 3 lo AND 0x3f) = n mod 64" .
qed

lemma add_mod_wrap:
  assumes "a < m" and "b < (m :: nat)"
  shows "(a + b) mod m = (if m \<le> a + b then a + b - m else a + b)"
  using assms by (simp add: le_mod_geq)

lemma combine: "l mod 2 ^ 32 + 2 ^ 32 * (h mod 2 ^ 32) = (l mod 2 ^ 32 + 2 ^ 32 * h) mod (2 ^ 64 :: nat)"
proof -
  let ?x = "l mod 2 ^ 32 + 2 ^ 32 * h"
  have "(2 :: nat) ^ 64 = 2 ^ 32 * 2 ^ 32" by simp
  then have "?x mod 2 ^ 64 = 2 ^ 32 * (?x div 2 ^ 32 mod 2 ^ 32) + ?x mod 2 ^ 32"
    by (simp only: mod_mult2_eq)
  moreover have "?x div 2 ^ 32 = h" "?x mod 2 ^ 32 = l mod 2 ^ 32" by simp_all
  ultimately show ?thesis by simp
qed

lemma count_add:
  assumes "bit_count (t, hi) = 8 * n mod 2 ^ 64"
  shows "bit_count (t + push_bit 3 len, (if t + push_bit 3 len < t then hi + 1 else hi) + drop_bit 29 len)
           = 8 * (n + unat len) mod 2 ^ 64"
proof -
  let ?L = "8 * unat len mod 2 ^ 32" and ?H = "unat len div 2 ^ 29"
  have p: "unat (push_bit 3 len) = ?L" 
    by (simp only: unsigned_push_bit_eq) (simp add: take_bit_eq_mod push_bit_eq_mult mult.commute)
  have d: "unat (drop_bit 29 len) = ?H" 
    by (simp only: unat_drop_bit_eq) (simp only: drop_bit_eq_div)
  have len: "8 * unat len = ?L + 2 ^ 32 * ?H"
    using mult_div_mod_eq [of "2 ^ 32" "8 * unat len"] by (simp add: div_mult2_eq)
  have lo: "unat (t + push_bit 3 len) = (unat t + ?L) mod 2 ^ 32"
    by (simp add: unat_word_ariths p)
  have carry: "(t + push_bit 3 len < t) = (2 ^ 32 \<le> unat t + ?L)"
  proof -
    have L: "?L < 2 ^ 32" by simp
    have "unat (t + push_bit 3 len) = (if 2 ^ 32 \<le> unat t + ?L then unat t + ?L - 2 ^ 32 else unat t + ?L)"
      unfolding lo by (rule add_mod_wrap [OF u32_less L])
    then have "unat (t + push_bit 3 len) < unat t \<longleftrightarrow> 2 ^ 32 \<le> unat t + ?L"
      using L u32_less [of t] by (simp only: split: if_split) linarith
    then show ?thesis by (simp only: word_less_nat_alt)
  qed
  let ?c = "(if 2 ^ 32 \<le> unat t + ?L then 1 else 0) :: nat"
  have hi: "unat ((if t + push_bit 3 len < t then hi + 1 else hi) + drop_bit 29 len)
      = (unat hi + ?c + ?H) mod 2 ^ 32"
    by (simp add: unat_word_ariths d carry mod_add_left_eq)
  have sum: "unat t + ?L = (unat t + ?L) mod 2 ^ 32 + 2 ^ 32 * ?c"
  proof -
    have L: "?L < 2 ^ 32" by simp
    show ?thesis unfolding add_mod_wrap [OF u32_less [of t] L] by simp
  qed
  have "bit_count (t + push_bit 3 len, (if t + push_bit 3 len < t then hi + 1 else hi) + drop_bit 29 len)
      = (unat t + ?L) mod 2 ^ 32 + 2 ^ 32 * ((unat hi + ?c + ?H) mod 2 ^ 32)"
    by (simp only: bit_count_def fst_conv snd_conv lo hi)
  also have "\<dots> = ((unat t + ?L) mod 2 ^ 32 + 2 ^ 32 * (unat hi + ?c + ?H)) mod 2 ^ 64"
    by (rule combine)
  also have "(unat t + ?L) mod 2 ^ 32 + 2 ^ 32 * (unat hi + ?c + ?H)
      = bit_count (t, hi) + 8 * unat len"
    using sum len by (simp only: bit_count_def fst_conv snd_conv distrib_left)
  also have "\<dots> mod 2 ^ 64 = (8 * n + 8 * unat len) mod 2 ^ 64"
    unfolding assms by (rule mod_add_left_eq)
  finally show ?thesis by (simp only: distrib_left)
qed


lemma chunks_take: "md5_chunks ctx (take len xs) len = md5_chunks ctx xs len"
proof (induction ctx xs len rule: md5_chunks.induct)
  case (1 ctx xs len)
  then show ?case
    by (subst (1 2) md5_chunks.simps) (auto simp: drop_take min_def)
qed

lemma absorbed_Init: "length (md_in ctx) = 64 \<Longrightarrow> absorbed (MD5Init ctx) []"
  by (simp add: absorbed_def MD5Init_def blocks_short partial_short bit_count_def)

lemma absorb_chunks:
  assumes "length (md_in ctx) = 64" "md_buf ctx = blocks md5_init msg" "partial msg = []"
    and "n \<le> length buf" "bit_count (md_bits ctx) = 8 * (length msg + n) mod 2 ^ 64"
  shows "absorbed (md5_chunks ctx buf n) (msg @ take n buf)"
proof -
  have "length msg mod 64 = 0" using assms(3) by (metis length_partial list.size(3))
  then have "(length msg + n) mod 64 = n mod 64" by (metis add_0 mod_add_left_eq)
  then show ?thesis
    using chunks_absorb [of n "take n buf" ctx] assms
    by (simp add: absorbed_def chunks_take blocks_append [of _ msg] partial_append [of msg] min_def)
qed

lemma absorbed_Update:
  assumes "absorbed ctx msg" and "unat len \<le> length buf"
  shows "\<exists>ctx'. MD5Update ctx buf len = Inr ctx' \<and> absorbed ctx' (msg @ take (unat len) buf)"
proof -
  obtain t hi where bits: "md_bits ctx = (t, hi)" by fastforce
  define n where "n = unat len"
  define r where "r = partial msg"
  let ?bits = "(t + push_bit 3 len, (if t + push_bit 3 len < t then hi + 1 else hi) + drop_bit 29 len)"
  let ?ctx = "ctx\<lparr>md_bits := ?bits\<rparr>"
  have abs: "md_buf ctx = blocks md5_init msg" "length (md_in ctx) = 64"
      "take (length msg mod 64) (md_in ctx) = r" "bit_count (t, hi) = 8 * length msg mod 2 ^ 64"
    using assms(1) by (simp_all add: absorbed_def bits r_def)
  have tp: "unat (drop_bit 3 t AND 0x3f) = length r"
    using count_low(2) [OF abs(4)] by (simp add: r_def length_partial)
  have r64: "length r < 64" by (simp add: r_def length_partial)
  have rin: "take (length r) (md_in ctx) = r" using abs(3) by (simp add: r_def length_partial)
  have bits': "bit_count ?bits = 8 * (length msg + n) mod 2 ^ 64"
    unfolding n_def by (rule count_add [OF abs(4)])
  have upd: "MD5Update ctx buf len =
      (if length r \<noteq> 0 then
         if n < 64 - length r
         then Inr (?ctx\<lparr>md_in := take (length r) (md_in ctx) @ take n buf @ drop (length r + n) (md_in ctx)\<rparr>)
         else Inr (md5_chunks (md5_block (?ctx\<lparr>md_in := take (length r) (md_in ctx) @ take (64 - length r) buf\<rparr>))
                    (drop (64 - length r) buf) (n - (64 - length r)))
       else Inr (md5_chunks ?ctx buf n))"
    using assms(2) by (simp only: MD5Update_def bits Let_def prod.case tp n_def not_less) simp
  show ?thesis
  proof (cases "length r = 0")
    case True
    then have "absorbed (md5_chunks ?ctx buf n) (msg @ take n buf)"
      using abs assms(2) bits' by (intro absorb_chunks) (simp_all add: r_def n_def)
    then show ?thesis using upd True by (simp add: n_def)
  next
    case False
    show ?thesis
    proof (cases "n < 64 - length r")
      case True
      let ?in = "take (length r) (md_in ctx) @ take n buf @ drop (length r + n) (md_in ctx)"
      have sh: "length (r @ take n buf) < 64" using True r64 by simp
      have "blocks md5_init (msg @ take n buf) = md_buf ctx"
        using sh abs by (simp add: blocks_append [of _ msg] blocks_short flip: r_def)
      moreover have p: "partial (msg @ take n buf) = r @ take n buf"
        unfolding partial_append [of msg] r_def [symmetric] by (rule partial_short [OF sh])
      moreover have "length (msg @ take n buf) mod 64 = length (r @ take n buf)"
        using length_partial [of "msg @ take n buf"] p by simp
      ultimately have "absorbed (?ctx\<lparr>md_in := ?in\<rparr>) (msg @ take n buf)"
        using abs bits' True assms(2) rin unfolding absorbed_def by (simp add: n_def min_def)
      then show ?thesis using upd True False by (simp add: n_def)
    next
      case ge: False
      define k where "k = 64 - length r"
      let ?c1 = "md5_block (?ctx\<lparr>md_in := take (length r) (md_in ctx) @ take k buf\<rparr>)"
      let ?m1 = "msg @ take k buf"
      have k: "k \<le> n" "k \<le> length buf" "length (r @ take k buf) = 64"
        using ge assms(2) r64 by (simp_all add: k_def n_def)
      have b1: "blocks md5_init ?m1 = compress (md_buf ctx) (r @ take k buf)"
      proof -
        have "blocks (md_buf ctx) (r @ take k buf) = compress (md_buf ctx) (r @ take k buf)"
          using k(3) blocks_long [of "r @ take k buf" "md_buf ctx"] by (simp only: take_all drop_all blocks_short list.size order_refl)
        then show ?thesis by (simp only: blocks_append [of _ msg] r_def [symmetric] abs(1))
      qed
      have p1: "partial ?m1 = []"
        unfolding partial_append [of msg] r_def [symmetric] using k(3) by (simp add: partial_long partial_short)
      have cnt: "bit_count ?bits = 8 * (length ?m1 + (n - k)) mod 2 ^ 64"
        using bits' k by (simp add: min_def)
      have "absorbed (md5_chunks ?c1 (drop k buf) (n - k)) (?m1 @ take (n - k) (drop k buf))"
      proof (rule absorb_chunks)
        show "length (md_in ?c1) = 64" using k(3) rin by (simp add: md5_block_def)
        show "md_buf ?c1 = blocks md5_init ?m1" using b1 rin by (simp add: md5_block_def compress_def)
        show "partial ?m1 = []" by (rule p1)
        show "n - k \<le> length (drop k buf)" using assms(2) by (simp add: n_def)
        have "md_bits ?c1 = ?bits" by (simp add: md5_block_def)
        then show "bit_count (md_bits ?c1) = 8 * (length ?m1 + (n - k)) mod 2 ^ 64" using cnt by (simp only:)
      qed
      moreover have "?m1 @ take (n - k) (drop k buf) = msg @ take n buf"
        using k by (simp flip: take_add)
      ultimately show ?thesis using upd ge False by (simp add: n_def k_def)
    qed
  qed
qed

definition pad :: "bytes \<Rightarrow> bytes" where
  "pad msg = msg @ [0x80] @ replicate ((119 - length msg mod 64) mod 64) 0 @
     mem32 (of_nat (8 * length msg)) @ mem32 (of_nat (8 * length msg div 2 ^ 32))"

definition rfc_md5 :: "bytes \<Rightarrow> bytes" where
  "rfc_md5 msg = md5_bytes (blocks md5_init (pad msg))"


lemma len_u32: "(2 :: nat) ^ LENGTH(32) = 2 ^ 32"
  by simp

lemma count_words:
  assumes "bit_count (lo, hi) = 8 * n mod 2 ^ 64"
  shows "lo = of_nat (8 * n)" and "hi = of_nat (8 * n div 2 ^ 32)"
proof -
  show "lo = of_nat (8 * n)"
    by (rule word_unat_eq_iff [THEN iffD2]) (simp only: count_low(1) [OF assms] unat_of_nat len_u32)
  have "unat hi = bit_count (lo, hi) div 2 ^ 32"
    using u32_less [of lo] by (simp add: bit_count_def)
  also have "\<dots> = (8 * n mod (2 ^ 32 * 2 ^ 32)) div 2 ^ 32" unfolding assms by simp
  also have "\<dots> = 8 * n div 2 ^ 32 mod 2 ^ 32" by (subst mod_mult2_eq) simp
  finally show "hi = of_nat (8 * n div 2 ^ 32)"
    by (intro word_unat_eq_iff [THEN iffD2]) (simp only: unat_of_nat len_u32)
qed

lemma blocks_one: "length b = 64 \<Longrightarrow> blocks st b = compress st b"
  using blocks_long [of b st] by (simp add: blocks_short)

lemma blocks_two: "length a = 64 \<Longrightarrow> length b = 64 \<Longrightarrow> blocks st (a @ b) = compress (compress st a) b"
  using blocks_append [of st a b] by (simp add: blocks_one partial_def)

lemma MD5Final_absorbed: "absorbed ctx msg \<Longrightarrow> MD5Final ctx = rfc_md5 msg"
proof -
  assume absd: "absorbed ctx msg"
  obtain lo hi where bits: "md_bits ctx = (lo, hi)" by fastforce
  define r c where "r = partial msg" and "c = length msg mod 64"
  have cnt: "bit_count (lo, hi) = 8 * length msg mod 2 ^ 64"
    and len: "length (md_in ctx) = 64" and rin: "take c (md_in ctx) = r"
    and buf: "md_buf ctx = blocks md5_init msg"
    using absd by (simp_all add: absorbed_def bits r_def c_def)
  have c: "unat (drop_bit 3 lo AND 0x3f) = c" "c < 64" "length r = c"
    using count_low(2) [OF cnt] by (simp_all add: c_def r_def length_partial)
  have "take (c + 1) ((md_in ctx)[c := 0x80]) = r @ [0x80]"
    using c len rin by (simp add: take_Suc_conv_app_nth)
  then have p: "take (c + 1) ((md_in ctx)[c := 0x80]) = r @ [0x80]" .
  let ?tail = "mem32 lo @ mem32 hi"
  have pad: "blocks md5_init (pad msg)
      = blocks (md_buf ctx) (r @ [0x80] @ replicate ((119 - c) mod 64) 0 @ ?tail)"
    unfolding pad_def blocks_append [of _ msg] r_def [symmetric] c_def [symmetric] buf
      count_words [OF cnt, symmetric] ..
  show ?thesis
  proof (cases "63 - c < 8")
    case True
    then have k: "(119 - c) mod 64 = (63 - c) + 56" using c by simp
    have "blocks (md_buf ctx) ((r @ [0x80] @ replicate (63 - c) 0) @ (replicate 56 0 @ ?tail))
        = compress (compress (md_buf ctx) (r @ [0x80] @ replicate (63 - c) 0)) (replicate 56 0 @ ?tail)"
      using c by (intro blocks_two) simp_all
    then have "blocks md5_init (pad msg)
        = compress (compress (md_buf ctx) (r @ [0x80] @ replicate (63 - c) 0)) (replicate 56 0 @ ?tail)"
      unfolding pad k replicate_add append_assoc .
    then show ?thesis
      using True p by (simp add: MD5Final_def rfc_md5_def bits c Let_def md5_block_def compress_def)
  next
    case False
    then have k: "(119 - c) mod 64 = 55 - c" using c by (simp add: le_mod_geq)
    have "blocks (md_buf ctx) (r @ [0x80] @ replicate (55 - c) 0 @ ?tail)
        = compress (md_buf ctx) (r @ [0x80] @ replicate (55 - c) 0 @ ?tail)"
      using c False by (intro blocks_one) simp
    then show ?thesis
      using False p c by (simp add: MD5Final_def rfc_md5_def bits Let_def md5_block_def compress_def pad k)
  qed
qed

text \<open>
  C27: the digest of the bank protocol is that of RFC 1321: whatever the uninitialised context holds, on
  the first len bytes of a memory that has that many, MD5Make returns the sixteen bytes of the
  RFC's algorithm (padding, 64-bit length, blocks, the loop of 64 steps).  No byte behind len
  matters.
\<close>

theorem MD5Make_rfc:
  assumes "length (md_in ctx) = 64" and "unat len \<le> length buf"
  shows "MD5Make ctx buf len = Inr (rfc_md5 (take (unat len) buf))"
  using absorbed_Update [OF absorbed_Init [OF assms(1)] assms(2)] MD5Final_absorbed
  by (auto simp: MD5Make_def)

theorem MD5Make_rfc_witness:
  "MD5Make \<lparr>md_buf = (0, 0, 0, 0), md_bits = (7, 7), md_in = replicate 64 9\<rparr> [97, 98, 99, 100] 3
     = Inr (rfc_md5 (take (unat (3 :: 32 word)) [97, 98, 99, 100]))"
  by (rule MD5Make_rfc) simp_all

text \<open>
  Updates compose: absorbing a message in two calls of MD5Update and finishing gives the
  digest of the concatenation, wherever the cut falls on the 64-byte buffer.
\<close>

theorem MD5Update_pieces:
  assumes "length (md_in ctx) = 64" and "length xs < 2 ^ 32" and "length ys < 2 ^ 32"
  shows "bind_res (MD5Update (MD5Init ctx) xs (of_nat (length xs)))
           (\<lambda>c. bind_res (MD5Update c ys (of_nat (length ys))) (\<lambda>c. Inr (MD5Final c)))
         = Inr (rfc_md5 (xs @ ys))"
proof -
  have u: "unat (of_nat n :: u32) = n" if "n < 2 ^ 32" for n using that by (simp add: unat_of_nat)
  obtain c1 where c1: "MD5Update (MD5Init ctx) xs (of_nat (length xs)) = Inr c1" "absorbed c1 xs"
    using absorbed_Update [OF absorbed_Init [OF assms(1)], of "of_nat (length xs)" xs] u [OF assms(2)]
    by auto
  obtain c2 where "MD5Update c1 ys (of_nat (length ys)) = Inr c2" "absorbed c2 (xs @ ys)"
    using absorbed_Update [OF c1(2), of "of_nat (length ys)" ys] u [OF assms(3)] by auto
  then show ?thesis using c1 by (simp add: MD5Final_absorbed)
qed

theorem MD5Update_pieces_witness:
  "bind_res (MD5Update (MD5Init \<lparr>md_buf = (0, 0, 0, 0), md_bits = (7, 7), md_in = replicate 64 9\<rparr>)
       (replicate 70 65) (of_nat (length (replicate 70 (65 :: byte)))))
     (\<lambda>c. bind_res (MD5Update c [1, 2] (of_nat (length [1, 2 :: byte]))) (\<lambda>c. Inr (MD5Final c)))
   = Inr (rfc_md5 (replicate 70 65 @ [1, 2]))"
  by (rule MD5Update_pieces) simp_all

end
