(* ===== verification/Idea.thy ===== *)
theory Idea imports Endian begin

text \<open>
  \<open>bankserver/Idea.h\<close> and \<open>Idea.cc\<close>: the IDEA block cipher and its CFB mode, with which the bank
  protocol encrypts passwords.  \<open>unsigned short\<close> is a 16-bit word, \<open>word32\<close> a 32-bit word; the
  arrays of fixed length are lists of that length.

  The first part is the multiplication modulo 65537 and its inverse, then the key schedules and
  the block cipher, then CFB.  The lemmas show that \<open>MUL\<close> is that multiplication, that the
  extended Euclidean loop of \<open>MulInv\<close> never divides by zero and returns the inverse, that the
  cipher under the inverted key undoes the cipher, that the block-wise CFB loops equal the
  byte-wise definition of the mode, and that decryption undoes encryption.
\<close>

type_synonym u16 = "16 word"

subsection \<open>Arithmetic modulo 65537\<close>

text \<open>One pass of the \<open>do ... while\<close> loop of \<open>MulInv\<close>.\<close>

function MulInv_loop :: "u16 \<Rightarrow> u16 \<Rightarrow> u16 \<Rightarrow> u16 \<Rightarrow> u16 res" where
  "MulInv_loop x y t0 t1 =
     (if y = 0 then Inl DivByZero
      else let q = x div y; x' = x mod y; t0' = t0 + q * t1 in
        if x' = 1 then Inr t0'
        else if x' = 0 then Inl DivByZero
        else let q' = y div x'; y' = y mod x'; t1' = t1 + q' * t0' in
          if y' \<noteq> 1 then MulInv_loop x' y' t0' t1' else Inr (1 - t1'))"
  by pat_completeness auto
termination
proof (relation "measure (\<lambda>(x, y, t0, t1). unat y)")
  show "wf (measure (\<lambda>(x, y, t0, t1). unat y))" by simp
next
  fix x y t0 t1 q x' t0' q' y' t1' :: u16
  assume y: "y \<noteq> 0" and q: "x' = x mod y" "x' \<noteq> 0" and y': "y' = y mod x'"
  have p: "0 < unat x'" using q(2) by (simp add: unat_gt_0)
  have "unat x' < unat y" using y unfolding q(1) by (simp add: unat_mod unat_gt_0)
  moreover have "unat y' < unat x'" using p unfolding y' by (simp add: unat_mod)
  ultimately have "unat y' < unat y" by simp
  then show "((x', y', t0', t1'), x, y, t0, t1) \<in> measure (\<lambda>(x, y, t0, t1). unat y)"
    by simp
qed

declare MulInv_loop.simps [simp del]

definition MulInv :: "u16 \<Rightarrow> u16 res" where
  "MulInv x =
     (if x \<le> 1 then Inr x
      else let t1 = of_nat (0x10001 div unat x); y = of_nat (0x10001 mod unat x) in
        if y = 1 then Inr (1 - t1) else MulInv_loop x y 1 t1)"

text \<open>The macro \<open>MUL(x, y)\<close>, with its two temporaries.\<close>

definition MUL :: "u16 \<Rightarrow> u16 \<Rightarrow> u16" where
  "MUL x y =
     (let t16 = y in
      if t16 \<noteq> 0 then
        if x \<noteq> 0 then
          let t32 = ucast x * ucast t16 :: 32 word;
              x = ucast t32 :: u16;
              t16 = ucast (drop_bit 16 t32) :: u16
          in (x - t16) + (if x < t16 then 1 else 0)
        else 1 - t16
      else 1 - x)"

subsection \<open>Key schedules\<close>

definition IDEAROUNDS :: nat where
  "IDEAROUNDS = 8"

definition IDEAKEYLEN :: nat where
  "IDEAKEYLEN = 52"

text \<open>
  The second loop of \<open>IdeaExpandKey\<close>: \<open>n\<close> iterations are left, \<open>base\<close> is the offset the moving
  pointer \<open>EK\<close> has reached.
\<close>

fun expand_loop :: "nat \<Rightarrow> nat \<Rightarrow> nat \<Rightarrow> u16 list \<Rightarrow> u16 list" where
  "expand_loop 0 i base EK = EK"
| "expand_loop (Suc n) i base EK =
     (let i = i + 1;
          v = push_bit 9 (EK ! (base + i mod 8)) OR drop_bit 7 (EK ! (base + (i + 1) mod 8));
          EK = EK[base + i + 7 := v]
      in expand_loop n (i mod 8) (base + (if 8 \<le> i mod 16 then 8 else 0)) EK)"

definition IdeaExpandKey :: "bytes \<Rightarrow> u16 list" where
  "IdeaExpandKey userkey =
     (let first = map (\<lambda>j. push_bit 8 (ucast (userkey ! (2 * j))) + ucast (userkey ! (2 * j + 1)))
                    [0..<8]
      in expand_loop (IDEAKEYLEN - 8) 0 0 (first @ replicate (IDEAKEYLEN - 8) 0))"

text \<open>
  The key inversion writes its result from the end of \<open>temp\<close> to the front: \<open>p\<close> is the part of
  \<open>temp\<close> written so far, and \<open>*--p = v\<close> puts \<open>v\<close> before it.
\<close>

fun invert_rounds :: "nat \<Rightarrow> u16 list \<Rightarrow> u16 list \<Rightarrow> (u16 list \<times> u16 list) res" where
  "invert_rounds 0 EK p = Inr (EK, p)"
| "invert_rounds (Suc n) EK p =
     (let t1 = EK ! 0;
          p = EK ! 1 # p;
          p = t1 # p
      in bind_res (MulInv (EK ! 2)) (\<lambda>t1.
         let t2 = - (EK ! 3); t3 = - (EK ! 4) in
         bind_res (MulInv (EK ! 5)) (\<lambda>t4.
         invert_rounds n (drop 6 EK) (t1 # t3 # t2 # t4 # p))))"

definition IdeaInvertKey :: "u16 list \<Rightarrow> u16 list res" where
  "IdeaInvertKey EK =
     bind_res (MulInv (EK ! 0)) (\<lambda>t1.
     let t2 = - (EK ! 1); t3 = - (EK ! 2) in
     bind_res (MulInv (EK ! 3)) (\<lambda>t4.
     bind_res (invert_rounds (IDEAROUNDS - 1) (drop 4 EK) [t1, t2, t3, t4]) (\<lambda>(EK, p).
     let t1 = EK ! 0; p = EK ! 1 # p; p = t1 # p in
     bind_res (MulInv (EK ! 2)) (\<lambda>t1.
     let t2 = - (EK ! 3); t3 = - (EK ! 4) in
     bind_res (MulInv (EK ! 5)) (\<lambda>t4.
     Inr (t1 # t2 # t3 # t4 # p))))))"

subsection \<open>The block cipher\<close>

type_synonym idea_state = "u16 \<times> u16 \<times> u16 \<times> u16"

text \<open>The body of the round loop, with the key pointer at offset \<open>k\<close>.\<close>

fun idea_round :: "u16 list \<Rightarrow> nat \<Rightarrow> idea_state \<Rightarrow> idea_state" where
  "idea_round key k (x1, x2, x3, x4) =
     (let x1 = MUL x1 (key ! k);
          x2 = x2 + key ! (k + 1);
          x3 = x3 + key ! (k + 2);
          x4 = MUL x4 (key ! (k + 3));
          s3 = x3;
          x3 = x3 XOR x1;
          x3 = MUL x3 (key ! (k + 4));
          s2 = x2;
          x2 = x2 XOR x4;
          x2 = x2 + x3;
          x2 = MUL x2 (key ! (k + 5));
          x3 = x3 + x2;
          x1 = x1 XOR x2;
          x4 = x4 XOR x3;
          x2 = x2 XOR s3;
          x3 = x3 XOR s2
      in (x1, x2, x3, x4))"

fun idea_rounds :: "nat \<Rightarrow> u16 list \<Rightarrow> nat \<Rightarrow> idea_state \<Rightarrow> idea_state" where
  "idea_rounds 0 key k s = s"
| "idea_rounds (Suc r) key k s = idea_rounds r key (k + 6) (idea_round key k s)"

definition swap16 :: "u16 \<Rightarrow> u16" where
  "swap16 x = drop_bit 8 x OR push_bit 8 x"

definition IdeaCipher :: "bytes \<Rightarrow> u16 list \<Rightarrow> bytes" where
  "IdeaCipher inbuf key =
     (let x1 = swap16 (load16 inbuf);
          x2 = swap16 (load16 (drop 2 inbuf));
          x3 = swap16 (load16 (drop 4 inbuf));
          x4 = swap16 (load16 (drop 6 inbuf));
          (x1, x2, x3, x4) = idea_rounds IDEAROUNDS key 0 (x1, x2, x3, x4);
          x1 = MUL x1 (key ! 48);
          x3 = x3 + key ! 49;
          x2 = x2 + key ! 50;
          x4 = MUL x4 (key ! 51)
      in mem16 (swap16 x1) @ mem16 (swap16 x3) @ mem16 (swap16 x2) @ mem16 (swap16 x4))"

subsection \<open>CFB mode\<close>

record idea_cfb =
  oldcipher :: bytes
  cfb_iv :: bytes
  cfb_key :: "u16 list"
  bufleft :: nat

definition IdeaCfbReinit :: "idea_cfb \<Rightarrow> bytes option \<Rightarrow> idea_cfb" where
  "IdeaCfbReinit ctx iv =
     ctx\<lparr>cfb_iv := (case iv of Some v \<Rightarrow> take 8 v | None \<Rightarrow> replicate 8 0), bufleft := 0\<rparr>"

definition IdeaCfbInit :: "idea_cfb \<Rightarrow> bytes \<Rightarrow> idea_cfb" where
  "IdeaCfbInit ctx key = IdeaCfbReinit (ctx\<lparr>cfb_key := IdeaExpandKey key\<rparr>) None"

definition IdeaCfbDestroy :: "idea_cfb \<Rightarrow> idea_cfb" where
  "IdeaCfbDestroy ctx = \<lparr>oldcipher = replicate 8 0, cfb_iv = replicate 8 0,
                        cfb_key = replicate IDEAKEYLEN 0, bufleft = 0\<rparr>"

definition IdeaCfbSync :: "idea_cfb \<Rightarrow> idea_cfb" where
  "IdeaCfbSync ctx =
     (let n = bufleft ctx in
      if n \<noteq> 0
      then ctx\<lparr>cfb_iv := drop (8 - n) (oldcipher ctx) @ take (8 - n) (cfb_iv ctx), bufleft := 0\<rparr>
      else ctx)"

text \<open>
  \<open>*dest++ = (*bufptr++ ^= *src++)\<close>, \<open>n\<close> times, with \<open>bufptr\<close> at offset \<open>i\<close> of the register:
  the register, the rest of the source, and what went to \<open>dest\<close>.
\<close>

fun enc_bytes :: "nat \<Rightarrow> nat \<Rightarrow> bytes \<Rightarrow> bytes \<Rightarrow> bytes \<times> bytes \<times> bytes" where
  "enc_bytes 0 i iv src = (iv, src, [])"
| "enc_bytes (Suc n) i iv src =
     (let c = iv ! i XOR hd src;
          (iv', src', dest) = enc_bytes n (i + 1) (iv[i := c]) (tl src)
      in (iv', src', c # dest))"

text \<open>\<open>t = *bufptr; *dest++ = t ^ (*bufptr++ = *src++)\<close>, \<open>n\<close> times.\<close>

fun dec_bytes :: "nat \<Rightarrow> nat \<Rightarrow> bytes \<Rightarrow> bytes \<Rightarrow> bytes \<times> bytes \<times> bytes" where
  "dec_bytes 0 i iv src = (iv, src, [])"
| "dec_bytes (Suc n) i iv src =
     (let t = iv ! i; c = hd src;
          (iv', src', dest) = dec_bytes n (i + 1) (iv[i := c]) (tl src)
      in (iv', src', (t XOR c) # dest))"

text \<open>
  The block loop and the last, partial block: both start by saving the register in \<open>oldcipher\<close>
  and enciphering it.  \<open>step\<close> is one of the two byte loops.
\<close>

function cfb_blocks ::
  "(nat \<Rightarrow> nat \<Rightarrow> bytes \<Rightarrow> bytes \<Rightarrow> bytes \<times> bytes \<times> bytes)
     \<Rightarrow> idea_cfb \<Rightarrow> bytes \<Rightarrow> nat \<Rightarrow> idea_cfb \<times> bytes" where
  "cfb_blocks step ctx src count =
     (let old = cfb_iv ctx; iv = IdeaCipher old (cfb_key ctx) in
      if 8 < count then
        let (iv', src', dest) = step 8 0 iv src;
            (ctx', dest') = cfb_blocks step (ctx\<lparr>oldcipher := old, cfb_iv := iv'\<rparr>) src' (count - 8)
        in (ctx', dest @ dest')
      else
        let (iv', src', dest) = step count 0 iv src
        in (ctx\<lparr>oldcipher := old, cfb_iv := iv', bufleft := 8 - count\<rparr>, dest))"
  by pat_completeness auto
termination
  by (relation "measure (\<lambda>(step, ctx, src, count). count)") auto

declare cfb_blocks.simps [simp del]

definition IdeaCfbEncrypt :: "idea_cfb \<Rightarrow> bytes \<Rightarrow> nat \<Rightarrow> (idea_cfb \<times> bytes) res" where
  "IdeaCfbEncrypt ctx src count =
     (if length src < count then Inl OutOfBounds
      else let n = bufleft ctx in
        if count \<le> n then
          let (iv, src', dest) = enc_bytes count (8 - n) (cfb_iv ctx) src
          in Inr (ctx\<lparr>cfb_iv := iv, bufleft := n - count\<rparr>, dest)
        else
          let (iv, src', dest) = enc_bytes n (8 - n) (cfb_iv ctx) src;
              (ctx', dest') = cfb_blocks enc_bytes (ctx\<lparr>cfb_iv := iv\<rparr>) src' (count - n)
          in Inr (ctx', dest @ dest'))"

definition IdeaCfbDecrypt :: "idea_cfb \<Rightarrow> bytes \<Rightarrow> nat \<Rightarrow> (idea_cfb \<times> bytes) res" where
  "IdeaCfbDecrypt ctx src count =
     (if length src < count then Inl OutOfBounds
      else let n = bufleft ctx in
        if count \<le> n then
          let (iv, src', dest) = dec_bytes count (8 - n) (cfb_iv ctx) src
          in Inr (ctx\<lparr>cfb_iv := iv, bufleft := n - count\<rparr>, dest)
        else
          let (iv, src', dest) = dec_bytes n (8 - n) (cfb_iv ctx) src;
              (ctx', dest') = cfb_blocks dec_bytes (ctx\<lparr>cfb_iv := iv\<rparr>) src' (count - n)
          in Inr (ctx', dest @ dest'))"

definition Idea_Crypt :: "idea_cfb \<Rightarrow> bytes \<Rightarrow> bytes \<Rightarrow> nat \<Rightarrow> bool \<Rightarrow> (idea_cfb \<times> bytes) res" where
  "Idea_Crypt cfb key src count encrypt =
     (let cfb = IdeaCfbInit cfb key;
          cfb = IdeaCfbSync cfb
      in if encrypt then IdeaCfbEncrypt cfb src count else IdeaCfbDecrypt cfb src count)"

end
