(* ===== verification/IdeaArith.thy ===== *)
theory IdeaArith imports Idea begin

text \<open>
  The arithmetic of IDEA: a 16-bit word stands for a residue of the prime 65537, zero for 65536
  (\<open>mval\<close>).  \<open>MUL_mval\<close> shows that the macro \<open>MUL\<close> multiplies these residues, \<open>MulInv_mval\<close> that
  \<open>MulInv\<close> returns the inverse and never divides by zero; its loop keeps \<open>euclid_inv\<close>.
\<close>


definition mval :: "u16 \<Rightarrow> nat" where
  "mval x = (if x = 0 then 65536 else unat x)"

lemma u16_less: "unat (x :: u16) < 65536"
  using unsigned_less [of x, where ?'a = nat] by simp

lemma mval_bounds: "0 < mval x" "mval x < 65537"
  using u16_less [of x] by (auto simp: mval_def unat_gt_0)

lemma mval_inject: "mval x = mval y \<longleftrightarrow> x = y"
    using u16_less [of x] u16_less [of y] by (auto simp: mval_def word_unat_eq_iff)

lemma mval_of_nat: "0 < n \<Longrightarrow> n < 65537 \<Longrightarrow> mval (of_nat n) = n"
proof -
  assume n: "0 < n" "n < 65537"
  have u: "unat (of_nat n :: u16) = n mod 65536" by (simp add: unat_of_nat)
  show ?thesis
  proof (cases "n = 65536")
    case True
    then have "unat (of_nat n :: u16) = 0" using u by simp
    then have "(of_nat n :: u16) = 0" by (simp add: unat_eq_zero)
    then show ?thesis using True by (simp add: mval_def)
  next
    case False
    then have "unat (of_nat n :: u16) = n" using n u by simp
    moreover from this have "(of_nat n :: u16) \<noteq> 0" using n by auto
    ultimately show ?thesis by (simp add: mval_def)
  qed
qed

lemma no_small_divisor: "list_all (\<lambda>d. 65537 mod d \<noteq> 0) [2..256::int]"
  by code_simp

lemma divisor_65537:
  assumes "d dvd (65537::nat)" shows "d = 1 \<or> d = 65537"
proof -
  obtain e where e: "65537 = d * e" using assms by (rule dvdE)
  have small: "k = 1" if "k dvd (65537::nat)" "k < 257" for k
  proof (rule ccontr)
    assume "k \<noteq> 1"
    moreover have "0 < k" using that(1) by (cases k) simp_all
    ultimately have "int k \<in> set [2..256]" using that(2) by (simp only: set_upto) simp
    then have "65537 mod int k \<noteq> 0"
      by (rule bspec [OF no_small_divisor [unfolded list_all_iff]])
    moreover have "int k dvd int 65537" using that(1) by (simp only: int_dvd_int_iff)
    then have "65537 mod int k = 0" by (simp add: dvd_eq_mod_eq_0)
    ultimately show False by simp
  qed
  have "d < 257 \<or> e < 257"
  proof (rule ccontr)
    assume "\<not> (d < 257 \<or> e < 257)"
    then have "257 * 257 \<le> d * e" by (intro mult_le_mono) simp_all
    then show False using e by simp
  qed
  moreover have "e dvd 65537" using e by (metis dvd_triv_right)
  ultimately have "d = 1 \<or> e = 1" using small assms by blast
  then show ?thesis using e by (metis mult_1 mult_1_right)
qed

lemma coprime_65537: "0 < a \<Longrightarrow> a < 65537 \<Longrightarrow> coprime a (65537::nat)"
proof -
  assume a: "0 < a" "a < 65537"
  have "gcd a 65537 = 1 \<or> gcd a 65537 = 65537" by (rule divisor_65537) simp
  moreover have "gcd a 65537 \<noteq> 65537" using a by (metis gcd_le1_nat leD neq0_conv)
  ultimately show ?thesis by (simp add: coprime_iff_gcd_eq_1)
qed

lemma prod_not_zero_mod:
  assumes "0 < a" "a < 65537" "0 < b" "b < (65537::nat)"
  shows "(a * b) mod 65537 \<noteq> 0"
proof
  assume "(a * b) mod 65537 = 0"
  then have "65537 dvd a * b" by (simp add: dvd_eq_mod_eq_0)
  then have "65537 dvd b"
    using coprime_65537 [OF assms(1,2)] by (simp add: coprime_dvd_mult_right_iff coprime_commute)
  then show False using assms(3,4) by (auto dest: dvd_imp_le)
qed

text \<open>The low-high reduction.\<close>

lemma low_high:
  assumes "0 < a" "a < 65536" "0 < b" "b < (65536::nat)"
  defines "l \<equiv> (a * b) mod 65536" and "h \<equiv> (a * b) div 65536"
  shows "(a * b) mod 65537 = (if l < h then l + 65537 - h else l - h)"
    and "l \<noteq> h"
proof -
  have p: "a * b = h * 65536 + l" by (simp add: l_def h_def)
  have nz: "(a * b) mod 65537 \<noteq> 0" using assms(1-4) by (intro prod_not_zero_mod) simp_all
  have "a * b < 65536 * 65536" using assms(1-4) by (intro mult_strict_mono) simp_all
  then have h: "h < 65536" by (simp add: h_def less_mult_imp_div_less)
  have l: "l < 65536" by (simp add: l_def)
  show "l \<noteq> h"
  proof
    assume "l = h"
    then have "a * b = 65537 * h" using p by simp
    then show False using nz by simp
  qed
  show "(a * b) mod 65537 = (if l < h then l + 65537 - h else l - h)"
  proof (cases "l < h")
    case True
    then have "a * b = (l + 65537 - h) + (h - 1) * 65537" using p h by (simp add: algebra_simps)
    then have "(a * b) mod 65537 = (l + 65537 - h) mod 65537" by (metis mod_mult_self2 mult.commute)
    then show ?thesis using True h by simp
  next
    case False
    then have "a * b = (l - h) + h * 65537" using p by simp
    then have "(a * b) mod 65537 = (l - h) mod 65537" by (metis mod_mult_self2 mult.commute)
    then show ?thesis using False l by simp
  qed
qed

lemma one_minus_word: "(1 - x :: u16) = of_nat (65537 - mval x)"
proof -
  have "(of_nat (65537 - mval x) :: u16) = of_nat 65537 - of_nat (mval x)"
    using mval_bounds(2) [of x] by (intro of_nat_diff) simp
  also have "of_nat 65537 = (1 :: u16)" by (simp add: of_nat_numeral) 
  also have "of_nat (mval x) = x" by (simp add: mval_def)
  finally show ?thesis by simp
qed

lemma mval_one_minus: "mval (1 - x) = 65537 - mval x"
  using mval_bounds [of x] unfolding one_minus_word by (intro mval_of_nat) simp_all

lemma minus_one_mod:
  assumes "0 < a" "a < (65537::nat)" shows "(65536 * a) mod 65537 = 65537 - a"
proof -
  have "65536 * a = (65537 - a) + (a - 1) * 65537" using assms by (simp add: algebra_simps)
  then have "(65536 * a) mod 65537 = (65537 - a) mod 65537" by (metis mod_mult_self2 mult.commute)
  then show ?thesis using assms by simp
qed

lemma MUL_mval: "mval (MUL x y) = (mval x * mval y) mod 65537"
proof (cases "x = 0 \<or> y = 0")
  case True
  then consider "x = 0" | "x \<noteq> 0" "y = 0" by blast
  then show ?thesis
  proof cases
    case 1
    have "MUL x y = 1 - y" using 1 by (simp add: MUL_def Let_def)
    then show ?thesis using 1 mval_bounds [of y] 
      by (simp add: mval_one_minus minus_one_mod mval_def [of 0])
  next
    case 2
    have "MUL x y = 1 - x" using 2 by (simp add: MUL_def Let_def)
    then show ?thesis using 2 mval_bounds [of x] 
      by (simp add: mval_one_minus minus_one_mod mult.commute [of _ 65536] mval_def [of 0])
  qed
next
  case False
  define a b where "a = unat x" and "b = unat y"
  define l h where "l = (a * b) mod 65536" and "h = (a * b) div 65536"
  have ab: "0 < a" "a < 65536" "0 < b" "b < 65536"
    using False u16_less [of x] u16_less [of y] by (auto simp: a_def b_def unat_gt_0)
  have mv: "mval x = a" "mval y = b" using False by (simp_all add: mval_def a_def b_def)
  have lt: "a * b < 65536 * 65536" using ab by (intro mult_strict_mono) simp_all
  have t32: "(ucast x * ucast y :: 32 word) = of_nat (a * b)"
    by (simp add: a_def b_def)
  have low: "(of_nat n :: u16) = of_nat (n mod 65536)" for n
    by (rule word_unat_eq_iff [THEN iffD2]) (simp add: unat_of_nat)
  have cast: "(ucast w :: u16) = of_nat (unat w)" for w :: "32 word"
    by (simp only: of_nat_unat)
  have u: "unat (of_nat (a * b) :: 32 word) = a * b" using lt
    by (simp add: unat_of_nat del: of_nat_mult)
  have lo: "(ucast (of_nat (a * b) :: 32 word) :: u16) = of_nat l"
    unfolding cast u l_def by (rule low)
  have hi: "(ucast (drop_bit 16 (of_nat (a * b) :: 32 word)) :: u16) = of_nat h"
  proof -
    have "unat (drop_bit 16 (of_nat (a * b) :: 32 word)) = h"
      by (simp only: unat_drop_bit_eq u) (simp add: h_def drop_bit_eq_div)
    then show ?thesis unfolding cast by (rule arg_cong)
  qed
  have MUL: "MUL x y = of_nat (if l < h then l + 65537 - h else l - h)"
  proof -
    have lh: "l < 65536" "h < 65536" using lt by (simp_all add: l_def h_def less_mult_imp_div_less)
    have less: "(of_nat l :: u16) < of_nat h \<longleftrightarrow> l < h"
      using lh by (simp add: word_less_nat_alt unat_of_nat)
    have one: "(of_nat 65537 :: u16) = 1" by simp
    have "MUL x y = (of_nat l - of_nat h) + (if (of_nat l :: u16) < of_nat h then 1 else 0)"
      using False unfolding MUL_def by (simp only: Let_def t32 lo hi if_True if_False not_False_eq_True de_Morgan_disj)
    also have "\<dots> = of_nat (if l < h then l + 65537 - h else l - h)"
    proof (cases "l < h")
      case True
      then have "(of_nat (l + 65537 - h) :: u16) = of_nat (l + 65537) - of_nat h"
        using lh by (intro of_nat_diff) simp
      then show ?thesis using True one less by (simp del: of_nat_numeral)
    next
      case False
      then show ?thesis using less by (simp add: of_nat_diff)
    qed
    finally show ?thesis .
  qed
  have "(a * b) mod 65537 = (if l < h then l + 65537 - h else l - h)" "l \<noteq> h"
    using low_high [OF ab] by (simp_all add: l_def h_def)
  moreover have "(a * b) mod 65537 < 65537" by simp
  moreover have "0 < (a * b) mod 65537" using prod_not_zero_mod [of a b] ab by simp
  ultimately show ?thesis unfolding MUL mv by (simp only: mval_of_nat)
qed

text \<open>The invariant of the extended Euclidean loop, over natural numbers.\<close>

definition euclid_inv :: "nat \<Rightarrow> nat \<Rightarrow> nat \<Rightarrow> nat \<Rightarrow> nat \<Rightarrow> bool" where
  "euclid_inv a x y t0 t1 \<longleftrightarrow>
     1 < x \<and> 1 < y \<and> coprime x y \<and> x * t1 + y * t0 = 65537 \<and>
     (65537 :: int) dvd int t0 * int a - int x \<and> (65537 :: int) dvd int t1 * int a + int y"

lemma unat_gt_1:
  assumes "0 < unat w" and "w \<noteq> (1 :: u16)" shows "1 < unat w"
proof -
  have "unat w \<noteq> unat (1 :: u16)" using assms(2) by (simp only: word_unat_eq_iff not_False_eq_True)
  then show ?thesis using assms(1) by simp
qed

lemma half_le: "2 * a \<le> 65537 \<Longrightarrow> a \<le> (32768 :: nat)"
  by simp

lemma euclid_half:
  assumes "x * t1 + y * t0 = (65537 :: nat)"
  shows "x mod y * t1 + y * (t0 + x div y * t1) = 65537"
proof -
  have "x mod y * t1 + y * (t0 + x div y * t1) = (x mod y + y * (x div y)) * t1 + y * t0"
    by (simp only: distrib_left distrib_right mult.assoc add.assoc add.left_commute mult.commute mult.left_commute)
  then show ?thesis using assms by (simp only: mod_mult_div_eq)
qed

lemma euclid_dvd:
  assumes "(65537 :: int) dvd int t0 * a - int x" and "(65537 :: int) dvd int t1 * a + int y"
  shows "(65537 :: int) dvd int (t0 + x div y * t1) * a - int (x mod y)"
proof -
  have "int x = int (x div y) * int y + int (x mod y)"
    by (metis div_mult_mod_eq of_nat_add of_nat_mult)
  then have "int (t0 + x div y * t1) * a - int (x mod y)
      = (int t0 * a - int x) + int (x div y) * (int t1 * a + int y)"
    by (simp add: algebra_simps)
  then show ?thesis using assms by simp
qed

lemma euclid_dvd':
  assumes "(65537 :: int) dvd int t0 * a - int x" and "(65537 :: int) dvd int t1 * a + int y"
  shows "(65537 :: int) dvd int (t1 + y div x * t0) * a + int (y mod x)"
proof -
  have "int y = int (y div x) * int x + int (y mod x)"
    by (metis div_mult_mod_eq of_nat_add of_nat_mult)
  then have "int (t1 + y div x * t0) * a + int (y mod x)
      = (int t1 * a + int y) + int (y div x) * (int t0 * a - int x)"
    by (simp add: algebra_simps)
  then show ?thesis using assms by simp
qed

lemma coprime_mod_pos:
  assumes "coprime x y" and "1 < (y :: nat)" shows "0 < x mod y"
proof (rule ccontr)
  assume "\<not> 0 < x mod y"
  then have "y dvd x" by (simp add: dvd_eq_mod_eq_0)
  then have "y dvd 1" using assms(1) by (metis coprime_common_divisor dvd_refl is_unit_gcd)
  then show False using assms(2) by simp
qed

lemma unat_add_mult:
  assumes "unat t + unat q * unat s < 65536"
  shows "unat (t + q * s :: u16) = unat t + unat q * unat s"
proof -
  have "t + q * s = of_nat (unat t + unat q * unat s)" by simp
  then show ?thesis using assms by (simp add: unat_of_nat del: of_nat_add of_nat_mult)
qed

lemma mval_inverse:
  assumes "(65537 :: int) dvd int b * int a - 1" and "0 < b" "b < 65537"
  shows "mval (of_nat b) * a mod 65537 = 1"
proof -
  have "(int b * int a) mod 65537 = 1 mod 65537" using assms(1) by (simp only: mod_eq_dvd_iff)
  then have "int (b * a mod 65537) = int 1" by (simp add: zmod_int)
  then have "b * a mod 65537 = 1" by (simp only: of_nat_eq_iff)
  then show ?thesis using mval_of_nat assms(2,3) by simp
qed

lemma MulInv_loop_correct:
  assumes "euclid_inv a (unat x) (unat y) (unat t0) (unat t1)"
  shows "\<exists>z. MulInv_loop x y t0 t1 = Inr z \<and> mval z * a mod 65537 = 1"
  using assms
proof (induction x y t0 t1 rule: MulInv_loop.induct)
  case (1 x y t0 t1)
  define q x' t0' where d1: "q = x div y" "x' = x mod y" "t0' = t0 + q * t1"
  define q' y' t1' where d2: "q' = y div x'" "y' = y mod x'" "t1' = t1 + q' * t0'"
  note inv = 1(2) [unfolded euclid_inv_def]
  have y0: "y \<noteq> 0" using inv by auto
  have ux: "unat x' = unat x mod unat y" "unat q = unat x div unat y"
    by (simp_all add: d1 unat_mod unat_div)
  have e1: "unat x' * unat t1 + unat y * (unat t0 + unat q * unat t1) = 65537"
    unfolding ux using inv by (intro euclid_half) simp
  then have "unat y * (unat t0 + unat q * unat t1) \<le> 65537" by linarith
  moreover have "2 * (unat t0 + unat q * unat t1) \<le> unat y * (unat t0 + unat q * unat t1)"
    using inv by (intro mult_le_mono1) simp
  ultimately have "2 * (unat t0 + unat q * unat t1) \<le> 65537" by (rule le_trans [rotated])
  then have b0: "unat t0 + unat q * unat t1 \<le> 32768" by (rule half_le)
  then have ut0: "unat t0' = unat t0 + unat q * unat t1"
    unfolding d1(3) by (intro unat_add_mult) simp
  have c1: "(65537 :: int) dvd int (unat t0') * int a - int (unat x')"
    unfolding ut0 ux using inv by (intro euclid_dvd) simp_all
  have x'0: "0 < unat x'" unfolding ux using inv by (intro coprime_mod_pos) simp_all
  have loop: "MulInv_loop x y t0 t1 =
      (if x' = 1 then Inr t0' else if y' \<noteq> 1 then MulInv_loop x' y' t0' t1' else Inr (1 - t1'))"
  proof -
    have "x' \<noteq> 0" using x'0 by (simp add: unat_gt_0)
    then show ?thesis using y0 by (subst MulInv_loop.simps) (simp add: Let_def d1 d2)
  qed
  show ?case
  proof (cases "x' = 1")
    case True
    then have "(65537 :: int) dvd int (unat t0') * int a - 1" using c1 by simp
    moreover from this have "0 < unat t0'" by (cases "unat t0' = 0") simp_all
    ultimately have "mval (of_nat (unat t0')) * a mod 65537 = 1"
      using b0 ut0 by (intro mval_inverse) simp_all
    then show ?thesis using True loop by simp
  next
    case False
    then have x'2: "1 < unat x'" using x'0 by (intro unat_gt_1)
    have uy: "unat y' = unat y mod unat x'" "unat q' = unat y div unat x'"
      by (simp_all add: d2 unat_mod unat_div)
    have "unat y * unat t0' + unat x' * unat t1 = 65537" using e1 ut0 by simp
    then have e2: "unat y' * unat t0' + unat x' * (unat t1 + unat q' * unat t0') = 65537"
      unfolding uy by (rule euclid_half)
    then have "unat x' * (unat t1 + unat q' * unat t0') \<le> 65537" by linarith
    moreover have "2 * (unat t1 + unat q' * unat t0') \<le> unat x' * (unat t1 + unat q' * unat t0')"
      using x'2 by (intro mult_le_mono1) simp
    ultimately have "2 * (unat t1 + unat q' * unat t0') \<le> 65537" by (rule le_trans [rotated])
    then have b1: "unat t1 + unat q' * unat t0' \<le> 32768" by (rule half_le)
    then have ut1: "unat t1' = unat t1 + unat q' * unat t0'"
      unfolding d2(3) by (intro unat_add_mult) simp
    have c2: "(65537 :: int) dvd int (unat t1') * int a + int (unat y')"
      unfolding ut1 uy using c1 inv by (intro euclid_dvd') simp_all
    have cop: "coprime (unat x') (unat y)" using inv ux(1) by (simp add: coprime_mod_left_iff)
    then have cop': "coprime (unat y') (unat x')" unfolding uy using x'0
      by (subst coprime_mod_left_iff) (simp_all add: coprime_commute)
    show ?thesis
    proof (cases "y' = 1")
      case True
      have "(65537 :: int) dvd int (65537 - unat t1') * int a - 1"
      proof -
        have "int (65537 - unat t1') * int a - 1 = 65537 * int a - (int (unat t1') * int a + 1)"
          using b1 ut1 by (simp add: of_nat_diff algebra_simps)
        moreover have "(65537 :: int) dvd int (unat t1') * int a + 1" using c2 True by simp
        ultimately show ?thesis by (simp only: dvd_diff dvd_triv_left)
      qed
      moreover have t1pos: "0 < unat t1'"
        using c2 True by (cases "unat t1' = 0") simp_all
      ultimately have "mval (of_nat (65537 - unat t1')) * a mod 65537 = 1"
        using b1 ut1 by (intro mval_inverse) simp_all
      moreover have "1 - t1' = of_nat (65537 - unat t1')"
        using t1pos by (simp add: one_minus_word mval_def unat_gt_0)
      ultimately show ?thesis using True False loop by simp
    next
      case y'1: False
      have "0 < unat y'" unfolding uy using cop x'2
        by (intro coprime_mod_pos) (simp_all add: coprime_commute)
      then have "1 < unat y'" using y'1 by (intro unat_gt_1)
      then have "euclid_inv a (unat x') (unat y') (unat t0') (unat t1')"
        unfolding euclid_inv_def using x'2 cop' c1 c2 e2 ut1 by (simp add: coprime_commute mult.commute add.commute)
      then have "\<exists>z. MulInv_loop x' y' t0' t1' = Inr z \<and> mval z * a mod 65537 = 1"
        using x'0 by (intro 1(1) [OF y0 d1(1) d1(2) d1(3) False _ d2(1) d2(2) d2(3) y'1]) auto
      then show ?thesis using False y'1 loop by simp
    qed
  qed
qed


lemma MulInv_mval: "\<exists>z. MulInv x = Inr z \<and> mval z * mval x mod 65537 = 1"
proof (cases "x \<le> 1")
  case True
  then have "x = 0 \<or> x = 1" by (simp add: word_le_nat_alt word_unat_eq_iff) linarith
  then show ?thesis by (auto simp: MulInv_def mval_def)
next
  case False
  define a where "a = unat x"
  define t y where "t = 65537 div a" and "y = 65537 mod a"
  have a: "1 < a" "a < 65536" "mval x = a"
    using False u16_less [of x] by (auto simp: a_def word_le_nat_alt mval_def)
  have "coprime a 65537" using a by (intro coprime_65537) simp_all
  have ty: "a * t + y = 65537" by (simp add: t_def y_def)
  have "2 * t \<le> a * t" using a by (intro mult_le_mono1) simp
  then have t: "t \<le> 32768" using ty by linarith
  have y: "0 < y" "y < a"
    using a \<open>coprime a 65537\<close> coprime_mod_pos [of 65537 a]
    by (simp_all add: y_def coprime_commute)
  have ut: "unat (of_nat t :: u16) = t" and uy: "unat (of_nat y :: u16) = y"
    using t y a by (simp_all add: unat_of_nat)
  have M: "MulInv x = (if (of_nat y :: u16) = 1 then Inr (1 - of_nat t)
                       else MulInv_loop x (of_nat y) 1 (of_nat t))"
    using False by (simp add: MulInv_def Let_def t_def y_def a_def)
  have d1: "(65537 :: int) dvd int t * int a + int y"
  proof -
    have "int t * int a + int y = 65537" using ty by (metis mult.commute of_nat_add of_nat_mult of_nat_numeral)
    then show ?thesis by simp
  qed
  show ?thesis
  proof (cases "(of_nat y :: u16) = 1")
    case True
    then have y1: "y = 1" using uy by simp
    have "(65537 :: int) dvd int (65537 - t) * int a - 1"
    proof -
      have "int (65537 - t) * int a - 1 = 65537 * int a - (int t * int a + 1)"
        using t by (simp add: of_nat_diff algebra_simps)
      then show ?thesis using d1 y1 by (simp only: of_nat_1 dvd_diff dvd_triv_left)
    qed
    moreover have t0: "0 < t" using ty a y by (cases "t = 0") simp_all
    ultimately have "mval (of_nat (65537 - t)) * a mod 65537 = 1"
      using t by (intro mval_inverse) simp_all
    moreover have "(1 - of_nat t :: u16) = of_nat (65537 - t)"
    proof -
      have "(of_nat t :: u16) \<noteq> 0" using ut t0 by auto
      then show ?thesis using ut by (simp only: one_minus_word mval_def if_False)
    qed
    ultimately show ?thesis using True M a by simp
  next
    case False
    then have "1 < y" using uy y unat_gt_1 by metis
    moreover have "coprime a y" using \<open>coprime a 65537\<close> a
      by (simp add: y_def coprime_mod_right_iff)
    ultimately have "euclid_inv a (unat x) (unat (of_nat y :: u16)) (unat (1 :: u16)) (unat (of_nat t :: u16))"
      unfolding euclid_inv_def ut uy using a ty d1 by (simp add: a_def)
    then show ?thesis using MulInv_loop_correct False M a by metis
  qed
qed

end
