(* ===== verification/IdeaBlock.thy ===== *)
theory IdeaBlock imports IdeaArith begin

text \<open>
  The block cipher and its inverted key: \<open>IdeaInvertKey\<close> always returns a key, and the cipher
  under it undoes the cipher.  A round is a key transformation \<open>key_step\<close> followed by a mixing
  step \<open>mix\<close> that is undone by itself after a swap of the two middle words.
\<close>

subsection \<open>The group of multiplication\<close>

lemma MUL_commute: "MUL x y = MUL y x"
  by (rule mval_inject [THEN iffD1]) (simp only: MUL_mval mult.commute)

lemma MUL_assoc: "MUL (MUL x y) z = MUL x (MUL y z)"
  by (rule mval_inject [THEN iffD1]) (simp only: MUL_mval mod_mult_left_eq mod_mult_right_eq mult.assoc)

lemma mval_1: "mval 1 = 1"
  by (simp add: mval_def)

lemma MUL_1 [simp]: "MUL x 1 = x"
  using mval_bounds [of x] by (intro mval_inject [THEN iffD1]) (simp add: MUL_mval mval_1)

definition minv :: "u16 \<Rightarrow> u16" where
  "minv x = projr (MulInv x)"

lemma MulInv_minv: "MulInv x = Inr (minv x)"
  using MulInv_mval [of x] by (auto simp: minv_def)

lemma MUL_minv [simp]: "MUL (minv x) x = 1" "MUL x (minv x) = 1"
proof -
  show "MUL (minv x) x = 1"
    using MulInv_mval [of x]
    by (intro mval_inject [THEN iffD1]) (auto simp: MUL_mval minv_def mval_1)
  then show "MUL x (minv x) = 1" by (simp add: MUL_commute)
qed

lemma MUL_cancel [simp]: "MUL (MUL a k) (minv k) = a" "MUL (MUL a (minv k)) k = a"
  by (simp_all add: MUL_assoc)

subsection \<open>Rounds\<close>

fun key_step :: "u16 list \<Rightarrow> nat \<Rightarrow> idea_state \<Rightarrow> idea_state" where
  "key_step key k (x1, x2, x3, x4) =
     (MUL x1 (key ! k), x2 + key ! (k + 1), x3 + key ! (k + 2), MUL x4 (key ! (k + 3)))"

fun swap_mid :: "idea_state \<Rightarrow> idea_state" where
  "swap_mid (x1, x2, x3, x4) = (x1, x3, x2, x4)"

fun mix :: "u16 \<Rightarrow> u16 \<Rightarrow> idea_state \<Rightarrow> idea_state" where
  "mix k5 k6 (x1, x2, x3, x4) =
     (let p = MUL (x3 XOR x1) k5;
          q = MUL ((x2 XOR x4) + p) k6;
          r = p + q
      in (x1 XOR q, x2 XOR r, x3 XOR q, x4 XOR r))"

lemma xor_cancel16: "(x XOR q) XOR (y XOR q) = x XOR (y :: u16)"
  by (rule bit_word_eqI) (auto simp: bit_simps)

lemma xor_twice16: "(x XOR q) XOR q = (x :: u16)"
  by (simp add: xor.assoc)

lemma mix_mix: "mix a b (mix a b s) = s"
  by (cases s) (simp add: Let_def xor_cancel16 xor_twice16)

lemma swap_swap [simp]: "swap_mid (swap_mid s) = s"
  by (cases s) simp

lemma idea_round_mix:
  "idea_round key k s = swap_mid (mix (key ! (k + 4)) (key ! (k + 5)) (key_step key k s))"
  by (cases s) (simp add: Let_def xor.commute add.commute)

lemma idea_rounds_snoc:
  "idea_rounds (Suc r) key k s = idea_round key (k + 6 * r) (idea_rounds r key k s)"
proof (induction r arbitrary: k s)
  case 0
  then show ?case by simp
next
  case (Suc r)
  have "idea_rounds (Suc (Suc r)) key k s = idea_rounds (Suc r) key (k + 6) (idea_round key k s)"
    by (simp only: idea_rounds.simps)
  also have "\<dots> = idea_round key (k + 6 + 6 * r) (idea_rounds r key (k + 6) (idea_round key k s))"
    by (rule Suc.IH)
  also have "k + 6 + 6 * r = k + 6 * Suc r" by simp
  finally show ?case by (simp only: idea_rounds.simps)
qed

text \<open>What the inverted schedule has to satisfy.\<close>

definition inverts :: "u16 list \<Rightarrow> nat \<Rightarrow> u16 list \<Rightarrow> nat \<Rightarrow> bool" where
  "inverts dk j ek k \<longleftrightarrow> dk ! j = minv (ek ! k) \<and> dk ! (j + 1) = - (ek ! (k + 1)) \<and>
     dk ! (j + 2) = - (ek ! (k + 2)) \<and> dk ! (j + 3) = minv (ek ! (k + 3))"

definition inverts_swapped :: "u16 list \<Rightarrow> nat \<Rightarrow> u16 list \<Rightarrow> nat \<Rightarrow> bool" where
  "inverts_swapped dk j ek k \<longleftrightarrow> dk ! j = minv (ek ! k) \<and> dk ! (j + 1) = - (ek ! (k + 2)) \<and>
     dk ! (j + 2) = - (ek ! (k + 1)) \<and> dk ! (j + 3) = minv (ek ! (k + 3))"

definition same_mix :: "u16 list \<Rightarrow> nat \<Rightarrow> u16 list \<Rightarrow> nat \<Rightarrow> bool" where
  "same_mix dk j ek k \<longleftrightarrow> dk ! (j + 4) = ek ! (k + 4) \<and> dk ! (j + 5) = ek ! (k + 5)"

lemma key_step_inverts: "inverts dk j ek k \<Longrightarrow> key_step dk j (key_step ek k s) = s"
  by (cases s) (simp add: inverts_def)

lemma key_step_inverts_swapped:
  "inverts_swapped dk j ek k \<Longrightarrow> key_step dk j (swap_mid (key_step ek k s)) = swap_mid s"
  by (cases s) (simp add: inverts_swapped_def)

definition inverse_schedule :: "u16 list \<Rightarrow> u16 list \<Rightarrow> bool" where
  "inverse_schedule dk ek \<longleftrightarrow>
     inverts dk 0 ek 48 \<and> inverts dk 48 ek 0 \<and>
     (\<forall>j\<in>{1..<8}. inverts_swapped dk (6 * j) ek (6 * (8 - j))) \<and>
     (\<forall>j<8. same_mix dk (6 * j) ek (6 * (7 - j)))"

text \<open>
  After \<open>j + 1\<close> rounds of deciphering, the state is the swapped, key-transformed state that
  enciphering had after \<open>7 - j\<close> rounds.
\<close>

lemma rounds_undone:
  assumes "inverse_schedule dk ek" and "j < 8"
  shows "idea_rounds (Suc j) dk 0 (key_step ek 48 (swap_mid (idea_rounds 8 ek 0 s)))
           = swap_mid (key_step ek (6 * (7 - j)) (idea_rounds (7 - j) ek 0 s))"
  using assms(2)
proof (induction j)
  case 0
  have "idea_rounds 8 ek 0 s = idea_round ek 42 (idea_rounds 7 ek 0 s)"
    using idea_rounds_snoc [of 7 ek 0 s] by simp
  moreover have "inverts dk 0 ek 48" "same_mix dk 0 ek 42"
    using assms(1) by (simp_all add: inverse_schedule_def) fastforce
  ultimately show ?case
    by (simp add: idea_round_mix key_step_inverts mix_mix same_mix_def)
next
  case (Suc j)
  let ?y = "\<lambda>m. idea_rounds m ek 0 s"
  define m where "m = 6 - j"
  have m: "7 - j = Suc m" "7 - Suc j = m" "8 - Suc j = Suc m" using Suc.prems by (auto simp: m_def)
  have "Suc j \<in> {1..<8}" using Suc.prems by simp
  then have inv: "inverts_swapped dk (6 * Suc j) ek (6 * Suc m)" "same_mix dk (6 * Suc j) ek (6 * m)"
    using assms(1) Suc.prems m unfolding inverse_schedule_def by metis+
  have "idea_rounds (Suc (Suc j)) dk 0 (key_step ek 48 (swap_mid (?y 8)))
      = idea_round dk (6 * Suc j) (swap_mid (key_step ek (6 * Suc m) (?y (Suc m))))"
    using Suc m by (subst idea_rounds_snoc) simp
  also have "\<dots> = swap_mid (mix (ek ! (6 * m + 4)) (ek ! (6 * m + 5)) (swap_mid (?y (Suc m))))"
    unfolding idea_round_mix key_step_inverts_swapped [OF inv(1)]
    using inv(2) by (simp only: same_mix_def)
  also have "swap_mid (?y (Suc m))
      = mix (ek ! (6 * m + 4)) (ek ! (6 * m + 5)) (key_step ek (6 * m) (?y m))"
    by (subst idea_rounds_snoc) (simp add: idea_round_mix)
  finally show ?case by (simp only: mix_mix m)
qed

subsection \<open>The inverted key\<close>

lemma length_invert_rounds:
  "invert_rounds n ek p = Inr (ek', p') \<Longrightarrow> length p' = length p + 6 * n \<and> ek' = drop (6 * n) ek"
  by (induction n ek p rule: invert_rounds.induct)
    (auto simp: Let_def bind_res_Inr MulInv_minv add.commute)

lemma less_8_iff: "(\<forall>j<8. P (j :: nat)) \<longleftrightarrow> P 0 \<and> P 1 \<and> P 2 \<and> P 3 \<and> P 4 \<and> P 5 \<and> P 6 \<and> P 7"
  by (simp add: numeral_eq_Suc All_less_Suc) blast

lemma invert_rounds_7:
  "invert_rounds 7 ek p = invert_rounds (Suc (Suc (Suc (Suc (Suc (Suc (Suc 0))))))) ek p"
  by (simp only: numeral_eq_Suc pred_numeral_simps BitM.simps)

lemma IdeaInvertKey_schedule:
  assumes "length ek = 52"
  shows "\<exists>dk. IdeaInvertKey ek = Inr dk \<and> length dk = 52 \<and> inverse_schedule dk ek"
proof -
  have range: "(\<forall>j\<in>{1..<8}. P j) = (\<forall>j<8. j \<noteq> 0 \<longrightarrow> P (j :: nat))" for P by auto
  have nth: "drop n ek ! i = ek ! (n + i)" if "n \<le> 52" for n i
    using that assms by simp
  show ?thesis
    unfolding IdeaInvertKey_def IDEAROUNDS_def inverse_schedule_def range less_8_iff
    by (simp add: MulInv_minv Let_def invert_rounds_7 nth inverts_def inverts_swapped_def same_mix_def)
      (simp add: numeral_2_eq_2)
qed

subsection \<open>Blocks of bytes\<close>

lemma swap16_swap16 [simp]: "swap16 (swap16 x) = x"
  unfolding swap16_def by (rule word16_eqI) (simp add: bit_enum)

lemma mem16_load16: "mem16 (ucast a OR push_bit 8 (ucast b)) = [a, b]"
  unfolding mem16_def
  by (simp, intro conjI; rule byte_eqI) (simp_all add: bit_enum)

lemma length_IdeaCipher [simp]: "length (IdeaCipher blk key) = 8"
  by (simp add: IdeaCipher_def Let_def split: prod.splits)

definition block_in :: "bytes \<Rightarrow> idea_state" where
  "block_in b = (swap16 (load16 b), swap16 (load16 (drop 2 b)), swap16 (load16 (drop 4 b)),
                 swap16 (load16 (drop 6 b)))"

fun block_out :: "idea_state \<Rightarrow> bytes" where
  "block_out (x1, x2, x3, x4) =
     mem16 (swap16 x1) @ mem16 (swap16 x2) @ mem16 (swap16 x3) @ mem16 (swap16 x4)"

lemma block_in_out: "block_in (block_out s) = s"
  using load16_mem16 [where r = "[]"] by (cases s) (simp add: block_in_def)

lemma block_out_in: "length b = 8 \<Longrightarrow> block_out (block_in b) = b"
proof -
  assume "length b = 8"
  then obtain b0 b1 b2 b3 b4 b5 b6 b7 where "b = [b0, b1, b2, b3, b4, b5, b6, b7]"
    by (auto simp: numeral_eq_Suc length_Suc_conv)
  then show ?thesis by (simp add: block_in_def mem16_load16)
qed

lemma IdeaCipher_rounds:
  "IdeaCipher b key = block_out (key_step key 48 (swap_mid (idea_rounds 8 key 0 (block_in b))))"
  by (cases "idea_rounds 8 key 0 (block_in b)")
    (simp add: IdeaCipher_def block_in_def IDEAROUNDS_def Let_def)

lemma IdeaCipher_inverse:
  assumes "inverse_schedule dk ek" and "length b = 8"
  shows "IdeaCipher (IdeaCipher b ek) dk = b"
proof -
  have "idea_rounds 8 dk 0 (key_step ek 48 (swap_mid (idea_rounds 8 ek 0 (block_in b))))
      = swap_mid (key_step ek 0 (block_in b))"
    using rounds_undone [OF assms(1), of 7 "block_in b"] by (simp del: idea_rounds.simps(2))
  moreover have "inverts dk 48 ek 0" using assms(1) by (simp add: inverse_schedule_def)
  ultimately show ?thesis
    by (simp only: IdeaCipher_rounds block_in_out swap_swap key_step_inverts
        block_out_in [OF assms(2)])
qed

lemma length_expand_loop: "length (expand_loop n i base ek) = length ek"
  by (induction n i base ek rule: expand_loop.induct) (simp_all add: Let_def)

lemma length_IdeaExpandKey [simp]: "length (IdeaExpandKey k) = 52"
  by (simp add: IdeaExpandKey_def Let_def length_expand_loop IDEAKEYLEN_def)

text \<open>
  The multiplicative inverse the key inversion rests on: for every 16-bit word the extended
  Euclidean loop of MulInv terminates without a division by zero and returns the word whose
  product with the argument under the macro MUL is 1, the wrap-around of its 16-bit temporaries
  included.
\<close>

theorem MulInv_inverse: "\<exists>y. MulInv x = Inr y \<and> MUL x y = 1 \<and> MUL y x = 1"
  using MulInv_minv by auto

text \<open>
  The macro MUL computes the product modulo 65537 of the residues its operands stand for,
  where the word 0 stands for 65536, from one 32-bit product and its two halves.
\<close>

theorem MUL_residues:
  "(if MUL x y = 0 then 65536 else unat (MUL x y))
     = (if x = 0 then 65536 else unat x) * (if y = 0 then 65536 else unat y) mod 65537"
  using MUL_mval [of x y] by (simp only: mval_def)

text \<open>
  For every expanded key of 52 words IdeaInvertKey returns a key (no division by zero, no
  access outside the arrays), and the block cipher under it undoes the block cipher under the
  given key, on every block of 8 bytes.
\<close>

theorem IdeaInvertKey_decrypts:
  assumes "length ek = IDEAKEYLEN" and "length blk = 8"
  shows "\<exists>dk. IdeaInvertKey ek = Inr dk \<and> IdeaCipher (IdeaCipher blk ek) dk = blk"
  using IdeaInvertKey_schedule [of ek] IdeaCipher_inverse assms by (auto simp: IDEAKEYLEN_def)

theorem IdeaInvertKey_decrypts_witness:
  "\<exists>dk. IdeaInvertKey (IdeaExpandKey [0, 1, 0, 2, 0, 3, 0, 4, 0, 5, 0, 6, 0, 7, 0, 8]) = Inr dk \<and>
     IdeaCipher (IdeaCipher [0, 0, 0, 1, 0, 2, 0, 3]
       (IdeaExpandKey [0, 1, 0, 2, 0, 3, 0, 4, 0, 5, 0, 6, 0, 7, 0, 8])) dk = [0, 0, 0, 1, 0, 2, 0, 3]"
  by (rule IdeaInvertKey_decrypts) (simp_all add: IDEAKEYLEN_def)

text \<open>The published test vector of the cipher.\<close>

lemma idea_test_vector:
  "IdeaCipher [0, 0, 0, 1, 0, 2, 0, 3] (IdeaExpandKey [0, 1, 0, 2, 0, 3, 0, 4, 0, 5, 0, 6, 0, 7, 0, 8])
     = [0x11, 0xfb, 0xed, 0x2b, 0x01, 0x98, 0x6d, 0xe5]"
  by code_simp

end
