(* ===== verification/IdeaCfb.thy ===== *)
theory IdeaCfb imports IdeaBlock begin

text \<open>
  CFB mode.  The code works on blocks: it finishes a partly used register, then takes whole
  blocks, then a last block of one to eight bytes.  The reference \<open>cfb_run\<close> is the definition of
  the mode, one byte at a time: a used-up register is enciphered, each byte is combined with the
  next register byte, and the ciphertext byte replaces it.  The locale \<open>cfb_loop\<close> is what the
  block-wise code needs of its byte loop; both byte loops satisfy it.
\<close>

fun cfb_refill :: "idea_cfb \<Rightarrow> idea_cfb" where
  "cfb_refill ctx =
     (if bufleft ctx = 0
      then ctx\<lparr>oldcipher := cfb_iv ctx, cfb_iv := IdeaCipher (cfb_iv ctx) (cfb_key ctx), bufleft := 8\<rparr>
      else ctx)"

fun cfb_run :: "(byte \<Rightarrow> byte \<Rightarrow> byte) \<Rightarrow> idea_cfb \<Rightarrow> bytes \<Rightarrow> idea_cfb \<times> bytes" where
  "cfb_run fb ctx [] = (ctx, [])"
| "cfb_run fb ctx (b # bs) =
     (let ctx = cfb_refill ctx; i = 8 - bufleft ctx; t = cfb_iv ctx ! i;
          (ctx', out) = cfb_run fb (ctx\<lparr>cfb_iv := (cfb_iv ctx)[i := fb t b], bufleft := bufleft ctx - 1\<rparr>) bs
      in (ctx', (t XOR b) # out))"

definition enc_feed :: "byte \<Rightarrow> byte \<Rightarrow> byte" where
  "enc_feed t b = t XOR b"

definition dec_feed :: "byte \<Rightarrow> byte \<Rightarrow> byte" where
  "dec_feed t b = b"

definition cfb_ok :: "idea_cfb \<Rightarrow> bool" where
  "cfb_ok ctx \<longleftrightarrow> length (cfb_iv ctx) = 8 \<and> bufleft ctx \<le> 8"

lemma cfb_run_append:
  "cfb_run fb ctx (xs @ ys) =
     (let (ctx1, o1) = cfb_run fb ctx xs; (ctx2, o2) = cfb_run fb ctx1 ys in (ctx2, o1 @ o2))"
  by (induction fb ctx xs rule: cfb_run.induct) (auto simp: Let_def split: prod.splits)

lemma cfb_run_ok: "cfb_ok ctx \<Longrightarrow> cfb_ok (fst (cfb_run fb ctx xs))"
  by (induction fb ctx xs rule: cfb_run.induct)
    (auto simp: Let_def cfb_ok_def split: prod.splits if_splits)

lemma length_cfb_run: "length (snd (cfb_run fb ctx xs)) = length xs"
  by (induction fb ctx xs rule: cfb_run.induct) (auto simp: Let_def split: prod.splits)

lemma cfb_run_old: "snd (cfb_run fb (ctx\<lparr>oldcipher := x\<rparr>) bs) = snd (cfb_run fb ctx bs)"
proof (induction bs arbitrary: ctx x)
  case Nil
  then show ?case by simp
next
  case (Cons b bs)
  show ?case
  proof (cases "bufleft ctx = 0")
    case True
    then show ?thesis by (simp add: Let_def split: prod.splits)
  next
    case False
    let ?i = "8 - bufleft ctx"
    let ?next = "\<lambda>c. c\<lparr>cfb_iv := (cfb_iv ctx)[?i := fb (cfb_iv ctx ! ?i) b],
                      bufleft := bufleft ctx - 1\<rparr>"
    have "?next (ctx\<lparr>oldcipher := x\<rparr>) = (?next ctx)\<lparr>oldcipher := x\<rparr>" by simp
    then have "snd (cfb_run fb (?next (ctx\<lparr>oldcipher := x\<rparr>)) bs) = snd (cfb_run fb (?next ctx) bs)"
      using Cons.IH by (simp only:)
    then show ?thesis using False by (auto simp: Let_def split: prod.splits)
  qed
qed

subsection \<open>Block-wise code and byte-wise definition\<close>

locale cfb_loop =
  fixes loop :: "nat \<Rightarrow> nat \<Rightarrow> bytes \<Rightarrow> bytes \<Rightarrow> bytes \<times> bytes \<times> bytes"
    and fb :: "byte \<Rightarrow> byte \<Rightarrow> byte"
  assumes loop_0: "loop 0 i iv src = (iv, src, [])"
    and loop_Suc: "loop (Suc n) i iv (b # src) =
      (let (iv', src', dest) = loop n (i + 1) (iv[i := fb (iv ! i) b]) src
       in (iv', src', (iv ! i XOR b) # dest))"
begin

lemma loop_run:
  assumes "n \<le> bufleft ctx" "bufleft ctx \<le> 8" "n \<le> length src"
  shows "\<exists>iv dest. loop n (8 - bufleft ctx) (cfb_iv ctx) src = (iv, drop n src, dest) \<and>
      cfb_run fb ctx (take n src) = (ctx\<lparr>cfb_iv := iv, bufleft := bufleft ctx - n\<rparr>, dest)"
  using assms
proof (induction n arbitrary: ctx src)
  case 0
  then show ?case by (simp add: loop_0)
next
  case (Suc n)
  then obtain b bs where src: "src = b # bs" by (cases src) auto
  let ?i = "8 - bufleft ctx"
  let ?ctx = "ctx\<lparr>cfb_iv := (cfb_iv ctx)[?i := fb (cfb_iv ctx ! ?i) b], bufleft := bufleft ctx - 1\<rparr>"
  have "n \<le> bufleft ?ctx" "bufleft ?ctx \<le> 8" "n \<le> length bs" using Suc.prems src by auto
  then obtain iv dest where "loop n (8 - bufleft ?ctx) (cfb_iv ?ctx) bs = (iv, drop n bs, dest)"
      "cfb_run fb ?ctx (take n bs) = (?ctx\<lparr>cfb_iv := iv, bufleft := bufleft ?ctx - n\<rparr>, dest)"
    using Suc.IH by blast
  moreover have "8 - bufleft ?ctx = ?i + 1" using Suc.prems by auto
  ultimately show ?case using Suc.prems by (simp add: src loop_Suc Let_def)
qed

lemma blocks_run:
  assumes "0 < count" "count \<le> length src" "bufleft ctx = 0"
  shows "cfb_blocks loop ctx src count = cfb_run fb ctx (take count src)"
  using assms
proof (induction count arbitrary: ctx src rule: less_induct)
  case (less count)
  let ?ctx = "cfb_refill ctx"
  have left: "bufleft ?ctx = 8" using less.prems by simp
  have fill: "cfb_run fb ctx (take n src) = cfb_run fb ?ctx (take n src)" if "0 < n" for n
    using that less.prems by (cases "take n src") (auto simp: Let_def)
  show ?case
  proof (cases "8 < count")
    case True
    obtain iv dest where l: "loop 8 0 (cfb_iv ?ctx) src = (iv, drop 8 src, dest)"
        "cfb_run fb ?ctx (take 8 src) = (?ctx\<lparr>cfb_iv := iv, bufleft := 0\<rparr>, dest)"
      using loop_run [of 8 ?ctx src] left True less.prems by auto
    let ?next = "ctx\<lparr>oldcipher := cfb_iv ctx, cfb_iv := iv\<rparr>"
    have "?ctx\<lparr>cfb_iv := iv, bufleft := 0\<rparr> = ?next" using less.prems by simp
    then have l2: "cfb_run fb ?ctx (take 8 src) = (?next, dest)" using l(2) by (simp only:)
    have "cfb_blocks loop ?next (drop 8 src) (count - 8) = cfb_run fb ?next (take (count - 8) (drop 8 src))"
      using less.prems True by (intro less.IH) simp_all
    moreover have "take count src = take 8 src @ take (count - 8) (drop 8 src)"
      using True by (metis le_add_diff_inverse less_imp_le take_add)
    ultimately show ?thesis
      using l(1) l2 less.prems True
      by (subst cfb_blocks.simps) (simp add: cfb_run_append fill Let_def)
  next
    case False
    obtain iv dest where "loop count 0 (cfb_iv ?ctx) src = (iv, drop count src, dest)"
        "cfb_run fb ?ctx (take count src) = (?ctx\<lparr>cfb_iv := iv, bufleft := 8 - count\<rparr>, dest)"
      using loop_run [of count ?ctx src] left False less.prems by auto
    then show ?thesis
      using less.prems False by (subst cfb_blocks.simps) (simp add: fill Let_def)
  qed
qed

lemma cfb_blocks_left:
  assumes "0 < count"
  shows "cfb_blocks loop (ctx\<lparr>bufleft := l\<rparr>) src count = cfb_blocks loop ctx src count"
  using assms
proof (induction count arbitrary: ctx src l rule: less_induct)
  case (less count)
  have "cfb_blocks loop (ctx\<lparr>bufleft := l, oldcipher := a, cfb_iv := b\<rparr>) s (count - 8)
      = cfb_blocks loop (ctx\<lparr>oldcipher := a, cfb_iv := b\<rparr>) s (count - 8)" if "8 < count" for a b s
  proof -
    have "ctx\<lparr>bufleft := l, oldcipher := a, cfb_iv := b\<rparr> = (ctx\<lparr>oldcipher := a, cfb_iv := b\<rparr>)\<lparr>bufleft := l\<rparr>"
      by simp
    then show ?thesis using less.IH [of "count - 8"] that by (simp only:)
  qed
  then show ?case
    by (subst (1 2) cfb_blocks.simps) (simp add: Let_def split: prod.splits)
qed

lemma cfb_code_run:
  assumes "bufleft ctx \<le> 8" "count \<le> length src"
  shows "(let n = bufleft ctx in
        if count \<le> n then
          let (iv, src', dest) = loop count (8 - n) (cfb_iv ctx) src
          in Inr (ctx\<lparr>cfb_iv := iv, bufleft := n - count\<rparr>, dest)
        else
          let (iv, src', dest) = loop n (8 - n) (cfb_iv ctx) src;
              (ctx', dest') = cfb_blocks loop (ctx\<lparr>cfb_iv := iv\<rparr>) src' (count - n)
          in Inr (ctx', dest @ dest')) = Inr (cfb_run fb ctx (take count src))"
proof (cases "count \<le> bufleft ctx")
  case True
  then show ?thesis using loop_run [of count ctx src] assms by (auto simp: Let_def)
next
  case False
  let ?n = "bufleft ctx"
  obtain iv dest where l: "loop ?n (8 - ?n) (cfb_iv ctx) src = (iv, drop ?n src, dest)"
      "cfb_run fb ctx (take ?n src) = (ctx\<lparr>cfb_iv := iv, bufleft := 0\<rparr>, dest)"
    using loop_run [of ?n ctx src] assms False by auto
  have "cfb_blocks loop (ctx\<lparr>cfb_iv := iv, bufleft := 0\<rparr>) (drop ?n src) (count - ?n)
      = cfb_run fb (ctx\<lparr>cfb_iv := iv, bufleft := 0\<rparr>) (take (count - ?n) (drop ?n src))"
    using assms False by (intro blocks_run) simp_all
  moreover have "cfb_blocks loop (ctx\<lparr>cfb_iv := iv, bufleft := 0\<rparr>) (drop ?n src) (count - ?n)
      = cfb_blocks loop (ctx\<lparr>cfb_iv := iv\<rparr>) (drop ?n src) (count - ?n)"
    using cfb_blocks_left [where count = "count - ?n" and ctx = "ctx\<lparr>cfb_iv := iv\<rparr>" and l = 0] False by simp
  moreover have "take count src = take ?n src @ take (count - ?n) (drop ?n src)"
    using False by (metis le_add_diff_inverse nat_le_linear take_add)
  ultimately show ?thesis using l False by (simp add: Let_def cfb_run_append split: prod.splits)
qed

end

interpretation enc: cfb_loop enc_bytes enc_feed
  by unfold_locales (simp_all add: enc_feed_def Let_def)

interpretation dec: cfb_loop dec_bytes dec_feed
  by unfold_locales (simp_all add: dec_feed_def Let_def)

lemma Encrypt_run:
  "bufleft ctx \<le> 8 \<Longrightarrow> count \<le> length src \<Longrightarrow>
     IdeaCfbEncrypt ctx src count = Inr (cfb_run enc_feed ctx (take count src))"
  unfolding IdeaCfbEncrypt_def using enc.cfb_code_run by simp

lemma Decrypt_run:
  "bufleft ctx \<le> 8 \<Longrightarrow> count \<le> length src \<Longrightarrow>
     IdeaCfbDecrypt ctx src count = Inr (cfb_run dec_feed ctx (take count src))"
  unfolding IdeaCfbDecrypt_def using dec.cfb_code_run by simp

lemma dec_enc_run:
  "cfb_run dec_feed ctx (snd (cfb_run enc_feed ctx xs)) = (fst (cfb_run enc_feed ctx xs), xs)"
proof (induction xs arbitrary: ctx)
  case Nil
  then show ?case by simp
next
  case (Cons b bs)
  let ?c = "cfb_refill ctx"
  let ?t = "cfb_iv ?c ! (8 - bufleft ?c)"
  let ?n = "?c\<lparr>cfb_iv := (cfb_iv ?c)[8 - bufleft ?c := ?t XOR b], bufleft := bufleft ?c - 1\<rparr>"
  have enc: "enc_feed ?t b = ?t XOR b" and dec: "dec_feed ?t (?t XOR b) = ?t XOR b"
    by (simp_all add: enc_feed_def dec_feed_def del: cfb_refill.simps)
  have x: "?t XOR (?t XOR b) = b" by (simp flip: xor.assoc)
  obtain c1 out where r: "cfb_run enc_feed ?n bs = (c1, out)"
    by (cases "cfb_run enc_feed ?n bs")
  then have d: "cfb_run dec_feed ?n out = (c1, bs)" using Cons.IH [of ?n] by simp
  have "cfb_run enc_feed ctx (b # bs) = (c1, (?t XOR b) # out)"
    by (simp only: cfb_run.simps Let_def enc r prod.case)
  moreover have "cfb_run dec_feed ctx ((?t XOR b) # out) = (c1, b # bs)"
    by (simp only: cfb_run.simps Let_def dec d x prod.case)
  ultimately show ?case by (simp only: fst_conv snd_conv)
qed

lemma Init_Sync [simp]: "IdeaCfbSync (IdeaCfbInit ctx key) = IdeaCfbInit ctx key"
  by (simp add: IdeaCfbSync_def IdeaCfbInit_def IdeaCfbReinit_def)

lemma bufleft_Init [simp]: "bufleft (IdeaCfbInit ctx key) = 0"
  by (simp add: IdeaCfbInit_def IdeaCfbReinit_def)

lemma Init_old: "IdeaCfbInit ctx key = (IdeaCfbInit ctx' key)\<lparr>oldcipher := oldcipher ctx\<rparr>"
  by (simp add: IdeaCfbInit_def IdeaCfbReinit_def)

lemma Idea_Crypt_run:
  "count \<le> length src \<Longrightarrow> Idea_Crypt ctx key src count encrypt =
     Inr (cfb_run (if encrypt then enc_feed else dec_feed) (IdeaCfbInit ctx key) (take count src))"
  by (simp add: Idea_Crypt_def Let_def Encrypt_run Decrypt_run)

text \<open>
  C26: on every context whose register has at most eight bytes left, and for every byte count the
  source has, the block-wise IdeaCfbEncrypt computes exactly the byte-wise CFB mode: the same
  output and the same context afterwards.
\<close>

theorem IdeaCfbEncrypt_is_cfb:
  assumes "bufleft ctx \<le> 8" and "count \<le> length src"
  shows "IdeaCfbEncrypt ctx src count = Inr (cfb_run (\<lambda>t b. t XOR b) ctx (take count src))"
proof -
  have "enc_feed = (\<lambda>t b. t XOR b)" by (simp add: enc_feed_def fun_eq_iff)
  then show ?thesis using Encrypt_run [OF assms] by simp
qed

theorem IdeaCfbEncrypt_is_cfb_witness:
  "IdeaCfbEncrypt \<lparr>oldcipher = replicate 8 0, cfb_iv = [1, 2, 3, 4, 5, 6, 7, 8],
       cfb_key = replicate 52 3, bufleft = 3\<rparr> (replicate 12 65) 11
     = Inr (cfb_run (\<lambda>t b. t XOR b) \<lparr>oldcipher = replicate 8 0, cfb_iv = [1, 2, 3, 4, 5, 6, 7, 8],
       cfb_key = replicate 52 3, bufleft = 3\<rparr> (take 11 (replicate 12 65)))"
  by (rule IdeaCfbEncrypt_is_cfb) simp_all

text \<open>
  Encrypting a message in two calls gives the bytes and the context that one call on the
  whole message gives, however the pieces fall on the eight-byte blocks.
\<close>

theorem IdeaCfbEncrypt_pieces:
  assumes "length (cfb_iv ctx) = 8" and "bufleft ctx \<le> 8"
  shows "IdeaCfbEncrypt ctx (xs @ ys) (length xs + length ys) =
     bind_res (IdeaCfbEncrypt ctx xs (length xs)) (\<lambda>(ctx1, out1).
     bind_res (IdeaCfbEncrypt ctx1 ys (length ys)) (\<lambda>(ctx2, out2). Inr (ctx2, out1 @ out2)))"
proof -
  obtain ctx1 out1 where r: "cfb_run enc_feed ctx xs = (ctx1, out1)" by fastforce
  then have "bufleft ctx1 \<le> 8"
    using cfb_run_ok [of ctx enc_feed xs] assms by (simp add: cfb_ok_def)
  then show ?thesis
    using assms r by (simp add: Encrypt_run cfb_run_append split: prod.splits)
qed

theorem IdeaCfbEncrypt_pieces_witness:
  "let ctx = IdeaCfbInit \<lparr>oldcipher = [], cfb_iv = [], cfb_key = [], bufleft = 5\<rparr> (replicate 16 7) in
   IdeaCfbEncrypt ctx ([1, 2, 3] @ [4, 5, 6, 7, 8, 9, 10]) (length [1, 2, 3 :: nat] + length [4, 5, 6, 7, 8, 9, 10 :: nat]) =
     bind_res (IdeaCfbEncrypt ctx [1, 2, 3] (length [1, 2, 3 :: nat])) (\<lambda>(ctx1, out1).
     bind_res (IdeaCfbEncrypt ctx1 [4, 5, 6, 7, 8, 9, 10] (length [4, 5, 6, 7, 8, 9, 10 :: nat]))
       (\<lambda>(ctx2, out2). Inr (ctx2, out1 @ out2)))"
  using IdeaCfbEncrypt_pieces [of "IdeaCfbInit \<lparr>oldcipher = [], cfb_iv = [], cfb_key = [], bufleft = 5\<rparr> (replicate 16 7)"
      "[1, 2, 3]" "[4, 5, 6, 7, 8, 9, 10]"]
  by (simp add: IdeaCfbInit_def IdeaCfbReinit_def)

lemma Idea_Crypt_decrypts:
  "\<exists>c1 out. Idea_Crypt ctx key msg (length msg) True = Inr (c1, out) \<and> length out = length msg \<and>
     (\<exists>c2. Idea_Crypt ctx' key out (length out) False = Inr (c2, msg))"
proof -
  let ?i = "IdeaCfbInit ctx key" and ?i' = "IdeaCfbInit ctx' key"
  let ?out = "snd (cfb_run enc_feed ?i msg)"
  have "snd (cfb_run dec_feed ?i' ?out) = snd (cfb_run dec_feed ?i ?out)"
    by (subst Init_old [of ctx' key ctx]) (rule cfb_run_old)
  then have "snd (cfb_run dec_feed ?i' ?out) = msg" by (simp add: dec_enc_run)
  then have "\<exists>c2. Idea_Crypt ctx' key ?out (length ?out) False = Inr (c2, msg)"
    by (simp add: Idea_Crypt_run length_cfb_run) (metis prod.collapse)
  moreover have "Idea_Crypt ctx key msg (length msg) True = Inr (fst (cfb_run enc_feed ?i msg), ?out)"
    by (simp add: Idea_Crypt_run)
  moreover have "length ?out = length msg" by (rule length_cfb_run)
  ultimately show ?thesis by blast
qed

text \<open>
  C25: what the client enciphers with Idea::Crypt the server deciphers: for every key and every
  message of any length, whatever the two contexts held before, decryption with the same key
  returns the message, and the ciphertext has the message's length.
\<close>

theorem Idea_Crypt_roundtrip:
  "\<exists>c1 out. Idea_Crypt ctx key msg (length msg) True = Inr (c1, out) \<and> length out = length msg \<and>
     (\<exists>c2. Idea_Crypt ctx' key out (length out) False = Inr (c2, msg))"
  by (rule Idea_Crypt_decrypts)

end
