(* ===== verification/ByteQueue.thy ===== *)
theory ByteQueue imports Prelude begin

text \<open>
  The interface between the byte buffers of the program and their clients.  A client appends
  chunks and takes bytes from the front; the specification is a plain list of bytes.  The locales
  \<open>byte_sink\<close> and \<open>byte_source\<close> state the laws of the two ends and \<open>byte_queue\<close> joins them;
  \<open>queue_refines\<close> shows that any provider answers every sequence of operations as the list
  does, aborts included, and \<open>puts_concat\<close> that how data is split into chunks does not matter.
  The network buffer is a \<open>byte_queue\<close>; the protocol streams are a sink and a source.
\<close>

datatype queue_op = Put bytes | Get nat

fun spec_run :: "bytes \<Rightarrow> queue_op list \<Rightarrow> (bytes list \<times> bytes) res" where
  "spec_run xs [] = Inr ([], xs)"
| "spec_run xs (Put d # ops) = spec_run (xs @ d) ops"
| "spec_run xs (Get n # ops) =
     (if n \<le> length xs
      then bind_res (spec_run (drop n xs) ops) (\<lambda>(outs, ys). Inr (take n xs # outs, ys))
      else Inl Abort)"

fun impl_run ::
  "('b \<Rightarrow> bytes \<Rightarrow> 'b res) \<Rightarrow> ('b \<Rightarrow> nat \<Rightarrow> (bytes \<times> 'b) res) \<Rightarrow> 'b \<Rightarrow> queue_op list
     \<Rightarrow> (bytes list \<times> 'b) res" where
  "impl_run put get b [] = Inr ([], b)"
| "impl_run put get b (Put d # ops) = bind_res (put b d) (\<lambda>b'. impl_run put get b' ops)"
| "impl_run put get b (Get n # ops) =
     bind_res (get b n) (\<lambda>(out, b').
     bind_res (impl_run put get b' ops) (\<lambda>(outs, b''). Inr (out # outs, b'')))"

fun put_all :: "('b \<Rightarrow> bytes \<Rightarrow> 'b res) \<Rightarrow> 'b \<Rightarrow> bytes list \<Rightarrow> 'b res" where
  "put_all put b [] = Inr b"
| "put_all put b (d # ds) = bind_res (put b d) (\<lambda>b'. put_all put b' ds)"

text \<open>Writing only: what a sink has taken is its data so far followed by each chunk.\<close>

locale byte_sink =
  fixes inv :: "'b \<Rightarrow> bool"
    and abs :: "'b \<Rightarrow> bytes"
    and put :: "'b \<Rightarrow> bytes \<Rightarrow> 'b res"
  assumes put_ok: "inv b \<Longrightarrow> \<exists>b'. put b d = Inr b' \<and> inv b' \<and> abs b' = abs b @ d"
begin

lemma put_E:
  assumes "inv b"
  obtains b' where "put b d = Inr b'" "inv b'" "abs b' = abs b @ d"
  using put_ok [OF assms] by blast

lemma puts_concat:
  "inv b \<Longrightarrow> \<exists>b'. put_all put b ds = Inr b' \<and> inv b' \<and> abs b' = abs b @ concat ds"
proof (induction ds arbitrary: b)
  case Nil
  then show ?case by simp
next
  case (Cons d ds)
  obtain b1 where b1: "put b d = Inr b1" "inv b1" "abs b1 = abs b @ d"
    using Cons.prems by (rule put_E)
  with Cons.IH [OF b1(2)] show ?case by auto
qed

end

text \<open>Reading only: bytes come off the front, and asking for too many fails the assertion.\<close>

locale byte_source =
  fixes inv :: "'b \<Rightarrow> bool"
    and abs :: "'b \<Rightarrow> bytes"
    and get :: "'b \<Rightarrow> nat \<Rightarrow> (bytes \<times> 'b) res"
  assumes get_ok: "inv b \<Longrightarrow> n \<le> length (abs b) \<Longrightarrow>
      \<exists>b'. get b n = Inr (take n (abs b), b') \<and> inv b' \<and> abs b' = drop n (abs b)"
    and get_short: "inv b \<Longrightarrow> length (abs b) < n \<Longrightarrow> get b n = Inl Abort"
begin

lemma get_front:
  assumes "inv b" and "abs b = xs @ ys" and "length xs = n"
  shows "\<exists>b'. get b n = Inr (xs, b') \<and> inv b' \<and> abs b' = ys"
  using get_ok [OF assms(1), of n] assms(2,3) by auto

lemma get_cases:
  assumes "inv b"
  obtains (ok) b' where "n \<le> length (abs b)" "get b n = Inr (take n (abs b), b')" "inv b'"
      "abs b' = drop n (abs b)"
    | (short) "length (abs b) < n" "get b n = Inl Abort"
proof (cases "n \<le> length (abs b)")
  case True
  with get_ok [OF assms True] ok show thesis by blast
next
  case False
  with get_short [OF assms] short show thesis by simp
qed

end

text \<open>Both ends on one object: a FIFO.\<close>

locale byte_queue = byte_sink inv abs put + byte_source inv abs get
  for inv :: "'b \<Rightarrow> bool" and abs :: "'b \<Rightarrow> bytes"
    and put :: "'b \<Rightarrow> bytes \<Rightarrow> 'b res" and get :: "'b \<Rightarrow> nat \<Rightarrow> (bytes \<times> 'b) res"
begin

lemma queue_refines:
  "inv b \<Longrightarrow> map_sum id (\<lambda>(outs, b'). (outs, abs b')) (impl_run put get b ops)
            = spec_run (abs b) ops"
proof (induction ops arbitrary: b)
  case Nil
  then show ?case by simp
next
  case (Cons op ops)
  show ?case
  proof (cases op)
    case (Put d)
    obtain b' where "put b d = Inr b'" "inv b'" "abs b' = abs b @ d"
      using Cons.prems by (rule put_E)
    with Put Cons.IH [of b'] show ?thesis by simp
  next
    case (Get n)
    from Cons.prems show ?thesis
    proof (cases rule: get_cases [where n = n])
      case (ok b')
      with Get Cons.IH [of b', symmetric] show ?thesis
        by (cases "impl_run put get b' ops") (auto split: prod.splits)
    next
      case short
      with Get show ?thesis by simp
    qed
  qed
qed

end

end
