(* ===== verification/Streams.thy ===== *)
theory Streams imports Endian ByteQueue begin

text \<open>
  \<open>bankserver/JOutStream\<close> and \<open>bankserver/JInStream\<close>: the streams the bank protocol is written
  and read with.  Integers travel in network byte order, a string as a 16-bit length and its
  bytes.  The signed overloads have the same representation as the unsigned ones.

  \<open>out_msg\<close> is what an output stream has written before its position, \<open>in_rest\<close> what an input
  stream has not read yet.  The output stream is a \<open>byte_sink\<close>, the input stream a
  \<open>byte_source\<close>; the round trip of any sequence of values follows.
\<close>

subsection \<open>The output stream\<close>

record jout =
  out_buffer :: bytes
  out_index :: nat

definition JOut_kInitialSize :: nat where
  "JOut_kInitialSize = 1024"

definition JOut_new :: jout where
  "JOut_new = \<lparr>out_buffer = replicate JOut_kInitialSize 0, out_index = 0\<rparr>"

text \<open>A \<open>size_t\<close> subtraction wraps around below zero.\<close>

definition size_sub :: "nat \<Rightarrow> nat \<Rightarrow> nat" where
  "size_sub a b = (if b \<le> a then a - b else a + 2 ^ 64 - b)"

definition JOut_WriteableBytes :: "jout \<Rightarrow> nat" where
  "JOut_WriteableBytes s = size_sub (length (out_buffer s)) (out_index s)"

definition JOut_EnsureWritableBytes :: "jout \<Rightarrow> nat \<Rightarrow> jout" where
  "JOut_EnsureWritableBytes s len =
     (if JOut_WriteableBytes s < len
      then s\<lparr>out_buffer := vec_resize (out_index s + len) (out_buffer s)\<rparr> else s)"

definition JOut_Append :: "jout \<Rightarrow> bytes \<Rightarrow> jout res" where
  "JOut_Append s data =
     (let s1 = JOut_EnsureWritableBytes s (length data) in
      bind_res (mem_write (out_buffer s1) (out_index s1) data) (\<lambda>v.
      Inr (s1\<lparr>out_buffer := v, out_index := out_index s1 + length data\<rparr>)))"

definition JOut_uint8 :: "jout \<Rightarrow> byte \<Rightarrow> jout res" where
  "JOut_uint8 s x = JOut_Append s [x]"

definition JOut_uint16 :: "jout \<Rightarrow> 16 word \<Rightarrow> jout res" where
  "JOut_uint16 s x = (let be16 = hostToNetwork16 x in JOut_Append s (mem16 be16))"

definition JOut_uint32 :: "jout \<Rightarrow> 32 word \<Rightarrow> jout res" where
  "JOut_uint32 s x = (let be32 = hostToNetwork32 x in JOut_Append s (mem32 be32))"

definition JOut_int8 :: "jout \<Rightarrow> byte \<Rightarrow> jout res" where
  "JOut_int8 s x = JOut_Append s [x]"

definition JOut_int16 :: "jout \<Rightarrow> 16 word \<Rightarrow> jout res" where
  "JOut_int16 s x = (let be16 = hostToNetwork16 x in JOut_Append s (mem16 be16))"

definition JOut_int32 :: "jout \<Rightarrow> 32 word \<Rightarrow> jout res" where
  "JOut_int32 s x = (let be32 = hostToNetwork32 x in JOut_Append s (mem32 be32))"

definition JOut_string :: "jout \<Rightarrow> bytes \<Rightarrow> jout res" where
  "JOut_string s str =
     (let len = of_nat (length str) :: 16 word in
      bind_res (JOut_uint16 s len) (\<lambda>s1.
      bind_res (c_str_read str (unat len)) (\<lambda>data. JOut_Append s1 data)))"

definition JOut_WriteBytes :: "jout \<Rightarrow> bytes \<Rightarrow> jout res" where
  "JOut_WriteBytes s data = JOut_Append s data"

definition JOut_Reposition :: "jout \<Rightarrow> nat \<Rightarrow> jout" where
  "JOut_Reposition s pos = s\<lparr>out_index := pos\<rparr>"

definition JOut_Skip :: "jout \<Rightarrow> nat \<Rightarrow> jout" where
  "JOut_Skip s len =
     (let s1 = JOut_EnsureWritableBytes s len in s1\<lparr>out_index := out_index s1 + len\<rparr>)"

definition JOut_Clear :: "jout \<Rightarrow> jout" where
  "JOut_Clear s = s\<lparr>out_index := 0\<rparr>"

definition JOut_Length :: "jout \<Rightarrow> nat" where
  "JOut_Length s = out_index s"

text \<open>The \<open>Length()\<close> bytes at \<open>Data()\<close>.\<close>

definition JOut_Data :: "jout \<Rightarrow> bytes res" where
  "JOut_Data s = mem_read (out_buffer s) 0 (JOut_Length s)"

subsection \<open>The input stream\<close>

record jin =
  in_buffer :: bytes
  in_index :: nat

definition JIn_SetData :: "jin \<Rightarrow> bytes \<Rightarrow> jin" where
  "JIn_SetData s data = s\<lparr>in_buffer := data, in_index := 0\<rparr>"

definition JIn_make :: "bytes \<Rightarrow> jin" where
  "JIn_make data = JIn_SetData \<lparr>in_buffer = [], in_index = 0\<rparr> data"

definition JIn_ReadableBytes :: "jin \<Rightarrow> nat" where
  "JIn_ReadableBytes s = size_sub (length (in_buffer s)) (in_index s)"

definition JIn_ReadBytes :: "jin \<Rightarrow> nat \<Rightarrow> (bytes \<times> jin) res" where
  "JIn_ReadBytes s len =
     assert_res (len \<le> JIn_ReadableBytes s)
       (bind_res (mem_read (in_buffer s) (in_index s) len) (\<lambda>data.
        Inr (data, s\<lparr>in_index := in_index s + len\<rparr>)))"

definition JIn_uint8 :: "jin \<Rightarrow> (byte \<times> jin) res" where
  "JIn_uint8 s =
     assert_res (1 \<le> JIn_ReadableBytes s)
       (bind_res (mem_read (in_buffer s) (in_index s) 1) (\<lambda>x.
        Inr (hd x, s\<lparr>in_index := in_index s + 1\<rparr>)))"

definition JIn_uint16 :: "jin \<Rightarrow> (16 word \<times> jin) res" where
  "JIn_uint16 s =
     assert_res (2 \<le> JIn_ReadableBytes s)
       (bind_res (mem_read (in_buffer s) (in_index s) 2) (\<lambda>be16.
        Inr (networkToHost16 (load16 be16), s\<lparr>in_index := in_index s + 2\<rparr>)))"

definition JIn_uint32 :: "jin \<Rightarrow> (32 word \<times> jin) res" where
  "JIn_uint32 s =
     assert_res (4 \<le> JIn_ReadableBytes s)
       (bind_res (mem_read (in_buffer s) (in_index s) 4) (\<lambda>be32.
        Inr (networkToHost32 (load32 be32), s\<lparr>in_index := in_index s + 4\<rparr>)))"

definition JIn_int8 :: "jin \<Rightarrow> (byte \<times> jin) res" where
  "JIn_int8 s =
     assert_res (1 \<le> JIn_ReadableBytes s)
       (bind_res (mem_read (in_buffer s) (in_index s) 1) (\<lambda>x.
        Inr (hd x, s\<lparr>in_index := in_index s + 1\<rparr>)))"

definition JIn_int16 :: "jin \<Rightarrow> (16 word \<times> jin) res" where
  "JIn_int16 s =
     assert_res (2 \<le> JIn_ReadableBytes s)
       (bind_res (mem_read (in_buffer s) (in_index s) 2) (\<lambda>be16.
        Inr (networkToHost16 (load16 be16), s\<lparr>in_index := in_index s + 2\<rparr>)))"

definition JIn_int32 :: "jin \<Rightarrow> (32 word \<times> jin) res" where
  "JIn_int32 s =
     assert_res (4 \<le> JIn_ReadableBytes s)
       (bind_res (mem_read (in_buffer s) (in_index s) 4) (\<lambda>be32.
        Inr (networkToHost32 (load32 be32), s\<lparr>in_index := in_index s + 4\<rparr>)))"

definition JIn_string :: "jin \<Rightarrow> (bytes \<times> jin) res" where
  "JIn_string s =
     bind_res (JIn_uint16 s) (\<lambda>(len, s1).
     assert_res (unat len \<le> JIn_ReadableBytes s1)
       (bind_res (mem_read (in_buffer s1) (in_index s1) (unat len)) (\<lambda>str.
        Inr (str, s1\<lparr>in_index := in_index s1 + unat len\<rparr>))))"

definition JIn_Reposition :: "jin \<Rightarrow> nat \<Rightarrow> jin" where
  "JIn_Reposition s pos = s\<lparr>in_index := pos\<rparr>"

text \<open>The assertion is strict: the last byte of a stream cannot be skipped.\<close>

definition JIn_Skip :: "jin \<Rightarrow> nat \<Rightarrow> jin res" where
  "JIn_Skip s len =
     assert_res (len < JIn_ReadableBytes s) (Inr (s\<lparr>in_index := in_index s + len\<rparr>))"

subsection \<open>Invariants\<close>

text \<open>A position never lies behind the end of its vector.\<close>

definition out_inv :: "jout \<Rightarrow> bool" where
  "out_inv s \<longleftrightarrow> out_index s \<le> length (out_buffer s)"

definition out_msg :: "jout \<Rightarrow> bytes" where
  "out_msg s = take (out_index s) (out_buffer s)"

definition in_inv :: "jin \<Rightarrow> bool" where
  "in_inv s \<longleftrightarrow> in_index s \<le> length (in_buffer s)"

definition in_rest :: "jin \<Rightarrow> bytes" where
  "in_rest s = drop (in_index s) (in_buffer s)"

lemma size_sub_le [simp]: "b \<le> a \<Longrightarrow> size_sub a b = a - b"
  by (simp add: size_sub_def)

lemma JOut_new_correct [simp]: "out_inv JOut_new" "out_msg JOut_new = []"
  by (simp_all add: JOut_new_def out_inv_def out_msg_def)

lemma JIn_make_correct [simp]: "in_inv (JIn_make d)" "in_rest (JIn_make d) = d"
  by (simp_all add: JIn_make_def JIn_SetData_def in_inv_def in_rest_def)

lemma out_msg_length [simp]: "out_inv s \<Longrightarrow> length (out_msg s) = JOut_Length s"
  by (simp add: out_inv_def out_msg_def JOut_Length_def)

lemma in_rest_length [simp]: "in_inv s \<Longrightarrow> JIn_ReadableBytes s = length (in_rest s)"
  by (simp add: in_inv_def in_rest_def JIn_ReadableBytes_def)

lemma JOut_Ensure_correct:
  assumes "out_inv s"
  shows "out_msg (JOut_EnsureWritableBytes s n) = out_msg s"
    "out_index (JOut_EnsureWritableBytes s n) = out_index s"
    "out_index s + n \<le> length (out_buffer (JOut_EnsureWritableBytes s n))"
  using assms
  by (auto simp: JOut_EnsureWritableBytes_def JOut_WriteableBytes_def out_inv_def out_msg_def
      take_vec_resize)

lemma JOut_Append_correct:
  assumes "out_inv s"
  shows "\<exists>s'. JOut_Append s data = Inr s' \<and> out_inv s' \<and> out_msg s' = out_msg s @ data"
proof -
  let ?s = "JOut_EnsureWritableBytes s (length data)"
  note e = JOut_Ensure_correct [OF assms, of "length data"]
  let ?v = "take (out_index s) (out_buffer ?s) @ data
              @ drop (out_index s + length data) (out_buffer ?s)"
  have "JOut_Append s data = Inr (?s\<lparr>out_buffer := ?v, out_index := out_index s + length data\<rparr>)"
    using e by (simp add: JOut_Append_def Let_def mem_write_ok)
  moreover have "take (out_index s) (out_buffer ?s) = out_msg s"
    using e(1,2) by (simp add: out_msg_def)
  moreover have "length (out_msg s) = out_index s"
    using assms by (simp add: JOut_Length_def)
  ultimately show ?thesis using e(3) by (simp add: out_inv_def out_msg_def)
qed

lemma JOut_Data_correct: "out_inv s \<Longrightarrow> JOut_Data s = Inr (out_msg s)"
  by (simp add: JOut_Data_def JOut_Length_def mem_read_def out_inv_def out_msg_def)

lemma JOut_Skip_correct:
  assumes "out_inv s"
  shows "out_inv (JOut_Skip s n)" "take (out_index s) (out_msg (JOut_Skip s n)) = out_msg s"
    "JOut_Length (JOut_Skip s n) = JOut_Length s + n"
    "length (out_msg (JOut_Skip s n)) = JOut_Length s + n"
  using JOut_Ensure_correct [OF assms, of n]
  by (auto simp: JOut_Skip_def Let_def out_inv_def out_msg_def JOut_Length_def min_def)

text \<open>Going back, overwriting a field and returning to the end.\<close>

lemma JOut_patch_correct:
  assumes "out_inv s" and "pos + length data \<le> JOut_Length s"
  shows "\<exists>s'. JOut_Append (JOut_Reposition s pos) data = Inr s'
    \<and> out_inv (JOut_Reposition s' (JOut_Length s))
    \<and> out_msg (JOut_Reposition s' (JOut_Length s))
        = take pos (out_msg s) @ data @ drop (pos + length data) (out_msg s)"
proof -
  have fits: "pos + length data \<le> length (out_buffer s)" "out_index s \<le> length (out_buffer s)"
    using assms by (auto simp: out_inv_def JOut_Length_def)
  then have "\<not> JOut_WriteableBytes (JOut_Reposition s pos) < length data"
    by (simp add: JOut_WriteableBytes_def JOut_Reposition_def)
  then have "JOut_Append (JOut_Reposition s pos) data = Inr (s\<lparr>out_buffer :=
      take pos (out_buffer s) @ data @ drop (pos + length data) (out_buffer s),
      out_index := pos + length data\<rparr>)"
    using fits
    by (simp add: JOut_Append_def JOut_EnsureWritableBytes_def JOut_Reposition_def mem_write_ok)
  moreover have "length (take pos (out_buffer s)) = pos" "pos \<le> out_index s"
    "pos + length data \<le> out_index s" "min pos (out_index s) = pos"
    using fits assms(2) by (auto simp: JOut_Length_def)
  ultimately show ?thesis
    using fits by (auto simp: out_inv_def out_msg_def JOut_Length_def JOut_Reposition_def drop_take)
qed

lemma JIn_read_correct:
  assumes "in_inv s" and "n \<le> length (in_rest s)"
  shows "mem_read (in_buffer s) (in_index s) n = Inr (take n (in_rest s))"
    "in_inv (s\<lparr>in_index := in_index s + n\<rparr>)"
    "in_rest (s\<lparr>in_index := in_index s + n\<rparr>) = drop n (in_rest s)"
  using assms by (auto simp: mem_read_def in_inv_def in_rest_def add.commute)

interpretation jos: byte_sink out_inv out_msg JOut_Append
  by unfold_locales (rule JOut_Append_correct)

interpretation jis: byte_source in_inv in_rest JIn_ReadBytes
proof unfold_locales
  fix s n
  assume "in_inv s" and "n \<le> length (in_rest s)"
  then show "\<exists>s'. JIn_ReadBytes s n = Inr (take n (in_rest s), s') \<and> in_inv s'
      \<and> in_rest s' = drop n (in_rest s)"
    by (simp add: JIn_ReadBytes_def JIn_read_correct)
next
  fix s n
  assume "in_inv s" and "length (in_rest s) < n"
  then show "JIn_ReadBytes s n = Inl Abort"
    by (simp add: JIn_ReadBytes_def)
qed

subsection \<open>The encoding of each value\<close>

definition enc16 :: "16 word \<Rightarrow> bytes" where
  "enc16 x = mem16 (hostToNetwork16 x)"

definition enc32 :: "32 word \<Rightarrow> bytes" where
  "enc32 x = mem32 (hostToNetwork32 x)"

definition enc_string :: "bytes \<Rightarrow> bytes" where
  "enc_string str =
     (let len = of_nat (length str) :: 16 word in enc16 len @ take (unat len) str)"

lemma length_enc [simp]: "length (enc16 x) = 2" "length (enc32 y) = 4"
  by (simp_all add: enc16_def enc32_def)

lemma unat_len16: "n < 2 ^ 16 \<Longrightarrow> unat (of_nat n :: 16 word) = n"
  by (simp add: unat_of_nat)

lemma unat_len16_le: "unat (of_nat n :: 16 word) \<le> n"
  by (simp add: unat_of_nat)

lemma enc_string_short: "length str < 2 ^ 16 \<Longrightarrow> enc_string str = enc16 (of_nat (length str)) @ str"
  by (simp add: enc_string_def unat_len16)

lemma JOut_ints:
  "JOut_uint8 s a = JOut_Append s [a]" "JOut_uint16 s b = JOut_Append s (enc16 b)"
  "JOut_uint32 s c = JOut_Append s (enc32 c)" "JOut_int8 s a = JOut_Append s [a]"
  "JOut_int16 s b = JOut_Append s (enc16 b)" "JOut_int32 s c = JOut_Append s (enc32 c)"
  "JOut_WriteBytes s d = JOut_Append s d"
  by (simp_all add: JOut_uint8_def JOut_uint16_def JOut_uint32_def JOut_int8_def JOut_int16_def
      JOut_int32_def JOut_WriteBytes_def enc16_def enc32_def)

lemma JOut_string_correct:
  assumes "out_inv s"
  shows "\<exists>s'. JOut_string s str = Inr s' \<and> out_inv s' \<and> out_msg s' = out_msg s @ enc_string str"
proof -
  let ?len = "of_nat (length str) :: 16 word"
  obtain s1 where s1: "JOut_uint16 s ?len = Inr s1" "out_inv s1" "out_msg s1 = out_msg s @ enc16 ?len"
    using jos.put_ok [OF assms, of "enc16 ?len"] by (auto simp: JOut_ints)
  have "c_str_read str (unat ?len) = Inr (take (unat ?len) str)"
    using unat_len16_le [of "length str"] by (simp add: c_str_read_def mem_read_def)
  with s1 jos.put_ok [OF s1(2), of "take (unat ?len) str"] show ?thesis
    by (auto simp: JOut_string_def enc_string_def Let_def)
qed

lemma JIn_uint16_correct:
  assumes "in_inv s" and "in_rest s = enc16 x @ r"
  shows "\<exists>s'. JIn_uint16 s = Inr (x, s') \<and> in_inv s' \<and> in_rest s' = r"
  using assms JIn_read_correct [of s 2] load16_mem16 [of "hostToNetwork16 x" "[]"]
  by (simp add: JIn_uint16_def enc16_def)

lemma JIn_uint32_correct:
  assumes "in_inv s" and "in_rest s = enc32 x @ r"
  shows "\<exists>s'. JIn_uint32 s = Inr (x, s') \<and> in_inv s' \<and> in_rest s' = r"
  using assms JIn_read_correct [of s 4] load32_mem32 [of "hostToNetwork32 x" "[]"]
  by (simp add: JIn_uint32_def enc32_def)

lemma JIn_uint8_correct:
  assumes "in_inv s" and "in_rest s = x # r"
  shows "\<exists>s'. JIn_uint8 s = Inr (x, s') \<and> in_inv s' \<and> in_rest s' = r"
  using assms JIn_read_correct [of s 1] by (simp add: JIn_uint8_def)

lemma JIn_signed:
  "JIn_int8 = JIn_uint8" "JIn_int16 = JIn_uint16" "JIn_int32 = JIn_uint32"
  by (simp_all add: fun_eq_iff JIn_int8_def JIn_uint8_def JIn_int16_def JIn_uint16_def
      JIn_int32_def JIn_uint32_def)

lemma JIn_string_correct:
  assumes "in_inv s" and "in_rest s = enc16 len @ str @ r" and "unat len = length str"
  shows "\<exists>s'. JIn_string s = Inr (str, s') \<and> in_inv s' \<and> in_rest s' = r"
proof -
  obtain s1 where s1: "JIn_uint16 s = Inr (len, s1)" "in_inv s1" "in_rest s1 = str @ r"
    using JIn_uint16_correct [OF assms(1,2)] by blast
  then show ?thesis
    using JIn_read_correct [OF s1(2), of "unat len"] assms(3) by (simp add: JIn_string_def)
qed

subsection \<open>Sequences of values\<close>

datatype jval = VUint8 byte | VUint16 "16 word" | VUint32 "32 word"
  | VInt8 byte | VInt16 "16 word" | VInt32 "32 word" | VString bytes | VBytes bytes

datatype jkind = KUint8 | KUint16 | KUint32 | KInt8 | KInt16 | KInt32 | KString | KBytes nat

fun write_val :: "jout \<Rightarrow> jval \<Rightarrow> jout res" where
  "write_val s (VUint8 x) = JOut_uint8 s x"
| "write_val s (VUint16 x) = JOut_uint16 s x"
| "write_val s (VUint32 x) = JOut_uint32 s x"
| "write_val s (VInt8 x) = JOut_int8 s x"
| "write_val s (VInt16 x) = JOut_int16 s x"
| "write_val s (VInt32 x) = JOut_int32 s x"
| "write_val s (VString x) = JOut_string s x"
| "write_val s (VBytes x) = JOut_WriteBytes s x"

fun read_val :: "jkind \<Rightarrow> jin \<Rightarrow> (jval \<times> jin) res" where
  "read_val KUint8 s = bind_res (JIn_uint8 s) (\<lambda>(x, s'). Inr (VUint8 x, s'))"
| "read_val KUint16 s = bind_res (JIn_uint16 s) (\<lambda>(x, s'). Inr (VUint16 x, s'))"
| "read_val KUint32 s = bind_res (JIn_uint32 s) (\<lambda>(x, s'). Inr (VUint32 x, s'))"
| "read_val KInt8 s = bind_res (JIn_int8 s) (\<lambda>(x, s'). Inr (VInt8 x, s'))"
| "read_val KInt16 s = bind_res (JIn_int16 s) (\<lambda>(x, s'). Inr (VInt16 x, s'))"
| "read_val KInt32 s = bind_res (JIn_int32 s) (\<lambda>(x, s'). Inr (VInt32 x, s'))"
| "read_val KString s = bind_res (JIn_string s) (\<lambda>(x, s'). Inr (VString x, s'))"
| "read_val (KBytes n) s = bind_res (JIn_ReadBytes s n) (\<lambda>(x, s'). Inr (VBytes x, s'))"

fun kind_of :: "jval \<Rightarrow> jkind" where
  "kind_of (VUint8 x) = KUint8"
| "kind_of (VUint16 x) = KUint16"
| "kind_of (VUint32 x) = KUint32"
| "kind_of (VInt8 x) = KInt8"
| "kind_of (VInt16 x) = KInt16"
| "kind_of (VInt32 x) = KInt32"
| "kind_of (VString x) = KString"
| "kind_of (VBytes x) = KBytes (length x)"

fun enc_val :: "jval \<Rightarrow> bytes" where
  "enc_val (VUint8 x) = [x]"
| "enc_val (VUint16 x) = enc16 x"
| "enc_val (VUint32 x) = enc32 x"
| "enc_val (VInt8 x) = [x]"
| "enc_val (VInt16 x) = enc16 x"
| "enc_val (VInt32 x) = enc32 x"
| "enc_val (VString x) = enc_string x"
| "enc_val (VBytes x) = x"

text \<open>What fits the 16-bit length field.\<close>

fun sendable :: "jval \<Rightarrow> bool" where
  "sendable (VString x) = (length x < 2 ^ 16)"
| "sendable _ = True"

fun write_vals :: "jout \<Rightarrow> jval list \<Rightarrow> jout res" where
  "write_vals s [] = Inr s"
| "write_vals s (v # vs) = bind_res (write_val s v) (\<lambda>s'. write_vals s' vs)"

fun read_vals :: "jkind list \<Rightarrow> jin \<Rightarrow> (jval list \<times> jin) res" where
  "read_vals [] s = Inr ([], s)"
| "read_vals (k # ks) s =
     bind_res (read_val k s) (\<lambda>(v, s1). bind_res (read_vals ks s1) (\<lambda>(vs, s2). Inr (v # vs, s2)))"

lemma write_val_correct:
  assumes "out_inv s"
  shows "\<exists>s'. write_val s v = Inr s' \<and> out_inv s' \<and> out_msg s' = out_msg s @ enc_val v"
  using jos.put_ok [OF assms] JOut_string_correct [OF assms] by (cases v) (auto simp: JOut_ints)

lemma write_vals_correct:
  "out_inv s \<Longrightarrow> \<exists>s'. write_vals s vs = Inr s' \<and> out_inv s'
     \<and> out_msg s' = out_msg s @ concat (map enc_val vs)"
proof (induction vs arbitrary: s)
  case Nil
  then show ?case by simp
next
  case (Cons v vs)
  obtain s1 where s1: "write_val s v = Inr s1" "out_inv s1" "out_msg s1 = out_msg s @ enc_val v"
    using write_val_correct [OF Cons.prems] by blast
  with Cons.IH [OF s1(2)] show ?case by auto
qed

lemma read_val_correct:
  assumes "in_inv s" and "in_rest s = enc_val v @ r" and "sendable v"
  shows "\<exists>s'. read_val (kind_of v) s = Inr (v, s') \<and> in_inv s' \<and> in_rest s' = r"
proof (cases v)
  case (VUint8 x)
  with assms JIn_uint8_correct [OF assms(1), of x r] show ?thesis by auto
next
  case (VUint16 x)
  with assms JIn_uint16_correct [OF assms(1), of x r] show ?thesis by auto
next
  case (VUint32 x)
  with assms JIn_uint32_correct [OF assms(1), of x r] show ?thesis by auto
next
  case (VInt8 x)
  with assms JIn_uint8_correct [OF assms(1), of x r] show ?thesis by (auto simp: JIn_signed)
next
  case (VInt16 x)
  with assms JIn_uint16_correct [OF assms(1), of x r] show ?thesis by (auto simp: JIn_signed)
next
  case (VInt32 x)
  with assms JIn_uint32_correct [OF assms(1), of x r] show ?thesis by (auto simp: JIn_signed)
next
  case (VString x)
  with assms JIn_string_correct [OF assms(1), of "of_nat (length x)" x r] show ?thesis
    by (auto simp: enc_string_short unat_len16)
next
  case (VBytes x)
  with assms jis.get_front [OF assms(1), of x r] show ?thesis by auto
qed

lemma read_vals_correct:
  "in_inv s \<Longrightarrow> in_rest s = concat (map enc_val vs) @ r \<Longrightarrow> list_all sendable vs \<Longrightarrow>
     \<exists>s'. read_vals (map kind_of vs) s = Inr (vs, s') \<and> in_inv s' \<and> in_rest s' = r"
proof (induction vs arbitrary: s)
  case Nil
  then show ?case by simp
next
  case (Cons v vs)
  obtain s1 where s1: "read_val (kind_of v) s = Inr (v, s1)" "in_inv s1"
    "in_rest s1 = concat (map enc_val vs) @ r"
    using read_val_correct [OF Cons.prems(1), of v] Cons.prems(2,3) by auto
  with Cons.IH [OF s1(2,3)] Cons.prems(3) show ?case by auto
qed

subsection \<open>Properties\<close>

text \<open>
  C30: any sequence of values written to a fresh output stream, strings shorter than 2^16 bytes,
  is read back value by value by an input stream over the written data, which is then at its end;
  neither side fails an assertion or leaves its buffer.
\<close>

theorem stream_roundtrip:
  assumes "list_all sendable vs"
  shows "\<exists>s data r. write_vals JOut_new vs = Inr s \<and> JOut_Data s = Inr data
    \<and> read_vals (map kind_of vs) (JIn_make data) = Inr (vs, r) \<and> in_rest r = []"
proof -
  obtain s where s: "write_vals JOut_new vs = Inr s" "out_inv s"
    "out_msg s = concat (map enc_val vs)"
    using write_vals_correct [OF JOut_new_correct(1), of vs] by auto
  moreover obtain r where "read_vals (map kind_of vs) (JIn_make (out_msg s)) = Inr (vs, r)"
    "in_rest r = []"
    using read_vals_correct [of "JIn_make (out_msg s)" vs "[]"] s(3) assms by auto
  ultimately show ?thesis using JOut_Data_correct [OF s(2)] by blast
qed

theorem stream_roundtrip_witness:
  "\<exists>s data r. write_vals JOut_new [VUint16 513, VString [65, 66], VInt32 (- 1)] = Inr s
     \<and> JOut_Data s = Inr data
     \<and> read_vals [KUint16, KString, KInt32] (JIn_make data)
         = Inr ([VUint16 513, VString [65, 66], VInt32 (- 1)], r)"
  using stream_roundtrip [of "[VUint16 513, VString [65, 66], VInt32 (- 1)]"] by auto

text \<open>
  A string of 2^16 bytes or more goes out with a wrong length: the length field holds the
  length modulo 2^16 and only that many bytes follow, so the reader gets a truncated string.
\<close>

theorem long_string_truncated:
  assumes "out_inv s"
  shows "\<exists>s'. JOut_string s str = Inr s'
    \<and> out_msg s' = out_msg s @ enc16 (of_nat (length str)) @ take (length str mod 2 ^ 16) str"
  using JOut_string_correct [OF assms, of str] by (auto simp: enc_string_def Let_def unat_of_nat)

theorem long_string_truncated_witness:
  "\<exists>s'. JOut_string JOut_new (replicate 65536 7) = Inr s' \<and> length (out_msg s') = 2"
  using long_string_truncated [OF JOut_new_correct(1), of "replicate 65536 7"] by auto

end
