(* ===== verification/Prog.thy ===== *)
theory Prog imports Prelude begin

text \<open>
  Programs of the bank server that talk to the database: functions of the outside world that
  return an outcome and the world afterwards, so that what a statement did stays done when a
  later one throws.  A \<open>try\<close> block catches a \<open>muduo::Exception\<close> and nothing else.

  The second part is \<open>bankserver/JUtil.cc\<close> and the integer conversions of \<open>std::stringstream\<close>.
  The arithmetic and the text conversions of \<open>double\<close> are arguments (the record \<open>arith\<close>): no
  property of the server depends on a law of them.
\<close>

subsection \<open>Programs\<close>

type_synonym ('w, 'a) prog = "'w \<Rightarrow> 'a res \<times> 'w"

definition ret :: "'a \<Rightarrow> ('w, 'a) prog" where
  "ret x = (\<lambda>w. (Inr x, w))"

definition raise :: "fault \<Rightarrow> ('w, 'a) prog" where
  "raise e = (\<lambda>w. (Inl e, w))"

definition lift :: "'a res \<Rightarrow> ('w, 'a) prog" where
  "lift r = (\<lambda>w. (r, w))"

definition andThen :: "('w, 'a) prog \<Rightarrow> ('a \<Rightarrow> ('w, 'b) prog) \<Rightarrow> ('w, 'b) prog" where
  "andThen m f = (\<lambda>w. case m w of (Inl e, w') \<Rightarrow> (Inl e, w') | (Inr x, w') \<Rightarrow> f x w')"

definition try_catch :: "('w, 'a) prog \<Rightarrow> (bytes \<Rightarrow> ('w, 'a) prog) \<Rightarrow> ('w, 'a) prog" where
  "try_catch m h = (\<lambda>w. case m w of (Inl (Throw e), w') \<Rightarrow> h e w' | r \<Rightarrow> r)"

named_theorems prog_simps

lemma ret_apply [prog_simps]: "ret x w = (Inr x, w)"
  by (simp add: ret_def)

lemma raise_apply [prog_simps]: "raise e w = (Inl e, w)"
  by (simp add: raise_def)

lemma lift_apply [prog_simps]: "lift r w = (r, w)"
  by (simp add: lift_def)

lemma andThen_apply [prog_simps]:
  "andThen m f w = (case m w of (r, w') \<Rightarrow> case r of Inl e \<Rightarrow> (Inl e, w') | Inr x \<Rightarrow> f x w')"
  by (simp add: andThen_def split: prod.split sum.split)

lemma try_catch_apply [prog_simps]:
  "try_catch m h w = (case m w of (r, w') \<Rightarrow> case r of Inr x \<Rightarrow> (Inr x, w')
     | Inl e \<Rightarrow> (case e of Throw s \<Rightarrow> h s w' | _ \<Rightarrow> (Inl e, w')))"
  by (auto simp: try_catch_def split: prod.split sum.split fault.split)

subsection \<open>C strings\<close>

text \<open>What a callee that takes \<open>const char*\<close> sees of \<open>s.c_str()\<close>.\<close>

definition c_str :: "bytes \<Rightarrow> bytes" where
  "c_str s = takeWhile (\<lambda>c. c \<noteq> 0) s"

text \<open>Literals: equality, and that C sees all of a literal without a NUL.\<close>

lemma of_char_inj: "(of_char c :: 8 word) = of_char d \<longleftrightarrow> c = d"
proof
  assume "(of_char c :: 8 word) = of_char d"
  then have b: "bit (of_char c :: 8 word) n = bit (of_char d :: 8 word) n" for n by simp
  show "c = d"
    using b [of 0] b [of 1] b [of 2] b [of 3] b [of 4] b [of 5] b [of 6] b [of 7]
    unfolding of_char_def bit_horner_sum_bit_word_iff by (cases c; cases d) simp
qed simp

lemma lit_eq: "lit s = lit t \<longleftrightarrow> s = t"
  by (simp add: lit_def inj_map_eq_map inj_on_def of_char_inj)

lemma of_char_0: "(of_char c :: 8 word) = 0 \<longleftrightarrow> c = CHR 0x00"
  using of_char_inj [of c "CHR 0x00"] by (simp add: of_char_def)

lemma c_str_lit: "CHR 0x00 \<notin> set s \<Longrightarrow> c_str (lit s) = lit s"
  by (induction s) (auto simp: c_str_def lit_def of_char_0)

lemma c_str_hd: "xs \<noteq> [] \<Longrightarrow> hd xs \<noteq> 0 \<Longrightarrow> c_str xs \<noteq> [] \<and> hd (c_str xs) = hd xs"
  by (cases xs) (auto simp: c_str_def)

subsection \<open>Integers as text\<close>

function dec_digits :: "nat \<Rightarrow> bytes" where
  "dec_digits n =
     (if n < 10 then [of_nat (48 + n)] else dec_digits (n div 10) @ [of_nat (48 + n mod 10)])"
  by pat_completeness auto
termination
  by (relation "measure id") auto

declare dec_digits.simps [simp del]

text \<open>\<open>ss << x\<close> for an \<open>int\<close>.\<close>

definition dec_int :: "32 word \<Rightarrow> bytes" where
  "dec_int x = (if sint x < 0 then 45 # dec_digits (nat (- sint x)) else dec_digits (nat (sint x)))"

definition is_space :: "byte \<Rightarrow> bool" where
  "is_space c \<longleftrightarrow> c = 32 \<or> (9 \<le> c \<and> c \<le> 13)"

definition is_digit :: "byte \<Rightarrow> bool" where
  "is_digit c \<longleftrightarrow> 48 \<le> c \<and> c \<le> 57"

definition digits_value :: "bytes \<Rightarrow> nat" where
  "digits_value = foldl (\<lambda>v c. 10 * v + (unat c - 48)) 0"

text \<open>
  \<open>ss >> x\<close> for an integer type with the bounds \<open>lo\<close> and \<open>hi\<close>: blanks, a sign, digits.  A stream
  that holds only blanks leaves \<open>x\<close> as it was (\<open>None\<close>); otherwise no digit gives zero, and a value
  out of range the nearest bound.
\<close>

definition parse_int :: "int \<Rightarrow> int \<Rightarrow> bytes \<Rightarrow> int option" where
  "parse_int lo hi s =
     (let s = dropWhile is_space s in
      if s = [] then None
      else let neg = (hd s = 45);
               s = (if hd s = 45 \<or> hd s = 43 then tl s else s);
               v = int (digits_value (takeWhile is_digit s));
               v = (if neg then - v else v)
           in Some (max lo (min hi v)))"

text \<open>\<open>x0\<close> is what the uninitialised variable \<open>x\<close> held.\<close>

definition ss_int :: "32 word \<Rightarrow> bytes \<Rightarrow> 32 word" where
  "ss_int x0 str = (case parse_int (- (2 ^ 31)) (2 ^ 31 - 1) str of Some v \<Rightarrow> word_of_int v | None \<Rightarrow> x0)"

definition StringToInt :: "32 word \<Rightarrow> bytes \<Rightarrow> 32 word" where
  "StringToInt x0 str = ss_int x0 str"

text \<open>\<open>ss >> str\<close>: the first word of the text.\<close>

definition first_word :: "bytes \<Rightarrow> bytes" where
  "first_word s = takeWhile (\<lambda>c. \<not> is_space c) (dropWhile is_space s)"

definition IntToString :: "32 word \<Rightarrow> bytes" where
  "IntToString x = first_word (dec_int x)"

subsection \<open>Doubles\<close>

text \<open>
  \<open>dbl_in x0\<close> is \<open>ss >> x\<close> where \<open>x\<close> held \<open>x0\<close>, \<open>dbl_0_0035\<close> is the literal, \<open>dbl_fixed2\<close> is \<open>ss << setprecision(2) << setiosflags(ios::fixed) << x\<close>,
  \<open>dbl_out\<close> is \<open>ss << x\<close> on a fresh stream.
\<close>

record 'd arith =
  dbl_add :: "'d \<Rightarrow> 'd \<Rightarrow> 'd"
  dbl_sub :: "'d \<Rightarrow> 'd \<Rightarrow> 'd"
  dbl_gt :: "'d \<Rightarrow> 'd \<Rightarrow> bool"
  dbl_in :: "'d \<Rightarrow> bytes \<Rightarrow> 'd"
  dbl_fixed2 :: "'d \<Rightarrow> bytes"
  dbl_out :: "'d \<Rightarrow> bytes"
  dbl_0_0035 :: "'d"

definition StringToDouble :: "'d arith \<Rightarrow> 'd \<Rightarrow> bytes \<Rightarrow> 'd" where
  "StringToDouble A x0 str = dbl_in A x0 str"

definition DoubleToString :: "'d arith \<Rightarrow> 'd \<Rightarrow> bytes" where
  "DoubleToString A x = first_word (dbl_fixed2 A x)"

subsection \<open>Round trip of integers\<close>

lemma dec_digits_digit: "c \<in> set (dec_digits n) \<Longrightarrow> is_digit c"
proof (induction n rule: dec_digits.induct)
  case (1 n)
  have d: "is_digit (of_nat (48 + k))" if "k < 10" for k
    using that by (simp add: is_digit_def word_le_nat_alt unat_of_nat del: of_nat_add)
  show ?case
    using 1 d [of n] d [of "n mod 10"] by (subst (asm) (2) dec_digits.simps) (auto split: if_splits)
qed

lemma digits_value_snoc: "digits_value (xs @ [c]) = 10 * digits_value xs + (unat c - 48)"
  by (simp add: digits_value_def)

lemma digits_value_dec: "digits_value (dec_digits n) = n"
proof (induction n rule: dec_digits.induct)
  case (1 n)
  have u: "unat (of_nat (48 + k) :: byte) - 48 = k" if "k < 10" for k
    using that by (simp add: unat_of_nat del: of_nat_add)
  show ?case
  proof (cases "n < 10")
    case True
    then show ?thesis
      using u [OF True] by (subst dec_digits.simps) (simp add: digits_value_def del: of_nat_add)
  next
    case False
    then show ?thesis
      using 1 u [of "n mod 10"] by (subst dec_digits.simps) (simp add: digits_value_snoc del: of_nat_add)
  qed
qed

lemma dec_digits_length: "n < 10 ^ Suc k \<Longrightarrow> length (dec_digits n) \<le> Suc k"
proof (induction k arbitrary: n)
  case 0
  then show ?case by (simp add: dec_digits.simps)
next
  case (Suc k)
  then have "n div 10 < 10 ^ Suc k" by (simp add: less_mult_imp_div_less mult.commute)
  then show ?case using Suc.IH [of "n div 10"] by (subst dec_digits.simps) simp
qed

lemma dec_digits_not_Nil: "dec_digits n \<noteq> []"
  by (subst dec_digits.simps) simp

lemma digit_not_space: "is_digit c \<Longrightarrow> \<not> is_space c \<and> c \<noteq> 45 \<and> c \<noteq> 43"
  by (auto simp: is_digit_def is_space_def word_le_nat_alt)

lemma takeWhile_all: "(\<And>x. x \<in> set xs \<Longrightarrow> P x) \<Longrightarrow> takeWhile P xs = xs"
  by (induction xs) auto

lemma first_word_no_space: "(\<And>c. c \<in> set s \<Longrightarrow> \<not> is_space c) \<Longrightarrow> first_word s = s"
  by (cases s) (auto simp: first_word_def takeWhile_all)

lemma dec_int_no_space: "c \<in> set (dec_int x) \<Longrightarrow> \<not> is_space c"
  using dec_digits_digit digit_not_space
  by (fastforce simp: dec_int_def is_space_def split: if_splits)

lemma first_word_dec_int: "first_word (dec_int x) = dec_int x"
  by (rule first_word_no_space) (rule dec_int_no_space)

lemma parse_dec_int: "parse_int (- (2 ^ 31)) (2 ^ 31 - 1) (dec_int x) = Some (sint x)"
proof -
  have "sint x < 2 ^ 31" "- (2 ^ 31) \<le> sint x"
    using sint_lt [of x] sint_ge [of x] by simp_all
  then have clamp: "max (- (2 ^ 31)) (min (2 ^ 31 - 1) (sint x)) = sint x" by simp
  have ds: "takeWhile is_digit (dec_digits n) = dec_digits n" for n
    by (rule takeWhile_all) (rule dec_digits_digit)
  have keep: "dropWhile is_space (dec_int x) = dec_int x"
    using dec_int_no_space [of _ x] by (cases "dec_int x") auto
  show ?thesis
  proof (cases "sint x < 0")
    case True
    then show ?thesis
      using clamp unfolding parse_int_def keep
      by (simp add: dec_int_def Let_def ds digits_value_dec)
  next
    case False
    have "hd (dec_digits (nat (sint x))) \<in> set (dec_digits (nat (sint x)))"
      using dec_digits_not_Nil by simp
    then have "hd (dec_digits (nat (sint x))) \<noteq> 45 \<and> hd (dec_digits (nat (sint x))) \<noteq> 43"
      using dec_digits_digit digit_not_space by blast
    then show ?thesis
      using False clamp unfolding parse_int_def keep
      by (simp add: dec_int_def Let_def ds digits_value_dec dec_digits_not_Nil)
  qed
qed

text \<open>
  A C++ int survives the conversion to text and back, at every value including the two bounds,
  through the stringstreams of
  IntToString and StringToInt, whatever the uninitialised variable of the latter held.
\<close>

theorem IntToString_StringToInt: "StringToInt x0 (IntToString x) = x"
  unfolding IntToString_def StringToInt_def ss_int_def
  by (simp only: first_word_dec_int parse_dec_int) simp

end
