(* ===== verification/BankSession.thy ===== *)
theory BankSession imports MD5 IdeaCfb Streams Prog begin

text \<open>
  \<open>bankserver/BankSession\<close>: the buffer one request is copied to, its check against the hash in its
  last eight bytes, and the output stream the answer goes to.  Then the parts that all commands
  share: the key derivation of the password cipher, the head of an answer and its tail with the
  length field and the hash.

  Uninitialised contexts of \<open>MD5\<close> and \<open>Idea\<close> objects do not influence results (\<open>MD5Make_rfc\<close>,
  \<open>Idea_Crypt_roundtrip\<close>); they stand as fixed values here.
\<close>

subsection \<open>Requests\<close>

record bank_session =
  bs_buffer :: bytes
  bs_jos :: jout

text \<open>\<open>mem\<close> is what the memory of \<open>buffer_[2048]\<close> held.\<close>

definition BankSession_new :: "bytes \<Rightarrow> bank_session" where
  "BankSession_new mem = \<lparr>bs_buffer = take 2048 mem, bs_jos = JOut_new\<rparr>"

definition SetData :: "bank_session \<Rightarrow> bytes \<Rightarrow> nat \<Rightarrow> bank_session res" where
  "SetData s data len =
     bind_res (mem_read data 0 len) (\<lambda>src.
     bind_res (mem_write (bs_buffer s) 0 src) (\<lambda>b. Inr (s\<lparr>bs_buffer := b\<rparr>)))"

definition GetCmd :: "bank_session \<Rightarrow> 16 word" where
  "GetCmd s = load16 (bs_buffer s)"

definition GetLen :: "bank_session \<Rightarrow> 16 word" where
  "GetLen s = load16 (drop 2 (bs_buffer s))"

definition md5_stack :: md5_ctx where
  "md5_stack = \<lparr>md_buf = (0, 0, 0, 0), md_bits = (0, 0), md_in = replicate 64 0\<rparr>"

definition idea_stack :: idea_cfb where
  "idea_stack = \<lparr>oldcipher = replicate 8 0, cfb_iv = replicate 8 0, cfb_key = replicate 52 0, bufleft = 0\<rparr>"

text \<open>
  The loop that folds the sixteen bytes of a digest into eight, mixed with bits of the command;
  pass \<open>i\<close> reads \<open>hash[i]\<close> and \<open>hash[i+8]\<close> and writes \<open>hash[i]\<close>.
\<close>

definition cmd_byte :: "16 word \<Rightarrow> nat \<Rightarrow> byte" where
  "cmd_byte cmd i = ucast (drop_bit (i mod 2) cmd AND 0xff)"

definition fold_hash :: "16 word \<Rightarrow> bytes \<Rightarrow> bytes" where
  "fold_hash cmd hash = map (\<lambda>i. (hash ! i XOR hash ! (i + 8)) XOR cmd_byte cmd i) [0..<8]"

definition bad_packet :: bytes where
  "bad_packet = [0xb4, 0xed, 0xce, 0xf3, 0xb5, 0xc4, 0xca, 0xfd, 0xbe, 0xdd, 0xb0, 0xfc]"

text \<open>
  \<open>sizeof(RequestHead)+len-8\<close> is a \<open>size_t\<close> that \<open>MD5Make\<close> takes as an \<open>unsigned\<close>; the address of
  the hash lies before the buffer when \<open>len\<close> is less than 4.
\<close>

definition Parse :: "bank_session \<Rightarrow> bank_session res" where
  "Parse s =
     (let cmd = networkToHost16 (load16 (bs_buffer s));
          len = networkToHost16 (load16 (drop 2 (bs_buffer s)))
      in bind_res (MD5Make md5_stack (bs_buffer s) (4 + ucast len - 8)) (\<lambda>hash.
         let hash = fold_hash cmd hash in
         bind_res (if 8 \<le> 4 + unat len then mem_read (bs_buffer s) (4 + unat len - 8) 8
                   else Inl OutOfBounds) (\<lambda>tail.
         if hash \<noteq> tail then Inl (Throw bad_packet)
         else bind_res (mem_write (bs_buffer s) 0 (mem16 cmd @ mem16 len)) (\<lambda>b.
              Inr (s\<lparr>bs_buffer := b\<rparr>)))))"

text \<open>\<open>JInStream jis(session.GetRequestPack()->buf, session.GetRequestPack()->head.len)\<close>.\<close>

definition request_stream :: "bank_session \<Rightarrow> jin res" where
  "request_stream s = bind_res (mem_read (bs_buffer s) 4 (unat (GetLen s))) (\<lambda>d. Inr (JIn_make d))"

subsection \<open>Passwords\<close>

definition idea_key :: "16 word \<Rightarrow> bytes res" where
  "idea_key cmd =
     (let buf = [ucast (drop_bit 8 cmd AND 0xff), ucast (cmd AND 0xff)] in
      bind_res (MD5Make md5_stack buf 2) (\<lambda>k.
      let front = map (\<lambda>i. (k ! i XOR k ! (i + 8)) XOR cmd_byte cmd i) [0..<8];
          back = map (\<lambda>i. (front ! i XOR k ! (i + 8)) XOR cmd_byte cmd i) [0..<8]
      in Inr (front @ back)))"

definition decrypt_pass :: "bytes \<Rightarrow> bytes \<Rightarrow> bytes res" where
  "decrypt_pass key encryptedPass =
     bind_res (Idea_Crypt idea_stack key encryptedPass 16 False) (\<lambda>(_, pass). Inr pass)"

subsection \<open>Answers\<close>

text \<open>\<open>char error_msg[31] = {0}\<close> after \<open>strcpy\<close>.\<close>

definition msg_array :: "bytes \<Rightarrow> bytes" where
  "msg_array m = m @ replicate (31 - length m) 0"

definition sizeof_ResponseHead :: nat where
  "sizeof_ResponseHead = 40"

definition resp_head ::
  "jout \<Rightarrow> 16 word \<Rightarrow> 16 word \<Rightarrow> 16 word \<Rightarrow> 16 word \<Rightarrow> bytes \<Rightarrow> (jout \<times> nat) res" where
  "resp_head jos cmd cnt seq error_code error_msg =
     bind_res (JOut_uint16 jos cmd) (\<lambda>jos.
     let lengthPos = JOut_Length jos; jos = JOut_Skip jos 2 in
     bind_res (JOut_uint16 jos cnt) (\<lambda>jos.
     bind_res (JOut_uint16 jos seq) (\<lambda>jos.
     bind_res (JOut_int16 jos error_code) (\<lambda>jos.
     bind_res (mem_read (msg_array error_msg) 0 30) (\<lambda>m.
     bind_res (JOut_WriteBytes jos m) (\<lambda>jos. Inr (jos, lengthPos)))))))"

definition resp_tail :: "jout \<Rightarrow> 16 word \<Rightarrow> nat \<Rightarrow> jout res" where
  "resp_tail jos cmd lengthPos =
     (let tailPos = JOut_Length jos; jos = JOut_Reposition jos lengthPos in
      bind_res (JOut_uint16 jos (of_nat (size_sub (tailPos + 8) sizeof_ResponseHead))) (\<lambda>jos.
      let jos = JOut_Reposition jos tailPos in
      bind_res (JOut_Data jos) (\<lambda>data.
      bind_res (MD5Make md5_stack data (of_nat (JOut_Length jos))) (\<lambda>hash.
      JOut_WriteBytes jos (fold_hash cmd hash)))))"

subsection \<open>What an answer is\<close>

definition answer_head :: "16 word \<Rightarrow> 16 word \<Rightarrow> 16 word \<Rightarrow> 16 word \<Rightarrow> 16 word \<Rightarrow> bytes \<Rightarrow> bytes" where
  "answer_head cmd len cnt seq err msg =
     enc16 cmd @ enc16 len @ enc16 cnt @ enc16 seq @ enc16 err @ take 30 (msg_array msg)"

text \<open>A sealed message: followed by the folded digest of all its bytes.\<close>

definition seal :: "16 word \<Rightarrow> bytes \<Rightarrow> bytes" where
  "seal cmd msg = msg @ fold_hash cmd (rfc_md5 msg)"

definition answer :: "16 word \<Rightarrow> 16 word \<Rightarrow> 16 word \<Rightarrow> 16 word \<Rightarrow> bytes \<Rightarrow> bytes \<Rightarrow> bytes" where
  "answer cmd cnt seq err msg body =
     seal cmd (answer_head cmd (of_nat (length body + 8)) cnt seq err msg @ body)"

end
