(* ===== verification/Protocol.thy ===== *)
theory Protocol imports BankSession begin

text \<open>
  Correctness of the bank protocol's packets: what \<open>Parse\<close> accepts, and the bytes \<open>resp_head\<close> and
  \<open>resp_tail\<close> produce around a body.
\<close>

lemma MD5Make_stack: "unat len \<le> length buf \<Longrightarrow> MD5Make md5_stack buf len = Inr (rfc_md5 (take (unat len) buf))"
  using absorbed_Update [OF absorbed_Init, of md5_stack len buf] MD5Final_absorbed
  by (auto simp: MD5Make_def md5_stack_def)

lemma MD5Make_short: "length buf < unat len \<Longrightarrow> MD5Make ctx buf len = Inl OutOfBounds"
  by (simp add: MD5Make_def MD5Update_def)

lemma length_fold_hash [simp]: "length (fold_hash cmd h) = 8"
  by (simp add: fold_hash_def)

subsection \<open>Answers\<close>

lemma length_msg_array: "30 \<le> length (msg_array m)"
  by (simp add: msg_array_def)

lemma resp_head_correct:
  assumes "out_inv jos"
  shows "\<exists>jos' gap. resp_head jos cmd cnt seq err msg = Inr (jos', JOut_Length jos + 2) \<and> out_inv jos' \<and>
     length gap = 2 \<and> out_msg jos' =
       out_msg jos @ enc16 cmd @ gap @ enc16 cnt @ enc16 seq @ enc16 err @ take 30 (msg_array msg)"
proof -
  obtain j1 where j1: "JOut_uint16 jos cmd = Inr j1" "out_inv j1" "out_msg j1 = out_msg jos @ enc16 cmd"
    using jos.put_ok [OF assms, of "enc16 cmd"] by (auto simp: JOut_ints)
  have l1: "JOut_Length j1 = JOut_Length jos + 2"
    using j1 assms by (metis length_append length_enc(1) out_msg_length)
  let ?j2 = "JOut_Skip j1 2"
  note sk = JOut_Skip_correct [OF j1(2), of 2]
  have "out_index j1 = JOut_Length j1" by (simp add: JOut_Length_def)
  then have j2: "out_msg ?j2 = out_msg j1 @ drop (JOut_Length j1) (out_msg ?j2)"
    using sk(2) by (metis append_take_drop_id)
  obtain j3 where j3: "JOut_uint16 ?j2 cnt = Inr j3" "out_inv j3" "out_msg j3 = out_msg ?j2 @ enc16 cnt"
    using jos.put_ok [OF sk(1), of "enc16 cnt"] by (auto simp: JOut_ints)
  obtain j4 where j4: "JOut_uint16 j3 seq = Inr j4" "out_inv j4" "out_msg j4 = out_msg j3 @ enc16 seq"
    using jos.put_ok [OF j3(2), of "enc16 seq"] by (auto simp: JOut_ints)
  obtain j5 where j5: "JOut_int16 j4 err = Inr j5" "out_inv j5" "out_msg j5 = out_msg j4 @ enc16 err"
    using jos.put_ok [OF j4(2), of "enc16 err"] by (auto simp: JOut_ints)
  let ?m = "take 30 (msg_array msg)"
  obtain j6 where j6: "JOut_WriteBytes j5 ?m = Inr j6" "out_inv j6" "out_msg j6 = out_msg j5 @ ?m"
    using jos.put_ok [OF j5(2), of ?m] by (auto simp: JOut_ints)
  have "resp_head jos cmd cnt seq err msg = Inr (j6, JOut_Length jos + 2)"
    using j1(1) j3(1) j4(1) j5(1) j6(1) l1 length_msg_array [of msg]
    by (simp add: resp_head_def mem_read_ok Let_def)
  moreover have "length (drop (JOut_Length j1) (out_msg ?j2)) = 2" using sk(4) by simp
  ultimately show ?thesis
    using j6 j5(3) j4(3) j3(3) j2 j1(3) by (metis append_assoc)
qed

lemma resp_tail_correct:
  assumes "out_inv jos" and "pos + 2 \<le> JOut_Length jos" and "40 \<le> JOut_Length jos" "JOut_Length jos < 2 ^ 32"
  shows "\<exists>jos'. resp_tail jos cmd pos = Inr jos' \<and> out_inv jos' \<and>
     out_msg jos' = seal cmd (take pos (out_msg jos) @ enc16 (of_nat (JOut_Length jos - 32)) @
                      drop (pos + 2) (out_msg jos))"
proof -
  let ?n = "JOut_Length jos" and ?len = "of_nat (JOut_Length jos - 32) :: 16 word"
  define m where "m = take pos (out_msg jos) @ enc16 ?len @ drop (pos + 2) (out_msg jos)"
  obtain j1 where j1: "JOut_Append (JOut_Reposition jos pos) (enc16 ?len) = Inr j1"
      "out_inv (JOut_Reposition j1 ?n)" "out_msg (JOut_Reposition j1 ?n) = m"
    using JOut_patch_correct [OF assms(1), of pos "enc16 ?len"] assms(2) by (auto simp: m_def)
  let ?j2 = "JOut_Reposition j1 ?n"
  have n: "JOut_Length ?j2 = ?n" by (simp add: JOut_Length_def JOut_Reposition_def)
  have lm: "length m = ?n" using j1(2,3) n by (metis out_msg_length)
  have "unat (of_nat ?n :: u32) = ?n" using assms(4) by (simp add: unat_of_nat)
  then have "MD5Make md5_stack m (of_nat ?n) = Inr (rfc_md5 m)"
    using MD5Make_stack [of "of_nat ?n" m] lm by (simp only: take_all order_refl)
  moreover obtain j3 where "JOut_WriteBytes ?j2 (fold_hash cmd (rfc_md5 m)) = Inr j3" "out_inv j3"
      "out_msg j3 = m @ fold_hash cmd (rfc_md5 m)"
    using jos.put_ok [OF j1(2), of "fold_hash cmd (rfc_md5 m)"] j1(3) by (auto simp: JOut_ints)
  moreover have "size_sub (?n + 8) sizeof_ResponseHead = ?n - 32"
    using assms(3) by (simp add: sizeof_ResponseHead_def)
  ultimately show ?thesis
    unfolding m_def [symmetric] seal_def using j1(1) JOut_Data_correct [OF j1(2)] j1(3) n
    by (simp add: resp_tail_def Let_def JOut_ints)
qed

text \<open>Head, body and tail together, behind what the stream already holds.\<close>

lemma answer_correct:
  assumes "out_inv jos" and "resp_head jos cmd cnt seq err msg = Inr (j1, pos)"
    and "out_inv j2" "out_msg j2 = out_msg j1 @ body"
    and "length (out_msg jos) + length body + 40 < 2 ^ 32"
  shows "\<exists>j3. resp_tail j2 cmd pos = Inr j3 \<and> out_inv j3 \<and>
     out_msg j3 = seal cmd (out_msg jos @
        answer_head cmd (of_nat (length (out_msg jos) + length body + 8)) cnt seq err msg @ body)"
proof -
  obtain gap where h: "pos = JOut_Length jos + 2" "length gap = 2" "out_msg j1 =
       out_msg jos @ enc16 cmd @ gap @ enc16 cnt @ enc16 seq @ enc16 err @ take 30 (msg_array msg)"
    using resp_head_correct [OF assms(1), of cmd cnt seq err msg] assms(2) by auto
  let ?rest = "enc16 cnt @ enc16 seq @ enc16 err @ take 30 (msg_array msg) @ body"
  have m: "out_msg j2 = (out_msg jos @ enc16 cmd) @ gap @ ?rest" using h(3) assms(4) by simp
  have lp: "length (out_msg jos @ enc16 cmd) = pos" using h(1) assms(1) by simp
  have n: "JOut_Length j2 = length (out_msg jos) + length body + 40"
    using assms(3) m h(2) length_msg_array [of msg]
    by (simp add: min_def flip: out_msg_length)
  have "pos + 2 \<le> JOut_Length j2" using lp n by simp
  then obtain j3 where "resp_tail j2 cmd pos = Inr j3" "out_inv j3"
      "out_msg j3 = seal cmd (take pos (out_msg j2) @ enc16 (of_nat (JOut_Length j2 - 32)) @
                      drop (pos + 2) (out_msg j2))"
    using resp_tail_correct [OF assms(3), of pos cmd] n assms(5) by auto
  moreover have "take pos (out_msg j2) = out_msg jos @ enc16 cmd"
    unfolding m using lp by (metis append_eq_conv_conj)
  moreover have "drop (pos + 2) (out_msg j2) = ?rest"
  proof -
    have "drop (pos + 2) (out_msg j2) = drop 2 (drop pos (out_msg j2))" by (simp add: add.commute)
    also have "drop pos (out_msg j2) = gap @ ?rest" unfolding m using lp by (metis append_eq_conv_conj)
    finally show ?thesis using h(2) by simp
  qed
  moreover have "JOut_Length j2 - 32 = length (out_msg jos) + length body + 8" using n by simp
  ultimately have "out_msg j3 = seal cmd (out_msg jos @
      answer_head cmd (of_nat (length (out_msg jos) + length body + 8)) cnt seq err msg @ body)"
    by (simp only: answer_head_def append_assoc)
  then show ?thesis using \<open>resp_tail j2 cmd pos = Inr j3\<close> \<open>out_inv j3\<close> by blast
qed

subsection \<open>Requests\<close>

lemma mem16_byteorder: "hostToNetwork16 (networkToHost16 x) = x"
  unfolding networkToHost16_def hostToNetwork16_def
  by (rule word16_eqI) (simp add: bit_enum)

lemma parse_count:
  "unat (4 + ucast (len :: 16 word) - 8 :: u32) = (if 4 \<le> unat len then unat len - 4 else unat len + 2 ^ 32 - 4)"
proof -
  have l: "unat len < 65536" by (rule u16_less)
  have e: "(4 + ucast len - 8 :: u32) = ucast len - 4" by simp
  have u: "unat (ucast len :: u32) = unat len" using l
    by (simp add: unsigned_ucast_eq take_bit_nat_eq_self_iff)
  show ?thesis
    unfolding e by (simp add: unat_sub_if_size word_size u)
qed


text \<open>
  Exactly what \<open>Parse\<close> does on a full buffer: the length field says where the hash is; a packet
  whose hash does not fit is refused with an exception, one whose length field is less than 4 or
  reaches behind the buffer makes the code read outside it.
\<close>

lemma Parse_exact:
  assumes "length (bs_buffer s) = 2048"
  defines "cmd \<equiv> networkToHost16 (load16 (bs_buffer s))"
    and "len \<equiv> networkToHost16 (load16 (drop 2 (bs_buffer s)))"
  shows "Parse s =
    (if unat len < 4 \<or> 2044 < unat len then Inl OutOfBounds
     else if fold_hash cmd (rfc_md5 (take (unat len - 4) (bs_buffer s)))
               \<noteq> take 8 (drop (unat len - 4) (bs_buffer s))
     then Inl (Throw bad_packet)
     else Inr (s\<lparr>bs_buffer := mem16 cmd @ mem16 len @ drop 4 (bs_buffer s)\<rparr>))"
proof -
  note count = parse_count [of len]
  have P: "Parse s = bind_res (MD5Make md5_stack (bs_buffer s) (4 + ucast len - 8)) (\<lambda>hash.
         let hash = fold_hash cmd hash in
         bind_res (if 8 \<le> 4 + unat len then mem_read (bs_buffer s) (4 + unat len - 8) 8
                   else Inl OutOfBounds) (\<lambda>tail.
         if hash \<noteq> tail then Inl (Throw bad_packet)
         else bind_res (mem_write (bs_buffer s) 0 (mem16 cmd @ mem16 len)) (\<lambda>b.
              Inr (s\<lparr>bs_buffer := b\<rparr>))))"
    by (simp only: Parse_def Let_def cmd_def len_def)
  consider "unat len < 4" | "2044 < unat len" | "4 \<le> unat len" "unat len \<le> 2044" by linarith
  then show ?thesis
  proof cases
    case 1
    then have "MD5Make md5_stack (bs_buffer s) (4 + ucast len - 8) = Inl OutOfBounds"
      using assms(1) count by (intro MD5Make_short) simp
    then show ?thesis using 1 unfolding P by simp
  next
    case 2
    show ?thesis
    proof (cases "2048 < unat len - 4")
      case True
      then have "MD5Make md5_stack (bs_buffer s) (4 + ucast len - 8) = Inl OutOfBounds"
        using assms(1) count by (intro MD5Make_short) simp
      then show ?thesis using 2 unfolding P by simp
    next
      case False
      then show ?thesis
        using 2 assms(1) count unfolding P by (simp add: MD5Make_stack mem_read_def Let_def)
    qed
  next
    case 3
    then have "MD5Make md5_stack (bs_buffer s) (4 + ucast len - 8)
        = Inr (rfc_md5 (take (unat len - 4) (bs_buffer s)))"
      using assms(1) count by (subst MD5Make_stack) simp_all
    moreover have "mem_read (bs_buffer s) (4 + unat len - 8) 8
        = Inr (take 8 (drop (unat len - 4) (bs_buffer s)))"
      using 3 assms(1) by (subst mem_read_ok) simp_all
    ultimately show ?thesis
      using 3 assms(1) unfolding P by (simp add: mem_write_ok Let_def)
  qed
qed

text \<open>The packet a client sends: head, body, and the hash counted in the length field.\<close>

definition request :: "16 word \<Rightarrow> bytes \<Rightarrow> bytes" where
  "request cmd body = seal cmd (enc16 cmd @ enc16 (of_nat (length body + 8)) @ body)"

lemma length_request: "length (request cmd body) = length body + 12"
  by (simp add: request_def seal_def)


lemma unseal16: "networkToHost16 (load16 (enc16 x @ r)) = x"
  by (simp add: enc16_def)

lemma Parse_accepts:
  assumes "bs_buffer s = request cmd body @ rest" and "length (bs_buffer s) = 2048"
  shows "\<exists>s'. Parse s = Inr s' \<and> GetCmd s' = cmd \<and> unat (GetLen s') = length body + 8 \<and>
     bs_jos s' = bs_jos s \<and> length (bs_buffer s') = 2048 \<and>
     (\<exists>hash. length hash = 8 \<and> request_stream s' = Inr (JIn_make (body @ hash)))"
proof -
  define len :: "16 word" where "len = of_nat (length body + 8)"
  define hash where "hash = fold_hash cmd (rfc_md5 (enc16 cmd @ enc16 len @ body))"
  have lb: "length body + 12 \<le> 2048" using assms by (simp add: length_request)
  then have ul: "unat len = length body + 8" by (simp add: len_def unat_of_nat del: of_nat_add)
  have buf: "bs_buffer s = enc16 cmd @ enc16 len @ body @ hash @ rest"
    using assms(1) by (simp add: request_def seal_def len_def hash_def)
  have cmd: "networkToHost16 (load16 (bs_buffer s)) = cmd" unfolding buf by (rule unseal16)
  have len: "networkToHost16 (load16 (drop 2 (bs_buffer s))) = len"
  proof -
    have "drop 2 (bs_buffer s) = enc16 len @ body @ hash @ rest"
      unfolding buf by (rule drop_append_exact) simp
    then show ?thesis by (simp only: unseal16)
  qed
  have front: "bs_buffer s = (enc16 cmd @ enc16 len @ body) @ hash @ rest" using buf by simp
  have lf: "length (enc16 cmd @ enc16 len @ body) = unat len - 4" using ul by simp
  have "take (unat len - 4) (bs_buffer s) = enc16 cmd @ enc16 len @ body"
    unfolding front by (rule take_append_exact [OF lf])
  moreover have "take 8 (drop (unat len - 4) (bs_buffer s)) = hash"
  proof -
    have "drop (unat len - 4) (bs_buffer s) = hash @ rest"
      unfolding front by (rule drop_append_exact [OF lf])
    then show ?thesis by (simp add: hash_def)
  qed
  moreover have "drop 4 (bs_buffer s) = body @ hash @ rest"
  proof -
    have "bs_buffer s = (enc16 cmd @ enc16 len) @ body @ hash @ rest" using buf by simp
    then show ?thesis by (simp only:) (rule drop_append_exact, simp)
  qed
  ultimately have P: "Parse s = Inr (s\<lparr>bs_buffer := mem16 cmd @ mem16 len @ body @ hash @ rest\<rparr>)"
    unfolding Parse_exact [OF assms(2)] cmd len using ul lb by (simp add: hash_def)
  let ?s = "s\<lparr>bs_buffer := mem16 cmd @ mem16 len @ body @ hash @ rest\<rparr>"
  have "GetLen ?s = len" by (simp add: GetLen_def)
  moreover have "mem_read (mem16 cmd @ mem16 len @ body @ hash @ rest) 4 (length body + 8) = Inr (body @ hash)"
    by (simp add: mem_read_def hash_def)
  ultimately have "request_stream ?s = Inr (JIn_make (body @ hash))"
    using ul by (simp add: request_stream_def)
  moreover have "GetCmd ?s = cmd" by (simp add: GetCmd_def)
  moreover have "length (bs_buffer ?s) = 2048" using assms(2) buf by simp
  moreover have "length hash = 8" by (simp add: hash_def)
  ultimately show ?thesis using P ul \<open>GetLen ?s = len\<close> by auto
qed

text \<open>
  The server accepts every well-formed request that fits its buffer: after Parse the command
  and the length stand in the head in host order and the commands read exactly the client's body
  (followed by the eight hash bytes, which the length counts).
\<close>

theorem Parse_request:
  assumes "bs_buffer s = request cmd body @ rest" and "length (bs_buffer s) = 2048"
  shows "\<exists>s'. Parse s = Inr s' \<and> GetCmd s' = cmd \<and> unat (GetLen s') = length body + 8 \<and>
     bs_jos s' = bs_jos s \<and> length (bs_buffer s') = 2048 \<and>
     (\<exists>hash. length hash = 8 \<and> request_stream s' = Inr (JIn_make (body @ hash)))"
  using assms by (rule Parse_accepts)

theorem Parse_request_witness:
  "\<exists>s'. Parse \<lparr>bs_buffer = request 6 (replicate 22 65) @ replicate 2014 0, bs_jos = JOut_new\<rparr> = Inr s' \<and>
     GetCmd s' = 6"
  using Parse_request [of "\<lparr>bs_buffer = request 6 (replicate 22 65) @ replicate 2014 0, bs_jos = JOut_new\<rparr>"
      6 "replicate 22 65" "replicate 2014 0"]
  by (auto simp: length_request)

text \<open>
  What Parse does on any buffer content, by the length field alone: below 4 or above 2044 it
  reads outside the 2048-byte buffer; otherwise a packet whose last eight bytes are not the folded
  digest of the bytes before them is refused with an exception and the session is unchanged.
\<close>

theorem Parse_decides:
  assumes "length (bs_buffer s) = 2048"
    and "cmd = networkToHost16 (load16 (bs_buffer s))"
    and "len = unat (networkToHost16 (load16 (drop 2 (bs_buffer s))))"
  shows "(Parse s = Inl OutOfBounds \<longleftrightarrow> len < 4 \<or> 2044 < len) \<and>
     (Parse s = Inl (Throw bad_packet) \<longleftrightarrow> 4 \<le> len \<and> len \<le> 2044 \<and>
        take (len + 4) (bs_buffer s) \<noteq> seal cmd (take (len - 4) (bs_buffer s)))"
proof -
  have "take (len + 4) (bs_buffer s) = take (len - 4) (bs_buffer s) @ take 8 (drop (len - 4) (bs_buffer s))"
    if "4 \<le> len"
  proof -
    have "len + 4 = (len - 4) + 8" using that by simp
    then show ?thesis by (simp only: take_add)
  qed
  then show ?thesis
    unfolding Parse_exact [OF assms(1)] assms(2,3) seal_def by auto
qed

theorem Parse_decides_witness:
  "Parse \<lparr>bs_buffer = [0, 1, 0, 2] @ replicate 2044 0, bs_jos = JOut_new\<rparr> = Inl OutOfBounds"
  using Parse_decides [of "\<lparr>bs_buffer = [0, 1, 0, 2] @ replicate 2044 0, bs_jos = JOut_new\<rparr>", OF _ refl refl]
  by (simp add: networkToHost16_def)

end
