(* ===== verification/MysqlDB.thy ===== *)
theory MysqlDB imports Prog begin

text \<open>
  \<open>bankserver/dal/MysqlDB.h\<close> and \<open>MysqlDB.cc\<close>: the wrapper around the MySQL client library.  The
  library is not part of the repository: its calls are the fields of the record \<open>mysql\<close>, functions
  of the world they run in.  \<open>Mysql_world\<close> is that world together with the handle of the local
  \<open>MysqlDB\<close> object, which is null or not.  A call with the null handle (other than \<open>mysql_error\<close>)
  and the use of a result set that is not there are \<open>OutOfBounds\<close>.
\<close>

subsection \<open>The client library\<close>

text \<open>
  \<open>my_query\<close> answers whether the return code was 0.  A result set is the list of its field names
  and its rows, a column being null (\<open>None\<close>) or a text.
\<close>

record 'w mysql =
  my_init :: "'w \<Rightarrow> bool \<times> 'w"
  my_options :: "'w \<Rightarrow> 'w"
  my_real_connect :: "bytes \<Rightarrow> bytes \<Rightarrow> bytes \<Rightarrow> bytes \<Rightarrow> nat \<Rightarrow> 'w \<Rightarrow> bool \<times> 'w"
  my_close :: "'w \<Rightarrow> 'w"
  my_query :: "bytes \<Rightarrow> 'w \<Rightarrow> bool \<times> 'w"
  my_store_result :: "'w \<Rightarrow> (bytes list \<times> bytes option list list) option \<times> 'w"
  my_affected_rows :: "'w \<Rightarrow> 64 word"
  my_insert_id :: "'w \<Rightarrow> 64 word"
  my_error :: "bool \<Rightarrow> 'w \<Rightarrow> bytes"

record 'w dbw =
  mysql_handle :: bool
  mysql_world :: 'w

subsection \<open>Record sets\<close>

record recordset =
  rs_rows :: "bytes list list"
  rs_fields :: "(bytes \<times> nat) list"

definition recordset_empty :: recordset where
  "recordset_empty = \<lparr>rs_rows = [], rs_fields = []\<rparr>"

definition GetRows :: "recordset \<Rightarrow> nat" where
  "GetRows rs = length (rs_rows rs)"

definition GetCols :: "recordset \<Rightarrow> nat" where
  "GetCols rs = length (rs_fields rs)"

text \<open>The index of the last field of the name, \<open>(unsigned int)-1\<close> if there is none.\<close>

definition GetFieldIndex :: "recordset \<Rightarrow> bytes \<Rightarrow> nat" where
  "GetFieldIndex rs name =
     foldl (\<lambda>index f. if fst f = name then snd f else index) (2 ^ 32 - 1) (rs_fields rs)"

definition GetItem_col :: "recordset \<Rightarrow> nat \<Rightarrow> nat \<Rightarrow> bytes res" where
  "GetItem_col rs nRow nCol =
     (if nRow < length (rs_rows rs) \<and> nCol < length (rs_rows rs ! nRow)
      then Inr (rs_rows rs ! nRow ! nCol) else Inl OutOfBounds)"

definition GetItem :: "recordset \<Rightarrow> nat \<Rightarrow> bytes \<Rightarrow> bytes res" where
  "GetItem rs nRow name =
     (let index = GetFieldIndex rs name in GetItem_col rs nRow index)"

definition recordset_Clear :: "recordset \<Rightarrow> recordset" where
  "recordset_Clear rs = rs\<lparr>rs_rows := [], rs_fields := []\<rparr>"

subsection \<open>The connection\<close>

definition db_error :: "bytes \<Rightarrow> fault" where
  "db_error errmsg = Throw (c_str (lit ''DB ERROR:'' @ c_str errmsg))"

definition MysqlDB_Close :: "'w mysql \<Rightarrow> ('w dbw, unit) prog" where
  "MysqlDB_Close M = (\<lambda>d.
     if mysql_handle d
     then (Inr (), d\<lparr>mysql_handle := False, mysql_world := my_close M (mysql_world d)\<rparr>)
     else (Inr (), d))"

text \<open>\<open>port\<close> is an argument of the code that the call of \<open>mysql_real_connect\<close> does not use.\<close>

definition MysqlDB_Open ::
  "'w mysql \<Rightarrow> bytes \<Rightarrow> bytes \<Rightarrow> bytes \<Rightarrow> bytes \<Rightarrow> nat \<Rightarrow> ('w dbw, unit) prog" where
  "MysqlDB_Open M host user passwd db port = (\<lambda>d.
     let (ok, w) = my_init M (mysql_world d) in
     if \<not> ok
     then (Inl (db_error (my_error M False w)), d\<lparr>mysql_handle := False, mysql_world := w\<rparr>)
     else
       let w = my_options M (my_options M w);
           (ok, w) = my_real_connect M (c_str host) (c_str user) (c_str passwd) (c_str db) 0 w;
           d = d\<lparr>mysql_handle := True, mysql_world := w\<rparr>
       in if \<not> ok
          then let errmsg = my_error M True w in
               andThen (MysqlDB_Close M) (\<lambda>_. raise (db_error errmsg)) d
          else (Inr (), d))"

definition MysqlDB_query :: "'w mysql \<Rightarrow> bytes \<Rightarrow> ('w dbw, bool) prog" where
  "MysqlDB_query M sql = (\<lambda>d.
     if mysql_handle d
     then let (ok, w) = my_query M (c_str sql) (mysql_world d) in (Inr ok, d\<lparr>mysql_world := w\<rparr>)
     else (Inl OutOfBounds, d))"

definition MysqlDB_fail :: "'w mysql \<Rightarrow> ('w dbw, 'a) prog" where
  "MysqlDB_fail M = (\<lambda>d. (Inl (db_error (my_error M (mysql_handle d) (mysql_world d))), d))"

definition QuerySQL :: "'w mysql \<Rightarrow> bytes \<Rightarrow> ('w dbw, recordset) prog" where
  "QuerySQL M sql =
     andThen (MysqlDB_query M sql) (\<lambda>ok.
     if \<not> ok then MysqlDB_fail M
     else (\<lambda>d. case my_store_result M (mysql_world d) of
         (None, w) \<Rightarrow> (Inl OutOfBounds, d\<lparr>mysql_world := w\<rparr>)
       | (Some (names, rows), w) \<Rightarrow>
           let nCols = length names;
               fields = map (\<lambda>i. (c_str (names ! i), i)) [0..<nCols];
               column = (\<lambda>c. case c of Some s \<Rightarrow> c_str s | None \<Rightarrow> []);
               rows = map (\<lambda>row. map (\<lambda>i. column (row ! i)) [0..<nCols]) rows
           in (Inr \<lparr>rs_rows = rows, rs_fields = fields\<rparr>, d\<lparr>mysql_world := w\<rparr>)))"

definition ExecSQL :: "'w mysql \<Rightarrow> bytes \<Rightarrow> ('w dbw, 64 word) prog" where
  "ExecSQL M sql =
     andThen (MysqlDB_query M sql) (\<lambda>ok.
     if \<not> ok then MysqlDB_fail M
     else (\<lambda>d. (Inr (my_affected_rows M (mysql_world d)), d)))"

definition StartTransaction :: "'w mysql \<Rightarrow> ('w dbw, unit) prog" where
  "StartTransaction M =
     andThen (MysqlDB_query M (lit ''START TRANSACTION'')) (\<lambda>ok.
     if \<not> ok then MysqlDB_fail M else ret ())"

definition Commit :: "'w mysql \<Rightarrow> ('w dbw, unit) prog" where
  "Commit M =
     andThen (MysqlDB_query M (lit ''COMMIT'')) (\<lambda>ok.
     if \<not> ok then MysqlDB_fail M else ret ())"

text \<open>The test of \<open>Rollback\<close> is \<open>== 0\<close>: it throws when the statement succeeded.\<close>

definition Rollback :: "'w mysql \<Rightarrow> ('w dbw, unit) prog" where
  "Rollback M =
     andThen (MysqlDB_query M (lit ''ROLLBACK'')) (\<lambda>ok.
     if ok then MysqlDB_fail M else ret ())"

definition GetInsertId :: "'w mysql \<Rightarrow> ('w dbw, 64 word) prog" where
  "GetInsertId M = (\<lambda>d.
     if mysql_handle d then (Inr (my_insert_id M (mysql_world d)), d) else (Inl OutOfBounds, d))"

text \<open>
  A function body with a local \<open>MysqlDB db\<close>: the constructor sets the handle to null, the
  destructor closes an open connection when the body returns or throws.
\<close>

definition with_MysqlDB :: "'w mysql \<Rightarrow> ('w dbw, 'a) prog \<Rightarrow> ('w, 'a) prog" where
  "with_MysqlDB M body = (\<lambda>w.
     let (r, d) = body \<lparr>mysql_handle = False, mysql_world = w\<rparr>;
         unwound = (case r of Inr _ \<Rightarrow> True | Inl (Throw _) \<Rightarrow> True | _ \<Rightarrow> False)
     in (r, if unwound then mysql_world (snd (MysqlDB_Close M d)) else mysql_world d))"

end
