(* ===== verification/Config.thy ===== *)
theory Config imports Prog begin

text \<open>
  \<open>StringUtil\<close>, \<open>SystemConfig\<close> and \<open>Server\<close> of the bank server: reading \<open>server.conf\<close>.  The content
  of the file is an argument (\<open>None\<close> if it cannot be opened).
\<close>

subsection \<open>Trimming and splitting\<close>

definition blanks :: bytes where
  "blanks = lit '' '' @ [9]"

text \<open>\<open>find_first_not_of\<close> and \<open>find_last_not_of\<close>; \<open>None\<close> is \<open>npos\<close>.\<close>

definition find_first_not_of :: "bytes \<Rightarrow> bytes \<Rightarrow> nat option" where
  "find_first_not_of s skip =
     (let n = length (takeWhile (\<lambda>c. c \<in> set skip) s) in if n < length s then Some n else None)"

definition find_last_not_of :: "bytes \<Rightarrow> bytes \<Rightarrow> nat option" where
  "find_last_not_of s skip =
     (let n = length (takeWhile (\<lambda>c. c \<in> set skip) (rev s)) in
      if n < length s then Some (length s - 1 - n) else None)"

text \<open>\<open>npos + 1\<close> is 0.\<close>

definition Rtrim :: "bytes \<Rightarrow> bytes" where
  "Rtrim str = (case find_last_not_of str blanks of Some p \<Rightarrow> take (p + 1) str | None \<Rightarrow> take 0 str)"

definition Ltrim :: "bytes \<Rightarrow> bytes" where
  "Ltrim str = (case find_first_not_of str blanks of Some p \<Rightarrow> drop p str | None \<Rightarrow> [])"

definition Trim :: "bytes \<Rightarrow> bytes" where
  "Trim str =
     (let str = (case find_last_not_of str blanks of Some p \<Rightarrow> take (p + 1) str | None \<Rightarrow> take 0 str)
      in case find_first_not_of str blanks of Some p \<Rightarrow> drop p str | None \<Rightarrow> [])"

text \<open>\<open>str.find(c, start)\<close>.\<close>

definition str_find :: "bytes \<Rightarrow> byte \<Rightarrow> nat \<Rightarrow> nat option" where
  "str_find s c start =
     (let n = start + std_find (drop start s) c in if n < length s then Some n else None)"

definition substr :: "bytes \<Rightarrow> nat \<Rightarrow> nat \<Rightarrow> bytes" where
  "substr s start n = take n (drop start s)"

lemma str_find_bounds: "str_find s c start = Some pos \<Longrightarrow> start \<le> pos \<and> pos < length s"
  by (auto simp: str_find_def Let_def split: if_splits)

function split_loop :: "bytes \<Rightarrow> byte \<Rightarrow> nat \<Rightarrow> bytes list \<Rightarrow> bytes list" where
  "split_loop str delim start result =
     (case str_find str delim start of
        Some pos \<Rightarrow>
          split_loop str delim (pos + 1)
            (if start < pos then result @ [substr str start (pos - start)] else result)
      | None \<Rightarrow> if start < length str then result @ [drop start str] else result)"
  by pat_completeness auto
termination
  by (relation "measure (\<lambda>(str, delim, start, result). length str - start)")
    (auto dest: str_find_bounds)

declare split_loop.simps [simp del]

definition Split :: "bytes \<Rightarrow> byte \<Rightarrow> bytes list" where
  "Split str delim = split_loop str delim 0 []"

subsection \<open>The configuration file\<close>

text \<open>The lines \<open>getline\<close> delivers.\<close>

function getlines :: "bytes \<Rightarrow> bytes list" where
  "getlines s =
     (if s = [] then []
      else takeWhile (\<lambda>c. c \<noteq> 10) s # getlines (drop 1 (dropWhile (\<lambda>c. c \<noteq> 10) s)))"
  by pat_completeness auto
termination
proof (relation "measure length")
  show "wf (measure (length :: bytes \<Rightarrow> nat))" by simp
  fix s :: bytes assume "s \<noteq> []"
  then have "0 < length s" by simp
  moreover have "length (dropWhile (\<lambda>c. c \<noteq> 10) s) \<le> length s" by (rule length_dropWhile_le)
  ultimately show "(drop 1 (dropWhile (\<lambda>c. c \<noteq> 10) s), s) \<in> measure length"
    by (simp only: in_measure length_drop)
qed

declare getlines.simps [simp del]

type_synonym properties = "bytes \<Rightarrow> bytes option"

definition first_char :: "bytes \<Rightarrow> byte" where
  "first_char s = (if s = [] then 0 else hd s)"

text \<open>One pass of the loop of \<open>Load\<close>: the segment name and the properties.\<close>

definition Load_line :: "bytes \<Rightarrow> bytes \<times> properties \<Rightarrow> bytes \<times> properties" where
  "Load_line line st =
     (let (segmentName, props) = st; line = Trim line in
      if first_char line = 35 then st
      else if first_char line = 91 \<and> str_find line 93 0 \<noteq> None
      then (substr line 1 (the (str_find line 93 0) - 1), props)
      else case str_find line 61 0 of
        Some pos \<Rightarrow>
          let left = Rtrim (substr line 0 pos);
              right = Trim (drop (pos + 1) line);
              propertyName = (if segmentName = [] then left else segmentName @ [46] @ left)
          in (segmentName, props(propertyName \<mapsto> right))
      | None \<Rightarrow> st)"

definition Load :: "bytes option \<Rightarrow> properties \<Rightarrow> properties res" where
  "Load file props =
     (case file of None \<Rightarrow> Inl Abort
      | Some content \<Rightarrow> Inr (snd (fold Load_line (getlines content) ([], props))))"

text \<open>\<open>properties_[name]\<close>: a missing name is entered with an empty value.\<close>

definition GetProperty :: "properties \<Rightarrow> bytes \<Rightarrow> bytes \<times> properties" where
  "GetProperty props name =
     (case props name of Some v \<Rightarrow> (v, props) | None \<Rightarrow> ([], props(name \<mapsto> [])))"

subsection \<open>The server's settings\<close>

record 'd server =
  serverIp :: bytes
  port :: "16 word"
  dbServerIp :: bytes
  dbServerPort :: "16 word"
  dbUser :: bytes
  dbPass :: bytes
  dbName :: bytes
  interetRate :: 'd

text \<open>
  \<open>ss >> port\<close> for an \<open>unsigned short\<close>: as for \<open>int\<close>, but a minus sign negates modulo \<open>2^16\<close>.
\<close>

definition ss_ushort :: "16 word \<Rightarrow> bytes \<Rightarrow> 16 word" where
  "ss_ushort x0 s =
     (let s = dropWhile is_space s in
      if s = [] then x0
      else let neg = (hd s = 45);
               s = (if hd s = 45 \<or> hd s = 43 then tl s else s);
               v = digits_value (takeWhile is_digit s)
           in if 2 ^ 16 \<le> v then - 1 else if neg then - of_nat v else of_nat v)"

text \<open>\<open>uninit\<close> is what the memory of the object held.\<close>

definition Server_new :: "'d arith \<Rightarrow> 'd server \<Rightarrow> bytes option \<Rightarrow> 'd server res" where
  "Server_new A uninit file =
     bind_res (Load file (\<lambda>_. None)) (\<lambda>config.
       let (ip, config) = GetProperty config (lit ''SERVER.SERVER_IP'');
           (p, config) = GetProperty config (lit ''SERVER.PORT'');
           sport = ss_ushort (port uninit) p;
           (dbip, config) = GetProperty config (lit ''DB.IP'');
           (p, config) = GetProperty config (lit ''DB.PORT'');
           dport = ss_ushort (dbServerPort uninit) p;
           (user, config) = GetProperty config (lit ''DB.USER'');
           (pass, config) = GetProperty config (lit ''DB.PASS'');
           (name, config) = GetProperty config (lit ''DB.NAME'');
           (rate, config) = GetProperty config (lit ''BANK.INTERATE'')
       in Inr \<lparr>serverIp = ip, port = sport, dbServerIp = dbip, dbServerPort = dport,
               dbUser = user, dbPass = pass, dbName = name,
               interetRate = (if rate = [] then dbl_0_0035 A else dbl_in A (interetRate uninit) rate)\<rparr>)"

subsection \<open>Correctness\<close>

text \<open>The fields between delimiters, and the text without blanks at its ends.\<close>

fun fields :: "byte \<Rightarrow> bytes \<Rightarrow> bytes list" where
  "fields d [] = [[]]"
| "fields d (c # cs) = (if c = d then [] # fields d cs else (c # hd (fields d cs)) # tl (fields d cs))"


definition blank :: "byte \<Rightarrow> bool" where
  "blank c \<longleftrightarrow> c = 32 \<or> c = 9"

lemma blank_set: "c \<in> set blanks \<longleftrightarrow> blank c"
  by (simp add: blanks_def blank_def lit_def)

lemma drop_takeWhile: "drop (length (takeWhile P xs)) xs = dropWhile P xs"
  by (induction xs) auto

lemma takeWhile_full: "length xs \<le> length (takeWhile P xs) \<Longrightarrow> dropWhile P xs = []"
  by (induction xs) (auto split: if_splits)

lemma Ltrim_dropWhile: "Ltrim s = dropWhile blank s"
  using takeWhile_full [of s blank]
  by (simp add: Ltrim_def find_first_not_of_def Let_def blank_set drop_takeWhile not_less
      del: dropWhile_eq_Nil_conv)

lemma Rtrim_dropWhile: "Rtrim s = rev (dropWhile blank (rev s))"
proof -
  let ?n = "length (takeWhile blank (rev s))"
  have "take (length s - ?n) s = rev (drop ?n (rev s))"
    by (simp add: rev_drop)
  then have "take (length s - ?n) s = rev (dropWhile blank (rev s))" by (simp add: drop_takeWhile)
  moreover have "?n < length s \<Longrightarrow> length s - Suc ?n + 1 = length s - ?n" by simp
  ultimately show ?thesis
    using takeWhile_full [of "rev s" blank]
    by (auto simp: Rtrim_def find_last_not_of_def Let_def blank_set not_less)
qed

lemma Trim_LR: "Trim s = Ltrim (Rtrim s)"
  by (simp add: Trim_def Ltrim_def Rtrim_def Let_def)

lemma fields_find:
  "fields d s = (if std_find s d < length s
     then take (std_find s d) s # fields d (drop (std_find s d + 1) s) else [s])"
  by (induction s) auto

lemma fields_not_Nil [simp]: "fields d s \<noteq> []"
  by (cases s) auto

lemma split_loop_fields:
  "start \<le> length str \<Longrightarrow>
     split_loop str d start result = result @ filter (\<lambda>f. f \<noteq> []) (fields d (drop start str))"
proof (induction str d start result rule: split_loop.induct)
  case (1 str d start result)
  let ?n = "std_find (drop start str) d"
  show ?case
  proof (cases "start + ?n < length str")
    case True
    then have f: "str_find str d start = Some (start + ?n)" by (simp add: str_find_def)
    have "fields d (drop start str)
        = take ?n (drop start str) # fields d (drop (start + ?n + 1) str)"
      using True by (subst fields_find) (simp add: add.commute add.left_commute)
    moreover have "take ?n (drop start str) = [] \<longleftrightarrow> ?n = 0" using True by auto
    ultimately show ?thesis
      using 1(1) [OF f] True by (subst split_loop.simps) (auto simp: f substr_def)
  next
    case False
    then have f: "str_find str d start = None" by (simp add: str_find_def)
    have "fields d (drop start str) = [drop start str]"
      using False by (subst fields_find) simp
    then show ?thesis using 1(2) by (subst split_loop.simps) (auto simp: f)
  qed
qed

text \<open>
  StringUtil::Split returns exactly the non-empty fields of the text between the delimiters, in
  order, at every position of the delimiter (first, last, doubled, absent).
\<close>

theorem Split_fields: "Split str delim = filter (\<lambda>f. f \<noteq> []) (fields delim str)"
  by (simp add: Split_def split_loop_fields)

text \<open>
  Trim removes the blanks and tabs at both ends of a text and nothing else: the text is the
  result with blanks around it, and the result neither starts nor ends with one, all-blank and
  empty texts included.
\<close>

theorem Trim_ends:
  "\<exists>l r. str = l @ Trim str @ r \<and> set l \<union> set r \<subseteq> {32, 9} \<and>
     (Trim str = [] \<or> hd (Trim str) \<notin> {32, 9} \<and> last (Trim str) \<notin> {32, 9})"
proof -
  let ?r = "takeWhile blank (rev str)" and ?m = "Rtrim str"
  have m: "str = ?m @ rev ?r"
    by (metis Rtrim_dropWhile rev_append rev_rev_ident takeWhile_dropWhile_id)
  have l: "?m = takeWhile blank ?m @ Trim str"
    by (simp add: Trim_LR Ltrim_dropWhile)
  have tb: "\<not> blank (hd (Trim str))" if "Trim str \<noteq> []"
    using that by (simp add: Trim_LR Ltrim_dropWhile hd_dropWhile)
  have "\<not> blank (last ?m)" if "?m \<noteq> []"
  proof -
    have "dropWhile blank (rev str) \<noteq> []" using that by (simp add: Rtrim_dropWhile)
    then show ?thesis by (simp add: Rtrim_dropWhile last_rev hd_dropWhile)
  qed
  moreover have "last ?m = last (Trim str)" if "Trim str \<noteq> []"
    using that l by (metis last_appendR)
  ultimately have te: "\<not> blank (last (Trim str))" if "Trim str \<noteq> []"
    using that l by (metis Nil_is_append_conv)
  have "str = takeWhile blank ?m @ Trim str @ rev ?r" using m l by (metis append_assoc)
  moreover have "set (takeWhile blank ?m) \<union> set (rev ?r) \<subseteq> {32, 9}"
    by (auto simp: blank_def dest: set_takeWhileD)
  moreover have "Trim str = [] \<or> hd (Trim str) \<notin> {32, 9} \<and> last (Trim str) \<notin> {32, 9}"
    using tb te by (auto simp: blank_def)
  ultimately show ?thesis by blast
qed

end
