(* ===== verification/BankService.thy ===== *)
theory BankService imports MysqlDB Config begin

text \<open>
  \<open>bankserver/dal/BankService.cc\<close>: the operations of the bank on its database.  Each opens a
  connection, sends its statements and returns a code: 0 success, -1 database error, 1 wrong
  user, 2 no such account, 3 wrong password, 4 balance too small, 5 no such other account, 6 no
  data.  The \<open>Account&\<close> argument is part of the state of the body, so that what was stored in it
  before an exception stays stored.

  The statements are the byte strings the code sends.  The lemmas show in which order they are
  sent on every path: that no operation commits unless it has sent all its updates, and that the
  refused ones have changed nothing.
\<close>

subsection \<open>State\<close>

record 'd account =
  acc_account_id :: "32 word"
  acc_name :: bytes
  acc_pass :: bytes
  acc_id :: bytes
  acc_op_date :: bytes
  acc_balance :: 'd

record 'd trans_detail =
  td_trans_id :: bytes
  td_account_id :: bytes
  td_other_account_id :: bytes
  td_abstract_name :: bytes
  td_money :: 'd
  td_balance :: 'd
  td_trans_date :: bytes
  td_total :: "32 word"

text \<open>
  What the operations run in: the client library, the arithmetic, the server's settings, and the
  values uninitialised \<open>int\<close> and \<open>double\<close> variables hold.
\<close>

record ('d, 'w) bank =
  b_mysql :: "'w mysql"
  b_arith :: "'d arith"
  b_server :: "'d server"
  uninit_int :: "32 word"
  uninit_dbl :: 'd

type_synonym ('d, 'w) svc = "'w dbw \<times> 'd account"

definition on_db :: "('w dbw, 'a) prog \<Rightarrow> (('d, 'w) svc, 'a) prog" where
  "on_db p = (\<lambda>(d, a). case p d of (r, d') \<Rightarrow> (r, (d', a)))"

definition get_acc :: "(('d, 'w) svc, 'd account) prog" where
  "get_acc = (\<lambda>(d, a). (Inr a, (d, a)))"

definition upd_acc :: "('d account \<Rightarrow> 'd account) \<Rightarrow> (('d, 'w) svc, unit) prog" where
  "upd_acc f = (\<lambda>(d, a). (Inr (), (d, f a)))"

text \<open>The call of \<open>db.Open\<close> all operations start with, and \<open>rs.GetItem(0, name)\<close>.\<close>

definition open_db :: "('d, 'w) bank \<Rightarrow> ('w dbw, unit) prog" where
  "open_db B = MysqlDB_Open (b_mysql B) (dbServerIp (b_server B)) (dbUser (b_server B))
     (dbPass (b_server B)) (dbName (b_server B)) (unat (dbServerPort (b_server B)))"

definition query :: "('d, 'w) bank \<Rightarrow> bytes list \<Rightarrow> ('w dbw, recordset) prog" where
  "query B sql = QuerySQL (b_mysql B) (concat sql)"

definition exec :: "('d, 'w) bank \<Rightarrow> bytes list \<Rightarrow> ('w dbw, unit) prog" where
  "exec B sql = andThen (ExecSQL (b_mysql B) (concat sql)) (\<lambda>_. ret ())"

definition item0 :: "recordset \<Rightarrow> string \<Rightarrow> ('w, bytes) prog" where
  "item0 rs name = lift (GetItem rs 0 (lit name))"

text \<open>\<open>static_cast<int>(db.GetInsertId())\<close>.\<close>

definition insert_id_int :: "('d, 'w) bank \<Rightarrow> ('w dbw, 32 word) prog" where
  "insert_id_int B = andThen (GetInsertId (b_mysql B)) (\<lambda>i. ret (ucast i))"

definition rollback_error :: "('d, 'w) bank \<Rightarrow> ('w dbw, int) prog" where
  "rollback_error B = andThen (Rollback (b_mysql B)) (\<lambda>_. ret (- 1))"

definition run_service ::
  "('d, 'w) bank \<Rightarrow> 'd account \<Rightarrow> (('d, 'w) svc, int) prog \<Rightarrow> ('w, int \<times> 'd account) prog" where
  "run_service B acc body = with_MysqlDB (b_mysql B) (\<lambda>d.
     case body (d, acc) of (Inl e, (d', a)) \<Rightarrow> (Inl e, d') | (Inr n, (d', a)) \<Rightarrow> (Inr (n, a), d'))"

subsection \<open>Statements shared by several operations\<close>

definition sql_flag :: "32 word \<Rightarrow> string \<Rightarrow> bytes list" where
  "sql_flag aid end = [lit ''select balance from bank_account where account_id='', dec_int aid, lit end]"

definition sql_pass :: "32 word \<Rightarrow> bytes \<Rightarrow> string \<Rightarrow> bytes list" where
  "sql_pass aid pass end =
     [lit ''select balance from bank_account where account_id='', dec_int aid, lit '' and pass='', pass, lit end]"

definition sql_update :: "string \<Rightarrow> bytes \<Rightarrow> bytes \<Rightarrow> bytes list" where
  "sql_update sign amount aid =
     [lit ''update bank_account set balance=balance'', lit sign, amount, lit '' where account_id='', aid, lit '';'']"

definition sql_trans :: "32 word \<Rightarrow> bytes \<Rightarrow> string \<Rightarrow> bytes \<Rightarrow> bytes \<Rightarrow> bytes list" where
  "sql_trans aid other kind money bal =
     [lit ''insert into trans values(null, '', dec_int aid, lit '', '', other, lit '', '', lit kind, lit '', '',
      money, lit '', '', bal, lit '',  now());'']"

definition sql_name_date :: "32 word \<Rightarrow> bytes list" where
  "sql_name_date trans_id =
     [lit ''select a.name, b.trans_date '', lit ''from bank_account a, '',
      lit ''(select account_id, trans_date from trans where trans_id='', dec_int trans_id, lit '') b '',
      lit ''where a.account_id=b.account_id;'']"

subsection \<open>Operations\<close>

definition BankService_UserLogin :: "('d, 'w) bank \<Rightarrow> bytes \<Rightarrow> bytes \<Rightarrow> ('w, int) prog" where
  "BankService_UserLogin B user pass = with_MysqlDB (b_mysql B) (try_catch
     (andThen (open_db B) (\<lambda>_.
      andThen (query B [lit ''select teller_name from teller where teller_name='', [39], user, [39],
          lit '' and teller_pass='', [39], pass, [39], lit '';'']) (\<lambda>rs.
      if GetRows rs < 1 then ret 1 else ret 0)))
     (\<lambda>e. ret (- 1)))"

definition OpenAccount_body :: "('d, 'w) bank \<Rightarrow> (('d, 'w) svc, int) prog" where
  "OpenAccount_body B =
     andThen (on_db (open_db B)) (\<lambda>_.
     andThen (on_db (StartTransaction (b_mysql B))) (\<lambda>_.
     andThen get_acc (\<lambda>account.
     let bal = dbl_fixed2 (b_arith B) (acc_balance account) in
     andThen (on_db (exec B [lit ''insert into bank_account values(null, '', [39], acc_name account, [39],
         lit '', '', [39], acc_pass account, [39], lit '', '', [39], acc_id account, [39], lit '', '', bal,
         lit '', now(), '', lit ''0'', lit '');''])) (\<lambda>_.
     andThen (on_db (insert_id_int B)) (\<lambda>aid.
     andThen (upd_acc (\<lambda>a. a\<lparr>acc_account_id := aid\<rparr>)) (\<lambda>_.
     andThen (on_db (exec B (sql_trans aid (lit ''null'') ''1'' bal bal))) (\<lambda>_.
     andThen (on_db (Commit (b_mysql B))) (\<lambda>_.
     andThen (on_db (query B [lit ''select open_date from bank_account where account_id='', [39],
         dec_int aid, [39], lit '';''])) (\<lambda>rs.
     andThen (item0 rs ''open_date'') (\<lambda>date.
     andThen (upd_acc (\<lambda>a. a\<lparr>acc_op_date := date\<rparr>)) (\<lambda>_. ret 0)))))))))))"

definition BankService_OpenAccount ::
  "('d, 'w) bank \<Rightarrow> 'd account \<Rightarrow> ('w, int \<times> 'd account) prog" where
  "BankService_OpenAccount B acc =
     run_service B acc (try_catch (OpenAccount_body B) (\<lambda>e. on_db (rollback_error B)))"

definition Deposit_body :: "('d, 'w) bank \<Rightarrow> (('d, 'w) svc, int) prog" where
  "Deposit_body B =
     andThen (on_db (open_db B)) (\<lambda>_.
     andThen (on_db (StartTransaction (b_mysql B))) (\<lambda>_.
     andThen get_acc (\<lambda>account.
     let aid = acc_account_id account; amount = acc_balance account;
         money = dbl_fixed2 (b_arith B) amount in
     andThen (on_db (query B (sql_flag aid '' and flag=0 for update;''))) (\<lambda>rs.
     if GetRows rs < 1 then ret 2
     else
     andThen (item0 rs ''balance'') (\<lambda>b.
     let balance = StringToDouble (b_arith B) (uninit_dbl B) b in
     andThen (on_db (exec B (sql_update ''+'' money (dec_int aid)))) (\<lambda>_.
     andThen (on_db (exec B (sql_trans aid (lit ''null'') ''2'' money
         (dbl_fixed2 (b_arith B) (dbl_add (b_arith B) balance amount))))) (\<lambda>_.
     andThen (on_db (insert_id_int B)) (\<lambda>trans_id.
     andThen (on_db (Commit (b_mysql B))) (\<lambda>_.
     andThen (on_db (query B (sql_name_date trans_id))) (\<lambda>rs.
     andThen (item0 rs ''name'') (\<lambda>name.
     andThen (upd_acc (\<lambda>a. a\<lparr>acc_name := name\<rparr>)) (\<lambda>_.
     andThen (item0 rs ''trans_date'') (\<lambda>date.
     andThen (upd_acc (\<lambda>a. a\<lparr>acc_op_date := date,
         acc_balance := dbl_add (b_arith B) amount balance\<rparr>)) (\<lambda>_. ret 0))))))))))))))"

definition BankService_Deposit ::
  "('d, 'w) bank \<Rightarrow> 'd account \<Rightarrow> ('w, int \<times> 'd account) prog" where
  "BankService_Deposit B acc =
     run_service B acc (try_catch (Deposit_body B) (\<lambda>e. on_db (rollback_error B)))"

definition WithDraw_body :: "('d, 'w) bank \<Rightarrow> (('d, 'w) svc, int) prog" where
  "WithDraw_body B =
     andThen (on_db (open_db B)) (\<lambda>_.
     andThen (on_db (StartTransaction (b_mysql B))) (\<lambda>_.
     andThen get_acc (\<lambda>account.
     let aid = acc_account_id account; amount = acc_balance account;
         money = dbl_fixed2 (b_arith B) amount in
     andThen (on_db (query B (sql_flag aid '' and flag=0;''))) (\<lambda>rs.
     if GetRows rs < 1 then ret 2
     else
     andThen (on_db (query B (sql_pass aid (acc_pass account) '' for update;''))) (\<lambda>rs.
     if GetRows rs < 1 then ret 3
     else
     andThen (item0 rs ''balance'') (\<lambda>b.
     let balance = StringToDouble (b_arith B) (uninit_dbl B) b in
     if dbl_gt (b_arith B) amount balance then ret 4
     else
     andThen (on_db (exec B (sql_update ''-'' money (dec_int aid)))) (\<lambda>_.
     andThen (on_db (exec B (sql_trans aid (lit ''null'') ''3'' money
         (dbl_fixed2 (b_arith B) (dbl_sub (b_arith B) balance amount))))) (\<lambda>_.
     andThen (on_db (insert_id_int B)) (\<lambda>trans_id.
     andThen (on_db (Commit (b_mysql B))) (\<lambda>_.
     andThen (on_db (query B (sql_name_date trans_id))) (\<lambda>rs.
     andThen (item0 rs ''name'') (\<lambda>name.
     andThen (upd_acc (\<lambda>a. a\<lparr>acc_name := name\<rparr>)) (\<lambda>_.
     andThen (item0 rs ''trans_date'') (\<lambda>date.
     andThen (upd_acc (\<lambda>a. a\<lparr>acc_op_date := date,
         acc_balance := dbl_sub (b_arith B) balance amount\<rparr>)) (\<lambda>_. ret 0)))))))))))))))"

definition BankService_WithDraw ::
  "('d, 'w) bank \<Rightarrow> 'd account \<Rightarrow> ('w, int \<times> 'd account) prog" where
  "BankService_WithDraw B acc =
     run_service B acc (try_catch (WithDraw_body B) (\<lambda>e. on_db (rollback_error B)))"

definition Transfer_body :: "('d, 'w) bank \<Rightarrow> bytes \<Rightarrow> (('d, 'w) svc, int) prog" where
  "Transfer_body B otherAccountId =
     andThen (on_db (open_db B)) (\<lambda>_.
     andThen (on_db (StartTransaction (b_mysql B))) (\<lambda>_.
     andThen get_acc (\<lambda>account.
     let aid = acc_account_id account; amount = acc_balance account;
         money = dbl_fixed2 (b_arith B) amount in
     andThen (on_db (query B (sql_flag aid '' and flag=0;''))) (\<lambda>rs.
     if GetRows rs < 1 then ret 2
     else
     andThen (on_db (query B (sql_pass aid (acc_pass account) '' for update;''))) (\<lambda>rs.
     if GetRows rs < 1 then ret 3
     else
     andThen (item0 rs ''balance'') (\<lambda>b.
     let balance = StringToDouble (b_arith B) (uninit_dbl B) b in
     if dbl_gt (b_arith B) amount balance then ret 4
     else
     andThen (on_db (query B [lit ''select balance from bank_account where account_id='', otherAccountId,
         lit '' and flag=0 for update;''])) (\<lambda>rs.
     if GetRows rs < 1 then ret 5
     else
     andThen (item0 rs ''balance'') (\<lambda>b.
     let balance2 = StringToDouble (b_arith B) (uninit_dbl B) b in
     andThen (on_db (exec B (sql_update ''-'' money (dec_int aid)))) (\<lambda>_.
     andThen (on_db (exec B (sql_update ''+'' money otherAccountId))) (\<lambda>_.
     let other_account_id = ss_int (uninit_int B) otherAccountId in
     andThen (on_db (exec B (sql_trans aid (dec_int other_account_id) ''5'' money
         (dbl_fixed2 (b_arith B) (dbl_sub (b_arith B) balance amount))))) (\<lambda>_.
     andThen (on_db (insert_id_int B)) (\<lambda>trans_id.
     andThen (on_db (query B (sql_name_date trans_id))) (\<lambda>rs.
     andThen (on_db (exec B (sql_trans other_account_id (dec_int aid) ''4'' money
         (dbl_fixed2 (b_arith B) (dbl_add (b_arith B) balance2 amount))))) (\<lambda>_.
     andThen (on_db (Commit (b_mysql B))) (\<lambda>_.
     andThen (upd_acc (\<lambda>a. a\<lparr>acc_balance := dbl_sub (b_arith B) balance amount\<rparr>)) (\<lambda>_.
     andThen (item0 rs ''name'') (\<lambda>name.
     andThen (upd_acc (\<lambda>a. a\<lparr>acc_name := name\<rparr>)) (\<lambda>_.
     andThen (item0 rs ''trans_date'') (\<lambda>date.
     andThen (upd_acc (\<lambda>a. a\<lparr>acc_op_date := date\<rparr>)) (\<lambda>_. ret 0))))))))))))))))))))"

definition BankService_Transfer ::
  "('d, 'w) bank \<Rightarrow> 'd account \<Rightarrow> bytes \<Rightarrow> ('w, int \<times> 'd account) prog" where
  "BankService_Transfer B acc other =
     run_service B acc (try_catch (Transfer_body B other) (\<lambda>e. on_db (rollback_error B)))"

definition BalanceInquiry_body :: "('d, 'w) bank \<Rightarrow> (('d, 'w) svc, int) prog" where
  "BalanceInquiry_body B =
     andThen (on_db (open_db B)) (\<lambda>_.
     andThen get_acc (\<lambda>account.
     let aid = acc_account_id account in
     andThen (on_db (query B (sql_flag aid '' and flag=0;''))) (\<lambda>rs.
     if GetRows rs < 1 then ret 2
     else
     andThen (on_db (query B (sql_pass aid (acc_pass account) '';''))) (\<lambda>rs.
     if GetRows rs < 1 then ret 3
     else
     andThen (item0 rs ''balance'') (\<lambda>b.
     andThen (upd_acc (\<lambda>a. a\<lparr>acc_balance := StringToDouble (b_arith B) (uninit_dbl B) b\<rparr>)) (\<lambda>_.
     andThen (on_db (query B [lit ''select name, now() query_date from bank_account '',
         lit ''where account_id='', dec_int aid, lit '';''])) (\<lambda>rs.
     andThen (item0 rs ''name'') (\<lambda>name.
     andThen (upd_acc (\<lambda>a. a\<lparr>acc_name := name\<rparr>)) (\<lambda>_.
     andThen (item0 rs ''query_date'') (\<lambda>date.
     andThen (upd_acc (\<lambda>a. a\<lparr>acc_op_date := date\<rparr>)) (\<lambda>_. ret 0)))))))))))"

definition BankService_BalanceInquiry ::
  "('d, 'w) bank \<Rightarrow> 'd account \<Rightarrow> ('w, int \<times> 'd account) prog" where
  "BankService_BalanceInquiry B acc =
     run_service B acc (try_catch (BalanceInquiry_body B) (\<lambda>e. ret (- 1)))"

definition ChangePassword_body :: "('d, 'w) bank \<Rightarrow> bytes \<Rightarrow> (('d, 'w) svc, int) prog" where
  "ChangePassword_body B newPass =
     andThen (on_db (open_db B)) (\<lambda>_.
     andThen get_acc (\<lambda>account.
     let aid = acc_account_id account in
     andThen (on_db (query B (sql_flag aid '' and flag=0;''))) (\<lambda>rs.
     if GetRows rs < 1 then ret 2
     else
     andThen (on_db (query B (sql_pass aid (acc_pass account) '';''))) (\<lambda>rs.
     if GetRows rs < 1 then ret 3
     else
     andThen (on_db (exec B [lit ''update bank_account set pass='', [39], newPass, [39], lit '' '',
         lit ''where account_id='', dec_int aid, lit '';''])) (\<lambda>_. ret 0)))))"

definition BankService_ChangePassword ::
  "('d, 'w) bank \<Rightarrow> 'd account \<Rightarrow> bytes \<Rightarrow> ('w, int \<times> 'd account) prog" where
  "BankService_ChangePassword B acc newPass =
     run_service B acc (try_catch (ChangePassword_body B newPass) (\<lambda>e. ret (- 1)))"


definition sql_columns :: bytes where
  "sql_columns = lit ''select a.account_id, a.other_account_id, b.name, a.money, a.balance, a.trans_date from ''"

definition sql_join :: bytes where
  "sql_join = lit '' a, abstract b where a.abstract_id = b.abstract_id''"

text \<open>The fields of one row, in the order the code reads them.\<close>

definition detail_row :: "('d, 'w) bank \<Rightarrow> recordset \<Rightarrow> 32 word \<Rightarrow> nat \<Rightarrow> 'd trans_detail res" where
  "detail_row B rs ntotal i =
     bind_res (GetItem rs i (lit ''account_id'')) (\<lambda>aid.
     bind_res (GetItem rs i (lit ''other_account_id'')) (\<lambda>other.
     bind_res (GetItem rs i (lit ''name'')) (\<lambda>name.
     bind_res (GetItem rs i (lit ''money'')) (\<lambda>money.
     bind_res (GetItem rs i (lit ''balance'')) (\<lambda>bal.
     bind_res (GetItem rs i (lit ''trans_date'')) (\<lambda>date.
     Inr \<lparr>td_trans_id = [], td_account_id = aid, td_other_account_id = other, td_abstract_name = name,
          td_money = StringToDouble (b_arith B) (uninit_dbl B) money,
          td_balance = StringToDouble (b_arith B) (uninit_dbl B) bal,
          td_trans_date = date, td_total = ntotal\<rparr>))))))"

fun detail_rows :: "('d, 'w) bank \<Rightarrow> recordset \<Rightarrow> 32 word \<Rightarrow> nat list \<Rightarrow> 'd trans_detail list res" where
  "detail_rows B rs ntotal [] = Inr []"
| "detail_rows B rs ntotal (i # is) =
     bind_res (detail_row B rs ntotal i) (\<lambda>td.
     bind_res (detail_rows B rs ntotal is) (\<lambda>tds. Inr (td # tds)))"

text \<open>
  The page arithmetic \<open>page*15\<close> is on \<open>int\<close>; it wraps.  A result code other than 0 goes with the
  list as the caller sees it: empty.
\<close>

definition BankService_QueryDayBill ::
  "('d, 'w) bank \<Rightarrow> 32 word \<Rightarrow> bytes \<Rightarrow> ('w, int \<times> 'd trans_detail list) prog" where
  "BankService_QueryDayBill B page date = with_MysqlDB (b_mysql B) (try_catch
     (andThen (open_db B) (\<lambda>_.
      andThen (query B [lit ''select count(*) as total from '',
          lit ''(select * from trans where date_format(trans_date, '', [39], lit ''%Y-%m-%d'', [39], lit '')='', [39],
          date, [39], lit '') as a, abstract b where a.abstract_id = b.abstract_id;'']) (\<lambda>rs.
      andThen (item0 rs ''total'') (\<lambda>t.
      let ntotal = StringToInt (uninit_int B) t in
      andThen (query B [sql_columns,
          lit ''(select * from trans where date_format(trans_date, '', [39], lit ''%Y-%m-%d'', [39], lit '')='', [39],
          date, [39], lit '')'', sql_join, lit '' order by a.trans_date limit '', dec_int (page * 15),
          lit '', 15;'']) (\<lambda>rs.
      if GetRows rs < 1 then ret (6, [])
      else andThen (lift (detail_rows B rs ntotal [0..<GetRows rs])) (\<lambda>tds. ret (0, tds)))))))
     (\<lambda>e. ret (- 1, [])))"

definition BankService_QueryHistoryBill ::
  "('d, 'w) bank \<Rightarrow> 32 word \<Rightarrow> bytes \<Rightarrow> bytes \<Rightarrow> ('w, int \<times> 'd trans_detail list) prog" where
  "BankService_QueryHistoryBill B page from_date to_date = with_MysqlDB (b_mysql B) (try_catch
     (andThen (open_db B) (\<lambda>_.
      andThen (query B [lit ''select count(*) as total from '',
          lit ''(select * from trans where date_format(trans_date, '', [39], lit ''%Y-%m-%d'', [39], lit '') between '', [39],
          from_date, [39], lit '' and '', [39], to_date, [39],
          lit '') a, abstract b where a.abstract_id = b.abstract_id;'']) (\<lambda>rs.
      andThen (item0 rs ''total'') (\<lambda>t.
      let ntotal = StringToInt (uninit_int B) t in
      andThen (query B [sql_columns,
          lit ''(select * from trans where date_format(trans_date, '', [39], lit ''%Y-%m-%d'', [39], lit '') between '', [39],
          from_date, [39], lit '' and '', [39], to_date, [39],
          lit '')'', sql_join, lit '' order by a.trans_date limit '', dec_int (page * 15),
          lit '', 15;'']) (\<lambda>rs.
      if GetRows rs < 1 then ret (6, [])
      else andThen (lift (detail_rows B rs ntotal [0..<GetRows rs])) (\<lambda>tds. ret (0, tds)))))))
     (\<lambda>e. ret (- 1, [])))"

definition BankService_QueryAccountHistoryBill ::
  "('d, 'w) bank \<Rightarrow> 32 word \<Rightarrow> bytes \<Rightarrow> bytes \<Rightarrow> bytes \<Rightarrow> ('w, int \<times> 'd trans_detail list) prog" where
  "BankService_QueryAccountHistoryBill B page accountId from_date to_date = with_MysqlDB (b_mysql B) (try_catch
     (andThen (open_db B) (\<lambda>_.
      andThen (query B [lit ''select count(*) as total from '',
          lit ''(select * from trans where account_id='', accountId,
          lit '' and date_format(trans_date, '', [39], lit ''%Y-%m-%d'', [39], lit '') between '', [39],
          from_date, [39], lit '' and '', [39], to_date, [39],
          lit '') as a, abstract b where a.abstract_id = b.abstract_id;'']) (\<lambda>rs.
      andThen (item0 rs ''total'') (\<lambda>t.
      let ntotal = StringToInt (uninit_int B) t in
      andThen (query B [sql_columns,
          lit ''(select * from trans where account_id='', accountId,
          lit '' and date_format(trans_date, '', [39], lit ''%Y-%m-%d'', [39], lit '') between '', [39],
          from_date, [39], lit '' and '', [39], to_date, [39],
          lit '')'', sql_join, lit '' order by a.trans_date limit '', dec_int (page * 15),
          lit '', 15;'']) (\<lambda>rs.
      if GetRows rs < 1 then ret (6, [])
      else andThen (lift (detail_rows B rs ntotal [0..<GetRows rs])) (\<lambda>tds. ret (0, tds)))))))
     (\<lambda>e. ret (- 1, [])))"

text \<open>
  Closing an account.  The interest is computed by one statement of nested selections; its
  result is the second component of what the body returns, next to the code.
\<close>

definition sql_interest :: "('d, 'w) bank \<Rightarrow> 32 word \<Rightarrow> bytes list" where
  "sql_interest B aid =
     [lit ''select sum(yy.days*yy.balance)*'', dbl_out (b_arith B) (interetRate (b_server B)),
      lit ''/360 interest from('',
      lit ''select trans_id, balance, trans_date, next_date, '',
      lit ''datediff(if(next_date, next_date, now()), trans_date) days from ('',
      lit ''select trans_id, balance, trans_date, ('',
      lit ''select min(trans_date) from ('',
      lit ''select * from trans where trans_id in ('',
      lit ''select max(trans_id) from trans where account_id='', dec_int aid,
      lit '' group by date_format(trans_date, '', [39], lit ''%Y-%m-%d'', [39], lit '')))'',
      lit '' b where b.trans_date > a.trans_date) next_date from ('',
      lit ''select * from trans where trans_id in '',
      lit ''(select max(trans_id) from trans where account_id='', dec_int aid,
      lit '' group by date_format(trans_date, '', [39], lit ''%Y-%m-%d'', [39], lit ''))) a) xx) yy'']"

definition CloseAccount_body :: "('d, 'w) bank \<Rightarrow> 'd \<Rightarrow> (('d, 'w) svc, int \<times> 'd) prog" where
  "CloseAccount_body B interest =
     andThen (on_db (open_db B)) (\<lambda>_.
     andThen (on_db (StartTransaction (b_mysql B))) (\<lambda>_.
     andThen get_acc (\<lambda>account.
     let aid = acc_account_id account in
     andThen (on_db (query B (sql_flag aid '' and flag=0;''))) (\<lambda>rs.
     if GetRows rs < 1 then ret (2, interest)
     else
     andThen (on_db (query B (sql_pass aid (acc_pass account) '' for update;''))) (\<lambda>rs.
     if GetRows rs < 1 then ret (3, interest)
     else
     andThen (item0 rs ''balance'') (\<lambda>b.
     andThen (upd_acc (\<lambda>a. a\<lparr>acc_balance := StringToDouble (b_arith B) (uninit_dbl B) b\<rparr>)) (\<lambda>_.
     andThen (on_db (query B (sql_interest B aid))) (\<lambda>rs.
     andThen (item0 rs ''interest'') (\<lambda>i.
     let interest = StringToDouble (b_arith B) (uninit_dbl B) i in
     andThen (on_db (exec B [lit ''update bank_account set flag=1 where account_id='', dec_int aid, lit '';''])) (\<lambda>_.
     andThen (on_db (Commit (b_mysql B))) (\<lambda>_.
     andThen (on_db (query B [lit ''select name, now() close_date from bank_account '',
         lit ''where account_id='', dec_int aid, lit '';''])) (\<lambda>rs.
     andThen (item0 rs ''name'') (\<lambda>name.
     andThen (upd_acc (\<lambda>a. a\<lparr>acc_name := name\<rparr>)) (\<lambda>_.
     andThen (item0 rs ''close_date'') (\<lambda>date.
     andThen (upd_acc (\<lambda>a. a\<lparr>acc_op_date := date\<rparr>)) (\<lambda>_. ret (0, interest)))))))))))))))))"

text \<open>Its \<open>catch\<close> block does not roll back; the interest is used only when the code is 0.\<close>

definition BankService_CloseAccount ::
  "('d, 'w) bank \<Rightarrow> 'd account \<Rightarrow> 'd \<Rightarrow> ('w, (int \<times> 'd) \<times> 'd account) prog" where
  "BankService_CloseAccount B acc interest = with_MysqlDB (b_mysql B) (\<lambda>d.
     case try_catch (CloseAccount_body B interest) (\<lambda>e. ret (- 1, interest)) (d, acc) of
       (Inl e, (d', a)) \<Rightarrow> (Inl e, d') | (Inr n, (d', a)) \<Rightarrow> (Inr (n, a), d'))"

end
