(* ===== verification/Commands.thy ===== *)
theory Commands imports Protocol BankService begin

text \<open>
  \<open>bankserver/cmd\<close>: the \<open>Execute\<close> function of each of the eleven commands.  Each reads its fields
  from the request, calls one operation of \<open>BankService\<close>, maps the result code to an error code
  and text, and writes the answer.  \<open>TransactionManager\<close> selects the command.

  A handler returns the session with the answer in its stream.  An exception leaves a handler
  before it has written anything, so the session is as before (\<open>Process\<close>).
\<close>

subsection \<open>Shared parts\<close>

definition no_account :: bytes where
  "no_account = [0xd5, 0xca, 0xbb, 0xa7, 0xb2, 0xbb, 0xb4, 0xe6, 0xd4, 0xda]"

definition wrong_pass :: bytes where
  "wrong_pass = [0xc3, 0xdc, 0xc2, 0xeb, 0xb4, 0xed, 0xce, 0xf3]"

definition db_failed :: bytes where
  "db_failed = [0xca, 0xfd, 0xbe, 0xdd, 0xbf, 0xe2, 0xb4, 0xed, 0xce, 0xf3]"

definition wrong_user :: bytes where
  "wrong_user = [0xd3, 0xc3, 0xbb, 0xa7, 0xc3, 0xfb, 0xbb, 0xf2, 0xc3, 0xdc, 0xc2, 0xeb, 0xb4, 0xed, 0xce, 0xf3]"

definition no_data :: bytes where
  "no_data = [0xc3, 0xbb, 0xd3, 0xd0, 0xd5, 0xd2, 0xb5, 0xbd, 0xca, 0xfd, 0xbe, 0xdd]"

definition poor :: bytes where
  "poor = [0xd3, 0xe0, 0xb6, 0xee, 0xb2, 0xbb, 0xd7, 0xe3]"

definition no_other :: bytes where
  "no_other = [0xb6, 0xd4, 0xb7, 0xbd, 0xd5, 0xca, 0xba, 0xc5, 0xb2, 0xbb, 0xb4, 0xe6, 0xd4, 0xda]"

text \<open>\<open>Account acc;\<close>: the strings are empty, the numbers uninitialised.\<close>

definition Account_new :: "('d, 'w) bank \<Rightarrow> 'd account" where
  "Account_new B = \<lparr>acc_account_id = uninit_int B, acc_name = [], acc_pass = [], acc_id = [],
                    acc_op_date = [], acc_balance = uninit_dbl B\<rparr>"

text \<open>
  \<open>char account_id[7] = {0}; jis.ReadBytes(account_id, 6)\<close>, the first six bytes, as the string
  the code makes of the array.
\<close>

definition read_chars :: "jin \<Rightarrow> nat \<Rightarrow> (bytes \<times> jin) res" where
  "read_chars jis n = bind_res (JIn_ReadBytes jis n) (\<lambda>(b, jis). Inr (c_str b, jis))"

text \<open>The account id and the deciphered password most requests start with.\<close>

definition read_id_pass :: "bank_session \<Rightarrow> (bytes \<times> bytes \<times> bytes \<times> jin) res" where
  "read_id_pass s =
     bind_res (request_stream s) (\<lambda>jis.
     bind_res (read_chars jis 6) (\<lambda>(account_id, jis).
     bind_res (JIn_ReadBytes jis 16) (\<lambda>(encryptedPass, jis).
     bind_res (idea_key (GetCmd s)) (\<lambda>ideaKey.
     bind_res (decrypt_pass ideaKey encryptedPass) (\<lambda>pass.
     Inr (account_id, pass, ideaKey, jis))))))"

text \<open>The answer around a body; \<open>body\<close> writes it.\<close>

definition write_answer ::
  "bank_session \<Rightarrow> 16 word \<Rightarrow> bytes \<Rightarrow> (jout \<Rightarrow> jout res) \<Rightarrow> bank_session res" where
  "write_answer s error_code error_msg body =
     bind_res (resp_head (bs_jos s) (GetCmd s) 0 0 error_code error_msg) (\<lambda>(jos, lengthPos).
     bind_res (body jos) (\<lambda>jos.
     bind_res (resp_tail jos (GetCmd s) lengthPos) (\<lambda>jos. Inr (s\<lparr>bs_jos := jos\<rparr>))))"

definition no_body :: "jout \<Rightarrow> jout res" where
  "no_body jos = Inr jos"

text \<open>\<open>jos << acc.name << balance\<close> and the 19 characters of the date.\<close>

definition write_date :: "jout \<Rightarrow> bytes \<Rightarrow> jout res" where
  "write_date jos date = bind_res (c_str_read date 19) (JOut_WriteBytes jos)"

definition account_body :: "('d, 'w) bank \<Rightarrow> 'd account \<Rightarrow> jout \<Rightarrow> jout res" where
  "account_body B acc jos =
     bind_res (JOut_string jos (acc_name acc)) (\<lambda>jos.
     bind_res (JOut_string jos (DoubleToString (b_arith B) (acc_balance acc))) (\<lambda>jos.
     write_date jos (acc_op_date acc)))"

subsection \<open>The commands\<close>

definition UserLogin_Execute :: "('d, 'w) bank \<Rightarrow> bank_session \<Rightarrow> ('w, bank_session) prog" where
  "UserLogin_Execute B s =
     andThen (lift (
       bind_res (request_stream s) (\<lambda>jis.
       bind_res (JIn_string jis) (\<lambda>(name, jis).
       bind_res (idea_key (GetCmd s)) (\<lambda>ideaKey.
       bind_res (JIn_ReadBytes jis 16) (\<lambda>(encryptedPass, jis).
       bind_res (decrypt_pass ideaKey encryptedPass) (\<lambda>pass.
       bind_res (c_string pass) (\<lambda>pass. Inr (name, pass))))))))) (\<lambda>(name, pass).
     andThen (BankService_UserLogin B name pass) (\<lambda>code.
     let (error_code, error_msg) =
           (if code = 0 then (0, [])
            else if code = 1 then (1, wrong_user)
            else if code = - 1 then (- 1, db_failed)
            else (0, []))
     in lift (write_answer s error_code error_msg no_body)))"

definition Deposit_Execute :: "('d, 'w) bank \<Rightarrow> bank_session \<Rightarrow> ('w, bank_session) prog" where
  "Deposit_Execute B s =
     andThen (lift (
       bind_res (request_stream s) (\<lambda>jis.
       bind_res (read_chars jis 6) (\<lambda>(account_id, jis).
       bind_res (JIn_string jis) (\<lambda>(money, jis). Inr (account_id, money)))))) (\<lambda>(account_id, money).
     let acc = (Account_new B)\<lparr>acc_account_id := StringToInt (uninit_int B) account_id,
                                acc_balance := StringToDouble (b_arith B) (uninit_dbl B) money\<rparr>
     in andThen (BankService_Deposit B acc) (\<lambda>(code, acc).
     let (error_code, error_msg) =
           (if code = 0 then (0, [])
            else if code = 2 then (2, no_account)
            else if code = - 1 then (- 1, db_failed)
            else (0, []))
     in lift (write_answer s error_code error_msg
          (\<lambda>jos. if error_code = 0 then account_body B acc jos else Inr jos))))"

definition Withdrawal_Execute :: "('d, 'w) bank \<Rightarrow> bank_session \<Rightarrow> ('w, bank_session) prog" where
  "Withdrawal_Execute B s =
     andThen (lift (
       bind_res (read_id_pass s) (\<lambda>(account_id, pass, ideaKey, jis).
       bind_res (c_string pass) (\<lambda>pass.
       bind_res (JIn_string jis) (\<lambda>(money, jis). Inr (account_id, pass, money))))))
     (\<lambda>(account_id, pass, money).
     let acc = (Account_new B)\<lparr>acc_pass := pass,
                                acc_account_id := StringToInt (uninit_int B) account_id,
                                acc_balance := StringToDouble (b_arith B) (uninit_dbl B) money\<rparr>
     in andThen (BankService_WithDraw B acc) (\<lambda>(code, acc).
     let (error_code, error_msg) =
           (if code = 0 then (0, [])
            else if code = 2 then (2, no_account)
            else if code = 3 then (3, wrong_pass)
            else if code = 4 then (4, poor)
            else if code = - 1 then (- 1, db_failed)
            else (0, []))
     in lift (write_answer s error_code error_msg
          (\<lambda>jos. if error_code = 0 then account_body B acc jos else Inr jos))))"

definition Transfer_Execute :: "('d, 'w) bank \<Rightarrow> bank_session \<Rightarrow> ('w, bank_session) prog" where
  "Transfer_Execute B s =
     andThen (lift (
       bind_res (read_id_pass s) (\<lambda>(account_id, pass, ideaKey, jis).
       bind_res (c_string pass) (\<lambda>pass.
       bind_res (JIn_string jis) (\<lambda>(money, jis).
       bind_res (read_chars jis 6) (\<lambda>(other_account_id, jis).
       Inr (account_id, pass, money, other_account_id)))))))
     (\<lambda>(account_id, pass, money, other_account_id).
     let acc = (Account_new B)\<lparr>acc_pass := pass,
                                acc_account_id := StringToInt (uninit_int B) account_id,
                                acc_balance := StringToDouble (b_arith B) (uninit_dbl B) money\<rparr>
     in andThen (BankService_Transfer B acc other_account_id) (\<lambda>(code, acc).
     let (error_code, error_msg) =
           (if code = 0 then (0, [])
            else if code = 2 then (2, no_account)
            else if code = 3 then (3, wrong_pass)
            else if code = 4 then (4, poor)
            else if code = 5 then (5, no_other)
            else if code = - 1 then (- 1, db_failed)
            else (0, []))
     in lift (write_answer s error_code error_msg
          (\<lambda>jos. if error_code = 0 then account_body B acc jos else Inr jos))))"

text \<open>\<open>ss << setw(6) << setfill('0') << acc.account_id\<close>.\<close>

definition pad6 :: "bytes \<Rightarrow> bytes" where
  "pad6 s = replicate (6 - length s) 48 @ s"

definition OpenAccount_Execute :: "('d, 'w) bank \<Rightarrow> bank_session \<Rightarrow> ('w, bank_session) prog" where
  "OpenAccount_Execute B s =
     andThen (lift (
       bind_res (request_stream s) (\<lambda>jis.
       bind_res (JIn_string jis) (\<lambda>(name, jis).
       bind_res (idea_key (GetCmd s)) (\<lambda>ideaKey.
       bind_res (JIn_ReadBytes jis 16) (\<lambda>(encryptedPass, jis).
       bind_res (decrypt_pass ideaKey encryptedPass) (\<lambda>pass.
       bind_res (read_chars jis 18) (\<lambda>(id, jis).
       bind_res (JIn_string jis) (\<lambda>(money, jis).
       bind_res (c_string pass) (\<lambda>pass. Inr (name, pass, id, money))))))))))) (\<lambda>(name, pass, id, money).
     let acc = (Account_new B)\<lparr>acc_id := id, acc_name := name, acc_pass := pass,
                                acc_balance := StringToDouble (b_arith B) (uninit_dbl B) money\<rparr>
     in andThen (BankService_OpenAccount B acc) (\<lambda>(code, acc).
     let (error_code, error_msg) =
           (if code = 0 then (0, [])
            else if code = 1 then (1, wrong_user)
            else if code = - 1 then (- 1, db_failed)
            else (0, []))
     in lift (write_answer s error_code error_msg (\<lambda>jos.
          bind_res (c_str_read (pad6 (dec_int (acc_account_id acc))) 6) (\<lambda>b.
          bind_res (JOut_WriteBytes jos b) (\<lambda>jos. JOut_string jos (acc_op_date acc)))))))"

definition BalanceInquiry_Execute :: "('d, 'w) bank \<Rightarrow> bank_session \<Rightarrow> ('w, bank_session) prog" where
  "BalanceInquiry_Execute B s =
     andThen (lift (
       bind_res (read_id_pass s) (\<lambda>(account_id, pass, ideaKey, jis).
       bind_res (c_string pass) (\<lambda>pass. Inr (account_id, pass))))) (\<lambda>(account_id, pass).
     let acc = (Account_new B)\<lparr>acc_pass := pass,
                                acc_account_id := StringToInt (uninit_int B) account_id\<rparr>
     in andThen (BankService_BalanceInquiry B acc) (\<lambda>(code, acc).
     let (error_code, error_msg) =
           (if code = 0 then (0, [])
            else if code = 2 then (2, no_account)
            else if code = 3 then (3, wrong_pass)
            else if code = - 1 then (- 1, db_failed)
            else (0, []))
     in lift (write_answer s error_code error_msg
          (\<lambda>jos. if error_code = 0 then account_body B acc jos else Inr jos))))"

definition CloseAccount_Execute :: "('d, 'w) bank \<Rightarrow> bank_session \<Rightarrow> ('w, bank_session) prog" where
  "CloseAccount_Execute B s =
     andThen (lift (
       bind_res (read_id_pass s) (\<lambda>(account_id, pass, ideaKey, jis).
       bind_res (c_string pass) (\<lambda>pass. Inr (account_id, pass))))) (\<lambda>(account_id, pass).
     let acc = (Account_new B)\<lparr>acc_pass := pass,
                                acc_account_id := StringToInt (uninit_int B) account_id\<rparr>
     in andThen (BankService_CloseAccount B acc (interetRate (b_server B))) (\<lambda>((code, interest), acc).
     let (error_code, error_msg) =
           (if code = 0 then (0, [])
            else if code = 2 then (2, no_account)
            else if code = 3 then (3, wrong_pass)
            else if code = - 1 then (- 1, db_failed)
            else (0, []))
     in lift (write_answer s error_code error_msg (\<lambda>jos.
          if error_code = 0 then
            bind_res (JOut_string jos (acc_name acc)) (\<lambda>jos.
            bind_res (JOut_string jos (DoubleToString (b_arith B) (acc_balance acc))) (\<lambda>jos.
            bind_res (JOut_string jos (DoubleToString (b_arith B) interest)) (\<lambda>jos.
            write_date jos (acc_op_date acc))))
          else Inr jos))))"

definition ChangePassword_Execute :: "('d, 'w) bank \<Rightarrow> bank_session \<Rightarrow> ('w, bank_session) prog" where
  "ChangePassword_Execute B s =
     andThen (lift (
       bind_res (read_id_pass s) (\<lambda>(account_id, pass, ideaKey, jis).
       bind_res (JIn_ReadBytes jis 16) (\<lambda>(encryptedPass, jis).
       bind_res (decrypt_pass ideaKey encryptedPass) (\<lambda>newpass.
       bind_res (c_string pass) (\<lambda>pass.
       bind_res (c_string newpass) (\<lambda>newpass. Inr (account_id, pass, newpass))))))))
     (\<lambda>(account_id, pass, newpass).
     let acc = (Account_new B)\<lparr>acc_pass := pass,
                                acc_account_id := StringToInt (uninit_int B) account_id\<rparr>
     in andThen (BankService_ChangePassword B acc newpass) (\<lambda>(code, acc).
     let (error_code, error_msg) =
           (if code = 0 then (0, [])
            else if code = 2 then (2, no_account)
            else if code = 3 then (3, wrong_pass)
            else if code = - 1 then (- 1, db_failed)
            else (0, []))
     in lift (write_answer s error_code error_msg no_body)))"


subsection \<open>Reports\<close>

text \<open>The body of a report packet.\<close>

definition detail_body :: "('d, 'w) bank \<Rightarrow> 'd trans_detail \<Rightarrow> jout \<Rightarrow> jout res" where
  "detail_body B td jos =
     bind_res (c_str_read (td_trans_date td) 19) (\<lambda>b.
     bind_res (JOut_WriteBytes jos b) (\<lambda>jos.
     bind_res (c_str_read (td_account_id td) 6) (\<lambda>b.
     bind_res (JOut_WriteBytes jos b) (\<lambda>jos.
     bind_res (c_str_read (td_other_account_id td) 6) (\<lambda>b.
     bind_res (JOut_WriteBytes jos b) (\<lambda>jos.
     bind_res (JOut_string jos (DoubleToString (b_arith B) (td_money td))) (\<lambda>jos.
     bind_res (JOut_string jos (td_abstract_name td)) (\<lambda>jos.
     bind_res (JOut_string jos (DoubleToString (b_arith B) (td_balance td))) (\<lambda>jos.
     JOut_uint32 jos (td_total td))))))))))"

text \<open>One pass of the loop over the details; the error code is 0 and the message empty.\<close>

definition detail_packet ::
  "('d, 'w) bank \<Rightarrow> 16 word \<Rightarrow> 16 word \<Rightarrow> 16 word \<Rightarrow> 'd trans_detail \<Rightarrow> jout \<Rightarrow> jout res" where
  "detail_packet B cmd cnt seq td jos =
     bind_res (resp_head jos cmd cnt seq 0 []) (\<lambda>(jos, lengthPos).
     bind_res (detail_body B td jos) (\<lambda>jos. resp_tail jos cmd lengthPos))"

text \<open>\<open>QueryDayBill\<close> builds each packet in a stream of its own and copies it.\<close>

fun day_packets ::
  "('d, 'w) bank \<Rightarrow> 16 word \<Rightarrow> 16 word \<Rightarrow> 16 word \<Rightarrow> 'd trans_detail list \<Rightarrow> jout \<Rightarrow> jout res" where
  "day_packets B cmd cnt seq [] jos = Inr jos"
| "day_packets B cmd cnt seq (td # tds) jos =
     bind_res (detail_packet B cmd cnt seq td JOut_new) (\<lambda>josTmp.
     bind_res (JOut_Data josTmp) (\<lambda>data.
     bind_res (JOut_WriteBytes jos data) (\<lambda>jos.
     day_packets B cmd cnt (seq + 1) tds jos)))"

text \<open>The other two write all packets into the session's stream.\<close>

fun history_packets ::
  "('d, 'w) bank \<Rightarrow> 16 word \<Rightarrow> 16 word \<Rightarrow> 16 word \<Rightarrow> 'd trans_detail list \<Rightarrow> jout \<Rightarrow> jout res" where
  "history_packets B cmd cnt seq [] jos = Inr jos"
| "history_packets B cmd cnt seq (td # tds) jos =
     bind_res (detail_packet B cmd cnt seq td jos) (\<lambda>jos.
     history_packets B cmd cnt (seq + 1) tds jos)"

definition write_report ::
  "bank_session \<Rightarrow> int \<Rightarrow> (jout \<Rightarrow> jout res) \<Rightarrow> bank_session res" where
  "write_report s code packets =
     (let (error_code, error_msg) =
           (if code = 6 then (6, no_data)
            else if code = - 1 then (- 1, db_failed)
            else (0, []))
      in if error_code = 0
         then bind_res (packets (bs_jos s)) (\<lambda>jos. Inr (s\<lparr>bs_jos := jos\<rparr>))
         else write_answer s error_code error_msg no_body)"

definition QueryDayBill_Execute :: "('d, 'w) bank \<Rightarrow> bank_session \<Rightarrow> ('w, bank_session) prog" where
  "QueryDayBill_Execute B s =
     andThen (lift (
       bind_res (request_stream s) (\<lambda>jis.
       bind_res (JIn_uint32 jis) (\<lambda>(page, jis).
       bind_res (read_chars jis 10) (\<lambda>(date, jis). Inr (page, date)))))) (\<lambda>(page, date).
     andThen (BankService_QueryDayBill B page date) (\<lambda>(code, details).
     lift (write_report s code (day_packets B (GetCmd s) (of_nat (length details)) 0 details))))"

definition QueryHistoryBill_Execute :: "('d, 'w) bank \<Rightarrow> bank_session \<Rightarrow> ('w, bank_session) prog" where
  "QueryHistoryBill_Execute B s =
     andThen (lift (
       bind_res (request_stream s) (\<lambda>jis.
       bind_res (JIn_uint32 jis) (\<lambda>(page, jis).
       bind_res (read_chars jis 10) (\<lambda>(begin_date, jis).
       bind_res (read_chars jis 10) (\<lambda>(end_date, jis). Inr (page, begin_date, end_date)))))))
     (\<lambda>(page, begin_date, end_date).
     andThen (BankService_QueryHistoryBill B page begin_date end_date) (\<lambda>(code, details).
     lift (write_report s code (history_packets B (GetCmd s) (of_nat (length details)) 0 details))))"

definition QueryAccountHistoryBill_Execute ::
  "('d, 'w) bank \<Rightarrow> bank_session \<Rightarrow> ('w, bank_session) prog" where
  "QueryAccountHistoryBill_Execute B s =
     andThen (lift (
       bind_res (request_stream s) (\<lambda>jis.
       bind_res (JIn_uint32 jis) (\<lambda>(page, jis).
       bind_res (read_chars jis 6) (\<lambda>(account_id, jis).
       bind_res (read_chars jis 10) (\<lambda>(begin_date, jis).
       bind_res (read_chars jis 10) (\<lambda>(end_date, jis). Inr (page, account_id, begin_date, end_date))))))))
     (\<lambda>(page, account_id, begin_date, end_date).
     andThen (BankService_QueryAccountHistoryBill B page account_id begin_date end_date)
       (\<lambda>(code, details).
     lift (write_report s code (history_packets B (GetCmd s) (of_nat (length details)) 0 details))))"

subsection \<open>Selecting the command\<close>

datatype transaction = UserLogin | OpenAccount | Deposit | Withdrawal | Transfer | BalanceInquiry
  | ChangePassword | QueryDayBill | QueryHistoryBill | QueryAccountHistoryBill | CloseAccount

definition TransactionManager_actions :: "16 word \<Rightarrow> transaction option" where
  "TransactionManager_actions = [0x01 \<mapsto> UserLogin, 0x02 \<mapsto> OpenAccount, 0x03 \<mapsto> Deposit,
     0x04 \<mapsto> Withdrawal, 0x05 \<mapsto> Transfer, 0x06 \<mapsto> BalanceInquiry, 0x07 \<mapsto> ChangePassword,
     0x08 \<mapsto> QueryDayBill, 0x09 \<mapsto> QueryHistoryBill, 0x0A \<mapsto> QueryAccountHistoryBill,
     0x0B \<mapsto> CloseAccount]"

fun Execute :: "transaction \<Rightarrow> ('d, 'w) bank \<Rightarrow> bank_session \<Rightarrow> ('w, bank_session) prog" where
  "Execute UserLogin = UserLogin_Execute"
| "Execute OpenAccount = OpenAccount_Execute"
| "Execute Deposit = Deposit_Execute"
| "Execute Withdrawal = Withdrawal_Execute"
| "Execute Transfer = Transfer_Execute"
| "Execute BalanceInquiry = BalanceInquiry_Execute"
| "Execute ChangePassword = ChangePassword_Execute"
| "Execute QueryDayBill = QueryDayBill_Execute"
| "Execute QueryHistoryBill = QueryHistoryBill_Execute"
| "Execute QueryAccountHistoryBill = QueryAccountHistoryBill_Execute"
| "Execute CloseAccount = CloseAccount_Execute"

definition TransactionManager_DoAction ::
  "('d, 'w) bank \<Rightarrow> bank_session \<Rightarrow> ('w, bool \<times> bank_session) prog" where
  "TransactionManager_DoAction B session =
     (let cmd = GetCmd session in
      case TransactionManager_actions cmd of
        Some t \<Rightarrow> andThen (Execute t B session) (\<lambda>s. ret (True, s))
      | None \<Rightarrow> ret (False, session))"

definition BankSession_DoAction :: "('d, 'w) bank \<Rightarrow> bank_session \<Rightarrow> ('w, bank_session) prog" where
  "BankSession_DoAction B s = andThen (TransactionManager_DoAction B s) (\<lambda>(_, s). ret s)"

text \<open>\<open>Parse\<close> is outside the \<open>try\<close> block.\<close>

definition Process :: "('d, 'w) bank \<Rightarrow> bank_session \<Rightarrow> ('w, bank_session) prog" where
  "Process B s =
     andThen (lift (Parse s)) (\<lambda>s. try_catch (BankSession_DoAction B s) (\<lambda>e. ret s))"

end
