(* ===== verification/Buffer.thy ===== *)
theory Buffer imports Endian ByteQueue begin

text \<open>
  \<open>muduo/net/Buffer.h\<close> and \<open>Buffer.cc\<close>: the byte buffer that every connection reads into and
  writes from.  The state is the vector \<open>buffer_\<close> and the two indices; a \<open>const char*\<close> into the
  buffer is its offset in the vector.  Operations whose assertions can fail return an outcome.

  \<open>Buffer_inv\<close> is the class invariant and \<open>content\<close> the readable bytes.  The lemmas give
  every operation's effect on both; the interface
  \<open>byte_queue\<close> of theory \<open>ByteQueue\<close>, which the network code relies on, is interpreted on
  the operations.
\<close>

subsection \<open>State\<close>

record buffer =
  buffer_vec :: bytes
  readerIndex :: nat
  writerIndex :: nat

definition kCheapPrepend :: nat where
  "kCheapPrepend = 8"

definition kInitialSize :: nat where
  "kInitialSize = 1024"

definition kCRLF :: bytes where
  "kCRLF = [13, 10]"

definition Buffer_new :: buffer where
  "Buffer_new = \<lparr>buffer_vec = replicate (kCheapPrepend + kInitialSize) 0,
                 readerIndex = kCheapPrepend, writerIndex = kCheapPrepend\<rparr>"

definition Buffer_swap :: "buffer \<Rightarrow> buffer \<Rightarrow> buffer \<times> buffer" where
  "Buffer_swap this rhs =
     (this\<lparr>buffer_vec := buffer_vec rhs, readerIndex := readerIndex rhs, writerIndex := writerIndex rhs\<rparr>,
      rhs\<lparr>buffer_vec := buffer_vec this, readerIndex := readerIndex this, writerIndex := writerIndex this\<rparr>)"

definition readableBytes :: "buffer \<Rightarrow> nat" where
  "readableBytes b = writerIndex b - readerIndex b"

definition writableBytes :: "buffer \<Rightarrow> nat" where
  "writableBytes b = length (buffer_vec b) - writerIndex b"

definition prependableBytes :: "buffer \<Rightarrow> nat" where
  "prependableBytes b = readerIndex b"

definition peek :: "buffer \<Rightarrow> nat" where
  "peek b = readerIndex b"

definition beginWrite :: "buffer \<Rightarrow> nat" where
  "beginWrite b = writerIndex b"

definition hasWritten :: "buffer \<Rightarrow> nat \<Rightarrow> buffer" where
  "hasWritten b len = b\<lparr>writerIndex := writerIndex b + len\<rparr>"

text \<open>The bytes between two pointers into the buffer.\<close>

definition range_of :: "buffer \<Rightarrow> nat \<Rightarrow> nat \<Rightarrow> bytes" where
  "range_of b i j = take (j - i) (drop i (buffer_vec b))"

definition findCRLF :: "buffer \<Rightarrow> nat option" where
  "findCRLF b =
     (let crlf = peek b + std_search (range_of b (peek b) (beginWrite b)) kCRLF
      in if crlf = beginWrite b then None else Some crlf)"

definition findCRLF_from :: "buffer \<Rightarrow> nat \<Rightarrow> nat option res" where
  "findCRLF_from b start =
     assert_res (peek b \<le> start)
       (assert_res (start \<le> beginWrite b)
         (let crlf = start + std_search (range_of b start (beginWrite b)) kCRLF
          in Inr (if crlf = beginWrite b then None else Some crlf)))"

subsection \<open>Retrieving\<close>

definition retrieveAll :: "buffer \<Rightarrow> buffer" where
  "retrieveAll b = b\<lparr>readerIndex := kCheapPrepend, writerIndex := kCheapPrepend\<rparr>"

definition retrieve :: "buffer \<Rightarrow> nat \<Rightarrow> buffer res" where
  "retrieve b len =
     assert_res (len \<le> readableBytes b)
       (if len < readableBytes b
        then Inr (b\<lparr>readerIndex := readerIndex b + len\<rparr>)
        else Inr (retrieveAll b))"

definition retrieveUntil :: "buffer \<Rightarrow> nat \<Rightarrow> buffer res" where
  "retrieveUntil b end =
     assert_res (peek b \<le> end) (assert_res (end \<le> beginWrite b) (retrieve b (end - peek b)))"

definition retrieveInt32 :: "buffer \<Rightarrow> buffer res" where
  "retrieveInt32 b = retrieve b 4"

definition retrieveInt16 :: "buffer \<Rightarrow> buffer res" where
  "retrieveInt16 b = retrieve b 2"

definition retrieveInt8 :: "buffer \<Rightarrow> buffer res" where
  "retrieveInt8 b = retrieve b 1"

definition retrieveAsString :: "buffer \<Rightarrow> nat \<Rightarrow> (bytes \<times> buffer) res" where
  "retrieveAsString b len =
     assert_res (len \<le> readableBytes b)
       (bind_res (mem_read (buffer_vec b) (peek b) len) (\<lambda>result.
        bind_res (retrieve b len) (\<lambda>b'.
        Inr (result, b'))))"

definition retrieveAllAsString :: "buffer \<Rightarrow> (bytes \<times> buffer) res" where
  "retrieveAllAsString b = retrieveAsString b (readableBytes b)"

subsection \<open>Appending\<close>

definition makeSpace :: "buffer \<Rightarrow> nat \<Rightarrow> buffer res" where
  "makeSpace b len =
     (if writableBytes b + prependableBytes b < len + kCheapPrepend
      then Inr (b\<lparr>buffer_vec := vec_resize (writerIndex b + len) (buffer_vec b)\<rparr>)
      else assert_res (kCheapPrepend < readerIndex b)
        (let readable = readableBytes b in
         bind_res (mem_write (buffer_vec b) kCheapPrepend
                     (range_of b (readerIndex b) (writerIndex b))) (\<lambda>v.
         let b' = b\<lparr>buffer_vec := v, readerIndex := kCheapPrepend,
                    writerIndex := kCheapPrepend + readable\<rparr>
         in assert_res (readable = readableBytes b') (Inr b'))))"

definition ensureWritableBytes :: "buffer \<Rightarrow> nat \<Rightarrow> buffer res" where
  "ensureWritableBytes b len =
     bind_res (if writableBytes b < len then makeSpace b len else Inr b) (\<lambda>b'.
     assert_res (len \<le> writableBytes b') (Inr b'))"

definition Buffer_append :: "buffer \<Rightarrow> bytes \<Rightarrow> buffer res" where
  "Buffer_append b data =
     bind_res (ensureWritableBytes b (length data)) (\<lambda>b1.
     bind_res (mem_write (buffer_vec b1) (beginWrite b1) data) (\<lambda>v.
     Inr (hasWritten (b1\<lparr>buffer_vec := v\<rparr>) (length data))))"

definition appendInt32 :: "buffer \<Rightarrow> 32 word \<Rightarrow> buffer res" where
  "appendInt32 b x = Buffer_append b (mem32 (hostToNetwork32 x))"

definition appendInt16 :: "buffer \<Rightarrow> 16 word \<Rightarrow> buffer res" where
  "appendInt16 b x = Buffer_append b (mem16 (hostToNetwork16 x))"

definition appendInt8 :: "buffer \<Rightarrow> byte \<Rightarrow> buffer res" where
  "appendInt8 b x = Buffer_append b [x]"

subsection \<open>Reading integers\<close>

definition peekInt32 :: "buffer \<Rightarrow> 32 word res" where
  "peekInt32 b =
     assert_res (4 \<le> readableBytes b)
       (bind_res (mem_read (buffer_vec b) (peek b) 4) (\<lambda>be32. Inr (networkToHost32 (load32 be32))))"

definition peekInt16 :: "buffer \<Rightarrow> 16 word res" where
  "peekInt16 b =
     assert_res (2 \<le> readableBytes b)
       (bind_res (mem_read (buffer_vec b) (peek b) 2) (\<lambda>be16. Inr (networkToHost16 (load16 be16))))"

definition peekInt8 :: "buffer \<Rightarrow> byte res" where
  "peekInt8 b =
     assert_res (1 \<le> readableBytes b)
       (bind_res (mem_read (buffer_vec b) (peek b) 1) (\<lambda>x. Inr (hd x)))"

definition readInt32 :: "buffer \<Rightarrow> (32 word \<times> buffer) res" where
  "readInt32 b =
     bind_res (peekInt32 b) (\<lambda>result. bind_res (retrieveInt32 b) (\<lambda>b'. Inr (result, b')))"

definition readInt16 :: "buffer \<Rightarrow> (16 word \<times> buffer) res" where
  "readInt16 b =
     bind_res (peekInt16 b) (\<lambda>result. bind_res (retrieveInt16 b) (\<lambda>b'. Inr (result, b')))"

definition readInt8 :: "buffer \<Rightarrow> (byte \<times> buffer) res" where
  "readInt8 b =
     bind_res (peekInt8 b) (\<lambda>result. bind_res (retrieveInt8 b) (\<lambda>b'. Inr (result, b')))"

subsection \<open>Prepending\<close>

definition prepend :: "buffer \<Rightarrow> bytes \<Rightarrow> buffer res" where
  "prepend b data =
     assert_res (length data \<le> prependableBytes b)
       (bind_res (mem_write (buffer_vec b) (readerIndex b - length data) data) (\<lambda>v.
        Inr (b\<lparr>buffer_vec := v, readerIndex := readerIndex b - length data\<rparr>)))"

definition prependInt32 :: "buffer \<Rightarrow> 32 word \<Rightarrow> buffer res" where
  "prependInt32 b x = prepend b (mem32 (hostToNetwork32 x))"

definition prependInt16 :: "buffer \<Rightarrow> 16 word \<Rightarrow> buffer res" where
  "prependInt16 b x = prepend b (mem16 (hostToNetwork16 x))"

definition prependInt8 :: "buffer \<Rightarrow> byte \<Rightarrow> buffer res" where
  "prependInt8 b x = prepend b [x]"

subsection \<open>Shrinking and reading from a descriptor\<close>

text \<open>
  A \<open>StringPiece\<close> is a pointer and an \<open>int\<close> length: \<open>toStringPiece\<close> narrows the size to 32
  bits.  Appending one converts the length back to \<open>size_t\<close>, so a negative length asks for more
  bytes than there are.
\<close>

definition toStringPiece :: "buffer \<Rightarrow> nat \<times> 32 word" where
  "toStringPiece b = (peek b, of_nat (readableBytes b))"

definition append_piece :: "buffer \<Rightarrow> bytes \<Rightarrow> nat \<times> 32 word \<Rightarrow> buffer res" where
  "append_piece b mem str =
     (let len = sint (snd str) in
      if len < 0 then Inl OutOfBounds
      else bind_res (mem_read mem (fst str) (nat len)) (\<lambda>data. Buffer_append b data))"

definition shrink :: "buffer \<Rightarrow> nat \<Rightarrow> buffer res" where
  "shrink b reserve =
     bind_res (ensureWritableBytes Buffer_new (readableBytes b + reserve)) (\<lambda>other.
     bind_res (append_piece other (buffer_vec b) (toStringPiece b)) (\<lambda>other'.
     Inr (fst (Buffer_swap b other'))))"

text \<open>
  \<open>readv(2)\<close> scatters what it reads over the free space of the buffer and a stack array of
  65536 bytes.  What the kernel answers is an argument: an error number, or the bytes read,
  which fill the first area before the second.
\<close>

datatype readv_answer = ReadErr "32 word" | ReadOk bytes

definition extrabuf_size :: nat where
  "extrabuf_size = 65536"

text \<open>The promise of \<open>readv(2)\<close>: it never returns more than the areas hold.\<close>

definition readv_fits :: "buffer \<Rightarrow> readv_answer \<Rightarrow> bool" where
  "readv_fits b a = (case a of ReadErr e \<Rightarrow> True
     | ReadOk data \<Rightarrow> length data \<le> writableBytes b + extrabuf_size)"

definition readFd :: "buffer \<Rightarrow> readv_answer \<Rightarrow> (int \<times> 32 word option \<times> buffer) res" where
  "readFd b answer =
     (case answer of
        ReadErr errno \<Rightarrow> Inr (- 1, Some errno, b)
      | ReadOk data \<Rightarrow>
          (let writable = writableBytes b;
               n = length data
           in bind_res (mem_write (buffer_vec b) (writerIndex b) (take writable data)) (\<lambda>v.
              let extrabuf = drop writable data;
                  b1 = b\<lparr>buffer_vec := v\<rparr>
              in if n \<le> writable
                 then Inr (int n, None, b1\<lparr>writerIndex := writerIndex b1 + n\<rparr>)
                 else bind_res (Buffer_append (b1\<lparr>writerIndex := length (buffer_vec b1)\<rparr>)
                                  (take (n - writable) extrabuf))
                        (\<lambda>b2. Inr (int n, None, b2)))))"

subsection \<open>Invariant and content\<close>

definition Buffer_inv :: "buffer \<Rightarrow> bool" where
  "Buffer_inv b \<longleftrightarrow> readerIndex b \<le> writerIndex b
     \<and> writerIndex b \<le> length (buffer_vec b) \<and> kCheapPrepend \<le> length (buffer_vec b)"

definition content :: "buffer \<Rightarrow> bytes" where
  "content b = range_of b (readerIndex b) (writerIndex b)"

lemmas buffer_defs = readableBytes_def writableBytes_def prependableBytes_def peek_def
  beginWrite_def kCheapPrepend_def kInitialSize_def

lemma Buffer_invD:
  assumes "Buffer_inv b"
  shows "readerIndex b \<le> writerIndex b" "writerIndex b \<le> length (buffer_vec b)"
    "readerIndex b \<le> length (buffer_vec b)" "kCheapPrepend \<le> length (buffer_vec b)"
  using assms by (auto simp: Buffer_inv_def)

lemma content_length [simp]: "Buffer_inv b \<Longrightarrow> length (content b) = readableBytes b"
  by (frule Buffer_invD(1), frule Buffer_invD(2))
    (simp add: content_def range_of_def readableBytes_def)

lemma Buffer_new_correct [simp]:
  "Buffer_inv Buffer_new" "content Buffer_new = []" "writableBytes Buffer_new = kInitialSize"
  "readableBytes Buffer_new = 0" "prependableBytes Buffer_new = kCheapPrepend"
  by (simp_all add: Buffer_new_def Buffer_inv_def content_def range_of_def buffer_defs)

lemma retrieveAll_correct [simp]:
  "Buffer_inv b \<Longrightarrow> Buffer_inv (retrieveAll b)" "content (retrieveAll b) = []"
  by (simp_all add: retrieveAll_def Buffer_inv_def content_def range_of_def)

lemma retrieve_correct:
  assumes "Buffer_inv b" and "len \<le> readableBytes b"
  shows "\<exists>b'. retrieve b len = Inr b' \<and> Buffer_inv b' \<and> content b' = drop len (content b)"
proof (cases "len < readableBytes b")
  case True
  with assms show ?thesis
    by (auto simp: retrieve_def Buffer_inv_def content_def range_of_def readableBytes_def
        drop_take algebra_simps)
next
  case False
  with assms have "len = readableBytes b" by simp
  with assms show ?thesis by (auto simp: retrieve_def)
qed

lemma retrieve_too_much: "readableBytes b < len \<Longrightarrow> retrieve b len = Inl Abort"
  by (simp add: retrieve_def)

lemma take_content:
  assumes "Buffer_inv b" and "len \<le> readableBytes b"
  shows "mem_read (buffer_vec b) (peek b) len = Inr (take len (content b))"
  using assms Buffer_invD [OF assms(1)]
  by (simp add: mem_read_def peek_def content_def range_of_def readableBytes_def min_def)

lemma retrieveAsString_correct:
  assumes "Buffer_inv b" and "len \<le> readableBytes b"
  shows "\<exists>b'. retrieveAsString b len = Inr (take len (content b), b')
           \<and> Buffer_inv b' \<and> content b' = drop len (content b)"
  using assms retrieve_correct [OF assms] by (auto simp: retrieveAsString_def take_content)

text \<open>Making space: the assertion inside \<open>makeSpace\<close> never fires.\<close>

lemma makeSpace_grow:
  assumes "Buffer_inv b" and "writableBytes b < len"
    and "writableBytes b + prependableBytes b < len + kCheapPrepend"
  shows "\<exists>b'. makeSpace b len = Inr b' \<and> Buffer_inv b' \<and> content b' = content b
           \<and> len \<le> writableBytes b' \<and> writerIndex b' = writerIndex b"
proof -
  have "length (buffer_vec b) < writerIndex b + len"
    using assms(2) by (simp add: writableBytes_def)
  then show ?thesis
    using assms(3) Buffer_invD [OF assms(1)]
    by (auto simp: makeSpace_def Buffer_inv_def content_def range_of_def writableBytes_def
        take_drop_vec_resize)
qed

lemma makeSpace_slide:
  assumes "Buffer_inv b" and "writableBytes b < len"
    and "\<not> writableBytes b + prependableBytes b < len + kCheapPrepend"
  shows "\<exists>b'. makeSpace b len = Inr b' \<and> Buffer_inv b' \<and> content b' = content b
           \<and> len \<le> writableBytes b' \<and> length (buffer_vec b') = length (buffer_vec b)"
proof -
  let ?r = "readerIndex b" and ?w = "writerIndex b" and ?m = "buffer_vec b"
  from assms have r: "kCheapPrepend < ?r" and rw: "?r \<le> ?w" "?w \<le> length ?m"
    by (auto simp: Buffer_inv_def buffer_defs)
  let ?xs = "range_of b ?r ?w"
  let ?v = "take kCheapPrepend ?m @ ?xs @ drop (kCheapPrepend + (?w - ?r)) ?m"
  let ?b = "b\<lparr>buffer_vec := ?v, readerIndex := kCheapPrepend,
              writerIndex := kCheapPrepend + (?w - ?r)\<rparr>"
  have len: "length ?xs = ?w - ?r" using rw by (simp add: range_of_def)
  have lenv: "length ?v = length ?m" using r rw by (simp add: len)
  have "mem_write ?m kCheapPrepend ?xs = Inr ?v"
    using r rw by (simp add: mem_write_def len)
  with assms(3) r have step: "makeSpace b len = Inr ?b"
    by (simp add: makeSpace_def readableBytes_def Let_def)
  have "content ?b = content b"
    using r rw len by (simp add: content_def range_of_def)
  moreover have "Buffer_inv ?b"
    using r rw unfolding Buffer_inv_def by (auto simp: len)
  moreover have "len \<le> writableBytes ?b"
    using assms(3) r rw lenv by (simp add: buffer_defs)
  moreover have "length (buffer_vec ?b) = length ?m" using lenv by simp
  ultimately show ?thesis using step by blast
qed

lemma ensureWritableBytes_correct:
  assumes "Buffer_inv b"
  shows "\<exists>b'. ensureWritableBytes b len = Inr b' \<and> Buffer_inv b' \<and> content b' = content b
           \<and> len \<le> writableBytes b'
           \<and> (len + kCheapPrepend \<le> writableBytes b + prependableBytes b
                \<or> len \<le> writableBytes b
              \<longrightarrow> length (buffer_vec b') = length (buffer_vec b))"
proof (cases "writableBytes b < len")
  case True
  obtain b' where "makeSpace b len = Inr b'" "Buffer_inv b'" "content b' = content b"
    "len \<le> writableBytes b'"
    "len + kCheapPrepend \<le> writableBytes b + prependableBytes b
       \<longrightarrow> length (buffer_vec b') = length (buffer_vec b)"
    using makeSpace_grow [OF assms True] makeSpace_slide [OF assms True]
    by (meson linorder_not_less)
  with True show ?thesis by (auto simp: ensureWritableBytes_def)
next
  case False
  with assms show ?thesis by (auto simp: ensureWritableBytes_def)
qed

lemma Buffer_append_correct:
  assumes "Buffer_inv b"
  shows "\<exists>b'. Buffer_append b data = Inr b' \<and> Buffer_inv b' \<and> content b' = content b @ data"
proof -
  obtain b1 where b1: "ensureWritableBytes b (length data) = Inr b1" "Buffer_inv b1"
    "content b1 = content b" "length data \<le> writableBytes b1"
    using ensureWritableBytes_correct [OF assms] by blast
  let ?w = "writerIndex b1" and ?m = "buffer_vec b1"
  let ?v = "take ?w ?m @ data @ drop (?w + length data) ?m"
  have fits: "?w + length data \<le> length ?m" and rw: "readerIndex b1 \<le> ?w"
    using b1(2,4) by (auto simp: Buffer_inv_def writableBytes_def)
  let ?b = "hasWritten (b1\<lparr>buffer_vec := ?v\<rparr>) (length data)"
  have "Buffer_append b data = Inr ?b"
    using b1(1) fits by (simp add: Buffer_append_def beginWrite_def mem_write_ok)
  moreover have "Buffer_inv ?b"
    using b1(2) fits by (simp add: Buffer_inv_def hasWritten_def)
  moreover have "content ?b = content b1 @ data"
    using read_write_behind [OF rw fits] by (simp add: content_def range_of_def hasWritten_def)
  ultimately show ?thesis using b1(3) by auto
qed

lemma prepend_correct:
  assumes "Buffer_inv b" and "length data \<le> prependableBytes b"
  shows "\<exists>b'. prepend b data = Inr b' \<and> Buffer_inv b' \<and> content b' = data @ content b
           \<and> prependableBytes b' = prependableBytes b - length data"
proof -
  let ?r = "readerIndex b" and ?m = "buffer_vec b" and ?n = "length data"
  let ?v = "take (?r - ?n) ?m @ data @ drop (?r - ?n + ?n) ?m"
  have rw: "?n \<le> ?r" "?r \<le> writerIndex b" "writerIndex b \<le> length ?m"
    using assms by (auto simp: Buffer_inv_def prependableBytes_def)
  have "mem_write ?m (?r - ?n) data = Inr ?v"
    using rw by (simp add: mem_write_def)
  with assms(2) have "prepend b data = Inr (b\<lparr>buffer_vec := ?v, readerIndex := ?r - ?n\<rparr>)"
    by (simp add: prepend_def)
  moreover have "content (b\<lparr>buffer_vec := ?v, readerIndex := ?r - ?n\<rparr>) = data @ content b"
    using read_write_before [OF rw] rw(1) by (simp add: content_def range_of_def)
  moreover have "Buffer_inv (b\<lparr>buffer_vec := ?v, readerIndex := ?r - ?n\<rparr>)"
    using assms rw by (simp add: Buffer_inv_def)
  ultimately show ?thesis by (auto simp: prependableBytes_def)
qed

subsection \<open>Searching for a line end\<close>

text \<open>The first offset of \<open>p\<close> in a list, as a specification.\<close>

definition first_at :: "bytes \<Rightarrow> bytes \<Rightarrow> nat \<Rightarrow> bool" where
  "first_at p xs k \<longleftrightarrow> take (length p) (drop k xs) = p
     \<and> (\<forall>j<k. take (length p) (drop j xs) \<noteq> p)"

lemma std_search_first_at: "std_search xs p < length xs \<Longrightarrow> first_at p xs (std_search xs p)"
  by (simp add: first_at_def std_search_found std_search_first)

lemma std_search_none:
  assumes "std_search xs p = length xs" and "k < length xs"
  shows "take (length p) (drop k xs) \<noteq> p"
  using assms std_search_first [of k xs p] by simp

lemma length_kCRLF [simp]: "length kCRLF = 2"
  by (simp add: kCRLF_def)

lemma findCRLF_search:
  assumes "Buffer_inv b"
  shows "findCRLF b = (let k = std_search (content b) kCRLF
           in if k = length (content b) then None else Some (peek b + k))"
proof -
  have "writerIndex b = readerIndex b + length (content b)"
    using assms Buffer_invD(1) [OF assms] by (simp add: readableBytes_def)
  moreover have "range_of b (peek b) (beginWrite b) = content b"
    by (simp add: content_def peek_def beginWrite_def)
  ultimately show ?thesis
    by (simp add: findCRLF_def Let_def) (simp add: peek_def beginWrite_def)
qed

lemma findCRLF_Some:
  assumes "Buffer_inv b" and "findCRLF b = Some p"
  shows "peek b \<le> p \<and> p + 2 \<le> beginWrite b \<and> first_at kCRLF (content b) (p - peek b)"
proof -
  let ?k = "std_search (content b) kCRLF"
  from assms have k: "?k < length (content b)" "p = peek b + ?k"
    using std_search_le [of "content b" kCRLF]
    by (auto simp: findCRLF_search Let_def split: if_splits)
  then have first: "first_at kCRLF (content b) ?k" by (simp add: std_search_first_at)
  then have "take 2 (drop ?k (content b)) = kCRLF"
    by (simp add: first_at_def)
  from arg_cong [where f = length, OF this] have "?k + 2 \<le> length (content b)"
    by (simp add: min_def split: if_splits)
  then have "p + 2 \<le> beginWrite b"
    using k(2) assms(1) Buffer_invD(1) [OF assms(1)]
    by (simp add: readableBytes_def peek_def beginWrite_def)
  with first k(2) show ?thesis by simp
qed

lemma findCRLF_None:
  assumes "Buffer_inv b" and "findCRLF b = None" and "k < length (content b)"
  shows "take 2 (drop k (content b)) \<noteq> kCRLF"
  using std_search_none [of "content b" kCRLF k] assms
  by (auto simp: findCRLF_search Let_def split: if_splits)

subsection \<open>Integers\<close>

lemma peekInt32_content:
  assumes "Buffer_inv b" and "content b = mem32 (hostToNetwork32 x) @ rest"
  shows "peekInt32 b = Inr x"
proof -
  have "4 \<le> readableBytes b"
    using assms(2) content_length [OF assms(1)] by simp
  then show ?thesis
    using assms(2) take_content [OF assms(1), of 4] load32_mem32 [of "hostToNetwork32 x" "[]"]
    by (simp add: peekInt32_def)
qed

lemma peekInt16_content:
  assumes "Buffer_inv b" and "content b = mem16 (hostToNetwork16 x) @ rest"
  shows "peekInt16 b = Inr x"
proof -
  have "2 \<le> readableBytes b"
    using assms(2) content_length [OF assms(1)] by simp
  then show ?thesis
    using assms(2) take_content [OF assms(1), of 2] load16_mem16 [of "hostToNetwork16 x" "[]"]
    by (simp add: peekInt16_def)
qed

lemma peekInt8_content:
  assumes "Buffer_inv b" and "content b = x # rest"
  shows "peekInt8 b = Inr x"
proof -
  have "1 \<le> readableBytes b"
    using assms(2) content_length [OF assms(1)] by simp
  then show ?thesis
    using assms(2) take_content [OF assms(1), of 1] by (simp add: peekInt8_def)
qed

lemma readInt32_content:
  assumes "Buffer_inv b" and "content b = mem32 (hostToNetwork32 x) @ rest"
  shows "\<exists>b'. readInt32 b = Inr (x, b') \<and> Buffer_inv b' \<and> content b' = rest"
proof -
  have "4 \<le> readableBytes b"
    using assms(2) content_length [OF assms(1)] by simp
  then show ?thesis
    using retrieve_correct [OF assms(1), of 4] assms(2) peekInt32_content [OF assms]
    by (auto simp: readInt32_def retrieveInt32_def)
qed

lemma readInt16_content:
  assumes "Buffer_inv b" and "content b = mem16 (hostToNetwork16 x) @ rest"
  shows "\<exists>b'. readInt16 b = Inr (x, b') \<and> Buffer_inv b' \<and> content b' = rest"
proof -
  have "2 \<le> readableBytes b"
    using assms(2) content_length [OF assms(1)] by simp
  then show ?thesis
    using retrieve_correct [OF assms(1), of 2] assms(2) peekInt16_content [OF assms]
    by (auto simp: readInt16_def retrieveInt16_def)
qed

lemma readInt8_content:
  assumes "Buffer_inv b" and "content b = x # rest"
  shows "\<exists>b'. readInt8 b = Inr (x, b') \<and> Buffer_inv b' \<and> content b' = rest"
proof -
  have "1 \<le> readableBytes b"
    using assms(2) content_length [OF assms(1)] by simp
  then show ?thesis
    using retrieve_correct [OF assms(1), of 1] assms(2) peekInt8_content [OF assms]
    by (auto simp: readInt8_def retrieveInt8_def)
qed

subsection \<open>Shrinking and \<open>readFd\<close>\<close>

lemma shrink_correct:
  assumes "Buffer_inv b" and "readableBytes b < 2 ^ 31"
  shows "\<exists>b'. shrink b reserve = Inr b' \<and> Buffer_inv b' \<and> content b' = content b"
proof -
  obtain other where other: "ensureWritableBytes Buffer_new (readableBytes b + reserve) = Inr other"
    "Buffer_inv other" "content other = content Buffer_new"
    using ensureWritableBytes_correct [OF Buffer_new_correct(1)] by blast
  have len: "sint (of_nat (readableBytes b) :: 32 word) = int (readableBytes b)"
    using assms(2) by (simp add: signed_of_nat signed_take_bit_int_eq_self)
  obtain o2 where o2: "Buffer_append other (content b) = Inr o2" "Buffer_inv o2"
    "content o2 = content b"
    using Buffer_append_correct [OF other(2)] other(3) by fastforce
  have "append_piece other (buffer_vec b) (toStringPiece b) = Inr o2"
    using len o2(1) take_content [OF assms(1) order_refl]
    by (simp add: append_piece_def toStringPiece_def Let_def assms(1))
  moreover have "Buffer_inv (fst (Buffer_swap b o2))" "content (fst (Buffer_swap b o2)) = content b"
    using o2 by (simp_all add: Buffer_swap_def Buffer_inv_def content_def range_of_def)
  ultimately show ?thesis using other(1) by (auto simp: shrink_def)
qed

lemma readFd_correct:
  assumes "Buffer_inv b"
  shows "\<exists>b'. readFd b (ReadOk data) = Inr (int (length data), None, b')
           \<and> Buffer_inv b' \<and> content b' = content b @ data"
proof -
  let ?w = "writerIndex b" and ?m = "buffer_vec b" and ?n = "length data"
  let ?f = "writableBytes b"
  let ?xs = "take ?f data"
  let ?v = "take ?w ?m @ ?xs @ drop (?w + length ?xs) ?m"
  note inv = Buffer_invD [OF assms]
  have f: "?w + ?f = length ?m" using inv by (simp add: writableBytes_def)
  have fits: "?w + length ?xs \<le> length ?m" using f by simp
  have wr: "mem_write ?m ?w ?xs = Inr ?v" by (rule mem_write_ok [OF fits])
  show ?thesis
  proof (cases "?n \<le> ?f")
    case True
    let ?b = "b\<lparr>buffer_vec := ?v, writerIndex := ?w + ?n\<rparr>"
    have all: "?xs = data" using True by simp
    have "content ?b = content b @ data"
      using read_write_behind [OF inv(1) fits] all by (simp add: content_def range_of_def)
    moreover have "Buffer_inv ?b"
      using inv f True by (simp add: Buffer_inv_def)
    ultimately show ?thesis using True wr by (simp add: readFd_def Let_def)
  next
    case False
    let ?b = "b\<lparr>buffer_vec := ?v, writerIndex := length ?m\<rparr>"
    have len: "length ?xs = ?f" using False by simp
    have e: "?w + length ?xs = length ?m" using f len by simp
    have "content ?b = take (?w + length ?xs - readerIndex b) (drop (readerIndex b) ?v)"
      unfolding e by (simp add: content_def range_of_def)
    also have "\<dots> = content b @ ?xs"
      unfolding read_write_behind [OF inv(1) fits] by (simp add: content_def range_of_def)
    finally have "content ?b = content b @ ?xs" .
    moreover have "Buffer_inv ?b"
      using inv f by (simp add: Buffer_inv_def)
    ultimately obtain b2 where b2: "Buffer_append ?b (drop ?f data) = Inr b2" "Buffer_inv b2"
      "content b2 = content b @ data"
      using Buffer_append_correct [of ?b "drop ?f data"] by fastforce
    have "length ?v = length ?m" using mem_write_length [OF wr] .
    with b2 False wr show ?thesis by (simp add: readFd_def Let_def)
  qed
qed

subsection \<open>The buffer is a byte queue\<close>

interpretation buf: byte_queue Buffer_inv content Buffer_append retrieveAsString
proof unfold_locales
  fix b d
  assume "Buffer_inv b"
  then show "\<exists>b'. Buffer_append b d = Inr b' \<and> Buffer_inv b' \<and> content b' = content b @ d"
    by (rule Buffer_append_correct)
next
  fix b n
  assume "Buffer_inv b" and "n \<le> length (content b)"
  then show "\<exists>b'. retrieveAsString b n = Inr (take n (content b), b') \<and> Buffer_inv b'
      \<and> content b' = drop n (content b)"
    by (simp add: retrieveAsString_correct)
next
  fix b n
  assume "Buffer_inv b" and "length (content b) < n"
  then show "retrieveAsString b n = Inl Abort"
    by (simp add: retrieveAsString_def)
qed

subsection \<open>Properties\<close>

text \<open>
  C28: every sequence of \<open>append\<close> and \<open>retrieveAsString\<close> calls on a well-formed buffer gives the
  outputs and the remaining content that the same sequence gives on a plain FIFO list of bytes,
  and fails an assertion exactly where the list is too short, whatever sliding or growing of the
  vector happens inside.
\<close>

theorem buffer_refines_fifo:
  assumes "Buffer_inv b"
  shows "map_sum id (\<lambda>(outs, b'). (outs, content b')) (impl_run Buffer_append retrieveAsString b ops)
           = spec_run (content b) ops"
  using assms by (rule buf.queue_refines)

theorem buffer_refines_fifo_witness:
  "map_sum id (\<lambda>(outs, b'). (outs, content b'))
     (impl_run Buffer_append retrieveAsString Buffer_new [Put [1, 2, 3], Get 2, Put [4], Get 2])
   = Inr ([[1, 2], [3, 4]], [])"
  using buffer_refines_fifo [OF Buffer_new_correct(1),
      of "[Put [1, 2, 3], Get 2, Put [4], Get 2]"] by simp



text \<open>
  A 32-bit length header prepended to a message goes out most significant byte first, and
  reading it back on the other side gives the number and leaves exactly the message.
\<close>

theorem prependInt32_roundtrip:
  assumes "Buffer_inv b" and "4 \<le> prependableBytes b"
  shows "\<exists>b1 b2. prependInt32 b x = Inr b1 \<and> Buffer_inv b1
    \<and> content b1 = [ucast (drop_bit 24 x), ucast (drop_bit 16 x), ucast (drop_bit 8 x), ucast x]
                     @ content b
    \<and> readInt32 b1 = Inr (x, b2) \<and> Buffer_inv b2 \<and> content b2 = content b"
proof -
  obtain b1 where b1: "prependInt32 b x = Inr b1" "Buffer_inv b1"
    "content b1 = mem32 (hostToNetwork32 x) @ content b"
    using prepend_correct [OF assms(1), of "mem32 (hostToNetwork32 x)"] assms(2)
    by (auto simp: prependInt32_def)
  with readInt32_content [OF b1(2,3)] show ?thesis by (auto simp: network_order32)
qed

theorem prependInt32_roundtrip_witness:
  "\<exists>b1 b2. prependInt32 Buffer_new 258 = Inr b1 \<and> content b1 = [0, 0, 1, 2]
     \<and> readInt32 b1 = Inr (258, b2) \<and> content b2 = []"
  using prependInt32_roundtrip [of Buffer_new 258] by (auto simp: kCheapPrepend_def)

text \<open>
  Whatever the kernel hands over in one \<open>readv\<close>, up to the free space plus the stack array,
  \<open>readFd\<close> appends exactly those bytes in order and returns their number; an error leaves the
  buffer as it was and saves \<open>errno\<close>.
\<close>

theorem readFd_appends:
  assumes "Buffer_inv b" and "readv_fits b answer"
  shows "case answer of
      ReadErr e \<Rightarrow> readFd b answer = Inr (- 1, Some e, b)
    | ReadOk data \<Rightarrow> (\<exists>b'. readFd b answer = Inr (int (length data), None, b') \<and> Buffer_inv b'
                        \<and> content b' = content b @ data)"
  using readFd_correct [OF assms(1)] by (cases answer) (simp_all add: readFd_def)

theorem readFd_appends_witness:
  "\<exists>b'. readFd Buffer_new (ReadOk (replicate 1500 7)) = Inr (1500, None, b') \<and> Buffer_inv b'
     \<and> content b' = replicate 1500 7"
  using readFd_appends [of Buffer_new "ReadOk (replicate 1500 7)"]
  by (simp add: readv_fits_def extrabuf_size_def)

text \<open>
  \<open>findCRLF\<close> returns the position of the first CR LF among the readable bytes, with both bytes
  readable, and NULL exactly when there is none.
\<close>

theorem findCRLF_first:
  assumes "Buffer_inv b"
  shows "case findCRLF b of
      Some p \<Rightarrow> peek b \<le> p \<and> p + 2 \<le> beginWrite b \<and> first_at kCRLF (content b) (p - peek b)
    | None \<Rightarrow> (\<forall>k < length (content b). take 2 (drop k (content b)) \<noteq> kCRLF)"
  using findCRLF_Some [OF assms] findCRLF_None [OF assms] by (auto split: option.splits)

theorem findCRLF_first_witness:
  "case findCRLF (Buffer_new\<lparr>buffer_vec := [0, 0, 0, 0, 0, 0, 0, 0, 71, 13, 13, 10],
                 writerIndex := 12\<rparr>) of
     Some p \<Rightarrow> p + 2 \<le> 12 | None \<Rightarrow> False"
  using findCRLF_first [of "Buffer_new\<lparr>buffer_vec := [0, 0, 0, 0, 0, 0, 0, 0, 71, 13, 13, 10],
                 writerIndex := 12\<rparr>"]
  by (simp add: Buffer_new_def Buffer_inv_def buffer_defs findCRLF_def range_of_def kCRLF_def)

end
