(* ===== verification/BankServer.thy ===== *)
theory BankServer imports Commands Buffer begin

text \<open>
  \<open>bankserver/BankServer.cc\<close>: the callbacks of the server.  \<open>onMessage\<close> takes every complete packet
  off the input buffer, lets the session process it and hands the answer to the connection; what
  it hands over is collected in a list.

  \<open>serve\<close> is the same loop over plain byte lists.  The code refines it, and from this follows that
  the answers do not depend on how the byte stream is cut into reads.
\<close>

definition kHeaderLen :: nat where
  "kHeaderLen = 4"

text \<open>The context a new connection gets; a closed one keeps its context.\<close>

definition onConnection :: "bool \<Rightarrow> bytes \<Rightarrow> bank_session option \<Rightarrow> bank_session option" where
  "onConnection connected mem ctx = (if connected then Some (BankSession_new mem) else ctx)"

text \<open>
  The body of the loop for one complete packet of \<open>n\<close> bytes: the answer is copied to a fresh
  buffer, of which the connection sends the readable bytes.
\<close>

definition serve_packet ::
  "('d, 'w) bank \<Rightarrow> bank_session \<Rightarrow> bytes \<Rightarrow> nat \<Rightarrow> ('w, bytes \<times> bank_session) prog" where
  "serve_packet B bs data n =
     andThen (lift (SetData bs data n)) (\<lambda>bs.
     andThen (Process B bs) (\<lambda>bs.
     lift (
       bind_res (JOut_Data (bs_jos bs)) (\<lambda>d.
       bind_res (Buffer_append Buffer_new d) (\<lambda>response.
       let bs = bs\<lparr>bs_jos := JOut_Clear (bs_jos bs)\<rparr> in
       bind_res (retrieveAllAsString response) (\<lambda>(sent, _). Inr (sent, bs)))))))"

lemma retrieve_shrinks:
  "retrieve b n = Inr b' \<Longrightarrow> 0 < n \<Longrightarrow> 0 < readableBytes b \<Longrightarrow> readableBytes b' < readableBytes b"
  by (auto simp: retrieve_def retrieveAll_def readableBytes_def assert_res_def Let_def split: if_splits)

function onMessage ::
  "('d, 'w) bank \<Rightarrow> bank_session \<Rightarrow> buffer \<Rightarrow> bytes list \<Rightarrow> 'w
     \<Rightarrow> (bank_session \<times> buffer \<times> bytes list) res \<times> 'w" where
  "onMessage B bs buf sent w =
     (if kHeaderLen \<le> readableBytes buf then
        let data = range_of buf (peek buf) (beginWrite buf);
            len = unat (networkToHost16 (load16 (drop 2 data)))
        in if len + kHeaderLen \<le> readableBytes buf then
             case serve_packet B bs data (kHeaderLen + len) w of
               (Inl e, w') \<Rightarrow> (Inl e, w')
             | (Inr (response, bs'), w') \<Rightarrow>
                 (case retrieve buf (kHeaderLen + len) of
                    Inl e \<Rightarrow> (Inl e, w')
                  | Inr buf' \<Rightarrow> onMessage B bs' buf' (sent @ [response]) w')
           else (Inr (bs, buf, sent), w)
      else (Inr (bs, buf, sent), w))"
  by pat_completeness auto
termination
  by (relation "measure (\<lambda>(B, bs, buf, sent, w). readableBytes buf)")
    (auto simp: kHeaderLen_def intro!: retrieve_shrinks)

declare onMessage.simps [simp del]


subsection \<open>The loop over byte lists\<close>

definition packet_length :: "bytes \<Rightarrow> nat" where
  "packet_length xs = 4 + unat (networkToHost16 (load16 (drop 2 xs)))"

function serve :: "('d, 'w) bank \<Rightarrow> bank_session \<Rightarrow> bytes \<Rightarrow> 'w
     \<Rightarrow> (bank_session \<times> bytes \<times> bytes list) res \<times> 'w" where
  "serve B bs xs w =
     (if 4 \<le> length xs \<and> packet_length xs \<le> length xs then
        case serve_packet B bs xs (packet_length xs) w of
          (Inl e, w') \<Rightarrow> (Inl e, w')
        | (Inr (response, bs'), w') \<Rightarrow>
            (case serve B bs' (drop (packet_length xs) xs) w' of
               (Inl e, w'') \<Rightarrow> (Inl e, w'')
             | (Inr (bs'', rest, out), w'') \<Rightarrow> (Inr (bs'', rest, response # out), w''))
      else (Inr (bs, xs, []), w))"
  by pat_completeness auto
termination
  by (relation "measure (\<lambda>(B, bs, xs, w). length xs)") (auto simp: packet_length_def)

declare serve.simps [simp del]

text \<open>What the code and the loop over lists have in common: the buffer by its content.\<close>

definition run_view ::
  "(bank_session \<times> buffer \<times> bytes list) res \<times> 'w \<Rightarrow> (bank_session \<times> bytes \<times> bytes list) res \<times> 'w" where
  "run_view = map_prod (map_sum id (\<lambda>(bs, buf, sent). (bs, content buf, sent))) id"

definition prepend_sent ::
  "bytes list \<Rightarrow> (bank_session \<times> bytes \<times> bytes list) res \<times> 'w
     \<Rightarrow> (bank_session \<times> bytes \<times> bytes list) res \<times> 'w" where
  "prepend_sent sent = map_prod (map_sum id (\<lambda>(bs, rest, out). (bs, rest, sent @ out))) id"

lemma range_content: "range_of b (peek b) (beginWrite b) = content b"
  by (simp add: content_def peek_def beginWrite_def)

lemma onMessage_serve:
  assumes "Buffer_inv buf"
  shows "run_view (onMessage B bs buf sent w) = prepend_sent sent (serve B bs (content buf) w) \<and>
    (\<forall>bs' buf' sent' w'. onMessage B bs buf sent w = (Inr (bs', buf', sent'), w') \<longrightarrow> Buffer_inv buf')"
  using assms
proof (induction B bs buf sent w rule: onMessage.induct)
  case (1 B bs buf sent w)
  let ?n = "packet_length (content buf)"
  have n: "?n = kHeaderLen + unat (networkToHost16 (load16 (drop 2 (content buf))))"
    by (simp add: packet_length_def kHeaderLen_def)
  show ?case
  proof (cases "4 \<le> readableBytes buf \<and> ?n \<le> readableBytes buf")
    case False
    then have "onMessage B bs buf sent w = (Inr (bs, buf, sent), w)"
      by (subst onMessage.simps) (auto simp: range_content n kHeaderLen_def Let_def)
    moreover have "serve B bs (content buf) w = (Inr (bs, content buf, []), w)"
      using False 1(2) by (subst serve.simps) auto
    ultimately show ?thesis using 1(2) by (simp add: run_view_def prepend_sent_def)
  next
    case True
    then have go: "kHeaderLen \<le> readableBytes buf" "unat (networkToHost16 (load16 (drop 2 (content buf)))) + kHeaderLen \<le> readableBytes buf"
      using n by (simp_all add: kHeaderLen_def)
    obtain buf' where buf': "retrieve buf ?n = Inr buf'" "Buffer_inv buf'" "content buf' = drop ?n (content buf)"
      using retrieve_correct [OF 1(2)] True by blast
    obtain r w' where r: "serve_packet B bs (content buf) ?n w = (r, w')" by fastforce
    have code: "onMessage B bs buf sent w = (case r of Inl e \<Rightarrow> (Inl e, w')
        | Inr (response, bs') \<Rightarrow> onMessage B bs' buf' (sent @ [response]) w')"
      using go r buf'(1) unfolding n
      by (subst onMessage.simps) (auto simp: range_content Let_def split: sum.split)
    have spec: "serve B bs (content buf) w = (case r of Inl e \<Rightarrow> (Inl e, w')
        | Inr (response, bs') \<Rightarrow> (case serve B bs' (content buf') w' of
               (Inl e, w'') \<Rightarrow> (Inl e, w'')
             | (Inr (bs'', rest, out), w'') \<Rightarrow> (Inr (bs'', rest, response # out), w'')))"
      using True r 1(2) buf'(3) by (subst serve.simps) (auto split: sum.split)
    show ?thesis
    proof (cases r)
      case (Inl e)
      then show ?thesis by (simp add: code spec run_view_def prepend_sent_def)
    next
      case (Inr p)
      obtain response bs' where p: "p = (response, bs')" by fastforce
      have "run_view (onMessage B bs' buf' (sent @ [response]) w')
            = prepend_sent (sent @ [response]) (serve B bs' (content buf') w') \<and>
          (\<forall>bs'' buf'' sent' w''. onMessage B bs' buf' (sent @ [response]) w' = (Inr (bs'', buf'', sent'), w'')
             \<longrightarrow> Buffer_inv buf'')"
        using r buf' Inr p n go by (intro 1(1) [OF go(1) refl refl]) (simp_all add: range_content)
      then show ?thesis
        using Inr p
        by (auto simp: code spec prepend_sent_def split: sum.split prod.split)
    qed
  qed
qed

lemma serve_packet_prefix:
  "n \<le> length xs \<Longrightarrow> serve_packet B bs (xs @ ys) n w = serve_packet B bs xs n w"
  by (simp add: serve_packet_def SetData_def mem_read_def)

lemma packet_length_prefix: "4 \<le> length xs \<Longrightarrow> packet_length (xs @ ys) = packet_length xs"
proof -
  assume "4 \<le> length xs"
  then obtain a b c d r where "xs = a # b # c # d # r"
    by (auto simp: Suc_le_length_iff eval_nat_numeral)
  then show ?thesis by (simp add: packet_length_def)
qed


text \<open>Serving in two parts: the second continues with what the first left over.\<close>

definition serve_then :: "('d, 'w) bank \<Rightarrow> bytes \<Rightarrow> (bank_session \<times> bytes \<times> bytes list) res \<times> 'w
     \<Rightarrow> (bank_session \<times> bytes \<times> bytes list) res \<times> 'w" where
  "serve_then B ys st = (case st of (r, w) \<Rightarrow> case r of Inl e \<Rightarrow> (Inl e, w)
     | Inr (bs, rest, out) \<Rightarrow> prepend_sent out (serve B bs (rest @ ys) w))"

lemma prepend_sent_simps [simp]:
  "prepend_sent out (Inl e, w) = (Inl e, w)"
  "prepend_sent out (Inr (bs, rest, o'), w) = (Inr (bs, rest, out @ o'), w)"
  "prepend_sent [] st = st"
  "prepend_sent a (prepend_sent b st) = prepend_sent (a @ b) st"
  by (cases st; cases "fst st"; auto simp: prepend_sent_def)+

lemma prepend_sent_Inr:
  "prepend_sent a st = (Inr (bs, rest, out), w) \<longleftrightarrow> (\<exists>o'. st = (Inr (bs, rest, o'), w) \<and> out = a @ o')"
  by (cases st; cases "fst st") (auto simp: prepend_sent_def)

lemma serve_step:
  "serve B bs xs w =
     (if 4 \<le> length xs \<and> packet_length xs \<le> length xs then
        case serve_packet B bs xs (packet_length xs) w of (r, w') \<Rightarrow> (case r of Inl e \<Rightarrow> (Inl e, w')
        | Inr (response, bs') \<Rightarrow> prepend_sent [response] (serve B bs' (drop (packet_length xs) xs) w'))
      else (Inr (bs, xs, []), w))"
  by (subst serve.simps) (auto simp: prepend_sent_def split: prod.split sum.split)

lemma serve_then_prepend: "serve_then B ys (prepend_sent out st) = prepend_sent out (serve_then B ys st)"
  by (cases st; cases "fst st") (auto simp: serve_then_def)

lemma serve_append: "serve B bs (xs @ ys) w = serve_then B ys (serve B bs xs w)"
proof (induction B bs xs w rule: serve.induct)
  case (1 B bs xs w)
  let ?n = "packet_length xs"
  show ?case
  proof (cases "4 \<le> length xs \<and> ?n \<le> length xs")
    case False
    then have "serve B bs xs w = (Inr (bs, xs, []), w)" by (subst serve_step) auto
    then show ?thesis by (simp add: serve_then_def)
  next
    case True
    then have n: "packet_length (xs @ ys) = ?n" by (simp add: packet_length_prefix)
    obtain r w' where r: "serve_packet B bs xs ?n w = (r, w')" by fastforce
    have p: "serve_packet B bs (xs @ ys) ?n w = (r, w')"
      using True r by (simp add: serve_packet_prefix)
    show ?thesis
    proof (cases r)
      case (Inl e)
      then show ?thesis
        using True n r p by (subst (1 2) serve_step) (simp add: serve_then_def)
    next
      case (Inr q)
      obtain response bs' where q: "q = (response, bs')" by fastforce
      have IH: "serve B bs' (drop ?n xs @ ys) w' = serve_then B ys (serve B bs' (drop ?n xs) w')"
        using True r Inr q by (intro 1) simp_all
      have "serve B bs (xs @ ys) w = prepend_sent [response] (serve B bs' (drop ?n xs @ ys) w')"
        using True n p Inr q by (subst serve_step) simp
      moreover have "serve B bs xs w = prepend_sent [response] (serve B bs' (drop ?n xs) w')"
        using True r Inr q by (subst serve_step) simp
      ultimately show ?thesis by (simp only: IH serve_then_prepend)
    qed
  qed
qed

text \<open>Data that arrives in pieces: each is appended to the input buffer, then \<open>onMessage\<close> runs.\<close>

fun feed :: "('d, 'w) bank \<Rightarrow> bank_session \<Rightarrow> buffer \<Rightarrow> bytes list \<Rightarrow> bytes list \<Rightarrow> 'w
     \<Rightarrow> (bank_session \<times> buffer \<times> bytes list) res \<times> 'w" where
  "feed B bs buf sent [] w = (Inr (bs, buf, sent), w)"
| "feed B bs buf sent (c # cs) w =
     (case Buffer_append buf c of Inl e \<Rightarrow> (Inl e, w)
      | Inr buf1 \<Rightarrow> (case onMessage B bs buf1 sent w of
          (Inl e, w') \<Rightarrow> (Inl e, w')
        | (Inr (bs', buf', sent'), w') \<Rightarrow> feed B bs' buf' sent' cs w'))"

lemma feed_serve:
  assumes "Buffer_inv buf" and "chunks \<noteq> []"
  shows "run_view (feed B bs buf sent chunks w)
           = prepend_sent sent (serve B bs (content buf @ concat chunks) w)"
  using assms
proof (induction chunks arbitrary: bs buf sent w)
  case Nil
  then show ?case by simp
next
  case (Cons c cs)
  obtain buf1 where buf1: "Buffer_append buf c = Inr buf1" "Buffer_inv buf1" "content buf1 = content buf @ c"
    using Buffer_append_correct [OF Cons.prems(1)] by blast
  obtain r w' where r: "onMessage B bs buf1 sent w = (r, w')" by fastforce
  note om = onMessage_serve [OF buf1(2), of B bs sent w, unfolded r buf1(3)]
  have all: "serve B bs (content buf @ concat (c # cs)) w
      = serve_then B (concat cs) (serve B bs (content buf @ c) w)"
    by (simp add: serve_append [of _ _ "content buf @ c", simplified])
  show ?case
  proof (cases r)
    case (Inl e)
    then have "prepend_sent sent (serve B bs (content buf @ c) w) = (Inl e, w')"
      using om by (simp add: run_view_def)
    then have "prepend_sent sent (serve_then B (concat cs) (serve B bs (content buf @ c) w)) = (Inl e, w')"
      unfolding serve_then_prepend [symmetric] by (simp add: serve_then_def)
    then show ?thesis using buf1 r Inl all by (simp add: run_view_def)
  next
    case (Inr q)
    obtain bs' buf' sent' where q: "q = (bs', buf', sent')" by (cases q)
    have v: "prepend_sent sent (serve B bs (content buf @ c) w) = (Inr (bs', content buf', sent'), w')"
      using om Inr q by (simp add: run_view_def)
    have i: "Buffer_inv buf'" using om Inr q by blast
    have rest: "prepend_sent sent (serve B bs (content buf @ concat (c # cs)) w)
        = prepend_sent sent' (serve B bs' (content buf' @ concat cs) w')"
      unfolding all serve_then_prepend [symmetric] v by (simp add: serve_then_def)
    show ?thesis
    proof (cases cs)
      case Nil
      have "prepend_sent sent (serve B bs (content buf @ concat (c # cs)) w) = (Inr (bs', content buf', sent'), w')"
        using v Nil by simp
      then show ?thesis using buf1 r Inr q Nil by (simp add: run_view_def)
    next
      case (Cons d ds)
      then have "run_view (feed B bs' buf' sent' cs w')
          = prepend_sent sent' (serve B bs' (content buf' @ concat cs) w')"
        using Cons.IH [OF i] by blast
      then show ?thesis using buf1 r Inr q rest by simp
    qed
  qed
qed


text \<open>
  C9: the answers do not depend on how TCP cuts the byte stream: feeding the pieces one read at a
  time through the input buffer and onMessage gives the same answers, in the same order, the same
  session, the same database, the same unconsumed bytes and the same failure, if any, as feeding
  everything at once.
\<close>

theorem onMessage_fragmentation:
  assumes "Buffer_inv buf" and "chunks \<noteq> []"
  shows "run_view (feed B bs buf sent chunks w) = run_view (feed B bs buf sent [concat chunks] w)"
proof -
  have "run_view (feed B bs buf sent [concat chunks] w)
      = prepend_sent sent (serve B bs (content buf @ concat [concat chunks]) w)"
    by (rule feed_serve [OF assms(1)]) simp
  then show ?thesis by (simp only: feed_serve [OF assms] concat.simps append_Nil2)
qed

theorem onMessage_fragmentation_witness:
  "\<forall>B w. run_view (feed B (BankSession_new (replicate 2048 0)) Buffer_new [] [[0], [6, 0, 3], [1, 2, 3, 4]] w)
     = run_view (feed B (BankSession_new (replicate 2048 0)) Buffer_new [] [concat [[0], [6, 0, 3], [1, 2, 3, 4]]] w)"
  by (intro allI onMessage_fragmentation) simp_all

lemma serve_rest:
  "serve B bs xs w = (Inr (bs', rest, out), w') \<Longrightarrow>
     (\<exists>used. xs = used @ rest) \<and> (length rest < 4 \<or> length rest < packet_length rest)"
proof (induction B bs xs w arbitrary: out rule: serve.induct)
  case (1 B bs xs w)
  let ?n = "packet_length xs"
  show ?case
  proof (cases "4 \<le> length xs \<and> ?n \<le> length xs")
    case False
    then have "rest = xs" using 1(2) by (subst (asm) serve_step) auto
    then show ?thesis using False by auto
  next
    case True
    then obtain response bs1 w1 out1 where p: "serve_packet B bs xs ?n w = (Inr (response, bs1), w1)"
        "serve B bs1 (drop ?n xs) w1 = (Inr (bs', rest, out1), w')"
      using 1(2) by (subst (asm) serve_step) (auto simp: prepend_sent_Inr split: prod.splits sum.splits)
    have "(\<exists>used. drop ?n xs = used @ rest) \<and> (length rest < 4 \<or> length rest < packet_length rest)"
      by (rule 1(1) [OF True p(1) [symmetric] refl refl p(2)])
    then show ?thesis by (metis append.assoc append_take_drop_id)
  qed
qed


text \<open>
  OnMessage consumes whole packets only: when it returns, what is left in the input buffer does
  not hold a complete packet, the buffer is consistent, and it is a suffix of what was there.
\<close>

theorem onMessage_whole_packets:
  assumes "Buffer_inv buf" and "onMessage B bs buf sent w = (Inr (bs', buf', sent'), w')"
  shows "Buffer_inv buf' \<and> (\<exists>used. content buf = used @ content buf') \<and>
     (length (content buf') < 4 \<or> length (content buf') < packet_length (content buf'))"
proof -
  have "prepend_sent sent (serve B bs (content buf) w) = (Inr (bs', content buf', sent'), w')"
    using onMessage_serve [OF assms(1), of B bs sent w, unfolded assms(2)] by (simp add: run_view_def)
  then obtain out where "serve B bs (content buf) w = (Inr (bs', content buf', out), w')"
    unfolding prepend_sent_Inr by blast
  then have "(\<exists>used. content buf = used @ content buf') \<and>
      (length (content buf') < 4 \<or> length (content buf') < packet_length (content buf'))"
    by (rule serve_rest)
  moreover have "Buffer_inv buf'"
    using onMessage_serve [OF assms(1), of B bs sent w] assms(2) by blast
  ultimately show ?thesis by simp
qed

theorem onMessage_whole_packets_witness:
  "\<forall>B w. Buffer_inv Buffer_new \<and> (\<exists>used. content Buffer_new = used @ content Buffer_new) \<and>
     (length (content Buffer_new) < 4 \<or> length (content Buffer_new) < packet_length (content Buffer_new))"
proof (intro allI)
  fix B :: "('d, 'w) bank" and w :: 'w
  have "onMessage B (BankSession_new []) Buffer_new [] w = (Inr (BankSession_new [], Buffer_new, []), w)"
    by (subst onMessage.simps) (simp add: kHeaderLen_def)
  then show "Buffer_inv Buffer_new \<and> (\<exists>used. content Buffer_new = used @ content Buffer_new) \<and>
     (length (content Buffer_new) < 4 \<or> length (content Buffer_new) < packet_length (content Buffer_new))"
    by (rule onMessage_whole_packets [OF Buffer_new_correct(1)])
qed

end
