(* ===== verification/Transactions.thy ===== *)
theory Transactions imports BankService begin

text \<open>
  In which order the operations of \<open>BankService\<close> get statements executed.  \<open>logged_bank\<close> is the bank
  on an instrumented client library that keeps the list of the statements the server executed
  without error; it behaves as the given library otherwise.

  A script is a list of descriptions of statements.  \<open>trace p Q\<close> says that every run of \<open>p\<close> extends
  the log by some statements \<open>t\<close> with \<open>Q r t\<close>, \<open>r\<close> being the outcome; its rules follow the
  structure of a program.
\<close>

subsection \<open>Instrumentation\<close>

definition logged :: "'w mysql \<Rightarrow> ('w \<times> bytes list) mysql" where
  "logged M = \<lparr>
     my_init = (\<lambda>(w, l). let (r, w') = my_init M w in (r, (w', l))),
     my_options = (\<lambda>(w, l). (my_options M w, l)),
     my_real_connect = (\<lambda>h u p d n (w, l). let (r, w') = my_real_connect M h u p d n w in (r, (w', l))),
     my_close = (\<lambda>(w, l). (my_close M w, l)),
     my_query = (\<lambda>sql (w, l). let (ok, w') = my_query M sql w in (ok, (w', if ok then l @ [sql] else l))),
     my_store_result = (\<lambda>(w, l). let (r, w') = my_store_result M w in (r, (w', l))),
     my_affected_rows = (\<lambda>(w, l). my_affected_rows M w),
     my_insert_id = (\<lambda>(w, l). my_insert_id M w),
     my_error = (\<lambda>h (w, l). my_error M h w)\<rparr>"

definition logged_bank :: "('d, 'w) bank \<Rightarrow> ('d, 'w \<times> bytes list) bank" where
  "logged_bank B = \<lparr>b_mysql = logged (b_mysql B), b_arith = b_arith B, b_server = b_server B,
                    uninit_int = uninit_int B, uninit_dbl = uninit_dbl B\<rparr>"

lemma logged_bank_sel [simp]:
  "b_mysql (logged_bank B) = logged (b_mysql B)" "b_arith (logged_bank B) = b_arith B"
  "b_server (logged_bank B) = b_server B" "uninit_int (logged_bank B) = uninit_int B"
  "uninit_dbl (logged_bank B) = uninit_dbl B"
  by (simp_all add: logged_bank_def)

subsection \<open>Traces\<close>

definition log_of :: "('w \<times> bytes list) dbw \<times> 'a \<Rightarrow> bytes list" where
  "log_of s = snd (mysql_world (fst s))"

definition trace ::
  "(('w \<times> bytes list) dbw \<times> 'd account, 'a) prog \<Rightarrow> ('a res \<Rightarrow> bytes list \<Rightarrow> bool) \<Rightarrow> bool" where
  "trace p Q \<longleftrightarrow> (\<forall>s. \<exists>r s' t. p s = (r, s') \<and> log_of s' = log_of s @ t \<and> Q r t)"

lemma trace_ret: "Q (Inr x) [] \<Longrightarrow> trace (ret x) Q"
  by (auto simp: trace_def ret_def)

lemma trace_lift: "Q r [] \<Longrightarrow> trace (lift r) Q"
  by (auto simp: trace_def lift_def)

lemma trace_get: "(\<And>a. Q (Inr a) []) \<Longrightarrow> trace get_acc Q"
  by (auto simp: trace_def get_acc_def)

lemma trace_upd: "Q (Inr ()) [] \<Longrightarrow> trace (upd_acc f) Q"
  by (auto simp: trace_def upd_acc_def log_of_def)

lemma trace_andThen:
  assumes "trace p P" and "\<And>e t. P (Inl e) t \<Longrightarrow> Q (Inl e) t"
    and "\<And>x t. P (Inr x) t \<Longrightarrow> trace (f x) (\<lambda>r t'. Q r (t @ t'))"
  shows "trace (andThen p f) Q"
  unfolding trace_def
proof
  fix s
  obtain r s' t where p: "p s = (r, s')" "log_of s' = log_of s @ t" "P r t"
    using assms(1) unfolding trace_def by blast
  show "\<exists>r s' t. andThen p f s = (r, s') \<and> log_of s' = log_of s @ t \<and> Q r t"
  proof (cases r)
    case (Inl e)
    then show ?thesis using p assms(2) by (simp add: prog_simps)
  next
    case (Inr x)
    then obtain r2 s2 t2 where "f x s' = (r2, s2)" "log_of s2 = log_of s' @ t2" "Q r2 (t @ t2)"
      using assms(3) p(3) unfolding trace_def by blast
    then show ?thesis using p Inr by (simp add: prog_simps)
  qed
qed

lemma trace_catch:
  assumes "trace p P" and "\<And>r t. P r t \<Longrightarrow> (\<And>m. r \<noteq> Inl (Throw m)) \<Longrightarrow> Q r t"
    and "\<And>m t. P (Inl (Throw m)) t \<Longrightarrow> trace (h m) (\<lambda>r t'. Q r (t @ t'))"
  shows "trace (try_catch p h) Q"
  unfolding trace_def
proof
  fix s
  obtain r s' t where p: "p s = (r, s')" "log_of s' = log_of s @ t" "P r t"
    using assms(1) unfolding trace_def by blast
  show "\<exists>r s' t. try_catch p h s = (r, s') \<and> log_of s' = log_of s @ t \<and> Q r t"
  proof (cases "\<exists>m. r = Inl (Throw m)")
    case True
    then obtain m where m: "r = Inl (Throw m)" ..
    then obtain r2 s2 t2 where "h m s' = (r2, s2)" "log_of s2 = log_of s' @ t2" "Q r2 (t @ t2)"
      using assms(3) p(3) unfolding trace_def by blast
    then show ?thesis using p m by (simp add: prog_simps)
  next
    case False
    then have "Q r t" using assms(2) p(3) by blast
    moreover have "try_catch p h s = (r, s')"
      using p(1) False by (simp add: prog_simps split: sum.split fault.split)
    ultimately show ?thesis using p(2) by blast
  qed
qed

text \<open>The statements: refused and not logged, executed and logged, or a result set missing.\<close>

definition is_throw :: "'a res \<Rightarrow> bool" where
  "is_throw r \<longleftrightarrow> (\<exists>m. r = Inl (Throw m))"

lemma trace_on_db:
  fixes p :: "(('w \<times> bytes list) dbw, 'a) prog"
  assumes "\<And>d. \<exists>r d' t. p d = (r, d') \<and> snd (mysql_world d') = snd (mysql_world d) @ t \<and> Q r t"
  shows "trace (on_db p :: (('d, 'w \<times> bytes list) svc, 'a) prog) Q"
  unfolding trace_def
proof
  fix s :: "('d, 'w \<times> bytes list) svc"
  obtain r d' t where "p (fst s) = (r, d')" "snd (mysql_world d') = snd (mysql_world (fst s)) @ t" "Q r t"
    using assms by blast
  then show "\<exists>r s' t. on_db p s = (r, s') \<and> log_of s' = log_of s @ t \<and> Q r t"
    by (cases s) (auto simp: on_db_def log_of_def)
qed

lemma MysqlDB_query_logged:
  "\<exists>r d' t. MysqlDB_query (logged M) sql d = (r, d') \<and> snd (mysql_world d') = snd (mysql_world d) @ t \<and>
     (r = Inl OutOfBounds \<and> t = [] \<or> r = Inr False \<and> t = [] \<or> r = Inr True \<and> t = [c_str sql])"
proof (cases "mysql_handle d")
  case True
  obtain w l where w: "mysql_world d = (w, l)" by fastforce
  obtain ok w' where "my_query M (c_str sql) w = (ok, w')" by fastforce
  then show ?thesis using True by (cases ok) (simp_all add: MysqlDB_query_def logged_def w)
next
  case False
  then show ?thesis by (simp add: MysqlDB_query_def)
qed


text \<open>
  A statement: executed and logged; or it throws and is not logged; or the code runs into the
  null handle or a missing result set.
\<close>

definition stmt :: "bytes \<Rightarrow> 'a res \<Rightarrow> bytes list \<Rightarrow> bool" where
  "stmt sql r t \<longleftrightarrow> r = Inl OutOfBounds \<or> is_throw r \<and> t = [] \<or> (\<exists>x. r = Inr x) \<and> t = [c_str sql]"

lemma throw_fail: "is_throw (fst (MysqlDB_fail M d))" "snd (MysqlDB_fail M d) = d"
  by (simp_all add: MysqlDB_fail_def is_throw_def db_error_def)

lemma stmt_query:
  fixes f :: "(('w \<times> bytes list) dbw, 'a) prog"
  assumes "\<And>d. \<exists>r d'. f d = (r, d') \<and> snd (mysql_world d') = snd (mysql_world d) \<and>
    (r = Inl OutOfBounds \<or> (\<exists>x. r = Inr x))"
  shows "\<exists>r d' t. andThen (MysqlDB_query (logged M) sql) (\<lambda>ok. if \<not> ok then MysqlDB_fail (logged M) else f) d
      = (r, d') \<and> snd (mysql_world d') = snd (mysql_world d) @ t \<and> stmt sql r t"
proof -
  obtain r d' t where q: "MysqlDB_query (logged M) sql d = (r, d')"
      "snd (mysql_world d') = snd (mysql_world d) @ t"
      "r = Inl OutOfBounds \<and> t = [] \<or> r = Inr False \<and> t = [] \<or> r = Inr True \<and> t = [c_str sql]"
    using MysqlDB_query_logged by blast
  from q(3) consider "r = Inl OutOfBounds" | "r = Inr False" "t = []" | "r = Inr True" "t = [c_str sql]"
    by blast
  then show ?thesis
  proof cases
    case 1
    then show ?thesis using q by (auto simp: prog_simps stmt_def)
  next
    case 2
    obtain e :: "'a res" where "MysqlDB_fail (logged M) d' = (e, d')" "is_throw e"
      using throw_fail [of "logged M" d'] by (metis prod.collapse)
    then show ?thesis
      using q 2 by (intro exI [of _ e] exI [of _ d'] exI [of _ "[]"]) (simp add: prog_simps stmt_def)
  next
    case 3
    obtain r2 d2 where "f d' = (r2, d2)" "snd (mysql_world d2) = snd (mysql_world d')"
        "r2 = Inl OutOfBounds \<or> (\<exists>x. r2 = Inr x)"
      using assms by blast
    then show ?thesis using q 3 by (auto simp: prog_simps stmt_def)
  qed
qed

lemma trace_query: "trace (on_db (query (logged_bank B) sql)) (stmt (concat sql))"
  unfolding query_def QuerySQL_def logged_bank_sel
  by (intro trace_on_db stmt_query) (auto simp: logged_def Let_def split: prod.splits option.splits)

lemma trace_exec_full: "trace (on_db (ExecSQL (logged M) sql)) (stmt sql)"
  unfolding ExecSQL_def by (intro trace_on_db stmt_query) auto

lemma trace_start: "trace (on_db (StartTransaction (logged M))) (stmt (lit ''START TRANSACTION''))"
  unfolding StartTransaction_def by (intro trace_on_db stmt_query) (auto simp: ret_def)

lemma trace_commit: "trace (on_db (Commit (logged M))) (stmt (lit ''COMMIT''))"
  unfolding Commit_def by (intro trace_on_db stmt_query) (auto simp: ret_def)


lemma trace_exec: "trace (on_db (exec (logged_bank B) sql)) (stmt (concat sql))"
proof -
  have "\<exists>r d' t. exec (logged_bank B) sql d = (r, d') \<and> snd (mysql_world d') = snd (mysql_world d) @ t \<and>
      stmt (concat sql) r t" for d
  proof -
    obtain r d' t where "ExecSQL (logged (b_mysql B)) (concat sql) d = (r, d')"
        "snd (mysql_world d') = snd (mysql_world d) @ t" "stmt (concat sql) r t"
      unfolding ExecSQL_def using stmt_query [of "\<lambda>d. (Inr (my_affected_rows (logged (b_mysql B)) (mysql_world d)), d)"
          "b_mysql B" "concat sql" d] by auto
    then show ?thesis
      by (cases r) (auto simp: exec_def prog_simps stmt_def is_throw_def)
  qed
  then show ?thesis by (rule trace_on_db)
qed

lemma trace_insert_id:
  "trace (on_db (insert_id_int (logged_bank B))) (\<lambda>r t. r = Inl OutOfBounds \<or> (\<exists>x. r = Inr x) \<and> t = [])"
proof (rule trace_on_db)
  fix d :: "('a \<times> bytes list) dbw"
  show "\<exists>r d' t. insert_id_int (logged_bank B) d = (r, d') \<and> snd (mysql_world d') = snd (mysql_world d) @ t \<and>
      (r = Inl OutOfBounds \<or> (\<exists>x. r = Inr x) \<and> t = [])"
    by (auto simp: insert_id_int_def GetInsertId_def prog_simps)
qed

lemma trace_item0: "trace (item0 rs name) (\<lambda>r t. (r = Inl OutOfBounds \<or> (\<exists>x. r = Inr x)) \<and> t = [])"
  unfolding item0_def by (rule trace_lift) (simp add: GetItem_def GetItem_col_def Let_def)

lemma trace_open:
  "trace (on_db (open_db (logged_bank B))) (\<lambda>r t. (is_throw r \<or> (\<exists>x. r = Inr x)) \<and> t = [])"
proof (rule trace_on_db)
  fix d :: "('a \<times> bytes list) dbw"
  obtain w l where d: "mysql_world d = (w, l)" by fastforce
  show "\<exists>r d' t. open_db (logged_bank B) d = (r, d') \<and> snd (mysql_world d') = snd (mysql_world d) @ t \<and>
      (is_throw r \<or> (\<exists>x. r = Inr x)) \<and> t = []"
    by (auto simp: open_db_def MysqlDB_Open_def logged_def d Let_def prog_simps MysqlDB_Close_def is_throw_def
        db_error_def split: prod.splits)
qed

lemma trace_rollback:
  "trace (on_db (rollback_error (logged_bank B)))
     (\<lambda>r t. r = Inl OutOfBounds \<or> is_throw r \<and> t = [lit ''ROLLBACK''] \<or> r = Inr (- 1) \<and> t = [])"
proof (rule trace_on_db)
  fix d :: "('a \<times> bytes list) dbw"
  obtain r d' t where q: "MysqlDB_query (logged (b_mysql B)) (lit ''ROLLBACK'') d = (r, d')"
      "snd (mysql_world d') = snd (mysql_world d) @ t"
      "r = Inl OutOfBounds \<and> t = [] \<or> r = Inr False \<and> t = [] \<or> r = Inr True \<and> t = [c_str (lit ''ROLLBACK'')]"
    using MysqlDB_query_logged by blast
  have "c_str (lit ''ROLLBACK'') = lit ''ROLLBACK''" by (simp add: c_str_def lit_def)
  then show "\<exists>r d' t. rollback_error (logged_bank B) d = (r, d') \<and> snd (mysql_world d') = snd (mysql_world d) @ t \<and>
      (r = Inl OutOfBounds \<or> is_throw r \<and> t = [lit ''ROLLBACK''] \<or> r = Inr (- 1) \<and> t = [])"
    using q by (auto simp: rollback_error_def Rollback_def prog_simps MysqlDB_fail_def is_throw_def db_error_def)
qed

subsection \<open>Scripts\<close>

text \<open>The statements follow the script, as far as they go.\<close>

fun follows :: "bytes list \<Rightarrow> (bytes \<Rightarrow> bool) list \<Rightarrow> bool" where
  "follows [] ps = True"
| "follows (x # xs) [] = False"
| "follows (x # xs) (p # ps) = (p x \<and> follows xs ps)"

text \<open>
  A body that has executed \<open>k\<close> statements keeps to the rest \<open>ps\<close> of a script: with result 0 it
  executes all of it; a refusal with code \<open>n\<close> comes after \<open>refused n\<close> statements in all; an
  exception leaves a proper beginning of it.
\<close>

definition keeps_script ::
  "nat \<Rightarrow> (bytes \<Rightarrow> bool) list \<Rightarrow> (int \<Rightarrow> nat option) \<Rightarrow> int res \<Rightarrow> bytes list \<Rightarrow> bool" where
  "keeps_script k ps refused r t \<longleftrightarrow> r = Inl OutOfBounds \<or>
     (is_throw r \<and> follows t ps \<and> length t < length ps) \<or>
     (\<exists>n. r = Inr n \<and> follows t ps \<and>
        (if n = 0 then length t = length ps else refused n = Some (k + length t)))"

lemma script_stmt:
  assumes "trace p (stmt sql)" and "P (c_str sql)" and "\<And>x. trace (f x) (keeps_script (Suc k) ps refused)"
  shows "trace (andThen p f) (keeps_script k (P # ps) refused)"
proof (rule trace_andThen [OF assms(1)])
  show "keeps_script k (P # ps) refused (Inl e) t" if "stmt sql (Inl e) t" for e t
    using that by (auto simp: stmt_def keeps_script_def is_throw_def)
  show "trace (f x) (\<lambda>r t'. keeps_script k (P # ps) refused r (t @ t'))" if "stmt sql (Inr x) t" for x t
  proof -
    have t: "t = [c_str sql]" using that by (auto simp: stmt_def is_throw_def)
    have "keeps_script k (P # ps) refused r (t @ t')" if "keeps_script (Suc k) ps refused r t'" for r t'
      using that assms(2) by (auto simp: keeps_script_def t)
    then show ?thesis using assms(3) [of x] unfolding trace_def by blast
  qed
qed

definition silent :: "'a res \<Rightarrow> bytes list \<Rightarrow> bool" where
  "silent r t \<longleftrightarrow> r = Inl OutOfBounds \<or> (\<exists>x. r = Inr x) \<and> t = []"

lemma script_silent:
  assumes "trace p silent" and "\<And>x. trace (f x) (keeps_script k ps refused)"
  shows "trace (andThen p f) (keeps_script k ps refused)"
proof (rule trace_andThen [OF assms(1)])
  show "keeps_script k ps refused (Inl e) t" if "silent (Inl e) t" for e t
    using that by (auto simp: silent_def keeps_script_def is_throw_def)
  show "trace (f x) (\<lambda>r t'. keeps_script k ps refused r (t @ t'))" if "silent (Inr x) t" for x t
    using that assms(2) [of x] by (simp add: silent_def is_throw_def)
qed

lemma script_open:
  assumes "ps \<noteq> []" and "\<And>x. trace (f x) (keeps_script k ps refused)"
  shows "trace (andThen (on_db (open_db (logged_bank B))) f) (keeps_script k ps refused)"
proof (rule trace_andThen [OF trace_open])
  show "keeps_script k ps refused (Inl e) t" if "(is_throw (Inl e) \<or> (\<exists>x. Inl e = Inr x)) \<and> t = []" for e t
    using that assms(1) by (auto simp: keeps_script_def is_throw_def)
  show "trace (f x) (\<lambda>r t'. keeps_script k ps refused r (t @ t'))"
    if "(is_throw (Inr x) \<or> (\<exists>y. Inr x = Inr y)) \<and> t = []" for x t
    using that assms(2) [of x] by simp
qed

lemma trace_weaken: "trace p P \<Longrightarrow> (\<And>r t. P r t \<Longrightarrow> Q r t) \<Longrightarrow> trace p Q"
  unfolding trace_def by blast

lemma silent_parts:
  "trace get_acc silent" "trace (upd_acc f) silent" "trace (item0 rs name) silent"
  "trace (on_db (insert_id_int (logged_bank B))) silent"
  by (auto simp: silent_def intro: trace_get trace_upd trace_weaken [OF trace_item0]
      trace_weaken [OF trace_insert_id])

lemma script_ret: "(if n = 0 then ps = [] else refused n = Some k) \<Longrightarrow> trace (ret n) (keeps_script k ps refused)"
  by (rule trace_ret) (auto simp: keeps_script_def)

lemma script_if: "(b \<Longrightarrow> trace p Q) \<Longrightarrow> (\<not> b \<Longrightarrow> trace q Q) \<Longrightarrow> trace (if b then p else q) Q"
  by simp

lemma script_Let: "(\<And>x. x = a \<Longrightarrow> trace (f x) Q) \<Longrightarrow> trace (Let a f) Q"
  by simp

lemmas script_rules = script_if script_Let script_ret
  script_stmt [OF trace_query] script_stmt [OF trace_exec] script_stmt [OF trace_start] script_stmt [OF trace_commit]
  script_silent [OF silent_parts(1)] script_silent [OF silent_parts(2)] script_silent [OF silent_parts(3)]
  script_silent [OF silent_parts(4)] script_open

subsection \<open>The scripts of the operations\<close>

definition says :: "bytes list \<Rightarrow> bytes \<Rightarrow> bool" where
  "says sql x \<longleftrightarrow> x = c_str (concat sql)"

text \<open>
  A transfer: look up both accounts, take from one and give to the other the same amount, record
  both sides, commit.  The balances in the records are what the database answered.
\<close>

definition transfer_script :: "('d, 'w) bank \<Rightarrow> 'd account \<Rightarrow> bytes \<Rightarrow> (bytes \<Rightarrow> bool) list" where
  "transfer_script B acc other =
     (let aid = acc_account_id acc; oid = ss_int (uninit_int B) other;
          money = dbl_fixed2 (b_arith B) (acc_balance acc) in
      [says [lit ''START TRANSACTION''],
       says (sql_flag aid '' and flag=0;''),
       says (sql_pass aid (acc_pass acc) '' for update;''),
       says [lit ''select balance from bank_account where account_id='', other, lit '' and flag=0 for update;''],
       says (sql_update ''-'' money (dec_int aid)),
       says (sql_update ''+'' money other),
       (\<lambda>x. \<exists>bal. says (sql_trans aid (dec_int oid) ''5'' money bal) x),
       (\<lambda>x. \<exists>tid. says (sql_name_date tid) x),
       (\<lambda>x. \<exists>bal. says (sql_trans oid (dec_int aid) ''4'' money bal) x),
       says [lit ''COMMIT'']])"

text \<open>The account the body reads is the one it was called with.\<close>

lemma get_acc_after:
  "andThen (on_db p) (\<lambda>_. andThen (on_db q) (\<lambda>_. andThen get_acc f)) (d, acc)
     = andThen (on_db p) (\<lambda>_. andThen (on_db q) (\<lambda>_. f acc)) (d, acc)"
  by (simp add: prog_simps on_db_def get_acc_def split: prod.split sum.split)

definition runs :: "(('d, 'w \<times> bytes list) svc, 'a) prog \<Rightarrow> 'd account \<Rightarrow> ('a res \<Rightarrow> bytes list \<Rightarrow> bool) \<Rightarrow> bool" where
  "runs body acc Q \<longleftrightarrow> (\<forall>d. \<exists>r s' t. body (d, acc) = (r, s') \<and> log_of s' = snd (mysql_world d) @ t \<and> Q r t)"

lemma runs_trace:
  assumes "trace (andThen (on_db p) (\<lambda>_. andThen (on_db q) (\<lambda>_. f acc))) Q"
  shows "runs (andThen (on_db p) (\<lambda>_. andThen (on_db q) (\<lambda>_. andThen get_acc f))) acc Q"
  unfolding runs_def get_acc_after
proof
  fix d
  show "\<exists>r s' t. andThen (on_db p) (\<lambda>_. andThen (on_db q) (\<lambda>_. f acc)) (d, acc) = (r, s') \<and>
      log_of s' = snd (mysql_world d) @ t \<and> Q r t"
    using assms unfolding trace_def by (auto simp: log_of_def dest: spec [of _ "(d, acc)"])
qed

lemma Transfer_body_script:
  "runs (Transfer_body (logged_bank B) other) acc
     (keeps_script 0 (transfer_script B acc other) [2 \<mapsto> 2, 3 \<mapsto> 3, 4 \<mapsto> 3, 5 \<mapsto> 4])"
  unfolding Transfer_body_def transfer_script_def logged_bank_sel Let_def
  by (rule runs_trace) (intro script_rules; auto simp: says_def)


definition deposit_script :: "('d, 'w) bank \<Rightarrow> 'd account \<Rightarrow> (bytes \<Rightarrow> bool) list" where
  "deposit_script B acc =
     (let aid = acc_account_id acc; money = dbl_fixed2 (b_arith B) (acc_balance acc) in
      [says [lit ''START TRANSACTION''],
       says (sql_flag aid '' and flag=0 for update;''),
       says (sql_update ''+'' money (dec_int aid)),
       (\<lambda>x. \<exists>bal. says (sql_trans aid (lit ''null'') ''2'' money bal) x),
       says [lit ''COMMIT''],
       (\<lambda>x. \<exists>tid. says (sql_name_date tid) x)])"

lemma Deposit_body_script:
  "runs (Deposit_body (logged_bank B)) acc (keeps_script 0 (deposit_script B acc) [2 \<mapsto> 2])"
  unfolding Deposit_body_def deposit_script_def logged_bank_sel Let_def
  by (rule runs_trace) (intro script_rules; auto simp: says_def)

definition withdraw_script :: "('d, 'w) bank \<Rightarrow> 'd account \<Rightarrow> (bytes \<Rightarrow> bool) list" where
  "withdraw_script B acc =
     (let aid = acc_account_id acc; money = dbl_fixed2 (b_arith B) (acc_balance acc) in
      [says [lit ''START TRANSACTION''],
       says (sql_flag aid '' and flag=0;''),
       says (sql_pass aid (acc_pass acc) '' for update;''),
       says (sql_update ''-'' money (dec_int aid)),
       (\<lambda>x. \<exists>bal. says (sql_trans aid (lit ''null'') ''3'' money bal) x),
       says [lit ''COMMIT''],
       (\<lambda>x. \<exists>tid. says (sql_name_date tid) x)])"

lemma WithDraw_body_script:
  "runs (WithDraw_body (logged_bank B)) acc (keeps_script 0 (withdraw_script B acc) [2 \<mapsto> 2, 3 \<mapsto> 3, 4 \<mapsto> 3])"
  unfolding WithDraw_body_def withdraw_script_def logged_bank_sel Let_def
  by (rule runs_trace) (intro script_rules; auto simp: says_def)

definition open_script :: "('d, 'w) bank \<Rightarrow> 'd account \<Rightarrow> (bytes \<Rightarrow> bool) list" where
  "open_script B acc =
     (let bal = dbl_fixed2 (b_arith B) (acc_balance acc) in
      [says [lit ''START TRANSACTION''],
       says [lit ''insert into bank_account values(null, '', [39], acc_name acc, [39], lit '', '',
         [39], acc_pass acc, [39], lit '', '', [39], acc_id acc, [39], lit '', '', bal, lit '', now(), '', lit ''0'', lit '');''],
       (\<lambda>x. \<exists>aid. says (sql_trans aid (lit ''null'') ''1'' bal bal) x),
       says [lit ''COMMIT''],
       (\<lambda>x. \<exists>aid. says [lit ''select open_date from bank_account where account_id='', [39], dec_int aid, [39], lit '';''] x)])"

lemma OpenAccount_body_script:
  "runs (OpenAccount_body (logged_bank B)) acc (keeps_script 0 (open_script B acc) Map.empty)"
  unfolding OpenAccount_body_def open_script_def logged_bank_sel Let_def
  by (rule runs_trace) (intro script_rules; auto simp: says_def)

text \<open>
  The whole operation: the \<open>catch\<close> block sends \<open>ROLLBACK\<close>; when that succeeds, \<open>Rollback\<close> throws,
  so that the caller sees an exception and not the code -1.
\<close>

definition transactional ::
  "(bytes \<Rightarrow> bool) list \<Rightarrow> (int \<Rightarrow> nat option) \<Rightarrow> (int \<times> 'd account) res \<Rightarrow> bytes list \<Rightarrow> bool" where
  "transactional ps refused r log \<longleftrightarrow>
     (case r of
        Inr (code, acc') \<Rightarrow> follows log ps \<and>
          (if code = 0 then length log = length ps
           else refused code = Some (length log) \<or> code = - 1 \<and> length log < length ps)
      | Inl e \<Rightarrow> e = OutOfBounds \<or> (\<exists>m. e = Throw m) \<and>
          (\<exists>t. log = t @ [lit ''ROLLBACK''] \<and> follows t ps \<and> length t < length ps))"

lemma unwound_log:
  "snd (snd (with_MysqlDB (logged M) body (w, l)))
     = snd (mysql_world (snd (body \<lparr>mysql_handle = False, mysql_world = (w, l)\<rparr>)))"
  by (auto simp: with_MysqlDB_def MysqlDB_Close_def logged_def Let_def split: prod.splits)

lemma run_service_log:
  assumes "body (\<lparr>mysql_handle = False, mysql_world = (w, l)\<rparr>, acc) = (rb, (d', a))"
  shows "fst (run_service (logged_bank B) acc body (w, l)) = (case rb of Inl e \<Rightarrow> Inl e | Inr n \<Rightarrow> Inr (n, a))"
    and "snd (snd (run_service (logged_bank B) acc body (w, l))) = snd (mysql_world d')"
  unfolding run_service_def logged_bank_sel unwound_log
  using assms by (auto simp: with_MysqlDB_def Let_def split: sum.split)

lemma run_service_transactional:
  assumes "runs body acc (keeps_script 0 ps refused)"
    and "run_service (logged_bank B) acc (try_catch body (\<lambda>e. on_db (rollback_error (logged_bank B)))) (w, [])
           = (r, (w', log))"
  shows "transactional ps refused r log"
proof -
  let ?d = "\<lparr>mysql_handle = False, mysql_world = (w, [])\<rparr>"
  let ?rollback = "on_db (rollback_error (logged_bank B))"
  obtain rb s t where b: "body (?d, acc) = (rb, s)" "log_of s = t" "keeps_script 0 ps refused rb t"
    using assms(1) unfolding runs_def by (auto dest!: spec [of _ ?d])
  obtain r2 s2 t2 where rb: "?rollback s = (r2, s2)" "log_of s2 = log_of s @ t2"
      "r2 = Inl OutOfBounds \<or> is_throw r2 \<and> t2 = [lit ''ROLLBACK''] \<or> r2 = Inr (- 1) \<and> t2 = []"
    using trace_rollback unfolding trace_def by blast
  have run: "r = (case fst (try_catch body (\<lambda>e. ?rollback) (?d, acc)) of
        Inl e \<Rightarrow> Inl e | Inr n \<Rightarrow> Inr (n, snd (snd (try_catch body (\<lambda>e. ?rollback) (?d, acc)))))"
      "log = log_of (snd (try_catch body (\<lambda>e. ?rollback) (?d, acc)))"
    using run_service_log [of "try_catch body (\<lambda>e. ?rollback)" w "[]" acc _ _ _ B] assms(2)
    by (metis fst_conv log_of_def prod.collapse snd_conv)+
  show ?thesis
  proof (cases "is_throw rb")
    case True
    then have "try_catch body (\<lambda>e. ?rollback) (?d, acc) = (r2, s2)"
      using b(1) rb(1) by (auto simp: prog_simps is_throw_def)
    then show ?thesis
      using run rb(2,3) b(2,3) True by (auto simp: transactional_def keeps_script_def is_throw_def)
  next
    case False
    then have "try_catch body (\<lambda>e. ?rollback) (?d, acc) = (rb, s)"
      using b(1) by (auto simp: prog_simps is_throw_def split: sum.split fault.split)
    then show ?thesis
      using run b(2,3) False by (auto simp: transactional_def keeps_script_def)
  qed
qed

subsection \<open>Example\<close>

text \<open>
  A bank for the examples: amounts are integers, every statement is executed but those at the
  positions \<open>refused\<close>, every query answers one row.
\<close>

definition demo_mysql :: "nat list \<Rightarrow> nat mysql" where
  "demo_mysql refused = \<lparr>
     my_init = (\<lambda>w. (True, w)), my_options = (\<lambda>w. w), my_real_connect = (\<lambda>_ _ _ _ _ w. (True, w)),
     my_close = (\<lambda>w. w), my_query = (\<lambda>_ w. (w \<notin> set refused, Suc w)),
     my_store_result = (\<lambda>w. (Some ([lit ''balance'', lit ''name'', lit ''trans_date''],
       [[Some (lit ''90''), Some (lit ''ann''), Some (lit ''2013-01-01 10:00:00'')]]), w)),
     my_affected_rows = (\<lambda>_. 1), my_insert_id = (\<lambda>_. 7), my_error = (\<lambda>_ _. lit ''refused'')\<rparr>"

definition demo_arith :: "int arith" where
  "demo_arith = \<lparr>dbl_add = (+), dbl_sub = (-), dbl_gt = (>), dbl_in = (\<lambda>_ s. int (digits_value s)),
     dbl_fixed2 = (\<lambda>x. dec_digits (nat x)), dbl_out = (\<lambda>x. dec_digits (nat x)), dbl_0_0035 = 0\<rparr>"

definition demo_bank :: "nat list \<Rightarrow> (int, nat) bank" where
  "demo_bank refused = \<lparr>b_mysql = demo_mysql refused, b_arith = demo_arith,
     b_server = \<lparr>serverIp = [], port = 0, dbServerIp = [], dbServerPort = 0, dbUser = [], dbPass = [],
                 dbName = [], interetRate = 0\<rparr>,
     uninit_int = 0, uninit_dbl = 0\<rparr>"

definition demo_account :: "int \<Rightarrow> int account" where
  "demo_account amount = \<lparr>acc_account_id = 3, acc_name = [], acc_pass = lit ''pw'', acc_id = [],
     acc_op_date = [], acc_balance = amount\<rparr>"

lemmas bank_run = run_service_def with_MysqlDB_def prog_simps on_db_def open_db_def MysqlDB_Open_def
  MysqlDB_Close_def MysqlDB_query_def MysqlDB_fail_def db_error_def query_def exec_def QuerySQL_def
  ExecSQL_def StartTransaction_def Commit_def Rollback_def rollback_error_def insert_id_int_def
  GetInsertId_def item0_def GetItem_def GetItem_col_def GetFieldIndex_def GetRows_def get_acc_def
  upd_acc_def logged_def logged_bank_def demo_bank_def demo_mysql_def demo_arith_def demo_account_def
  lit_eq c_str_lit StringToDouble_def Let_def

lemma digits_90: "digits_value (lit ''90'') = 90"
  by (simp add: digits_value_def lit_def)

lemma demo_Transfer:
  "fst (BankService_Transfer (logged_bank (demo_bank [])) (demo_account 40) (lit ''12'') (0, []))
     = Inr (0, (demo_account 50)\<lparr>acc_name := lit ''ann'', acc_op_date := lit ''2013-01-01 10:00:00''\<rparr>)"
  by (simp add: BankService_Transfer_def Transfer_body_def bank_run digits_90)

lemma demo_WithDraw:
  "fst (BankService_WithDraw (logged_bank (demo_bank [])) (demo_account 91) (0, [])) = Inr (4, demo_account 91)"
  by (simp add: BankService_WithDraw_def WithDraw_body_def bank_run digits_90)

lemma demo_Deposit:
  "fst (BankService_Deposit (logged_bank (demo_bank [])) (demo_account 40) (0, []))
     = Inr (0, (demo_account 130)\<lparr>acc_name := lit ''ann'', acc_op_date := lit ''2013-01-01 10:00:00''\<rparr>)"
  by (simp add: BankService_Deposit_def Deposit_body_def bank_run digits_90)

text \<open>
  The deposit whose last query is refused: the money is in the account for good, but the caller
  gets an exception, as \<open>Rollback\<close> throws when the server executes \<open>ROLLBACK\<close>.
\<close>

theorem Deposit_fails_after_commit:
  "case BankService_Deposit (logged_bank (demo_bank [5])) (demo_account 40) (0, []) of
     (r, (w, log)) \<Rightarrow> is_throw r \<and> lit ''COMMIT'' \<in> set log \<and> last log = lit ''ROLLBACK''"
  by (simp add: BankService_Deposit_def Deposit_body_def bank_run digits_90 is_throw_def)

subsection \<open>Properties\<close>

text \<open>
  C4: a transfer executes its statements in the order of the script, which moves one amount out of
  the account and into the other: code 0 means all ten, the commit last, were executed; a refusal
  (2, 3, 4, 5) comes after exactly the lookups it is about and before any update; a database error
  leaves a proper beginning of the script, uncommitted, followed by a rollback if an exception
  reaches the caller.
\<close>

theorem Transfer_transactional:
  assumes "BankService_Transfer (logged_bank B) acc other (w, []) = (r, (w', log))"
  shows "transactional (transfer_script B acc other) [2 \<mapsto> 2, 3 \<mapsto> 3, 4 \<mapsto> 3, 5 \<mapsto> 4] r log"
  using assms unfolding BankService_Transfer_def
  by (rule run_service_transactional [OF Transfer_body_script])

theorem Transfer_transactional_witness:
  "\<exists>acc' w' log. BankService_Transfer (logged_bank (demo_bank [])) (demo_account 40) (lit ''12'') (0, [])
       = (Inr (0, acc'), (w', log)) \<and> acc_balance acc' = 50 \<and> length log = 10 \<and>
     follows log (transfer_script (demo_bank []) (demo_account 40) (lit ''12''))"
proof -
  obtain r w' log where run: "BankService_Transfer (logged_bank (demo_bank [])) (demo_account 40)
      (lit ''12'') (0, []) = (r, (w', log))"
    by (metis prod.exhaust)
  then have "r = Inr (0, (demo_account 50)\<lparr>acc_name := lit ''ann'', acc_op_date := lit ''2013-01-01 10:00:00''\<rparr>)"
    using demo_Transfer by simp
  then show ?thesis
    using Transfer_transactional [OF run] run
    by (simp add: transactional_def transfer_script_def Let_def demo_account_def)
qed

text \<open>
  A withdrawal executes its statements in the order of its script; it is refused for a missing
  account after two, for a wrong password or too small a balance after three statements, and never
  takes money without recording it before the commit.
\<close>

theorem WithDraw_transactional:
  assumes "BankService_WithDraw (logged_bank B) acc (w, []) = (r, (w', log))"
  shows "transactional (withdraw_script B acc) [2 \<mapsto> 2, 3 \<mapsto> 3, 4 \<mapsto> 3] r log"
  using assms unfolding BankService_WithDraw_def
  by (rule run_service_transactional [OF WithDraw_body_script])

theorem WithDraw_transactional_witness:
  "\<exists>acc' w' log. BankService_WithDraw (logged_bank (demo_bank [])) (demo_account 91) (0, [])
       = (Inr (4, acc'), (w', log)) \<and> length log = 3"
proof -
  obtain r w' log where run: "BankService_WithDraw (logged_bank (demo_bank [])) (demo_account 91) (0, [])
      = (r, (w', log))"
    by (metis prod.exhaust)
  then have "r = Inr (4, demo_account 91)" using demo_WithDraw by simp
  then show ?thesis
    using WithDraw_transactional [OF run] run by (simp add: transactional_def)
qed

text \<open>
  A deposit locks the account, adds the amount, records it and commits, in this order; a
  missing account is refused after the second statement.
\<close>

theorem Deposit_transactional:
  assumes "BankService_Deposit (logged_bank B) acc (w, []) = (r, (w', log))"
  shows "transactional (deposit_script B acc) [2 \<mapsto> 2] r log"
  using assms unfolding BankService_Deposit_def
  by (rule run_service_transactional [OF Deposit_body_script])

theorem Deposit_transactional_witness:
  "\<exists>acc' w' log. BankService_Deposit (logged_bank (demo_bank [])) (demo_account 40) (0, [])
       = (Inr (0, acc'), (w', log)) \<and> acc_balance acc' = 130 \<and> length log = 6"
proof -
  obtain r w' log where run: "BankService_Deposit (logged_bank (demo_bank [])) (demo_account 40) (0, [])
      = (r, (w', log))"
    by (metis prod.exhaust)
  then have "r = Inr (0, (demo_account 130)\<lparr>acc_name := lit ''ann'', acc_op_date := lit ''2013-01-01 10:00:00''\<rparr>)"
    using demo_Deposit by simp
  then show ?thesis
    using Deposit_transactional [OF run] run
    by (simp add: transactional_def deposit_script_def Let_def demo_account_def)
qed

text \<open>
  Opening an account inserts the account with the requested balance, records the opening
  deposit of the same amount under the new id, and commits; the only refusals are database errors.
\<close>

theorem OpenAccount_transactional:
  assumes "BankService_OpenAccount (logged_bank B) acc (w, []) = (r, (w', log))"
  shows "transactional (open_script B acc) Map.empty r log"
  using assms unfolding BankService_OpenAccount_def
  by (rule run_service_transactional [OF OpenAccount_body_script])

theorem OpenAccount_transactional_witness:
  "\<exists>r w' log. BankService_OpenAccount (logged_bank (demo_bank [2])) (demo_account 40) (0, []) = (r, (w', log)) \<and>
     is_throw r \<and> (\<exists>t. log = t @ [lit ''ROLLBACK''] \<and> length t < 5)"
proof -
  obtain r w' log where run: "BankService_OpenAccount (logged_bank (demo_bank [2])) (demo_account 40) (0, [])
      = (r, (w', log))"
    by (metis prod.exhaust)
  moreover have "is_throw (fst (BankService_OpenAccount (logged_bank (demo_bank [2])) (demo_account 40) (0, [])))"
    by (simp add: BankService_OpenAccount_def OpenAccount_body_def bank_run is_throw_def)
  ultimately have "is_throw r" by simp
  then show ?thesis
    using OpenAccount_transactional [OF run] run
    by (auto simp: transactional_def is_throw_def open_script_def Let_def)
qed

text \<open>No statement but the last of a transfer is \<open>COMMIT\<close>.\<close>

lemma says_start: "says (lit (c # s) # sql) x \<Longrightarrow> c \<noteq> CHR 0x00 \<Longrightarrow> hd x = of_char c"
  by (auto simp: says_def lit_def c_str_def of_char_0)

lemma not_commit: "c \<noteq> CHR 0x00 \<Longrightarrow> c \<noteq> CHR ''C'' \<Longrightarrow> \<not> says (lit (c # s) # sql) (lit ''COMMIT'')"
  using says_start [of c s sql "lit ''COMMIT''"] of_char_inj [of c "CHR ''C''"] by (simp add: lit_def) blast

lemma follows_not: "follows t ps \<Longrightarrow> length t < length ps \<Longrightarrow> (\<forall>p \<in> set (butlast ps). \<not> p x) \<Longrightarrow> x \<notin> set t"
  by (induction t ps rule: follows.induct) (auto split: if_splits)

lemma follows_length: "follows t ps \<Longrightarrow> length t \<le> length ps"
  by (induction t ps rule: follows.induct) auto

lemma follows_last: "follows t ps \<Longrightarrow> length t = length ps \<Longrightarrow> ps \<noteq> [] \<Longrightarrow> t \<noteq> [] \<and> last ps (last t)"
  by (induction t ps rule: follows.induct) auto

lemma transfer_script_commit:
  assumes "follows t (transfer_script B acc other)"
  shows "lit ''COMMIT'' \<in> set t \<longleftrightarrow> \<not> length t < length (transfer_script B acc other)"
proof -
  have "\<forall>p \<in> set (butlast (transfer_script B acc other)). \<not> p (lit ''COMMIT'')"
    by (simp add: transfer_script_def Let_def sql_flag_def sql_pass_def sql_update_def sql_trans_def
        sql_name_date_def not_commit)
  then have "length t < length (transfer_script B acc other) \<Longrightarrow> lit ''COMMIT'' \<notin> set t"
    using follows_not [OF assms] by blast
  moreover have "lit ''COMMIT'' \<in> set t" if "\<not> length t < length (transfer_script B acc other)"
  proof -
    have n: "length t = length (transfer_script B acc other)"
      using that follows_length [OF assms] by simp
    have "transfer_script B acc other \<noteq> []" by (simp add: transfer_script_def Let_def)
    then have "t \<noteq> []" and l: "last (transfer_script B acc other) (last t)"
      using follows_last [OF assms n] by blast+
    moreover have "last t = lit ''COMMIT''"
      using l by (simp add: transfer_script_def Let_def says_def c_str_lit)
    ultimately show ?thesis by (metis last_in_set)
  qed
  ultimately show ?thesis by blast
qed

lemma transactional_commit:
  assumes "transactional (transfer_script B acc other) [2 \<mapsto> 2, 3 \<mapsto> 3, 4 \<mapsto> 3, 5 \<mapsto> 4] r log"
    and "r \<noteq> Inl OutOfBounds"
  shows "lit ''COMMIT'' \<in> set log \<longleftrightarrow> (\<exists>acc'. r = Inr (0, acc'))"
proof -
  have ten: "length (transfer_script B acc other) = 10" by (simp add: transfer_script_def Let_def)
  note iff = transfer_script_commit [of _ B acc other, unfolded ten]
  show ?thesis
  proof (cases r)
    case (Inl e)
    then obtain t where t: "log = t @ [lit ''ROLLBACK'']" "follows t (transfer_script B acc other)" "length t < 10"
      using assms ten by (auto simp: transactional_def)
    then have "lit ''COMMIT'' \<notin> set t" using iff by simp
    then show ?thesis using t Inl by (simp add: lit_eq)
  next
    case (Inr p)
    then obtain code acc' where p: "r = Inr (code, acc')" by (cases p) auto
    then show ?thesis
      using assms(1) iff [of log] ten by (auto simp: transactional_def split: if_splits)
  qed
qed

text \<open>
  C3: a transfer is committed exactly if it is reported as done: the server executes COMMIT when
  the result is code 0 and in no other case (but for accesses outside a result set).
\<close>

theorem Transfer_committed_iff_done:
  assumes "BankService_Transfer (logged_bank B) acc other (w, []) = (r, (w', log))"
    and "r \<noteq> Inl OutOfBounds"
  shows "lit ''COMMIT'' \<in> set log \<longleftrightarrow> (\<exists>acc'. r = Inr (0, acc'))"
  using assms unfolding BankService_Transfer_def
  by (intro transactional_commit [OF run_service_transactional [OF Transfer_body_script]])

theorem Transfer_committed_iff_done_witness:
  "\<exists>r w' log. BankService_Transfer (logged_bank (demo_bank [4])) (demo_account 40) (lit ''12'') (0, [])
       = (r, (w', log)) \<and> is_throw r \<and> lit ''COMMIT'' \<notin> set log"
proof -
  obtain r w' log where run: "BankService_Transfer (logged_bank (demo_bank [4])) (demo_account 40)
      (lit ''12'') (0, []) = (r, (w', log))"
    by (metis prod.exhaust)
  moreover have "is_throw (fst (BankService_Transfer (logged_bank (demo_bank [4])) (demo_account 40)
      (lit ''12'') (0, [])))"
    by (simp add: BankService_Transfer_def Transfer_body_def bank_run digits_90 is_throw_def)
  ultimately have "is_throw r" by simp
  then show ?thesis
    using Transfer_committed_iff_done [OF run] run by (auto simp: is_throw_def)
qed

end
