(* ===== verification/Answers.thy ===== *)
theory Answers imports BankServer Transactions begin

text \<open>
  What a client gets for its request.  \<open>writes\<close> describes a part of an answer by the bytes it
  appends; \<open>write_answer_correct\<close> puts the parts together.  \<open>ready\<close> is the invariant of a session
  between requests.  The properties follow a request from the bytes in the input buffer, through
  the decryption of the password, to the call of the bank operation and the bytes sent back.
\<close>

subsection \<open>Writing\<close>

definition writes :: "(jout \<Rightarrow> jout res) \<Rightarrow> bytes \<Rightarrow> bool" where
  "writes p body \<longleftrightarrow> (\<forall>jos. out_inv jos \<longrightarrow>
     (\<exists>jos'. p jos = Inr jos' \<and> out_inv jos' \<and> out_msg jos' = out_msg jos @ body))"

lemma writesE:
  assumes "writes p body" and "out_inv jos"
  obtains jos' where "p jos = Inr jos'" "out_inv jos'" "out_msg jos' = out_msg jos @ body"
  using assms unfolding writes_def by blast

lemma writes_done: "writes Inr []"
  by (simp add: writes_def)

lemma writes_no_body: "writes no_body []"
  by (simp add: writes_def no_body_def)

lemma writes_append: "writes (\<lambda>jos. JOut_Append jos d) d"
  using JOut_Append_correct by (simp add: writes_def)

lemma writes_string: "writes (\<lambda>jos. JOut_string jos str) (enc_string str)"
  using JOut_string_correct by (simp add: writes_def)

lemma writes_seq: "writes p a \<Longrightarrow> writes q b \<Longrightarrow> writes (\<lambda>jos. bind_res (p jos) q) (a @ b)"
  unfolding writes_def by (metis append_assoc bind_res.simps(2))

lemma writes_chars:
  "n \<le> length s \<Longrightarrow> writes (\<lambda>jos. bind_res (c_str_read s n) (JOut_WriteBytes jos)) (take n s)"
  using JOut_Append_correct by (simp add: writes_def c_str_read_def mem_read_def JOut_ints)

lemma write_answer_correct:
  assumes "out_inv (bs_jos s)" "out_msg (bs_jos s) = []" "writes p body" "length body + 40 < 2 ^ 32"
  shows "\<exists>jos. write_answer s err msg p = Inr (s\<lparr>bs_jos := jos\<rparr>) \<and> out_inv jos \<and>
     out_msg jos = answer (GetCmd s) 0 0 err msg body"
proof -
  obtain j1 pos where h: "resp_head (bs_jos s) (GetCmd s) 0 0 err msg = Inr (j1, pos)" "out_inv j1"
    using resp_head_correct [OF assms(1)] by blast
  obtain j2 where b: "p j1 = Inr j2" "out_inv j2" "out_msg j2 = out_msg j1 @ body"
    using writesE [OF assms(3) h(2)] .
  obtain j3 where "resp_tail j2 (GetCmd s) pos = Inr j3" "out_inv j3"
      "out_msg j3 = answer (GetCmd s) 0 0 err msg body"
    using answer_correct [OF assms(1) h(1) b(2,3)] assms(2,4) by (auto simp: answer_def)
  then show ?thesis using h(1) b(1) by (auto simp: write_answer_def)
qed

text \<open>The body of a successful deposit, withdrawal, transfer or inquiry.\<close>

definition account_data :: "('d, 'w) bank \<Rightarrow> 'd account \<Rightarrow> bytes" where
  "account_data B acc = enc_string (acc_name acc) @ enc_string (DoubleToString (b_arith B) (acc_balance acc)) @
     take 19 (acc_op_date acc)"

lemma writes_account:
  "19 \<le> length (acc_op_date acc) \<Longrightarrow> writes (account_body B acc) (account_data B acc)"
  unfolding account_body_def [abs_def] account_data_def write_date_def
  by (intro writes_seq writes_string writes_chars)

lemma length_enc_string: "length (enc_string str) \<le> 2 ^ 16 + 1"
  using u16_less [of "of_nat (length str)"] unat_len16_le [of "length str"]
  by (simp add: enc_string_def Let_def)

lemma length_account_data: "length (account_data B acc) + 40 < 2 ^ 32"
  using length_enc_string [of "acc_name acc"]
    length_enc_string [of "DoubleToString (b_arith B) (acc_balance acc)"]
  by (simp add: account_data_def)

subsection \<open>Passwords\<close>

text \<open>The key the client derives from the command is always defined, and the server derives the same.\<close>

lemma idea_key_ok: "\<exists>key. idea_key cmd = Inr key"
  using MD5Make_stack [of 2 "[ucast (drop_bit 8 cmd AND 0xff), ucast (cmd AND 0xff)]"]
  by (simp add: idea_key_def Let_def)

text \<open>
  The sixteen bytes a client enciphers hold the password as a C string; what stands behind its NUL is
  arbitrary.
\<close>

definition holds_pass :: "bytes \<Rightarrow> bytes \<Rightarrow> bool" where
  "holds_pass mem pass \<longleftrightarrow> length mem = 16 \<and> c_string mem = Inr pass"

definition enciphered :: "16 word \<Rightarrow> bytes \<Rightarrow> bytes \<Rightarrow> bool" where
  "enciphered cmd pass cipher \<longleftrightarrow>
     (\<exists>mem key ctx ctx'. holds_pass mem pass \<and> idea_key cmd = Inr key \<and> Idea_Crypt ctx key mem 16 True = Inr (ctx', cipher))"

lemma c_string_ok: "0 \<notin> set pass \<Longrightarrow> c_string (pass @ 0 # rest) = Inr pass"
proof -
  assume "0 \<notin> set pass"
  then have "takeWhile (\<lambda>c. c \<noteq> 0) (pass @ 0 # rest) = pass" by (induction pass) auto
  then show ?thesis by (simp add: c_string_def)
qed

lemma decrypt_enciphered:
  assumes "enciphered cmd pass cipher" and "idea_key cmd = Inr key"
  obtains mem where "length cipher = 16" "decrypt_pass key cipher = Inr mem" "c_string mem = Inr pass"
proof -
  obtain mem ctx ctx' where p: "holds_pass mem pass" and c: "Idea_Crypt ctx key mem 16 True = Inr (ctx', cipher)"
    using assms unfolding enciphered_def by auto
  obtain c1 out c2 where "Idea_Crypt ctx key mem 16 True = Inr (c1, out)" "length out = 16"
      "Idea_Crypt idea_stack key out 16 False = Inr (c2, mem)"
    using Idea_Crypt_decrypts [of ctx key mem idea_stack] p by (auto simp: holds_pass_def)
  then show thesis using c p that by (simp add: decrypt_pass_def holds_pass_def)
qed

subsection \<open>Reading\<close>

definition reads :: "(jin \<Rightarrow> ('a \<times> jin) res) \<Rightarrow> 'a \<Rightarrow> bytes \<Rightarrow> bool" where
  "reads p v xs \<longleftrightarrow> (\<forall>jis r. in_inv jis \<longrightarrow> in_rest jis = xs @ r \<longrightarrow>
     (\<exists>jis'. p jis = Inr (v, jis') \<and> in_inv jis' \<and> in_rest jis' = r))"

lemma readsE:
  assumes "reads p v xs" and "in_inv jis" "in_rest jis = xs @ r"
  obtains jis' where "p jis = Inr (v, jis')" "in_inv jis'" "in_rest jis' = r"
  using assms unfolding reads_def by blast

lemma reads_bytes: "length xs = n \<Longrightarrow> reads (\<lambda>jis. JIn_ReadBytes jis n) xs xs"
  using jis.get_front by (auto simp: reads_def)

lemma reads_string: "length str < 2 ^ 16 \<Longrightarrow> reads JIn_string str (enc_string str)"
  unfolding reads_def by (auto simp: enc_string_short unat_len16 intro!: JIn_string_correct)

lemma reads_chars: "length xs = n \<Longrightarrow> 0 \<notin> set xs \<Longrightarrow> reads (\<lambda>jis. read_chars jis n) xs xs"
proof -
  assume x: "length xs = n" "0 \<notin> set xs"
  have "c_str xs = xs" using x(2) by (induction xs) (auto simp: c_str_def)
  then show ?thesis
    using reads_bytes [OF x(1)] unfolding reads_def read_chars_def by fastforce
qed

lemma reads_bind:
  assumes "reads p v xs" and "in_inv jis" "in_rest jis = xs @ r"
    and "\<And>jis'. in_inv jis' \<Longrightarrow> in_rest jis' = r \<Longrightarrow> f (v, jis') = y"
  shows "bind_res (p jis) f = y"
  using readsE [OF assms(1-3)] assms(4) by (metis bind_res.simps(2))

subsection \<open>Sessions\<close>

definition ready :: "bank_session \<Rightarrow> bool" where
  "ready s \<longleftrightarrow> length (bs_buffer s) = 2048 \<and> out_inv (bs_jos s) \<and> out_msg (bs_jos s) = []"

text \<open>A session whose request has been parsed, with the body and the hash the commands read.\<close>

definition parsed :: "bank_session \<Rightarrow> 16 word \<Rightarrow> bytes \<Rightarrow> bool" where
  "parsed s cmd body \<longleftrightarrow> ready s \<and> GetCmd s = cmd \<and>
     (\<exists>hash. length hash = 8 \<and> request_stream s = Inr (JIn_make (body @ hash)))"

lemma JIn_make_start: "in_inv (JIn_make d)" "in_rest (JIn_make d) = d"
  by simp_all

lemma JOut_Clear_correct: "out_inv (JOut_Clear j)" "out_msg (JOut_Clear j) = []"
  by (simp_all add: JOut_Clear_def out_inv_def out_msg_def)

lemma ready_clear: "length (bs_buffer s) = 2048 \<Longrightarrow> ready (s\<lparr>bs_jos := JOut_Clear j\<rparr>)"
  by (simp add: ready_def JOut_Clear_correct)

text \<open>The end of a packet: what the stream holds is sent and the stream cleared.\<close>

definition hand_over :: "bank_session \<Rightarrow> (bytes \<times> bank_session) res" where
  "hand_over bs =
     bind_res (JOut_Data (bs_jos bs)) (\<lambda>d.
     bind_res (Buffer_append Buffer_new d) (\<lambda>response.
     let bs = bs\<lparr>bs_jos := JOut_Clear (bs_jos bs)\<rparr> in
     bind_res (retrieveAllAsString response) (\<lambda>(sent, _). Inr (sent, bs))))"

lemma hand_over_correct:
  "out_inv (bs_jos s) \<Longrightarrow> hand_over s = Inr (out_msg (bs_jos s), s\<lparr>bs_jos := JOut_Clear (bs_jos s)\<rparr>)"
proof -
  assume s: "out_inv (bs_jos s)"
  obtain b where b: "Buffer_append Buffer_new (out_msg (bs_jos s)) = Inr b" "Buffer_inv b"
      "content b = content Buffer_new @ out_msg (bs_jos s)"
    using Buffer_append_correct [OF Buffer_new_correct(1)] by blast
  obtain b' where "retrieveAllAsString b = Inr (content b, b')"
    using retrieveAsString_correct [OF b(2) order_refl] b(2) by (auto simp: retrieveAllAsString_def)
  then show ?thesis
    using JOut_Data_correct [OF s] b Buffer_new_correct(2) by (simp add: hand_over_def Let_def)
qed

lemma serve_packet_alt:
  "serve_packet B bs data n = andThen (lift (SetData bs data n)) (\<lambda>bs. andThen (Process B bs) (\<lambda>bs. lift (hand_over bs)))"
  by (simp add: serve_packet_def hand_over_def)

lemma serve_request:
  assumes "ready bs" and "data = request cmd body @ later" and "length body + 12 \<le> 2048"
  shows "\<exists>s. parsed s cmd body \<and> serve_packet B bs data (length body + 12) =
    andThen (try_catch (BankSession_DoAction B s) (\<lambda>e. ret s)) (\<lambda>s. lift (hand_over s))"
proof -
  let ?n = "length body + 12"
  let ?bs = "bs\<lparr>bs_buffer := request cmd body @ drop ?n (bs_buffer bs)\<rparr>"
  have l: "length (bs_buffer bs) = 2048" using assms(1) by (simp add: ready_def)
  have n: "length (request cmd body) = ?n" by (rule length_request)
  have set: "SetData bs data ?n = Inr ?bs"
    using l assms(2,3) n by (simp add: SetData_def mem_read_def mem_write_def)
  have "length (bs_buffer ?bs) = 2048" using l n assms(3) by simp
  then obtain s where s: "Parse ?bs = Inr s" "GetCmd s = cmd" "bs_jos s = bs_jos ?bs"
      "length (bs_buffer s) = 2048" "\<exists>hash. length hash = 8 \<and> request_stream s = Inr (JIn_make (body @ hash))"
    using Parse_accepts [of ?bs cmd body "drop ?n (bs_buffer bs)"] by auto
  then have "parsed s cmd body" using assms(1) by (simp add: parsed_def ready_def)
  moreover have "serve_packet B bs data ?n w =
      andThen (try_catch (BankSession_DoAction B s) (\<lambda>e. ret s)) (\<lambda>s. lift (hand_over s)) w" for w
    by (simp add: serve_packet_alt set Process_def s(1) andThen_def lift_def)
  ultimately show ?thesis by blast
qed

text \<open>The error code and text of an answer, by the operation's result code.\<close>

definition reply :: "(int \<times> bytes) list \<Rightarrow> int \<Rightarrow> 16 word \<times> bytes" where
  "reply msgs code = (case map_of msgs code of Some m \<Rightarrow> (of_int code, m) | None \<Rightarrow> (0, []))"

text \<open>What the client is sent when a command has written its answer.\<close>

lemma answered:
  assumes "parsed s cmd req" "writes p body" "length body + 40 < 2 ^ 32"
    and "BankSession_DoAction B s w = lift (write_answer s err msg p) w'"
  shows "\<exists>bs'. andThen (try_catch (BankSession_DoAction B s) (\<lambda>e. ret s)) (\<lambda>s. lift (hand_over s)) w
    = (Inr (answer cmd 0 0 err msg body, bs'), w') \<and> ready bs'"
proof -
  have r: "ready s" and c: "GetCmd s = cmd" using assms(1) by (auto simp: parsed_def)
  obtain jos where jos: "write_answer s err msg p = Inr (s\<lparr>bs_jos := jos\<rparr>)" "out_inv jos"
      "out_msg jos = answer cmd 0 0 err msg body"
    using write_answer_correct [OF _ _ assms(2,3), of s] r c by (auto simp: ready_def)
  have "ready (s\<lparr>bs_jos := JOut_Clear jos\<rparr>)"
    using r by (intro ready_clear) (simp add: ready_def)
  then show ?thesis
    using assms(4) jos hand_over_correct [of "s\<lparr>bs_jos := jos\<rparr>"] by (simp add: prog_simps)
qed

lemma DoAction_Execute:
  "GetCmd s = cmd \<Longrightarrow> TransactionManager_actions cmd = Some t \<Longrightarrow> BankSession_DoAction B s = Execute t B s"
  by (auto simp: BankSession_DoAction_def TransactionManager_DoAction_def fun_eq_iff prog_simps
      split: prod.split sum.split)

text \<open>A request whose command ends in one call of a bank operation.\<close>

lemma served:
  assumes "ready bs" "data = request cmd req @ later" "length req + 12 \<le> 2048"
    and "TransactionManager_actions cmd = Some t"
    and "\<And>s. parsed s cmd req \<Longrightarrow> Execute t B s w = lift (write_answer s err msg p) w'"
    and "writes p body" "length body + 40 < 2 ^ 32"
  shows "\<exists>bs'. serve_packet B bs data (length req + 12) w = (Inr (answer cmd 0 0 err msg body, bs'), w') \<and> ready bs'"
proof -
  obtain s where s: "parsed s cmd req" "serve_packet B bs data (length req + 12) =
      andThen (try_catch (BankSession_DoAction B s) (\<lambda>e. ret s)) (\<lambda>s. lift (hand_over s))"
    using serve_request [OF assms(1-3)] by blast
  have "BankSession_DoAction B s w = lift (write_answer s err msg p) w'"
    using DoAction_Execute [OF _ assms(4), of s B] assms(5) [OF s(1)] s(1) by (simp add: parsed_def)
  then show ?thesis using answered [OF s(1) assms(6,7)] s(2) by simp
qed

subsection \<open>Logging in\<close>

definition login_msgs :: "(int \<times> bytes) list" where
  "login_msgs = [(1, wrong_user), (- 1, db_failed)]"

lemma UserLogin_calls:
  assumes "parsed s cmd (enc_string name @ cipher)" "length name < 2 ^ 16" "enciphered cmd pass cipher"
  shows "UserLogin_Execute B s = andThen (BankService_UserLogin B name pass) (\<lambda>code.
    lift (write_answer s (fst (reply login_msgs code)) (snd (reply login_msgs code)) no_body))"
proof -
  obtain hash where r: "request_stream s = Inr (JIn_make (enc_string name @ cipher @ hash))"
    using assms(1) by (auto simp: parsed_def)
  have c: "GetCmd s = cmd" using assms(1) by (simp add: parsed_def)
  obtain key where k: "idea_key cmd = Inr key" using idea_key_ok by blast
  obtain mem where d: "length cipher = 16" "decrypt_pass key cipher = Inr mem" "c_string mem = Inr pass"
    using decrypt_enciphered [OF assms(3) k] .
  obtain j1 where j1: "JIn_string (JIn_make (enc_string name @ cipher @ hash)) = Inr (name, j1)"
      "in_inv j1" "in_rest j1 = cipher @ hash"
    using readsE [OF reads_string [OF assms(2)] JIn_make_start(1)] JIn_make_start(2) by metis
  obtain j2 where "JIn_ReadBytes j1 16 = Inr (cipher, j2)"
    using readsE [OF reads_bytes [OF d(1)] j1(2,3)] .
  then show ?thesis
    using r c k d j1(1)
    by (auto simp: UserLogin_Execute_def fun_eq_iff prog_simps reply_def login_msgs_def
        split: prod.split sum.split)
qed

subsection \<open>Deposits and transfers\<close>

definition deposit_msgs :: "(int \<times> bytes) list" where
  "deposit_msgs = [(2, no_account), (- 1, db_failed)]"

definition transfer_msgs :: "(int \<times> bytes) list" where
  "transfer_msgs = [(2, no_account), (3, wrong_pass), (4, poor), (5, no_other), (- 1, db_failed)]"

text \<open>The account an operation is called with.\<close>

definition asked :: "('d, 'w) bank \<Rightarrow> bytes \<Rightarrow> bytes \<Rightarrow> bytes \<Rightarrow> 'd account" where
  "asked B aid pass money = (Account_new B)\<lparr>acc_pass := pass, acc_account_id := StringToInt (uninit_int B) aid,
     acc_balance := StringToDouble (b_arith B) (uninit_dbl B) money\<rparr>"

definition account_id_text :: "bytes \<Rightarrow> bool" where
  "account_id_text aid \<longleftrightarrow> length aid = 6 \<and> 0 \<notin> set aid"

lemma Deposit_calls:
  assumes "parsed s cmd (aid @ enc_string money)" "account_id_text aid" "length money < 2 ^ 16"
  shows "Deposit_Execute B s = andThen (BankService_Deposit B (asked B aid [] money)) (\<lambda>(code, acc).
    lift (write_answer s (fst (reply deposit_msgs code)) (snd (reply deposit_msgs code))
      (if fst (reply deposit_msgs code) = 0 then account_body B acc else Inr)))"
proof -
  obtain hash where r: "request_stream s = Inr (JIn_make (aid @ enc_string money @ hash))"
    using assms(1) by (auto simp: parsed_def)
  have i: "length aid = 6" "0 \<notin> set aid" using assms(2) by (auto simp: account_id_text_def)
  obtain j1 where j1: "read_chars (JIn_make (aid @ enc_string money @ hash)) 6 = Inr (aid, j1)"
      "in_inv j1" "in_rest j1 = enc_string money @ hash"
    using readsE [OF reads_chars [OF i] JIn_make_start(1)] JIn_make_start(2) by metis
  obtain j2 where "JIn_string j1 = Inr (money, j2)"
    using readsE [OF reads_string [OF assms(3)] j1(2,3)] .
  moreover have "(Account_new B)\<lparr>acc_account_id := a, acc_balance := b\<rparr>
      = (Account_new B)\<lparr>acc_pass := [], acc_account_id := a, acc_balance := b\<rparr>" for a b
    by (simp add: Account_new_def)
  ultimately show ?thesis
    using r j1(1)
    by (auto simp: Deposit_Execute_def asked_def fun_eq_iff prog_simps reply_def deposit_msgs_def Let_def
        split: prod.split sum.split)
qed

lemma read_id_pass_ok:
  assumes "parsed s cmd (aid @ cipher @ rest)" "account_id_text aid" "enciphered cmd pass cipher"
  shows "\<exists>mem key jis hash. read_id_pass s = Inr (aid, mem, key, jis) \<and> c_string mem = Inr pass \<and>
    in_inv jis \<and> in_rest jis = rest @ hash"
proof -
  obtain hash where r: "request_stream s = Inr (JIn_make (aid @ cipher @ rest @ hash))"
    using assms(1) by (auto simp: parsed_def)
  have c: "GetCmd s = cmd" using assms(1) by (simp add: parsed_def)
  obtain key where k: "idea_key cmd = Inr key" using idea_key_ok by blast
  obtain mem where d: "length cipher = 16" "decrypt_pass key cipher = Inr mem" "c_string mem = Inr pass"
    using decrypt_enciphered [OF assms(3) k] .
  have i: "length aid = 6" "0 \<notin> set aid" using assms(2) by (auto simp: account_id_text_def)
  obtain j1 where j1: "read_chars (JIn_make (aid @ cipher @ rest @ hash)) 6 = Inr (aid, j1)"
      "in_inv j1" "in_rest j1 = cipher @ rest @ hash"
    using readsE [OF reads_chars [OF i] JIn_make_start(1)] JIn_make_start(2) by metis
  obtain j2 where "JIn_ReadBytes j1 16 = Inr (cipher, j2)" "in_inv j2" "in_rest j2 = rest @ hash"
    using readsE [OF reads_bytes [OF d(1)] j1(2,3)] .
  then show ?thesis using r c k d j1(1) by (auto simp: read_id_pass_def)
qed

lemma Transfer_calls:
  assumes "parsed s cmd (aid @ cipher @ enc_string money @ other)" "account_id_text aid"
    "enciphered cmd pass cipher" "length money < 2 ^ 16" "account_id_text other"
  shows "Transfer_Execute B s = andThen (BankService_Transfer B (asked B aid pass money) other) (\<lambda>(code, acc).
    lift (write_answer s (fst (reply transfer_msgs code)) (snd (reply transfer_msgs code))
      (if fst (reply transfer_msgs code) = 0 then account_body B acc else Inr)))"
proof -
  obtain mem key jis hash where r: "read_id_pass s = Inr (aid, mem, key, jis)" "c_string mem = Inr pass" "in_inv jis"
      "in_rest jis = enc_string money @ other @ hash"
    using read_id_pass_ok [OF assms(1-3)] by auto
  have o: "length other = 6" "0 \<notin> set other" using assms(5) by (auto simp: account_id_text_def)
  obtain j1 where j1: "JIn_string jis = Inr (money, j1)" "in_inv j1" "in_rest j1 = other @ hash"
    using readsE [OF reads_string [OF assms(4)] r(3,4)] .
  obtain j2 where "read_chars j1 6 = Inr (other, j2)"
    using readsE [OF reads_chars [OF o] j1(2,3)] .
  then show ?thesis
    using r(1,2) j1(1)
    by (auto simp: Transfer_Execute_def asked_def fun_eq_iff prog_simps reply_def transfer_msgs_def Let_def
        split: prod.split sum.split)
qed

lemma writes_if_account:
  "(c \<Longrightarrow> 19 \<le> length (acc_op_date acc)) \<Longrightarrow>
     writes (if c then account_body B acc else Inr) (if c then account_data B acc else [])"
  by (simp add: writes_account writes_done)

lemma length_if_account: "length (if c then account_data B acc else []) + 40 < 2 ^ 32"
  using length_account_data [of B acc] by simp

lemma enciphered_ex: "length pass < 16 \<Longrightarrow> 0 \<notin> set pass \<Longrightarrow> \<exists>cipher. enciphered cmd pass cipher \<and> length cipher = 16"
proof -
  assume p: "length pass < 16" "0 \<notin> set pass"
  let ?mem = "pass @ 0 # replicate (15 - length pass) 0"
  obtain key where k: "idea_key cmd = Inr key" using idea_key_ok by blast
  have m: "holds_pass ?mem pass" using p by (simp add: holds_pass_def c_string_ok)
  obtain c1 out where "Idea_Crypt idea_stack key ?mem 16 True = Inr (c1, out)" "length out = 16"
    using Idea_Crypt_decrypts [of idea_stack key ?mem idea_stack] m by (auto simp: holds_pass_def)
  then show ?thesis using m k unfolding enciphered_def by blast
qed

lemma lit_nul: "0 \<in> set (lit s) \<longleftrightarrow> CHR 0x00 \<in> set s"
  by (induction s) (auto simp: lit_def of_char_0 dest: sym)

lemma digits_40: "digits_value (lit ''40'') = 40" and digits_91: "digits_value (lit ''91'') = 91"
  by (simp_all add: digits_value_def lit_def)

lemma ready_new: "length mem = 2048 \<Longrightarrow> ready (BankSession_new mem)"
  by (simp add: ready_def BankSession_new_def)

subsection \<open>The invariant of a session\<close>

text \<open>A command changes nothing of the session but its stream.\<close>

definition keeps_buffer :: "bank_session \<Rightarrow> ('w, bank_session) prog \<Rightarrow> bool" where
  "keeps_buffer s p \<longleftrightarrow> (\<forall>w s' w'. p w = (Inr s', w') \<longrightarrow> bs_buffer s' = bs_buffer s)"

lemma keeps_andThen: "(\<And>x. keeps_buffer s (f x)) \<Longrightarrow> keeps_buffer s (andThen p f)"
  by (auto simp: keeps_buffer_def prog_simps split: prod.splits sum.splits)

lemma keeps_write_answer: "keeps_buffer s (lift (write_answer s err msg p))"
  by (auto simp: keeps_buffer_def prog_simps write_answer_def bind_res_Inr split: prod.splits)

lemma keeps_report: "keeps_buffer s (lift (write_report s code p))"
  using keeps_write_answer
  by (auto simp: keeps_buffer_def prog_simps write_report_def bind_res_Inr Let_def split: if_splits)

lemma keeps_Let: "(\<And>x. keeps_buffer s (f x)) \<Longrightarrow> keeps_buffer s (Let a f)"
  by simp

lemma keeps_case_prod: "(\<And>x y. keeps_buffer s (f x y)) \<Longrightarrow> keeps_buffer s (case z of (x, y) \<Rightarrow> f x y)"
  by (cases z) simp

lemma Execute_keeps_buffer: "keeps_buffer s (Execute t B s)"
  by (cases t)
    (auto simp: UserLogin_Execute_def OpenAccount_Execute_def Deposit_Execute_def Withdrawal_Execute_def
        Transfer_Execute_def BalanceInquiry_Execute_def ChangePassword_Execute_def QueryDayBill_Execute_def
        QueryHistoryBill_Execute_def QueryAccountHistoryBill_Execute_def CloseAccount_Execute_def
      intro!: keeps_andThen keeps_Let keeps_case_prod keeps_write_answer keeps_report)

lemma Parse_keeps_length: "Parse s = Inr s' \<Longrightarrow> length (bs_buffer s') = length (bs_buffer s)"
  by (auto simp: Parse_def bind_res_Inr Let_def dest: mem_write_length split: if_splits)

lemma Process_keeps_length:
  assumes "Process B s w = (Inr s', w')"
  shows "length (bs_buffer s') = length (bs_buffer s)"
proof -
  obtain s1 where s1: "Parse s = Inr s1"
      "try_catch (BankSession_DoAction B s1) (\<lambda>e. ret s1) w = (Inr s', w')"
    using assms by (cases "Parse s") (auto simp: Process_def prog_simps)
  have "keeps_buffer s1 (BankSession_DoAction B s1)"
  proof (cases "TransactionManager_actions (GetCmd s1)")
    case None
    then show ?thesis
      by (simp add: BankSession_DoAction_def TransactionManager_DoAction_def keeps_buffer_def prog_simps)
  next
    case (Some t)
    then show ?thesis using DoAction_Execute [OF refl Some] Execute_keeps_buffer by metis
  qed
  then have "bs_buffer s' = bs_buffer s1"
    using s1(2) by (auto simp: keeps_buffer_def prog_simps split: prod.splits sum.splits fault.splits)
  then show ?thesis using Parse_keeps_length [OF s1(1)] by simp
qed

lemma serve_packet_ready:
  assumes "serve_packet B bs data n w = (Inr (sent, bs'), w')" and "length (bs_buffer bs) = 2048"
  shows "ready bs'"
proof -
  obtain b where b: "SetData bs data n = Inr b" using assms(1)
    by (cases "SetData bs data n") (auto simp: serve_packet_alt prog_simps)
  then have l: "length (bs_buffer b) = 2048"
    using assms(2) by (auto simp: SetData_def bind_res_Inr dest: mem_write_length)
  obtain s where s: "Process B b w = (Inr s, w')" "hand_over s = Inr (sent, bs')"
    using assms(1) b by (auto simp: serve_packet_alt prog_simps split: prod.splits sum.splits)
  then have "length (bs_buffer s) = 2048" using Process_keeps_length l by fastforce
  then show ?thesis
    using s(2) ready_clear by (auto simp: hand_over_def bind_res_Inr Let_def split: prod.splits)
qed

text \<open>One pass of the loop, and what every pass keeps holds at the end.\<close>

definition packet_waits :: "buffer \<Rightarrow> bool" where
  "packet_waits buf \<longleftrightarrow> 4 \<le> readableBytes buf \<and> packet_length (content buf) \<le> readableBytes buf"

lemma onMessage_pass:
  assumes "onMessage B bs buf sent w = (Inr (bs', buf', sent'), w')"
  shows "\<not> packet_waits buf \<and> bs' = bs \<and> buf' = buf \<or>
    (\<exists>response bs1 w1 buf1. serve_packet B bs (content buf) (packet_length (content buf)) w = (Inr (response, bs1), w1) \<and>
       retrieve buf (packet_length (content buf)) = Inr buf1 \<and> 0 < readableBytes buf \<and>
       onMessage B bs1 buf1 (sent @ [response]) w1 = (Inr (bs', buf', sent'), w'))"
  using assms
  by (subst (asm) onMessage.simps)
    (auto simp: Let_def packet_length_def packet_waits_def kHeaderLen_def range_content
      split: if_splits prod.splits sum.splits)

lemma onMessage_keeps:
  assumes "onMessage B bs buf sent w = (Inr (bs', buf', sent'), w')" and "P bs"
    and "\<And>bs data n w response bs1 w1. serve_packet B bs data n w = (Inr (response, bs1), w1) \<Longrightarrow> P bs \<Longrightarrow> P bs1"
  shows "P bs' \<and> \<not> packet_waits buf'"
  using assms(1,2)
proof (induction "readableBytes buf" arbitrary: bs buf sent w rule: less_induct)
  case less
  from onMessage_pass [OF less.prems(1)] show ?case
  proof (elim disjE exE conjE)
    fix response bs1 w1 buf1
    assume p: "serve_packet B bs (content buf) (packet_length (content buf)) w = (Inr (response, bs1), w1)"
      "retrieve buf (packet_length (content buf)) = Inr buf1" "0 < readableBytes buf"
      "onMessage B bs1 buf1 (sent @ [response]) w1 = (Inr (bs', buf', sent'), w')"
    have "readableBytes buf1 < readableBytes buf"
      using p(2,3) by (intro retrieve_shrinks [OF p(2)]) (simp_all add: packet_length_def)
    then show ?thesis using p less assms(3) by blast
  qed (use less.prems in blast)
qed

lemma onMessage_ready:
  assumes "onMessage B bs buf sent w = (Inr (bs', buf', sent'), w')" and "ready bs"
  shows "ready bs' \<and> \<not> packet_waits buf'"
  using assms by (rule onMessage_keeps) (erule serve_packet_ready, simp add: ready_def)

subsection \<open>Properties\<close>

text \<open>
  C10: what holds of a connection between two reads holds after the next one: onMessage leaves the
  session with its full buffer and an empty answer stream and the input buffer well formed, and it
  stops only when no complete packet is left in it.
\<close>

theorem onMessage_invariant:
  assumes "onMessage B bs buf sent w = (Inr (bs', buf', sent'), w')" and "ready bs" "Buffer_inv buf"
  shows "ready bs' \<and> Buffer_inv buf' \<and>
    (length (content buf') < 4 \<or> length (content buf') < packet_length (content buf'))"
proof -
  have "Buffer_inv buf'"
    using onMessage_serve [OF assms(3), THEN conjunct2, rule_format, OF assms(1)] .
  then show ?thesis
    using onMessage_ready [OF assms(1,2)] by (auto simp: packet_waits_def)
qed

theorem onMessage_invariant_witness:
  "onMessage (demo_bank []) (BankSession_new (replicate 2048 0)) Buffer_new [] 0 =
      (Inr (BankSession_new (replicate 2048 0), Buffer_new, []), 0) \<and>
   ready (BankSession_new (replicate 2048 0)) \<and> length (content Buffer_new) < 4"
proof -
  have "onMessage (demo_bank []) (BankSession_new (replicate 2048 0)) Buffer_new [] 0 =
      (Inr (BankSession_new (replicate 2048 0), Buffer_new, []), 0)"
    by (subst onMessage.simps) (simp add: kHeaderLen_def)
  from this onMessage_invariant [OF this ready_new Buffer_new_correct(1)] show ?thesis by simp
qed


text \<open>
  A teller's login, from the bytes on the wire to the bytes sent back: if the packet carries a
  name and a password enciphered under the key of the command, the server asks the database for
  exactly this name and this password, and the client gets one well-formed, sealed answer with the
  result code and its text; the session is then ready for the next packet.
\<close>

theorem Login_served:
  assumes "ready bs" and "data = request 1 (enc_string name @ cipher) @ later"
    and "length (enc_string name @ cipher) + 12 \<le> 2048" "length name < 2 ^ 16" "enciphered 1 pass cipher"
    and "BankService_UserLogin B name pass w = (Inr code, w')"
  shows "\<exists>bs'. serve_packet B bs data (length (enc_string name @ cipher) + 12) w =
    (Inr (answer 1 0 0 (fst (reply login_msgs code)) (snd (reply login_msgs code)) [], bs'), w') \<and> ready bs'"
proof (rule served [OF assms(1-3)])
  show "TransactionManager_actions 1 = Some UserLogin" by (simp add: TransactionManager_actions_def)
  show "Execute UserLogin B s w = lift (write_answer s (fst (reply login_msgs code))
      (snd (reply login_msgs code)) no_body) w'" if "parsed s 1 (enc_string name @ cipher)" for s
    using UserLogin_calls [OF that assms(4,5), of B] assms(6) by (simp add: prog_simps)
qed (simp_all add: writes_no_body)

theorem Login_served_witness:
  "\<exists>cipher bs'. enciphered 1 (lit ''pw'') cipher \<and> length cipher = 16 \<and>
     serve_packet (demo_bank []) (BankSession_new (replicate 2048 0)) (request 1 (enc_string (lit ''ann'') @ cipher))
       (length (enc_string (lit ''ann'') @ cipher) + 12) 0 = (Inr (answer 1 0 0 0 [] [], bs'), 1)"
proof -
  obtain cipher where c: "enciphered 1 (lit ''pw'') cipher" "length cipher = 16"
    using enciphered_ex [of "lit ''pw''" 1] by (auto simp: lit_def)
  have "BankService_UserLogin (demo_bank []) (lit ''ann'') (lit ''pw'') 0 = (Inr 0, 1)"
    by (simp add: BankService_UserLogin_def bank_run)
  then have "\<exists>bs'. serve_packet (demo_bank []) (BankSession_new (replicate 2048 0))
      (request 1 (enc_string (lit ''ann'') @ cipher)) (length (enc_string (lit ''ann'') @ cipher) + 12) 0 =
      (Inr (answer 1 0 0 (fst (reply login_msgs 0)) (snd (reply login_msgs 0)) [], bs'), 1) \<and> ready bs'"
    using c by (intro Login_served [where later = "[]"]) (simp_all add: ready_new enc_string_short)
  then show ?thesis using c by (auto simp: reply_def login_msgs_def)
qed

text \<open>
  A deposit from the bytes on the wire to the bytes sent back: the operation gets the account
  number and the amount of the packet, and the client one sealed answer; if it succeeded, with the
  owner's name, the new balance and the date, otherwise with the error code and its text alone.
\<close>

theorem Deposit_served:
  assumes "ready bs" and "data = request 3 (aid @ enc_string money) @ later"
    and "length (aid @ enc_string money) + 12 \<le> 2048" "account_id_text aid" "length money < 2 ^ 16"
    and "BankService_Deposit B (asked B aid [] money) w = (Inr (code, acc), w')"
    and "(err, msg) = reply deposit_msgs code" and "err = 0 \<Longrightarrow> 19 \<le> length (acc_op_date acc)"
  shows "\<exists>bs'. serve_packet B bs data (length (aid @ enc_string money) + 12) w =
    (Inr (answer 3 0 0 err msg (if err = 0 then account_data B acc else []), bs'), w') \<and> ready bs'"
proof (rule served [OF assms(1-3)])
  show "TransactionManager_actions 3 = Some Deposit" by (simp add: TransactionManager_actions_def)
  show "Execute Deposit B s w = lift (write_answer s err msg (if err = 0 then account_body B acc else Inr)) w'"
    if "parsed s 3 (aid @ enc_string money)" for s
    using Deposit_calls [OF that assms(4,5), of B] assms(6) by (simp add: prog_simps flip: assms(7))
  show "writes (if err = 0 then account_body B acc else Inr) (if err = 0 then account_data B acc else [])"
    using assms(8) by (rule writes_if_account)
qed (rule length_if_account)

theorem Deposit_served_witness:
  "\<exists>bs' acc. serve_packet (demo_bank []) (BankSession_new (replicate 2048 0)) (request 3 (lit ''000003'' @ enc_string (lit ''40'')))
     (length (lit ''000003'' @ enc_string (lit ''40'')) + 12) 0 =
       (Inr (answer 3 0 0 0 [] (account_data (demo_bank []) acc), bs'), 6) \<and>
     acc_balance acc = 130 \<and> acc_name acc = lit ''ann''"
proof -
  let ?acc = "(asked (demo_bank []) (lit ''000003'') [] (lit ''40''))\<lparr>acc_name := lit ''ann'',
     acc_op_date := lit ''2013-01-01 10:00:00'', acc_balance := 130\<rparr>"
  have "BankService_Deposit (demo_bank []) (asked (demo_bank []) (lit ''000003'') [] (lit ''40'')) 0
      = (Inr (0, ?acc), 6)"
    by (simp add: BankService_Deposit_def Deposit_body_def bank_run digits_90 digits_40 asked_def Account_new_def)
  then have "\<exists>bs'. serve_packet (demo_bank []) (BankSession_new (replicate 2048 0))
      (request 3 (lit ''000003'' @ enc_string (lit ''40''))) (length (lit ''000003'' @ enc_string (lit ''40'')) + 12) 0 =
      (Inr (answer 3 0 0 0 [] (if (0 :: 16 word) = 0 then account_data (demo_bank []) ?acc else []), bs'), 6) \<and> ready bs'"
    by (intro Deposit_served [where later = "[]" and code = 0])
      (simp_all add: ready_new enc_string_short reply_def deposit_msgs_def account_id_text_def lit_nul)
  then obtain bs' where "serve_packet (demo_bank []) (BankSession_new (replicate 2048 0))
      (request 3 (lit ''000003'' @ enc_string (lit ''40''))) (length (lit ''000003'' @ enc_string (lit ''40'')) + 12) 0 =
      (Inr (answer 3 0 0 0 [] (account_data (demo_bank []) ?acc), bs'), 6)"
    by auto
  then show ?thesis by (intro exI [of _ bs'] exI [of _ ?acc]) simp
qed

text \<open>
  A transfer from the bytes on the wire to the bytes sent back: the operation gets the account,
  the deciphered password, the amount and the other account of the packet, and the client one
  sealed answer with the new balance or with the code and text of the refusal.
\<close>

theorem Transfer_served:
  assumes "ready bs" and "data = request 5 (aid @ cipher @ enc_string money @ other) @ later"
    and "length (aid @ cipher @ enc_string money @ other) + 12 \<le> 2048"
    and "account_id_text aid" "enciphered 5 pass cipher" "length money < 2 ^ 16" "account_id_text other"
    and "BankService_Transfer B (asked B aid pass money) other w = (Inr (code, acc), w')"
    and "(err, msg) = reply transfer_msgs code" and "err = 0 \<Longrightarrow> 19 \<le> length (acc_op_date acc)"
  shows "\<exists>bs'. serve_packet B bs data (length (aid @ cipher @ enc_string money @ other) + 12) w =
    (Inr (answer 5 0 0 err msg (if err = 0 then account_data B acc else []), bs'), w') \<and> ready bs'"
proof (rule served [OF assms(1-3)])
  show "TransactionManager_actions 5 = Some Transfer" by (simp add: TransactionManager_actions_def)
  show "Execute Transfer B s w = lift (write_answer s err msg (if err = 0 then account_body B acc else Inr)) w'"
    if "parsed s 5 (aid @ cipher @ enc_string money @ other)" for s
    using Transfer_calls [OF that assms(4-7), of B] assms(8) by (simp add: prog_simps flip: assms(9))
  show "writes (if err = 0 then account_body B acc else Inr) (if err = 0 then account_data B acc else [])"
    using assms(10) by (rule writes_if_account)
qed (rule length_if_account)

theorem Transfer_served_witness:
  "\<exists>cipher bs'. enciphered 5 (lit ''pw'') cipher \<and>
     serve_packet (demo_bank []) (BankSession_new (replicate 2048 0)) (request 5 (lit ''000003'' @ cipher @ enc_string (lit ''91'') @ lit ''000012''))
       (length (lit ''000003'' @ cipher @ enc_string (lit ''91'') @ lit ''000012'') + 12) 0 =
       (Inr (answer 5 0 0 4 poor [], bs'), 3)"
proof -
  obtain cipher where c: "enciphered 5 (lit ''pw'') cipher" "length cipher = 16"
    using enciphered_ex [of "lit ''pw''" 5] by (auto simp: lit_def)
  let ?acc = "asked (demo_bank []) (lit ''000003'') (lit ''pw'') (lit ''91'')"
  have "BankService_Transfer (demo_bank []) ?acc (lit ''000012'') 0 = (Inr (4, ?acc), 3)"
    by (simp add: BankService_Transfer_def Transfer_body_def bank_run digits_90 digits_91 asked_def Account_new_def)
  then have "\<exists>bs'. serve_packet (demo_bank []) (BankSession_new (replicate 2048 0))
      (request 5 (lit ''000003'' @ cipher @ enc_string (lit ''91'') @ lit ''000012''))
      (length (lit ''000003'' @ cipher @ enc_string (lit ''91'') @ lit ''000012'') + 12) 0 =
      (Inr (answer 5 0 0 4 poor (if (4 :: 16 word) = 0 then account_data (demo_bank []) ?acc else []), bs'), 3) \<and> ready bs'"
    using c by (intro Transfer_served [where later = "[]" and code = 4 and pass = "lit ''pw''"])
      (simp_all add: ready_new enc_string_short reply_def transfer_msgs_def account_id_text_def lit_nul)
  then show ?thesis using c by auto
qed



end
