(* ===== verification/Reports.thy ===== *)
theory Reports imports Answers begin

text \<open>
  The reports: one packet for each row of a bill, numbered and counted in the head.
  \<open>QueryDayBill\<close> builds each packet in a stream of its own; the result is a sequence of sealed
  answers.  The two history reports write into one stream, so that length and hash of every packet
  after the first count all packets before it.
\<close>

subsection \<open>One row\<close>

definition detail_data :: "('d, 'w) bank \<Rightarrow> 'd trans_detail \<Rightarrow> bytes" where
  "detail_data B td = take 19 (td_trans_date td) @ take 6 (td_account_id td) @ take 6 (td_other_account_id td) @
     enc_string (DoubleToString (b_arith B) (td_money td)) @ enc_string (td_abstract_name td) @
     enc_string (DoubleToString (b_arith B) (td_balance td)) @ enc32 (td_total td)"

text \<open>The columns are long enough for what is copied from them.\<close>

definition full_row :: "'d trans_detail \<Rightarrow> bool" where
  "full_row td \<longleftrightarrow> 19 \<le> length (td_trans_date td) \<and> 6 \<le> length (td_account_id td) \<and>
     6 \<le> length (td_other_account_id td)"

lemma writes_uint32: "writes (\<lambda>jos. JOut_uint32 jos x) (enc32 x)"
  by (simp add: JOut_ints writes_append)

lemma writes_chars_then:
  assumes "n \<le> length s" and "writes q b"
  shows "writes (\<lambda>jos. bind_res (c_str_read s n) (\<lambda>c. bind_res (JOut_WriteBytes jos c) q)) (take n s @ b)"
proof -
  have "c_str_read s n = Inr (take n s)" using assms(1) by (simp add: c_str_read_def mem_read_def)
  then show ?thesis
    using writes_seq [OF writes_append assms(2), of "take n s"] by (simp add: JOut_ints)
qed

lemma writes_detail: "full_row td \<Longrightarrow> writes (detail_body B td) (detail_data B td)"
  unfolding detail_body_def [abs_def] detail_data_def full_row_def
  by (intro writes_chars_then writes_seq writes_string writes_uint32; simp)

lemma length_detail_data: "length (detail_data B td) + 40 < 2 ^ 20"
  using length_enc_string [of "DoubleToString (b_arith B) (td_money td)"]
    length_enc_string [of "DoubleToString (b_arith B) (td_balance td)"]
    length_enc_string [of "td_abstract_name td"]
  by (simp add: detail_data_def)

text \<open>A packet behind what the stream holds already: its length and hash include that.\<close>

lemma detail_packet_correct:
  assumes "out_inv jos" and "full_row td" and "length (out_msg jos) < 2 ^ 31"
  shows "\<exists>jos'. detail_packet B cmd cnt seq td jos = Inr jos' \<and> out_inv jos' \<and> out_msg jos' =
    seal cmd (out_msg jos @ answer_head cmd (of_nat (length (out_msg jos) + length (detail_data B td) + 8)) cnt seq 0 [] @
      detail_data B td)"
proof -
  obtain j1 pos where h: "resp_head jos cmd cnt seq 0 [] = Inr (j1, pos)" "out_inv j1"
    using resp_head_correct [OF assms(1)] by blast
  obtain j2 where b: "detail_body B td j1 = Inr j2" "out_inv j2" "out_msg j2 = out_msg j1 @ detail_data B td"
    using writesE [OF writes_detail [OF assms(2)] h(2)] .
  have "length (out_msg jos) + length (detail_data B td) + 40 < 2 ^ 32"
    using assms(3) length_detail_data [of B td] by simp
  then show ?thesis
    using answer_correct [OF assms(1) h(1) b(2,3)] h(1) b(1) by (auto simp: detail_packet_def)
qed

definition detail_answer ::
  "('d, 'w) bank \<Rightarrow> 16 word \<Rightarrow> 16 word \<Rightarrow> 16 word \<Rightarrow> 'd trans_detail \<Rightarrow> bytes" where
  "detail_answer B cmd cnt seq td = answer cmd cnt seq 0 [] (detail_data B td)"

fun report :: "('d, 'w) bank \<Rightarrow> 16 word \<Rightarrow> 16 word \<Rightarrow> 16 word \<Rightarrow> 'd trans_detail list \<Rightarrow> bytes" where
  "report B cmd cnt seq [] = []"
| "report B cmd cnt seq (td # tds) = detail_answer B cmd cnt seq td @ report B cmd cnt (seq + 1) tds"

lemma writes_day_packets:
  "\<forall>td \<in> set tds. full_row td \<Longrightarrow> writes (day_packets B cmd cnt seq tds) (report B cmd cnt seq tds)"
proof (induction tds arbitrary: seq)
  case Nil
  then show ?case by (simp add: writes_def)
next
  case (Cons td tds)
  obtain jt where jt: "detail_packet B cmd cnt seq td JOut_new = Inr jt" "out_inv jt"
      "out_msg jt = detail_answer B cmd cnt seq td"
    using detail_packet_correct [of JOut_new td B cmd cnt seq] Cons.prems
    by (auto simp: detail_answer_def answer_def)
  have "writes (day_packets B cmd cnt (seq + 1) tds) (report B cmd cnt (seq + 1) tds)"
    using Cons by simp
  from writes_seq [OF writes_append this, of "out_msg jt"] show ?case
    using jt JOut_Data_correct [OF jt(2)] by (simp add: JOut_ints)
qed

subsection \<open>Properties\<close>

text \<open>
  The packets of a day's bill are well formed one by one: the stream gets, behind what it held,
  one sealed answer for each row, in order, numbered from the given sequence number, each with its
  own length and hash.
\<close>

theorem day_packets_report:
  assumes "out_inv jos" and "\<forall>td \<in> set tds. full_row td"
  shows "\<exists>jos'. day_packets B cmd cnt seq tds jos = Inr jos' \<and> out_inv jos' \<and>
    out_msg jos' = out_msg jos @ report B cmd cnt seq tds"
  using writes_day_packets [OF assms(2)] assms(1) unfolding writes_def by blast

definition demo_row :: "int trans_detail" where
  "demo_row = \<lparr>td_trans_id = [], td_account_id = lit ''000003'', td_other_account_id = lit ''000012'',
     td_abstract_name = lit ''out'', td_money = 40, td_balance = 50,
     td_trans_date = lit ''2013-01-01 10:00:00'', td_total = 2\<rparr>"

lemma full_demo_row: "full_row demo_row"
  by (simp add: full_row_def demo_row_def)

theorem day_packets_report_witness:
  "\<exists>jos'. day_packets (demo_bank []) 8 2 0 [demo_row, demo_row] JOut_new = Inr jos' \<and>
    out_msg jos' = detail_answer (demo_bank []) 8 2 0 demo_row @ detail_answer (demo_bank []) 8 2 1 demo_row"
  using day_packets_report [of JOut_new "[demo_row, demo_row]" "demo_bank []" 8 2 0] full_demo_row
  by (auto simp del: day_packets.simps)

text \<open>
  A history report of two rows is not two well-formed packets: the length field of the second
  counts the first packet too, and its hash is taken over both, so that a client that reads packet
  by packet waits for bytes that are not sent.
\<close>

theorem history_second_packet:
  assumes "out_inv jos" and "out_msg jos = []" "full_row td1" "full_row td2"
    and "p1 = detail_answer B cmd cnt seq td1" and "body = detail_data B td2"
    and "p2 = answer_head cmd (of_nat (length p1 + length body + 8)) cnt (seq + 1) 0 [] @ body"
  shows "\<exists>jos'. history_packets B cmd cnt seq [td1, td2] jos = Inr jos' \<and>
    out_msg jos' = p1 @ p2 @ fold_hash cmd (rfc_md5 (p1 @ p2))"
proof -
  obtain j1 where j1: "detail_packet B cmd cnt seq td1 jos = Inr j1" "out_inv j1" "out_msg j1 = p1"
    using detail_packet_correct [OF assms(1,3), of B cmd cnt seq] assms(2,5)
    by (auto simp: detail_answer_def answer_def)
  have "length p1 < 2 ^ 31"
    using length_detail_data [of B td1]
    by (simp add: assms(5) detail_answer_def answer_def seal_def answer_head_def min_def)
  then obtain j2 where "detail_packet B cmd cnt (seq + 1) td2 j1 = Inr j2" "out_msg j2 = seal cmd (p1 @ p2)"
    using detail_packet_correct [OF j1(2) assms(4), of B cmd cnt "seq + 1"] j1(3) assms(6,7) by auto
  then show ?thesis using j1(1) by (simp add: seal_def)
qed

theorem history_second_packet_witness:
  "\<exists>jos' p1 p2. history_packets (demo_bank []) 9 2 0 [demo_row, demo_row] JOut_new = Inr jos' \<and>
    p1 = detail_answer (demo_bank []) 9 2 0 demo_row \<and> out_msg jos' = p1 @ p2 \<and>
    take 4 p2 = enc16 9 @ enc16 (of_nat (length p1 + length (detail_data (demo_bank []) demo_row) + 8))"
proof -
  let ?p1 = "detail_answer (demo_bank []) 9 2 0 demo_row" and ?b = "detail_data (demo_bank []) demo_row"
  let ?p2 = "answer_head 9 (of_nat (length ?p1 + length ?b + 8)) 2 1 0 [] @ ?b"
  obtain jos' where "history_packets (demo_bank []) 9 2 0 [demo_row, demo_row] JOut_new = Inr jos'"
      "out_msg jos' = ?p1 @ ?p2 @ fold_hash 9 (rfc_md5 (?p1 @ ?p2))"
    using history_second_packet [of JOut_new demo_row demo_row ?p1 "demo_bank []" 9 2 0 ?b ?p2] full_demo_row by auto
  then show ?thesis by (auto simp: answer_head_def enc16_def mem16_def)
qed

end
