(* ===== verification/ClientSession.thy ===== *)
theory ClientSession imports Reports begin

text \<open>
  The teller's client, \<open>ABCBank/BankClient\<close>: its socket (\<open>Public/Socket.cpp\<close>), its session
  (\<open>BankSession.cpp\<close>) with the buffer one answer is received in, and the check of an answer against the
  hash in its last eight bytes.  The client has its own copies of the streams and ciphers of the server,
  which differ from these in nothing but namespaces.

  A program of the client is a function of the session and the outside world that may not return
  (\<open>None\<close>): a blocking \<open>recv\<close> waits as long as nothing comes.  An exception leaves the session as it was
  when it was thrown.  The locale \<open>link\<close> states what the client relies on of a connected socket; the server's
  end of the wire is its interpretation (theory \<open>ClientWire\<close>).
\<close>

subsection \<open>Programs that may not return\<close>

type_synonym ('s, 'a) cprog = "'s \<Rightarrow> ('a res \<times> 's) option"

definition c_ret :: "'a \<Rightarrow> ('s, 'a) cprog" where
  "c_ret x = (\<lambda>s. Some (Inr x, s))"

definition c_lift :: "'a res \<Rightarrow> ('s, 'a) cprog" where
  "c_lift r = (\<lambda>s. Some (r, s))"

definition c_read :: "('s \<Rightarrow> 'a res) \<Rightarrow> ('s, 'a) cprog" where
  "c_read f = (\<lambda>s. Some (f s, s))"

definition c_set :: "('s \<Rightarrow> 's) \<Rightarrow> ('s, unit) cprog" where
  "c_set f = (\<lambda>s. Some (Inr (), f s))"

definition c_then :: "('s, 'a) cprog \<Rightarrow> ('a \<Rightarrow> ('s, 'b) cprog) \<Rightarrow> ('s, 'b) cprog" where
  "c_then m f = (\<lambda>s. case m s of None \<Rightarrow> None
     | Some (r, s') \<Rightarrow> (case r of Inl e \<Rightarrow> Some (Inl e, s') | Inr x \<Rightarrow> f x s'))"

named_theorems c_simps

lemma c_prog_simps [c_simps]:
  "c_ret x s = Some (Inr x, s)" "c_lift r s = Some (r, s)" "c_read g s = Some (g s, s)"
  "c_set h s = Some (Inr (), h s)"
  by (simp_all add: c_ret_def c_lift_def c_read_def c_set_def)

lemma c_then_simps [c_simps]:
  "m s = Some (Inr x, s') \<Longrightarrow> c_then m f s = f x s'"
  "m s = Some (Inl e, s') \<Longrightarrow> c_then m f s = Some (Inl e, s')"
  "m s = None \<Longrightarrow> c_then m f s = None"
  by (simp_all add: c_then_def)

subsection \<open>The outside world\<close>

text \<open>
  What the socket calls do: \<open>send\<close> takes some bytes or fails, \<open>recv\<close> delivers bytes (none: the peer has
  closed), fails, or does not return.  The other fields are values the program reads but did not set:
  what a string's own array of 16 characters holds behind its NUL (\<open>str_mem\<close>), the last character of
  \<open>error_msg\<close>, and the uninitialised \<open>double\<close> and \<open>uint32\<close> variables.
\<close>

datatype recv_answer = Received bytes | RecvError | Blocks

record ('d, 'w) client =
  cl_connect :: "'w \<Rightarrow> bool \<times> 'w"
  cl_send :: "bytes \<Rightarrow> 'w \<Rightarrow> nat option \<times> 'w"
  cl_recv :: "nat \<Rightarrow> 'w \<Rightarrow> recv_answer \<times> 'w"
  cl_close :: "'w \<Rightarrow> 'w"
  cl_arith :: "'d arith"
  cl_behind :: "bytes \<Rightarrow> bytes"
  cl_msg_end :: byte
  cl_dbl :: 'd
  cl_u32 :: "32 word"
  cl_u16 :: "16 word"

text \<open>\<open>Socket::SendN\<close>.  A \<open>send\<close> that takes nothing is repeated.\<close>

partial_function (option) SendN ::
  "('d, 'w) client \<Rightarrow> nat \<Rightarrow> bytes \<Rightarrow> 'w \<Rightarrow> (int \<times> 'w) option" where
  "SendN C len d w =
     (if d = [] then Some (int len, w)
      else case cl_send C d w of
        (None, w') \<Rightarrow> Some (- 1, w')
      | (Some k, w') \<Rightarrow> SendN C len (drop k d) w')"

text \<open>
  \<open>Socket::RecvN\<close> into \<open>buf\<close> at offset \<open>p\<close>: \<open>-1\<close> on an error, 0 when the peer has closed, whatever was
  read before; otherwise the length.
\<close>

function RecvN ::
  "('d, 'w) client \<Rightarrow> nat \<Rightarrow> bytes \<Rightarrow> nat \<Rightarrow> nat \<Rightarrow> 'w \<Rightarrow> ((int \<times> bytes) res \<times> 'w) option" where
  "RecvN C len buf p nLeft w =
     (if nLeft = 0 then Some (Inr (int len, buf), w)
      else case cl_recv C nLeft w of
        (RecvError, w') \<Rightarrow> Some (Inr (- 1, buf), w')
      | (Blocks, w') \<Rightarrow> None
      | (Received data, w') \<Rightarrow>
          if data = [] then Some (Inr (0, buf), w')
          else case mem_write buf p data of
              Inl e \<Rightarrow> Some (Inl e, w')
            | Inr buf' \<Rightarrow> RecvN C len buf' (p + length data) (nLeft - length data) w')"
  by pat_completeness auto
termination
  by (relation "measure (\<lambda>(C, len, buf, p, nLeft, w). nLeft)") auto

declare RecvN.simps [simp del]

subsection \<open>The session\<close>

record 'd client_session =
  cs_buffer :: bytes
  cs_cmd :: "16 word"
  cs_request :: "bytes \<rightharpoonup> bytes"
  cs_response :: "bytes \<rightharpoonup> bytes"
  cs_details :: "'d trans_detail list"
  cs_errorCode :: "16 word"
  cs_errorMsg :: bytes

type_synonym ('d, 'w) client_state = "'d client_session \<times> 'w"

definition no_connection :: bytes where
  "no_connection = [0xc1, 0xac, 0xbd, 0xd3, 0xca, 0xa7, 0xb0, 0xdc]"

definition server_gone :: bytes where
  "server_gone = [0xb7, 0xfe, 0xce, 0xf1, 0xc6, 0xf7, 0xb6, 0xcb, 0xb6, 0xcf, 0xbf, 0xaa]"

definition recv_failed :: bytes where
  "recv_failed = [0xbd, 0xd3, 0xca, 0xd5, 0xca, 0xfd, 0xbe, 0xdd, 0xb0, 0xfc, 0xb3, 0xf6, 0xb4, 0xed]"

text \<open>\<open>BankSession::BankSession\<close>; \<open>mem\<close> is what the memory of \<open>buffer_[2048]\<close> held.\<close>

definition BankSession_open :: "('d, 'w) client \<Rightarrow> bytes \<Rightarrow> 'w \<Rightarrow> 'd client_session res \<times> 'w" where
  "BankSession_open C mem w =
     (case cl_connect C w of (ok, w') \<Rightarrow>
        (if ok then Inr \<lparr>cs_buffer = take 2048 mem, cs_cmd = cl_u16 C, cs_request = Map.empty,
                         cs_response = Map.empty, cs_details = [], cs_errorCode = 0, cs_errorMsg = []\<rparr>
         else Inl (Throw no_connection), w'))"

definition Send_pack :: "('d, 'w) client \<Rightarrow> bytes \<Rightarrow> (('d, 'w) client_state, unit) cprog" where
  "Send_pack C buf = (\<lambda>(s, w). case SendN C (length buf) buf w of
     None \<Rightarrow> None | Some (_, w') \<Rightarrow> Some (Inr (), (s, w')))"

text \<open>\<open>RecvN\<close> into the session's buffer; the result is \<open>ret\<close> of the source.\<close>

definition recv_into :: "('d, 'w) client \<Rightarrow> nat \<Rightarrow> nat \<Rightarrow> (('d, 'w) client_state, int) cprog" where
  "recv_into C p n = (\<lambda>(s, w). case RecvN C n (cs_buffer s) p n w of
     None \<Rightarrow> None
   | Some (Inl e, w') \<Rightarrow> Some (Inl e, (s, w'))
   | Some (Inr (got, buf), w') \<Rightarrow> Some (Inr got, (s\<lparr>cs_buffer := buf\<rparr>, w')))"

text \<open>
  The two guards behind each \<open>RecvN\<close>.  \<open>sizeof(ResponseHead)+len-8\<close> does not wrap around: \<open>len\<close> is
  positive when the hash is computed.
\<close>

definition check_received :: "int \<Rightarrow> nat \<Rightarrow> unit res" where
  "check_received got n =
     (if got = 0 then Inl (Throw server_gone) else if got \<noteq> int n then Inl (Throw recv_failed) else Inr ())"

definition check_hash :: "bytes \<Rightarrow> 16 word \<Rightarrow> 16 word \<Rightarrow> unit res" where
  "check_hash buf cmd len =
     bind_res (MD5Make md5_stack buf (of_nat (sizeof_ResponseHead + unat len - 8))) (\<lambda>hash.
     bind_res (mem_read buf (sizeof_ResponseHead + unat len - 8) 8) (\<lambda>tail.
     if fold_hash cmd hash \<noteq> tail then Inl (Throw bad_packet) else Inr ()))"

definition Recv :: "('d, 'w) client \<Rightarrow> (('d, 'w) client_state, unit) cprog" where
  "Recv C =
     c_then (recv_into C 0 sizeof_ResponseHead) (\<lambda>got.
     c_then (c_lift (check_received got sizeof_ResponseHead)) (\<lambda>_.
     c_then (c_read (\<lambda>(s, w). Inr (networkToHost16 (load16 (cs_buffer s)),
                                   networkToHost16 (load16 (drop 2 (cs_buffer s)))))) (\<lambda>(cmd, len).
     if len = 0 then c_ret ()
     else
       c_then (recv_into C sizeof_ResponseHead (unat len)) (\<lambda>got.
       c_then (c_lift (check_received got (unat len))) (\<lambda>_.
       c_then (c_read (\<lambda>(s, w). check_hash (cs_buffer s) cmd len)) (\<lambda>_.
       c_then (c_read (\<lambda>(s, w). mem_write (cs_buffer s) 0 (mem16 cmd @ mem16 len))) (\<lambda>buf.
       c_set (\<lambda>(s, w). (s\<lparr>cs_buffer := buf\<rparr>, w)))))))))"

definition Session_Clear :: "'d client_session \<Rightarrow> 'd client_session" where
  "Session_Clear s = s\<lparr>cs_request := Map.empty, cs_response := Map.empty, cs_errorCode := 0\<rparr>"

definition SetResponse :: "bytes \<Rightarrow> bytes \<Rightarrow> (('d, 'w) client_state, unit) cprog" where
  "SetResponse k v = c_set (\<lambda>(s, w). (s\<lparr>cs_response := (cs_response s)(k \<mapsto> v)\<rparr>, w))"

definition SetAttribute :: "bytes \<Rightarrow> bytes \<Rightarrow> 'd client_session \<Rightarrow> 'd client_session" where
  "SetAttribute k v s = s\<lparr>cs_request := (cs_request s)(k \<mapsto> v)\<rparr>"

text \<open>\<open>map::operator[]\<close> inserts an empty string for a key it does not find.\<close>

definition GetAttribute :: "bytes \<Rightarrow> (('d, 'w) client_state, bytes) cprog" where
  "GetAttribute k = (\<lambda>(s, w). case cs_request s k of
     Some v \<Rightarrow> Some (Inr v, (s, w))
   | None \<Rightarrow> Some (Inr [], (SetAttribute k [] s, w)))"

definition GetResponse :: "bytes \<Rightarrow> (('d, 'w) client_state, bytes) cprog" where
  "GetResponse k = (\<lambda>(s, w). case cs_response s k of
     Some v \<Rightarrow> Some (Inr v, (s, w))
   | None \<Rightarrow> Some (Inr [], (s\<lparr>cs_response := (cs_response s)(k \<mapsto> [])\<rparr>, w)))"

definition SetErrorCode :: "16 word \<Rightarrow> (('d, 'w) client_state, unit) cprog" where
  "SetErrorCode c = c_set (\<lambda>(s, w). (s\<lparr>cs_errorCode := c\<rparr>, w))"

definition SetErrorMsg :: "bytes \<Rightarrow> (('d, 'w) client_state, unit) cprog" where
  "SetErrorMsg m = c_set (\<lambda>(s, w). (s\<lparr>cs_errorMsg := m\<rparr>, w))"

definition AddDetail :: "'d trans_detail \<Rightarrow> (('d, 'w) client_state, unit) cprog" where
  "AddDetail td = c_set (\<lambda>(s, w). (s\<lparr>cs_details := cs_details s @ [td]\<rparr>, w))"

subsection \<open>What is accepted\<close>

lemma mem_write_front: "mem_write m i xs = Inr m' \<Longrightarrow> take i m' = take i m"
  by (auto simp: mem_write_def split: if_splits)

lemma RecvN_frame:
  "RecvN C len buf p n w = Some (Inr (got, buf'), w') \<Longrightarrow> length buf' = length buf \<and> take p buf' = take p buf"
proof (induction C len buf p n w rule: RecvN.induct)
  case (1 C len buf p n w)
  have "buf' = buf \<or> (\<exists>data w1 b. n \<noteq> 0 \<and> cl_recv C n w = (Received data, w1) \<and> data \<noteq> [] \<and>
      mem_write buf p data = Inr b \<and>
      RecvN C len b (p + length data) (n - length data) w1 = Some (Inr (got, buf'), w'))"
    using 1(2) by (subst (asm) RecvN.simps) (auto split: if_splits prod.splits recv_answer.splits sum.splits)
  then show ?case
  proof (elim disjE exE conjE)
    fix data w1 b
    assume d: "n \<noteq> 0" "cl_recv C n w = (Received data, w1)" "data \<noteq> []" "mem_write buf p data = Inr b"
      "RecvN C len b (p + length data) (n - length data) w1 = Some (Inr (got, buf'), w')"
    have k: "length buf' = length b \<and> take (p + length data) buf' = take (p + length data) b"
      using 1(1) [OF d(1) d(2) [symmetric] refl d(3,4,5)] .
    then have "take p buf' = take p b" by (metis le_add1 min.absorb1 take_take)
    then show ?thesis using k mem_write_length [OF d(4)] mem_write_front [OF d(4)] by simp
  qed simp
qed

lemma check_hash_seal:
  assumes "length buf = 2048" and "check_hash buf cmd len = Inr ()"
  shows "unat len \<le> 2008 \<and> take (40 + unat len) buf = seal cmd (take (32 + unat len) buf)"
proof -
  let ?n = "40 + unat len"
  have l: "unat len < 65536" by (rule u16_less)
  have u: "unat (of_nat (?n - 8) :: u32) = ?n - 8" using l by (simp add: unat_of_nat del: of_nat_add of_nat_diff)
  obtain hash where h: "MD5Make md5_stack buf (of_nat (?n - 8)) = Inr hash"
      and t: "mem_read buf (?n - 8) 8 = Inr (fold_hash cmd hash)"
    using assms(2) by (auto simp: check_hash_def sizeof_ResponseHead_def bind_res_Inr Let_def split: if_splits)
  have n: "?n - 8 + 8 \<le> 2048" using t assms(1) by (simp add: mem_read_def split: if_splits)
  then have "hash = rfc_md5 (take (?n - 8) buf)"
    using h u assms(1) by (simp add: MD5Make_stack)
  moreover have "take ?n buf = take (?n - 8) buf @ take 8 (drop (?n - 8) buf)"
    by (simp flip: take_add)
  ultimately show ?thesis
    using t n assms(1) by (simp add: mem_read_def seal_def split: if_splits)
qed

lemma c_thenE:
  assumes "c_then m f s = Some (Inr y, s'')"
  obtains x s' where "m s = Some (Inr x, s')" "f x s' = Some (Inr y, s'')"
  using assms by (auto simp: c_then_def split: option.splits prod.splits sum.splits)

lemma client_mem16: "2 \<le> length b \<Longrightarrow> enc16 (networkToHost16 (load16 b)) = take 2 b"
proof -
  assume "2 \<le> length b"
  then obtain x y r where b: "b = x # y # r" by (auto simp: Suc_le_length_iff eval_nat_numeral)
  have "mem16 (load16 b) = [x, y]"
    unfolding b mem16_def by (simp, intro conjI; rule byte_eqI) (simp_all add: bit_enum)
  then show ?thesis by (simp add: enc16_def mem16_byteorder b)
qed

lemma networkToHost16_0: "hostToNetwork16 0 = 0"
  by (simp add: hostToNetwork16_def)

lemma recv_into_Inr:
  assumes "recv_into C p n (s, w) = Some (Inr got, t)"
  obtains buf w' where "t = (s\<lparr>cs_buffer := buf\<rparr>, w')" "length buf = length (cs_buffer s)"
    "take p buf = take p (cs_buffer s)"
  using assms by (auto simp: recv_into_def dest: RecvN_frame split: option.splits prod.splits sum.splits)

lemma load16_take: "load16 (take 4 b) = load16 b" "load16 (drop 2 (take 4 b)) = load16 (drop 2 b)"
proof -
  show "load16 (take 4 b) = load16 b" by (cases b rule: load16.cases) simp_all
  have "load16 (take 2 x) = load16 x" for x by (cases x rule: load16.cases) simp_all
  then show "load16 (drop 2 (take 4 b)) = load16 (drop 2 b)" by (simp add: drop_take)
qed

lemma load16_front: "take 4 b = take 4 b' \<Longrightarrow> load16 b = load16 b' \<and> load16 (drop 2 b) = load16 (drop 2 b')"
  by (metis load16_take)

text \<open>The two head fields put back into network order.\<close>

lemma head_restored:
  assumes "4 \<le> length b" "c = networkToHost16 (load16 b)" "l = networkToHost16 (load16 (drop 2 b))"
  shows "enc16 c @ enc16 l @ take n (drop 4 b) = take (4 + n) b"
proof -
  have "enc16 c = take 2 b" "enc16 l = take 2 (drop 2 b)"
    using assms by (simp_all add: client_mem16)
  moreover have "take (2 + (2 + n)) b = take 2 b @ take 2 (drop 2 b) @ take n (drop 2 (drop 2 b))"
    by (simp only: take_add)
  moreover have "2 + (2 + n) = 4 + n" "drop 2 (drop 2 b) = drop 4 b" by simp_all
  ultimately show ?thesis by (simp only:)
qed

text \<open>
  C21: the client accepts nothing that is not sealed: whatever the network delivers, if Recv returns, the
  packet is empty or it lies within the buffer and its bytes, with the two head fields put back into
  network order, are a message followed by the folded digest of this message.
\<close>

theorem client_accepts_sealed:
  assumes "Recv C (s, w) = Some (Inr (), (s', w'))" and "length (cs_buffer s) = 2048"
    and "cmd = load16 (cs_buffer s')" and "len = load16 (drop 2 (cs_buffer s'))"
  shows "len = 0 \<or> unat len \<le> 2008 \<and>
    (\<exists>front. enc16 cmd @ enc16 len @ take (36 + unat len) (drop 4 (cs_buffer s')) = seal cmd front)"
proof -
  obtain got t where r1: "recv_into C 0 sizeof_ResponseHead (s, w) = Some (Inr got, t)"
    and rest: "c_then (c_lift (check_received got sizeof_ResponseHead)) (\<lambda>_.
     c_then (c_read (\<lambda>(s, w). Inr (networkToHost16 (load16 (cs_buffer s)),
                                   networkToHost16 (load16 (drop 2 (cs_buffer s)))))) (\<lambda>(cmd, len).
     if len = 0 then c_ret ()
     else
       c_then (recv_into C sizeof_ResponseHead (unat len)) (\<lambda>got.
       c_then (c_lift (check_received got (unat len))) (\<lambda>_.
       c_then (c_read (\<lambda>(s, w). check_hash (cs_buffer s) cmd len)) (\<lambda>_.
       c_then (c_read (\<lambda>(s, w). mem_write (cs_buffer s) 0 (mem16 cmd @ mem16 len))) (\<lambda>buf.
       c_set (\<lambda>(s, w). (s\<lparr>cs_buffer := buf\<rparr>, w)))))))) t = Some (Inr (), (s', w'))"
    using assms(1) unfolding Recv_def by (rule c_thenE)
  obtain b1 w1 where t: "t = (s\<lparr>cs_buffer := b1\<rparr>, w1)" "length b1 = 2048"
    using recv_into_Inr [OF r1] assms(2) by metis
  define c where "c = networkToHost16 (load16 b1)"
  define l where "l = networkToHost16 (load16 (drop 2 b1))"
  show ?thesis
  proof (cases "l = 0")
    case True
    then have "s' = s\<lparr>cs_buffer := b1\<rparr>"
      using rest t by (auto simp: c_then_def c_simps check_received_def l_def split: if_splits)
    moreover have "load16 (drop 2 b1) = 0" using True by (metis l_def mem16_byteorder networkToHost16_0)
    ultimately show ?thesis using assms(4) by simp
  next
    case False
    obtain got2 t2 buf where r2: "recv_into C sizeof_ResponseHead (unat l) t = Some (Inr got2, t2)"
        "check_hash (cs_buffer (fst t2)) c l = Inr ()"
        "mem_write (cs_buffer (fst t2)) 0 (mem16 c @ mem16 l) = Inr buf" "cs_buffer s' = buf"
      using rest t False
      by (auto simp: c_then_def c_simps check_received_def c_def l_def split: if_splits option.splits prod.splits sum.splits)
    obtain b2 w2 where t2: "t2 = (s\<lparr>cs_buffer := b2\<rparr>, w2)" "length b2 = 2048" "take 40 b2 = take 40 b1"
      using recv_into_Inr [OF r2(1) [unfolded t(1)]] t(2) by (auto simp: sizeof_ResponseHead_def)
    have "take 4 b2 = take 4 b1" using arg_cong [OF t2(3), of "take 4"] by simp
    then have head: "c = networkToHost16 (load16 b2)" "l = networkToHost16 (load16 (drop 2 b2))"
      using load16_front unfolding c_def l_def by metis+
    have seal: "unat l \<le> 2008" "take (40 + unat l) b2 = seal c (take (32 + unat l) b2)"
      using check_hash_seal [OF t2(2), of c l] r2(2) t2(1) by simp_all
    have "buf = mem16 c @ mem16 l @ drop 4 b2" using r2(3) t2 by (simp add: mem_write_ok)
    then have b: "cmd = c" "len = l" "drop 4 (cs_buffer s') = drop 4 b2"
      using assms(3,4) r2(4) by (simp_all add: drop_append_exact)
    have "enc16 c @ enc16 l @ take (36 + unat l) (drop 4 b2) = take (4 + (36 + unat l)) b2"
      using head t2(2) by (intro head_restored) simp_all
    then show ?thesis using seal b by (auto simp: add.assoc [symmetric])
  qed
qed
subsection \<open>Answers of the server\<close>

text \<open>The buffer after a well-formed answer has been received: the head fields are in host order.\<close>

definition received :: "bytes \<Rightarrow> bytes \<Rightarrow> bytes" where
  "received a buf = mem16 (networkToHost16 (load16 a)) @ mem16 (networkToHost16 (load16 (drop 2 a))) @
     drop 4 a @ drop (length a) buf"

lemma length_answer: "length (answer cmd cnt seq err msg body) = 48 + length body"
  using length_msg_array [of msg] by (simp add: answer_def seal_def answer_head_def min_def)

lemma answer_fields:
  "networkToHost16 (load16 (answer cmd cnt seq err msg body)) = cmd"
  "networkToHost16 (load16 (drop 2 (answer cmd cnt seq err msg body))) = of_nat (length body + 8)"
proof -
  have "answer cmd cnt seq err msg body = enc16 cmd @ enc16 (of_nat (length body + 8)) @
      enc16 cnt @ enc16 seq @ enc16 err @ take 30 (msg_array msg) @ body @
      fold_hash cmd (rfc_md5 (answer_head cmd (of_nat (length body + 8)) cnt seq err msg @ body))"
    by (simp add: answer_def seal_def answer_head_def)
  then show "networkToHost16 (load16 (answer cmd cnt seq err msg body)) = cmd"
    "networkToHost16 (load16 (drop 2 (answer cmd cnt seq err msg body))) = of_nat (length body + 8)"
    by (simp_all only: unseal16 drop_append_exact [OF length_enc(1)])
qed

lemma answer_hash:
  assumes "length body + 48 \<le> 2048"
  shows "check_hash (answer cmd cnt seq err msg body @ rest) cmd (of_nat (length body + 8)) = Inr ()"
proof -
  define front where "front = answer_head cmd (of_nat (length body + 8)) cnt seq err msg @ body"
  have lf: "length front = 40 + length body"
    using length_msg_array [of msg] by (simp add: front_def answer_head_def min_def)
  have a: "answer cmd cnt seq err msg body @ rest = front @ fold_hash cmd (rfc_md5 front) @ rest"
    by (simp add: answer_def seal_def front_def)
  have "unat (of_nat (length body + 8) :: 16 word) = length body + 8"
    using assms by (simp add: unat_of_nat del: of_nat_add)
  moreover have "unat (of_nat (40 + length body) :: u32) = 40 + length body"
    using assms by (simp add: unat_of_nat del: of_nat_add)
  ultimately show ?thesis
    using lf unfolding check_hash_def a
    by (simp add: sizeof_ResponseHead_def MD5Make_stack mem_read_def del: of_nat_add)
qed

subsection \<open>The contract of a socket\<close>

text \<open>
  \<open>pending\<close> is what the peer has sent and the client not received, \<open>peer\<close> the state of the peer; \<open>sent d\<close>
  relates the worlds before and after the bytes \<open>d\<close> went out, \<open>up\<close> says that the peer keeps the
  connection open.  A call moves some bytes, as many as it likes; without any, \<open>recv\<close> waits.
\<close>

locale link =
  fixes C :: "('d, 'w) client" and ok :: "'w \<Rightarrow> bool" and pending :: "'w \<Rightarrow> bytes"
    and peer :: "'w \<Rightarrow> 'p" and up :: "'p \<Rightarrow> bool" and sent :: "bytes \<Rightarrow> 'w \<Rightarrow> 'w \<Rightarrow> bool"
  assumes send_some: "ok w \<Longrightarrow> d \<noteq> [] \<Longrightarrow>
      \<exists>k w'. 0 < k \<and> k \<le> length d \<and> cl_send C d w = (Some k, w') \<and> ok w' \<and> sent (take k d) w w'"
    and sent_nil: "ok w \<Longrightarrow> sent [] w w"
    and sent_append: "sent a w w' \<Longrightarrow> sent b w' w'' \<Longrightarrow> sent (a @ b) w w''"
    and recv_some: "ok w \<Longrightarrow> 0 < n \<Longrightarrow> pending w \<noteq> [] \<Longrightarrow>
      \<exists>data w'. cl_recv C n w = (Received data, w') \<and> data \<noteq> [] \<and> length data \<le> n \<and> ok w' \<and>
        pending w = data @ pending w' \<and> peer w' = peer w"
    and recv_none: "ok w \<Longrightarrow> 0 < n \<Longrightarrow> pending w = [] \<Longrightarrow> up (peer w) \<Longrightarrow> \<exists>w'. cl_recv C n w = (Blocks, w')"
begin

lemma SendN_delivers: "ok w \<Longrightarrow> \<exists>w'. SendN C n d w = Some (int n, w') \<and> ok w' \<and> sent d w w'"
proof (induction "length d" arbitrary: d w rule: less_induct)
  case less
  show ?case
  proof (cases "d = []")
    case True
    then show ?thesis using less.prems sent_nil by (subst SendN.simps) auto
  next
    case False
    then obtain k w1 where k: "0 < k" "k \<le> length d" "cl_send C d w = (Some k, w1)" "ok w1" "sent (take k d) w w1"
      using send_some [OF less.prems] by blast
    then have "length (drop k d) < length d" by simp
    then obtain w' where "SendN C n (drop k d) w1 = Some (int n, w')" "ok w'" "sent (drop k d) w1 w'"
      using less.hyps k(4) by blast
    then show ?thesis
      using False k sent_append [OF k(5), of "drop k d" w'] by (subst SendN.simps) auto
  qed
qed

lemma RecvN_delivers:
  assumes "ok w" "n \<le> length (pending w)" "p + n \<le> length buf"
  shows "\<exists>w'. RecvN C len buf p n w = Some (Inr (int len, take p buf @ take n (pending w) @ drop (p + n) buf), w')
    \<and> ok w' \<and> pending w' = drop n (pending w) \<and> peer w' = peer w"
  using assms
proof (induction n arbitrary: buf p w rule: less_induct)
  case (less n)
  show ?case
  proof (cases "n = 0")
    case True
    then show ?thesis using less.prems by (subst RecvN.simps) simp
  next
    case False
    then have "0 < n" "pending w \<noteq> []" using less.prems(2) by auto
    then obtain data w1 where d: "cl_recv C n w = (Received data, w1)" "data \<noteq> []" "length data \<le> n" "ok w1"
        "pending w = data @ pending w1" "peer w1 = peer w"
      using recv_some [OF less.prems(1)] by blast
    let ?buf = "take p buf @ data @ drop (p + length data) buf"
    have "mem_write buf p data = Inr ?buf" using d(3) less.prems(3) by (simp add: mem_write_ok)
    moreover have "n - length data < n" "n - length data \<le> length (pending w1)"
        "p + length data + (n - length data) \<le> length ?buf"
      using d(2,3,5) less.prems(2,3) \<open>0 < n\<close> by (simp_all add: length_greater_0_conv [THEN sym] del: length_greater_0_conv)
    note IH = less.IH [OF this(1) d(4) this(2,3)]
    moreover obtain w' where
        "RecvN C len ?buf (p + length data) (n - length data) w1 = Some (Inr (int len, take (p + length data) ?buf @
           take (n - length data) (pending w1) @ drop (p + length data + (n - length data)) ?buf), w')"
        "ok w'" "pending w' = drop (n - length data) (pending w1)" "peer w' = peer w1"
      using IH by blast
    moreover have "take (p + length data) ?buf = take p buf @ data" using less.prems(3) d(3) by simp
    moreover have "drop (p + length data + (n - length data)) ?buf = drop (p + n) buf"
      using less.prems(3) d(3) by (simp add: add.commute)
    ultimately show ?thesis using False d by (subst RecvN.simps) simp
  qed
qed

lemma RecvN_waits:
  assumes "ok w" "up (peer w)" "length (pending w) < n" "p + length (pending w) \<le> length buf"
  shows "RecvN C len buf p n w = None"
  using assms
proof (induction n arbitrary: buf p w rule: less_induct)
  case (less n)
  show ?case
  proof (cases "pending w = []")
    case True
    then obtain w' where "cl_recv C n w = (Blocks, w')" using recv_none [OF less.prems(1)] less.prems(2,3) by auto
    then show ?thesis using less.prems(3) by (subst RecvN.simps) simp
  next
    case False
    then have "0 < n" "pending w \<noteq> []" using less.prems(3) by auto
    then obtain data w1 where d: "cl_recv C n w = (Received data, w1)" "data \<noteq> []" "length data \<le> n" "ok w1"
        "pending w = data @ pending w1" "peer w1 = peer w"
      using recv_some [OF less.prems(1)] by blast
    let ?buf = "take p buf @ data @ drop (p + length data) buf"
    have "mem_write buf p data = Inr ?buf" using d(5) less.prems(4) by (simp add: mem_write_ok)
    moreover have "RecvN C len ?buf (p + length data) (n - length data) w1 = None"
      using d less.prems by (intro less.IH) auto
    ultimately show ?thesis using d less.prems(3) by (subst RecvN.simps) simp
  qed
qed

lemma recv_into_delivers:
  assumes "ok w" "n \<le> length (pending w)" "p + n \<le> length (cs_buffer s)"
  shows "\<exists>w'. recv_into C p n (s, w) = Some (Inr (int n),
      (s\<lparr>cs_buffer := take p (cs_buffer s) @ take n (pending w) @ drop (p + n) (cs_buffer s)\<rparr>, w'))
    \<and> ok w' \<and> pending w' = drop n (pending w) \<and> peer w' = peer w"
  using RecvN_delivers [OF assms, of n] by (auto simp: recv_into_def)

lemma recv_into_waits:
  "ok w \<Longrightarrow> up (peer w) \<Longrightarrow> length (pending w) < n \<Longrightarrow> p + length (pending w) \<le> length (cs_buffer s) \<Longrightarrow>
     recv_into C p n (s, w) = None"
  by (simp add: recv_into_def RecvN_waits)

lemma Recv_accepts:
  assumes "ok w" and "length (cs_buffer s) = 2048" and "a = answer cmd cnt seq err msg body"
    and "pending w = a @ later" and "length body + 48 \<le> 2048"
  shows "\<exists>w'. Recv C (s, w) = Some (Inr (), (s\<lparr>cs_buffer := received a (cs_buffer s)\<rparr>, w'))
    \<and> ok w' \<and> pending w' = later \<and> peer w' = peer w"
proof -
  define len :: "16 word" where "len = of_nat (length body + 8)"
  note head = answer_fields [of cmd cnt seq err msg body, folded assms(3) len_def]
  have l: "unat len = length body + 8" using assms(5) by (simp add: len_def unat_of_nat del: of_nat_add)
  have la: "length a = 48 + length body" using assms(3) by (simp add: length_answer)
  let ?b1 = "take 40 a @ drop 40 (cs_buffer s)" and ?b2 = "a @ drop (length a) (cs_buffer s)"
  obtain w1 where w1: "recv_into C 0 40 (s, w) = Some (Inr 40, (s\<lparr>cs_buffer := ?b1\<rparr>, w1))"
      "ok w1" "pending w1 = drop 40 a @ later" "peer w1 = peer w"
    using recv_into_delivers [OF assms(1), of 40 0 s] assms(2,4) la by auto
  have "take 4 ?b1 = take 4 a" using la by (simp add: min_def)
  then have h1: "networkToHost16 (load16 ?b1) = cmd" "networkToHost16 (load16 (drop 2 ?b1)) = len"
    using load16_front head by metis+
  obtain w2 where w2: "recv_into C 40 (unat len) (s\<lparr>cs_buffer := ?b1\<rparr>, w1) =
        Some (Inr (int (unat len)), (s\<lparr>cs_buffer := ?b2\<rparr>, w2))" "ok w2" "pending w2 = later" "peer w2 = peer w1"
    using recv_into_delivers [OF w1(2), of "unat len" 40 "s\<lparr>cs_buffer := ?b1\<rparr>"] w1(3) assms(2,5) la l
    by (auto simp: min_def ac_simps)
  have "check_hash ?b2 cmd len = Inr ()"
    using assms(5) unfolding assms(3) len_def by (rule answer_hash)
  moreover have "mem_write ?b2 0 (mem16 cmd @ mem16 len) = Inr (received a (cs_buffer s))"
    using la assms(2,5) head by (simp add: mem_write_ok received_def)
  moreover have "uint len = int (unat len)" by simp
  then have "uint len \<noteq> 0" "len \<noteq> 0" using l by auto
  ultimately show ?thesis
    using w1 w2 h1 by (intro exI [of _ w2]) (simp add: Recv_def c_then_def c_simps check_received_def sizeof_ResponseHead_def)
qed

end

end
