(* ===== verification/ClientCommands.thy ===== *)
theory ClientCommands imports ClientSession begin

text \<open>
  \<open>BankClient/CMD\<close>: the \<open>Execute\<close> function of each of the client's eleven commands, and its
  \<open>TransactionManager\<close>.  Each builds a request from attributes of the session, sends it, receives an
  answer and stores the fields of the answer; the three reports go on receiving until the last row.

  The parts the functions repeat are definitions: the request around a body, the cipher of a password,
  the exchange, the head of an answer.  The locale \<open>link\<close> gives what an exchange over a connected socket
  does (\<open>transact_ok\<close>).
\<close>

subsection \<open>Requests\<close>

text \<open>
  What can be read from \<open>s.c_str()\<close> on.  The client is a Visual C++ program, whose \<open>std::string\<close> holds up
  to 15 characters in an array of 16 of its own; behind the NUL stands what was there before.
\<close>

definition str_mem :: "bytes \<Rightarrow> bytes \<Rightarrow> bytes" where
  "str_mem behind s = (if length s < 16 then take 16 (s @ 0 # behind) else s @ [0])"

definition str_read :: "bytes \<Rightarrow> bytes \<Rightarrow> nat \<Rightarrow> bytes res" where
  "str_read behind s n = mem_read (str_mem behind s) 0 n"

definition sizeof_RequestHead :: nat where
  "sizeof_RequestHead = 4"

definition req_head :: "16 word \<Rightarrow> (jout \<times> nat) res" where
  "req_head cmd =
     bind_res (JOut_uint16 JOut_new cmd) (\<lambda>jos.
     let lengthPos = JOut_Length jos in Inr (JOut_Skip jos 2, lengthPos))"

definition req_tail :: "jout \<Rightarrow> 16 word \<Rightarrow> nat \<Rightarrow> jout res" where
  "req_tail jos cmd lengthPos =
     (let tailPos = JOut_Length jos; jos = JOut_Reposition jos lengthPos in
      bind_res (JOut_uint16 jos (of_nat (size_sub (tailPos + 8) sizeof_RequestHead))) (\<lambda>jos.
      let jos = JOut_Reposition jos tailPos in
      bind_res (JOut_Data jos) (\<lambda>data.
      bind_res (MD5Make md5_stack data (of_nat (JOut_Length jos))) (\<lambda>hash.
      JOut_WriteBytes jos (fold_hash cmd hash)))))"

definition make_request :: "16 word \<Rightarrow> (jout \<Rightarrow> jout res) \<Rightarrow> jout res" where
  "make_request cmd body =
     bind_res (req_head cmd) (\<lambda>(jos, lengthPos).
     bind_res (body jos) (\<lambda>jos. req_tail jos cmd lengthPos))"

text \<open>\<open>jos.WriteBytes(v.c_str(), n)\<close> for the attribute \<open>k\<close>.\<close>

definition put_chars :: "('d, 'w) client \<Rightarrow> bytes \<Rightarrow> bytes \<Rightarrow> nat \<Rightarrow> jout \<Rightarrow> jout res" where
  "put_chars C k v n jos = bind_res (str_read (cl_behind C k) v n) (JOut_WriteBytes jos)"

definition encrypt_pass :: "idea_cfb \<Rightarrow> bytes \<Rightarrow> bytes \<Rightarrow> (bytes \<times> idea_cfb) res" where
  "encrypt_pass idea key pass = bind_res (Idea_Crypt idea key pass 16 True) (\<lambda>(idea, out). Inr (out, idea))"

definition put_pass ::
  "('d, 'w) client \<Rightarrow> 16 word \<Rightarrow> bytes \<Rightarrow> bytes \<Rightarrow> idea_cfb \<Rightarrow> jout \<Rightarrow> (jout \<times> idea_cfb) res" where
  "put_pass C cmd k pass idea jos =
     bind_res (idea_key cmd) (\<lambda>ideaKey.
     bind_res (str_read (cl_behind C k) pass 16) (\<lambda>p.
     bind_res (encrypt_pass idea ideaKey p) (\<lambda>(encryptedPass, idea).
     bind_res (JOut_WriteBytes jos encryptedPass) (\<lambda>jos. Inr (jos, idea)))))"

definition put_one_pass :: "('d, 'w) client \<Rightarrow> 16 word \<Rightarrow> bytes \<Rightarrow> bytes \<Rightarrow> jout \<Rightarrow> jout res" where
  "put_one_pass C cmd k pass jos = bind_res (put_pass C cmd k pass idea_stack jos) (\<lambda>(jos, _). Inr jos)"

text \<open>\<open>ss << v; uint32 page; ss >> page\<close>: a value behind a minus sign wraps around.\<close>

definition parse_uint32 :: "bytes \<Rightarrow> 32 word option" where
  "parse_uint32 s =
     (let s = dropWhile is_space s in
      if s = [] then None
      else let neg = (hd s = 45);
               s = (if hd s = 45 \<or> hd s = 43 then tl s else s);
               v = digits_value (takeWhile is_digit s)
           in Some (if 2 ^ 32 \<le> v then - 1 else if neg then - of_nat v else of_nat v))"

definition page_of :: "('d, 'w) client \<Rightarrow> bytes \<Rightarrow> 32 word" where
  "page_of C v = (case parse_uint32 v of Some p \<Rightarrow> p | None \<Rightarrow> cl_u32 C)"

subsection \<open>Answers\<close>

text \<open>\<open>JInStream((const char* )session.GetResponsePack(), session.GetResponsePack()->head.len+sizeof(ResponseHead))\<close>.\<close>

definition response_stream :: "'d client_session \<Rightarrow> jin res" where
  "response_stream s =
     bind_res (mem_read (cs_buffer s) 0 (unat (load16 (drop 2 (cs_buffer s))) + sizeof_ResponseHead)) (\<lambda>d.
     Inr (JIn_make d))"

definition exchange :: "('d, 'w) client \<Rightarrow> jout \<Rightarrow> (('d, 'w) client_state, jin) cprog" where
  "exchange C jos =
     c_then (c_lift (JOut_Data jos)) (\<lambda>data.
     c_then (Send_pack C data) (\<lambda>_.
     c_then (Recv C) (\<lambda>_.
     c_read (\<lambda>(s, w). response_stream s))))"

text \<open>\<open>cnt\<close>, \<open>seq\<close>, \<open>error_code\<close> and the thirty characters of the message.\<close>

definition head_fields :: "jin \<Rightarrow> (16 word \<times> 16 word \<times> 16 word \<times> bytes \<times> jin) res" where
  "head_fields jis =
     bind_res (JIn_Skip jis 4) (\<lambda>jis.
     bind_res (JIn_uint16 jis) (\<lambda>(cnt, jis).
     bind_res (JIn_uint16 jis) (\<lambda>(seq, jis).
     bind_res (JIn_int16 jis) (\<lambda>(error_code, jis).
     bind_res (JIn_ReadBytes jis 30) (\<lambda>(error_msg, jis).
     Inr (cnt, seq, error_code, error_msg, jis))))))"

text \<open>
  \<open>char error_msg[31]\<close> is not initialised: its last element is what the memory held.
\<close>

definition read_head ::
  "('d, 'w) client \<Rightarrow> jin \<Rightarrow> (('d, 'w) client_state, 16 word \<times> 16 word \<times> jin) cprog" where
  "read_head C jis =
     c_then (c_lift (head_fields jis)) (\<lambda>(cnt, seq, error_code, error_msg, jis).
     c_then (SetErrorCode error_code) (\<lambda>_.
     c_then (c_lift (c_string (error_msg @ [cl_msg_end C]))) (\<lambda>m.
     c_then (SetErrorMsg m) (\<lambda>_.
     c_ret (cnt, error_code, jis)))))"

text \<open>Sending, receiving, and what is done with an answer without an error.\<close>

definition transact ::
  "('d, 'w) client \<Rightarrow> jout res \<Rightarrow> (16 word \<Rightarrow> jin \<Rightarrow> (('d, 'w) client_state, unit) cprog)
     \<Rightarrow> (('d, 'w) client_state, unit) cprog" where
  "transact C jos k =
     c_then (c_lift jos) (\<lambda>jos.
     c_then (exchange C jos) (\<lambda>jis.
     c_then (read_head C jis) (\<lambda>(cnt, error_code, jis).
     if error_code = 0 then k cnt jis else c_ret ())))"

definition no_reply :: "16 word \<Rightarrow> jin \<Rightarrow> (('d, 'w) client_state, unit) cprog" where
  "no_reply cnt jis = c_ret ()"

text \<open>\<open>jis >> name >> balance\<close> and the nineteen characters of the date.\<close>

definition account_reply :: "16 word \<Rightarrow> jin \<Rightarrow> (('d, 'w) client_state, unit) cprog" where
  "account_reply cnt jis =
     c_then (c_lift (bind_res (JIn_string jis) (\<lambda>(name, jis).
                     bind_res (JIn_string jis) (\<lambda>(balance, jis).
                     bind_res (read_chars jis 19) (\<lambda>(date, jis). Inr (name, balance, date)))))) (\<lambda>(name, balance, date).
     c_then (SetResponse (lit ''name'') name) (\<lambda>_.
     c_then (SetResponse (lit ''balance'') balance) (\<lambda>_.
     SetResponse (lit ''trans_date'') date)))"

subsection \<open>The commands\<close>

definition Client_UserLogin :: "('d, 'w) client \<Rightarrow> (('d, 'w) client_state, unit) cprog" where
  "Client_UserLogin C =
     c_then (GetAttribute (lit ''name'')) (\<lambda>name.
     c_then (GetAttribute (lit ''pass'')) (\<lambda>pass.
     transact C (make_request 1 (\<lambda>jos.
       bind_res (JOut_string jos name) (put_one_pass C 1 (lit ''pass'') pass))) no_reply))"

definition Client_OpenAccount :: "('d, 'w) client \<Rightarrow> (('d, 'w) client_state, unit) cprog" where
  "Client_OpenAccount C =
     c_then (GetAttribute (lit ''name'')) (\<lambda>name.
     c_then (GetAttribute (lit ''pass'')) (\<lambda>pass.
     c_then (GetAttribute (lit ''id'')) (\<lambda>id.
     c_then (GetAttribute (lit ''money'')) (\<lambda>money.
     transact C (make_request 2 (\<lambda>jos.
       bind_res (JOut_string jos name) (\<lambda>jos.
       bind_res (put_one_pass C 2 (lit ''pass'') pass jos) (\<lambda>jos.
       bind_res (put_chars C (lit ''id'') id (length id) jos) (\<lambda>jos. JOut_string jos money)))))
     (\<lambda>cnt jis.
       c_then (c_lift (bind_res (read_chars jis 6) (\<lambda>(account_id, jis).
                       bind_res (JIn_string jis) (\<lambda>(open_date, jis). Inr (account_id, open_date))))) (\<lambda>(account_id, open_date).
       c_then (SetResponse (lit ''account_id'') account_id) (\<lambda>_.
       SetResponse (lit ''open_date'') open_date)))))))"

definition Client_Deposit :: "('d, 'w) client \<Rightarrow> (('d, 'w) client_state, unit) cprog" where
  "Client_Deposit C =
     c_then (GetAttribute (lit ''account_id'')) (\<lambda>account_id.
     c_then (GetAttribute (lit ''money'')) (\<lambda>money.
     transact C (make_request 3 (\<lambda>jos.
       bind_res (put_chars C (lit ''account_id'') account_id 6 jos) (\<lambda>jos. JOut_string jos money))) account_reply))"

definition Client_Withdrawal :: "('d, 'w) client \<Rightarrow> (('d, 'w) client_state, unit) cprog" where
  "Client_Withdrawal C =
     c_then (GetAttribute (lit ''account_id'')) (\<lambda>account_id.
     c_then (GetAttribute (lit ''pass'')) (\<lambda>pass.
     c_then (GetAttribute (lit ''money'')) (\<lambda>money.
     transact C (make_request 4 (\<lambda>jos.
       bind_res (put_chars C (lit ''account_id'') account_id 6 jos) (\<lambda>jos.
       bind_res (put_one_pass C 4 (lit ''pass'') pass jos) (\<lambda>jos. JOut_string jos money)))) account_reply)))"

definition Client_Transfer :: "('d, 'w) client \<Rightarrow> (('d, 'w) client_state, unit) cprog" where
  "Client_Transfer C =
     c_then (GetAttribute (lit ''account_id'')) (\<lambda>account_id.
     c_then (GetAttribute (lit ''pass'')) (\<lambda>pass.
     c_then (GetAttribute (lit ''money'')) (\<lambda>money.
     c_then (GetAttribute (lit ''other_account_id'')) (\<lambda>other_account_id.
     transact C (make_request 5 (\<lambda>jos.
       bind_res (put_chars C (lit ''account_id'') account_id 6 jos) (\<lambda>jos.
       bind_res (put_one_pass C 5 (lit ''pass'') pass jos) (\<lambda>jos.
       bind_res (JOut_string jos money)
         (put_chars C (lit ''other_account_id'') other_account_id 6))))) account_reply))))"

definition Client_BalanceInquiry :: "('d, 'w) client \<Rightarrow> (('d, 'w) client_state, unit) cprog" where
  "Client_BalanceInquiry C =
     c_then (GetAttribute (lit ''account_id'')) (\<lambda>account_id.
     c_then (GetAttribute (lit ''pass'')) (\<lambda>pass.
     transact C (make_request 6 (\<lambda>jos.
       bind_res (put_chars C (lit ''account_id'') account_id 6 jos)
         (put_one_pass C 6 (lit ''pass'') pass))) account_reply))"

text \<open>Both passwords go through one \<open>Idea\<close> object.\<close>

definition Client_ChangePassword :: "('d, 'w) client \<Rightarrow> (('d, 'w) client_state, unit) cprog" where
  "Client_ChangePassword C =
     c_then (GetAttribute (lit ''account_id'')) (\<lambda>account_id.
     c_then (GetAttribute (lit ''pass'')) (\<lambda>pass.
     c_then (GetAttribute (lit ''newpass'')) (\<lambda>newpass.
     transact C (make_request 7 (\<lambda>jos.
       bind_res (put_chars C (lit ''account_id'') account_id 6 jos) (\<lambda>jos.
       bind_res (put_pass C 7 (lit ''pass'') pass idea_stack jos) (\<lambda>(jos, idea).
       bind_res (put_pass C 7 (lit ''newpass'') newpass idea jos) (\<lambda>(jos, _). Inr jos))))) no_reply)))"

definition Client_CloseAccount :: "('d, 'w) client \<Rightarrow> (('d, 'w) client_state, unit) cprog" where
  "Client_CloseAccount C =
     c_then (GetAttribute (lit ''account_id'')) (\<lambda>account_id.
     c_then (GetAttribute (lit ''pass'')) (\<lambda>pass.
     transact C (make_request 11 (\<lambda>jos.
       bind_res (put_chars C (lit ''account_id'') account_id 6 jos)
         (put_one_pass C 11 (lit ''pass'') pass)))
     (\<lambda>cnt jis.
       c_then (c_lift (bind_res (JIn_string jis) (\<lambda>(name, jis).
                       bind_res (JIn_string jis) (\<lambda>(balance, jis).
                       bind_res (JIn_string jis) (\<lambda>(interest, jis).
                       bind_res (read_chars jis 19) (\<lambda>(date, jis). Inr (name, balance, interest, date)))))))
         (\<lambda>(name, balance, interest, date).
       c_then (SetResponse (lit ''name'') name) (\<lambda>_.
       c_then (SetResponse (lit ''balance'') balance) (\<lambda>_.
       c_then (SetResponse (lit ''interest'') interest) (\<lambda>_.
       SetResponse (lit ''close_date'') date)))))))"

subsection \<open>The reports\<close>

text \<open>One row of a report; \<open>trans_id\<close> stays empty.\<close>

definition read_detail ::
  "('d, 'w) client \<Rightarrow> jin \<Rightarrow> ('d trans_detail \<times> 16 word \<times> 16 word) res" where
  "read_detail C jis =
     bind_res (head_fields jis) (\<lambda>(cnt, seq, error_code, error_msg, jis).
     bind_res (read_chars jis 19) (\<lambda>(trans_date, jis).
     bind_res (read_chars jis 6) (\<lambda>(account_id, jis).
     bind_res (read_chars jis 6) (\<lambda>(other_account_id, jis).
     bind_res (JIn_string jis) (\<lambda>(money, jis).
     bind_res (JIn_string jis) (\<lambda>(abstract_name, jis).
     bind_res (JIn_string jis) (\<lambda>(balance, jis).
     bind_res (JIn_uint32 jis) (\<lambda>(total, jis).
     Inr (\<lparr>td_trans_id = [], td_account_id = account_id, td_other_account_id = other_account_id,
           td_abstract_name = abstract_name, td_money = dbl_in (cl_arith C) (cl_dbl C) money,
           td_balance = dbl_in (cl_arith C) (cl_dbl C) balance, td_trans_date = trans_date,
           td_total = total\<rparr>, cnt, seq)))))))))"

text \<open>
  The loop over the rows; \<open>cnt\<close> and \<open>seq\<close> of the last packet decide whether another one is received.
  \<open>cnt - 1\<close> is an \<open>int\<close>.
\<close>

fun bill_loop :: "('d, 'w) client \<Rightarrow> nat \<Rightarrow> (('d, 'w) client_state, unit) cprog" where
  "bill_loop C 0 = c_ret ()"
| "bill_loop C (Suc n) =
     c_then (c_read (\<lambda>(s, w). response_stream s)) (\<lambda>jis.
     c_then (c_lift (read_detail C jis)) (\<lambda>(td, cnt, seq).
     c_then (AddDetail td) (\<lambda>_.
     if uint seq = uint cnt - 1 then c_ret ()
     else c_then (Recv C) (\<lambda>_. bill_loop C n))))"

definition bill_reply :: "('d, 'w) client \<Rightarrow> 16 word \<Rightarrow> jin \<Rightarrow> (('d, 'w) client_state, unit) cprog" where
  "bill_reply C cnt jis = bill_loop C (unat cnt)"

definition Client_QueryDayBill :: "('d, 'w) client \<Rightarrow> (('d, 'w) client_state, unit) cprog" where
  "Client_QueryDayBill C =
     c_then (GetAttribute (lit ''page'')) (\<lambda>page.
     c_then (GetAttribute (lit ''date'')) (\<lambda>date.
     transact C (make_request 8 (\<lambda>jos.
       bind_res (JOut_uint32 jos (page_of C page)) (put_chars C (lit ''date'') date 10))) (bill_reply C)))"

definition Client_QueryHistoryBill :: "('d, 'w) client \<Rightarrow> (('d, 'w) client_state, unit) cprog" where
  "Client_QueryHistoryBill C =
     c_then (GetAttribute (lit ''page'')) (\<lambda>page.
     c_then (GetAttribute (lit ''begin_date'')) (\<lambda>begin_date.
     c_then (GetAttribute (lit ''end_date'')) (\<lambda>end_date.
     transact C (make_request 9 (\<lambda>jos.
       bind_res (JOut_uint32 jos (page_of C page)) (\<lambda>jos.
       bind_res (put_chars C (lit ''begin_date'') begin_date 10 jos)
         (put_chars C (lit ''end_date'') end_date 10)))) (bill_reply C))))"

definition Client_QueryAccountHistoryBill :: "('d, 'w) client \<Rightarrow> (('d, 'w) client_state, unit) cprog" where
  "Client_QueryAccountHistoryBill C =
     c_then (GetAttribute (lit ''page'')) (\<lambda>page.
     c_then (GetAttribute (lit ''account_id'')) (\<lambda>account_id.
     c_then (GetAttribute (lit ''begin_date'')) (\<lambda>begin_date.
     c_then (GetAttribute (lit ''end_date'')) (\<lambda>end_date.
     transact C (make_request 10 (\<lambda>jos.
       bind_res (JOut_uint32 jos (page_of C page)) (\<lambda>jos.
       bind_res (put_chars C (lit ''account_id'') account_id 6 jos) (\<lambda>jos.
       bind_res (put_chars C (lit ''begin_date'') begin_date 10 jos)
         (put_chars C (lit ''end_date'') end_date 10))))) (bill_reply C)))))"

subsection \<open>Selecting the command\<close>

definition Client_actions :: "16 word \<Rightarrow> transaction option" where
  "Client_actions = [0x01 \<mapsto> UserLogin, 0x02 \<mapsto> OpenAccount, 0x03 \<mapsto> Deposit, 0x04 \<mapsto> Withdrawal,
     0x05 \<mapsto> Transfer, 0x06 \<mapsto> BalanceInquiry, 0x07 \<mapsto> ChangePassword, 0x08 \<mapsto> QueryDayBill,
     0x09 \<mapsto> QueryHistoryBill, 0x0A \<mapsto> QueryAccountHistoryBill, 0x0B \<mapsto> CloseAccount]"

fun Client_Execute :: "transaction \<Rightarrow> ('d, 'w) client \<Rightarrow> (('d, 'w) client_state, unit) cprog" where
  "Client_Execute UserLogin = Client_UserLogin"
| "Client_Execute OpenAccount = Client_OpenAccount"
| "Client_Execute Deposit = Client_Deposit"
| "Client_Execute Withdrawal = Client_Withdrawal"
| "Client_Execute Transfer = Client_Transfer"
| "Client_Execute BalanceInquiry = Client_BalanceInquiry"
| "Client_Execute ChangePassword = Client_ChangePassword"
| "Client_Execute QueryDayBill = Client_QueryDayBill"
| "Client_Execute QueryHistoryBill = Client_QueryHistoryBill"
| "Client_Execute QueryAccountHistoryBill = Client_QueryAccountHistoryBill"
| "Client_Execute CloseAccount = Client_CloseAccount"

definition Client_DoAction :: "('d, 'w) client \<Rightarrow> (('d, 'w) client_state, bool) cprog" where
  "Client_DoAction C = (\<lambda>(s, w).
     case Client_actions (cs_cmd s) of
       Some t \<Rightarrow> c_then (Client_Execute t C) (\<lambda>_. c_ret True) (s, w)
     | None \<Rightarrow> c_ret False (s, w))"

subsection \<open>The request a command sends\<close>

lemma req_tail_correct:
  assumes "out_inv jos" and "out_msg jos = enc16 cmd @ gap @ body" "length gap = 2" and "length body + 12 < 2 ^ 32"
  shows "\<exists>jos'. req_tail jos cmd 2 = Inr jos' \<and> out_inv jos' \<and> out_msg jos' = request cmd body"
proof -
  define m where "m = enc16 cmd @ enc16 (of_nat (length body + 8)) @ body"
  have n: "JOut_Length jos = length body + 4" using out_msg_length [OF assms(1)] assms(2,3) by simp
  obtain j1 where j1: "JOut_Append (JOut_Reposition jos 2) (enc16 (of_nat (length body + 8))) = Inr j1"
      "out_inv (JOut_Reposition j1 (JOut_Length jos))"
      "out_msg (JOut_Reposition j1 (JOut_Length jos)) =
         take 2 (out_msg jos) @ enc16 (of_nat (length body + 8)) @ drop 4 (out_msg jos)"
    using JOut_patch_correct [OF assms(1), of 2 "enc16 (of_nat (length body + 8))"] n by auto
  have "drop 4 (out_msg jos) = body" unfolding assms(2) using assms(3) by simp
  moreover have "take 2 (out_msg jos) = enc16 cmd" unfolding assms(2) by (rule take_append_exact) simp
  ultimately have m: "out_msg (JOut_Reposition j1 (JOut_Length jos)) = m" using j1(3) by (simp add: m_def)
  have lm: "length m = length body + 4" by (simp add: m_def)
  have "unat (of_nat (length body + 4) :: u32) = length body + 4" using assms(4) by (simp add: unat_of_nat del: of_nat_add)
  then have "MD5Make md5_stack m (of_nat (length body + 4)) = Inr (rfc_md5 m)"
    using MD5Make_stack [of "of_nat (length body + 4)" m] lm by (simp del: of_nat_add)
  moreover obtain j3 where "JOut_WriteBytes (JOut_Reposition j1 (JOut_Length jos)) (fold_hash cmd (rfc_md5 m)) = Inr j3"
      "out_inv j3" "out_msg j3 = request cmd body"
    using jos.put_ok [OF j1(2), of "fold_hash cmd (rfc_md5 m)"] m
    by (auto simp: JOut_ints request_def seal_def m_def)
  moreover have "JOut_Length (JOut_Reposition j1 (length body + 4)) = length body + 4"
    by (simp add: JOut_Length_def JOut_Reposition_def)
  ultimately show ?thesis
    using j1(1,2) JOut_Data_correct [OF j1(2)] m n
    by (simp add: req_tail_def Let_def JOut_ints sizeof_RequestHead_def add.commute [of "length body" 8] del: of_nat_add)
qed

lemma make_request_correct:
  assumes "writes p body" and "length body + 12 < 2 ^ 32"
  shows "\<exists>jos. make_request cmd p = Inr jos \<and> out_inv jos \<and> out_msg jos = request cmd body"
proof -
  obtain j1 where j1: "JOut_uint16 JOut_new cmd = Inr j1" "out_inv j1" "out_msg j1 = enc16 cmd"
    using jos.put_ok [of JOut_new "enc16 cmd"] by (auto simp: JOut_ints)
  have l1: "JOut_Length j1 = 2" using out_msg_length [OF j1(2)] j1(3) by simp
  let ?j2 = "JOut_Skip j1 2"
  note sk = JOut_Skip_correct [OF j1(2), of 2]
  obtain gap where gap: "out_msg ?j2 = enc16 cmd @ gap" "length gap = 2"
    using sk(2,4) j1(3) l1 by (metis JOut_Length_def append_take_drop_id length_drop add_diff_cancel_left')
  obtain j3 where j3: "p ?j2 = Inr j3" "out_inv j3" "out_msg j3 = out_msg ?j2 @ body"
    using writesE [OF assms(1) sk(1)] .
  obtain j4 where "req_tail j3 cmd 2 = Inr j4" "out_inv j4" "out_msg j4 = request cmd body"
    using req_tail_correct [OF j3(2), of cmd gap body] j3(3) gap assms(2) by auto
  then show ?thesis using j1(1) j3(1) l1 by (simp add: make_request_def req_head_def)
qed

text \<open>The parts of a body.  \<open>behind\<close> fills the array of sixteen characters.\<close>

definition str_world :: "('d, 'w) client \<Rightarrow> bool" where
  "str_world C \<longleftrightarrow> (\<forall>k. 15 \<le> length (cl_behind C k))"

lemma str_read_front: "n \<le> length v \<Longrightarrow> str_read behind v n = Inr (take n v)"
  by (auto simp: str_read_def str_mem_def mem_read_def min_def)

lemma writes_put_chars: "n \<le> length v \<Longrightarrow> writes (put_chars C k v n) (take n v)"
  by (simp add: put_chars_def [abs_def] str_read_front JOut_ints writes_append)

lemma pass_mem:
  assumes "str_world C" "length pass < 16" "0 \<notin> set pass"
  obtains mem where "str_read (cl_behind C k) pass 16 = Inr mem" "holds_pass mem pass"
proof -
  let ?r = "take (15 - length pass) (cl_behind C k)"
  have b: "15 \<le> length (cl_behind C k)" using assms(1) by (simp add: str_world_def)
  have m: "str_mem (cl_behind C k) pass = pass @ 0 # ?r"
    using assms(2) by (simp add: str_mem_def take_Cons')
  have "length (pass @ 0 # ?r) = 16" using assms(2) b by simp
  then have "str_read (cl_behind C k) pass 16 = Inr (pass @ 0 # ?r)" "holds_pass (pass @ 0 # ?r) pass"
    using assms(3) by (simp_all add: str_read_def m mem_read_def holds_pass_def c_string_ok)
  then show thesis by (rule that)
qed

lemma put_pass_writes:
  assumes "str_world C" "length pass < 16" "0 \<notin> set pass"
  obtains cipher where "enciphered cmd pass cipher" "length cipher = 16" "writes (put_one_pass C cmd k pass) cipher"
proof -
  obtain mem where mem: "str_read (cl_behind C k) pass 16 = Inr mem" "holds_pass mem pass"
    using pass_mem [OF assms] .
  obtain key where key: "idea_key cmd = Inr key" using idea_key_ok by blast
  obtain idea out where c: "Idea_Crypt idea_stack key mem 16 True = Inr (idea, out)" "length out = 16"
    using Idea_Crypt_decrypts [of idea_stack key mem idea_stack] mem(2) by (auto simp: holds_pass_def)
  have e: "enciphered cmd pass out" using mem(2) key c(1) unfolding enciphered_def by blast
  have "put_one_pass C cmd k pass jos = JOut_Append jos out" for jos
    using mem key c by (cases "JOut_Append jos out") (simp_all add: put_one_pass_def put_pass_def encrypt_pass_def JOut_ints)
  then have "writes (put_one_pass C cmd k pass) out" using writes_append [of out] by (simp add: writes_def)
  then show thesis using e c(2) that by blast
qed

subsection \<open>The answer a command reads\<close>

lemma response_stream_received:
  assumes "cs_buffer s = received (answer cmd cnt seq err msg body) buf" and "length body + 48 \<le> 2048"
  obtains hash where "length hash = 8" "response_stream s = Inr (JIn_make (mem16 cmd @
      mem16 (of_nat (length body + 8)) @ enc16 cnt @ enc16 seq @ enc16 err @ take 30 (msg_array msg) @ body @ hash))"
proof -
  define len :: "16 word" where "len = of_nat (length body + 8)"
  have l: "unat len = length body + 8" using assms(2) by (simp add: len_def unat_of_nat del: of_nat_add)
  define hash where "hash = fold_hash cmd (rfc_md5 (answer_head cmd len cnt seq err msg @ body))"
  define d where "d = enc16 cnt @ enc16 seq @ enc16 err @ take 30 (msg_array msg) @ body @ hash"
  have ld: "length d = length body + 44"
    using length_msg_array [of msg] by (simp add: d_def hash_def min_def)
  have a: "answer cmd cnt seq err msg body = (enc16 cmd @ enc16 len) @ d"
    by (simp add: answer_def seal_def answer_head_def d_def hash_def len_def)
  have "drop 4 (answer cmd cnt seq err msg body) = d" unfolding a by (rule drop_append_exact) simp
  then have b: "cs_buffer s = mem16 cmd @ mem16 len @ d @ drop (length body + 48) buf"
    using assms(1) by (simp add: received_def answer_fields length_answer len_def add.commute)
  have "load16 (drop 2 (cs_buffer s)) = len" unfolding b by (simp add: drop_append_exact)
  moreover have "mem_read (cs_buffer s) 0 (48 + length body) = Inr (mem16 cmd @ mem16 len @ d)"
    unfolding b using ld by (simp add: mem_read_def)
  ultimately have "response_stream s = Inr (JIn_make (mem16 cmd @ mem16 len @ d))"
    using l by (simp add: response_stream_def sizeof_ResponseHead_def)
  then show thesis using that [of hash] by (simp add: d_def len_def hash_def)
qed

lemma reads_uint16: "reads JIn_uint16 x (enc16 x)"
  unfolding reads_def using JIn_uint16_correct by blast

lemma reads_int16: "reads JIn_int16 x (enc16 x)"
  using reads_uint16 by (simp add: JIn_signed)

lemma reads_uint32: "reads JIn_uint32 x (enc32 x)"
  unfolding reads_def using JIn_uint32_correct by blast

lemma head_fields_ok:
  assumes "length h = 4"
    and "d = h @ enc16 cnt @ enc16 seq @ enc16 err @ take 30 (msg_array msg) @ rest"
  obtains jis where "head_fields (JIn_make d) = Inr (cnt, seq, err, take 30 (msg_array msg), jis)"
    "in_inv jis" "in_rest jis = rest"
proof -
  let ?m = "take 30 (msg_array msg)"
  let ?j0 = "(JIn_make d)\<lparr>in_index := in_index (JIn_make d) + 4\<rparr>"
  have d: "4 \<le> length (in_rest (JIn_make d))" using assms by simp
  have "JIn_Skip (JIn_make d) 4 = Inr ?j0" using assms by (simp add: JIn_Skip_def)
  moreover have j0: "in_inv ?j0" "in_rest ?j0 = enc16 cnt @ enc16 seq @ enc16 err @ ?m @ rest"
    using JIn_read_correct [OF JIn_make_start(1) d] assms by simp_all
  moreover obtain j1 where j1: "JIn_uint16 ?j0 = Inr (cnt, j1)" "in_inv j1" "in_rest j1 = enc16 seq @ enc16 err @ ?m @ rest"
    using readsE [OF reads_uint16 j0] .
  moreover obtain j2 where j2: "JIn_uint16 j1 = Inr (seq, j2)" "in_inv j2" "in_rest j2 = enc16 err @ ?m @ rest"
    using readsE [OF reads_uint16 j1(2,3)] .
  moreover obtain j3 where j3: "JIn_int16 j2 = Inr (err, j3)" "in_inv j3" "in_rest j3 = ?m @ rest"
    using readsE [OF reads_int16 j2(2,3)] .
  moreover have lm: "length ?m = 30" using length_msg_array [of msg] by simp
  moreover obtain j4 where "JIn_ReadBytes j3 30 = Inr (?m, j4)" "in_inv j4" "in_rest j4 = rest"
    using readsE [OF reads_bytes [OF lm] j3(2,3)] .
  ultimately show thesis using that [of j4] by (simp add: head_fields_def)
qed

text \<open>A message that fits the thirty characters of the head with its NUL.\<close>

definition message :: "bytes \<Rightarrow> bool" where
  "message msg \<longleftrightarrow> length msg < 30 \<and> 0 \<notin> set msg"

lemma message_ok: "message msg \<Longrightarrow> c_string (take 30 (msg_array msg) @ [c]) = Inr msg"
proof -
  assume m: "message msg"
  then obtain n where n: "30 - length msg = Suc n" by (metis message_def Suc_diff_Suc)
  have "take 30 (msg_array msg) @ [c] = msg @ 0 # (replicate n 0 @ [c])"
    using m n by (simp add: message_def msg_array_def)
  then show ?thesis using m by (simp only:) (rule c_string_ok, simp add: message_def)
qed

context link
begin

text \<open>Sending a request and receiving a well-formed answer to it.\<close>

lemma exchange_ok:
  assumes "ok w" and "length (cs_buffer s) = 2048" and "out_inv jos" and "length body + 48 \<le> 2048"
    and "\<And>w1. ok w1 \<Longrightarrow> sent (out_msg jos) w w1 \<Longrightarrow> pending w1 = answer cmd cnt seq err msg body @ later"
  obtains w1 w' jis buf where "ok w1" "sent (out_msg jos) w w1" "ok w'" "pending w' = later" "peer w' = peer w1"
    "exchange C jos (s, w) = c_read (\<lambda>(s, w). response_stream s)
       (s\<lparr>cs_buffer := received (answer cmd cnt seq err msg body) buf\<rparr>, w')" "length buf = 2048"
proof -
  obtain w1 where w1: "SendN C (length (out_msg jos)) (out_msg jos) w = Some (int (length (out_msg jos)), w1)"
      "ok w1" "sent (out_msg jos) w w1"
    using SendN_delivers [OF assms(1)] by blast
  obtain w' where "Recv C (s, w1) = Some (Inr (), (s\<lparr>cs_buffer := received (answer cmd cnt seq err msg body) (cs_buffer s)\<rparr>, w'))"
      "ok w'" "pending w' = later" "peer w' = peer w1"
    using Recv_accepts [OF w1(2) assms(2) refl assms(5) [OF w1(2,3)] assms(4)] by blast
  then show thesis
    using w1 JOut_Data_correct [OF assms(3)] assms(2)
    by (intro that [of w1 w' "cs_buffer s"]) (simp_all add: exchange_def c_then_def c_simps Send_pack_def)
qed

lemma transact_ok:
  assumes "ok w" and "length (cs_buffer s) = 2048" and "out_inv jos" and "length body + 48 \<le> 2048" and "message msg"
    and "\<And>w1. ok w1 \<Longrightarrow> sent (out_msg jos) w w1 \<Longrightarrow> pending w1 = answer cmd cnt seq err msg body @ later"
  obtains w1 w' jis buf hash where "ok w1" "sent (out_msg jos) w w1" "ok w'" "pending w' = later" "peer w' = peer w1"
    "in_inv jis" "in_rest jis = body @ hash" "length buf = 2048"
    "transact C (Inr jos) k (s, w) = (if err = 0 then k cnt jis else c_ret ())
       (s\<lparr>cs_buffer := received (answer cmd cnt seq err msg body) buf, cs_errorCode := err, cs_errorMsg := msg\<rparr>, w')"
proof -
  obtain w1 w' buf where w: "ok w1" "sent (out_msg jos) w w1" "ok w'" "pending w' = later" "peer w' = peer w1"
    "exchange C jos (s, w) = c_read (\<lambda>(s, w). response_stream s)
       (s\<lparr>cs_buffer := received (answer cmd cnt seq err msg body) buf\<rparr>, w')" "length buf = 2048"
    using exchange_ok [OF assms(1-4,6)] .
  let ?s = "s\<lparr>cs_buffer := received (answer cmd cnt seq err msg body) buf\<rparr>"
  obtain hash where r: "response_stream ?s = Inr (JIn_make (mem16 cmd @
      mem16 (of_nat (length body + 8)) @ enc16 cnt @ enc16 seq @ enc16 err @ take 30 (msg_array msg) @ body @ hash))"
    using response_stream_received [of ?s cmd cnt seq err msg body buf] assms(4) by auto
  define d where "d = (mem16 cmd @ mem16 (of_nat (length body + 8))) @
     enc16 cnt @ enc16 seq @ enc16 err @ take 30 (msg_array msg) @ body @ hash"
  obtain jis where h: "head_fields (JIn_make d) = Inr (cnt, seq, err, take 30 (msg_array msg), jis)" "in_inv jis"
      "in_rest jis = body @ hash"
    using head_fields_ok [OF _ d_def] by auto
  have "exchange C jos (s, w) = Some (Inr (JIn_make d), (?s, w'))"
    using w(6) r by (simp add: c_simps d_def)
  then show thesis
    using w h message_ok [OF assms(5), of "cl_msg_end C"]
    by (intro that [of w1 w' jis hash buf])
      (simp_all add: transact_def read_head_def c_then_def c_simps SetErrorCode_def SetErrorMsg_def)
qed

end

end
