(* ===== verification/ClientWire.thy ===== *)
theory ClientWire imports ClientCommands begin

text \<open>
  The client and the server at the two ends of a connection.  A \<open>wire\<close> holds the server's session, its
  input buffer, the world of the database and the answers under way; \<open>wr_cut\<close> decides how many bytes each
  call of \<open>send\<close> and \<open>recv\<close> moves.  What the client sends goes to the server's \<open>onMessage\<close>; when that fails
  the server is gone.  This is an interpretation of the locale \<open>link\<close>.

  The properties follow a command of the client through the server's session, the bank operation and the
  answer back to the fields of the client's session.
\<close>

record 'w wire =
  wr_open :: bool
  wr_bs :: bank_session
  wr_buf :: buffer
  wr_db :: 'w
  wr_out :: bytes
  wr_cut :: "nat \<Rightarrow> nat"
  wr_step :: nat

text \<open>Between one and \<open>n\<close> bytes.\<close>

definition piece :: "'w wire \<Rightarrow> nat \<Rightarrow> nat" where
  "piece w n = max 1 (min n (wr_cut w (wr_step w)))"

definition wire_send :: "('d, 'w) bank \<Rightarrow> bytes \<Rightarrow> 'w wire \<Rightarrow> nat option \<times> 'w wire" where
  "wire_send B d w =
     (let k = piece w (length d); w1 = w\<lparr>wr_step := Suc (wr_step w)\<rparr> in
      (Some k,
       if wr_open w then
         case Buffer_append (wr_buf w) (take k d) of
           Inl e \<Rightarrow> w1\<lparr>wr_open := False\<rparr>
         | Inr buf \<Rightarrow>
             (case onMessage B (wr_bs w) buf [] (wr_db w) of
                (Inl e, db) \<Rightarrow> w1\<lparr>wr_open := False, wr_db := db\<rparr>
              | (Inr (bs, buf, sent), db) \<Rightarrow>
                  w1\<lparr>wr_bs := bs, wr_buf := buf, wr_db := db, wr_out := wr_out w @ concat sent\<rparr>)
       else w1))"

definition wire_recv :: "nat \<Rightarrow> 'w wire \<Rightarrow> recv_answer \<times> 'w wire" where
  "wire_recv n w =
     (let w1 = w\<lparr>wr_step := Suc (wr_step w)\<rparr> in
      if wr_out w = [] then (if wr_open w then Blocks else Received [], w1)
      else let k = piece w n in (Received (take k (wr_out w)), w1\<lparr>wr_out := drop k (wr_out w)\<rparr>))"

text \<open>The other fields of the client's world come from \<open>E\<close>.\<close>

definition wire_client :: "('d, 'w) bank \<Rightarrow> ('d, 'w wire) client \<Rightarrow> ('d, 'w wire) client" where
  "wire_client B E = E\<lparr>cl_send := wire_send B, cl_recv := wire_recv\<rparr>"

definition wire_ok :: "'w wire \<Rightarrow> bool" where
  "wire_ok w \<longleftrightarrow> Buffer_inv (wr_buf w) \<and>
     (length (content (wr_buf w)) < 4 \<or> length (content (wr_buf w)) < packet_length (content (wr_buf w)))"

definition wire_peer :: "'w wire \<Rightarrow> bool \<times> bank_session \<times> buffer \<times> 'w" where
  "wire_peer w = (wr_open w, wr_bs w, wr_buf w, wr_db w)"

definition wire_sent :: "('d, 'w) bank \<Rightarrow> bytes \<Rightarrow> 'w wire \<Rightarrow> 'w wire \<Rightarrow> bool" where
  "wire_sent B d w w' \<longleftrightarrow> (\<forall>bs rest out db. wr_open w \<longrightarrow>
     serve B (wr_bs w) (content (wr_buf w) @ d) (wr_db w) = (Inr (bs, rest, out), db) \<longrightarrow>
     wr_open w' \<and> wr_bs w' = bs \<and> content (wr_buf w') = rest \<and> wr_db w' = db \<and> wr_out w' = wr_out w @ concat out)"

lemma piece_bounds: "0 < piece w n" "0 < n \<Longrightarrow> piece w n \<le> n"
  by (auto simp: piece_def)

lemma wire_ok_simps [simp]:
  "wire_ok (w\<lparr>wr_step := n\<rparr>) = wire_ok w" "wire_ok (w\<lparr>wr_open := c\<rparr>) = wire_ok w"
  "wire_ok (w\<lparr>wr_db := db\<rparr>) = wire_ok w" "wire_ok (w\<lparr>wr_out := xs\<rparr>) = wire_ok w"
  by (simp_all add: wire_ok_def)

lemma wire_sent_nil: "wire_ok w \<Longrightarrow> wire_sent B [] w w"
  unfolding wire_sent_def wire_ok_def by (subst serve.simps) auto

lemma wire_sent_append:
  assumes "wire_sent B a w w'" and "wire_sent B b w' w''"
  shows "wire_sent B (a @ b) w w''"
  unfolding wire_sent_def
proof (intro allI impI)
  fix bs rest out db
  assume o: "wr_open w" and "serve B (wr_bs w) (content (wr_buf w) @ a @ b) (wr_db w) = (Inr (bs, rest, out), db)"
  then have st: "serve_then B b (serve B (wr_bs w) (content (wr_buf w) @ a) (wr_db w)) = (Inr (bs, rest, out), db)"
    using serve_append [of B "wr_bs w" "content (wr_buf w) @ a" b] by simp
  obtain r db1 where r: "serve B (wr_bs w) (content (wr_buf w) @ a) (wr_db w) = (r, db1)" by fastforce
  with st obtain bs1 rest1 out1 where r1: "r = Inr (bs1, rest1, out1)"
    by (cases r) (auto simp: serve_then_def)
  then have w': "wr_open w'" "wr_bs w' = bs1" "content (wr_buf w') = rest1" "wr_db w' = db1"
      "wr_out w' = wr_out w @ concat out1"
    using assms(1) o r unfolding wire_sent_def by blast+
  obtain out2 where "serve B bs1 (rest1 @ b) db1 = (Inr (bs, rest, out2), db)" "out = out1 @ out2"
    using st r r1 by (auto simp: serve_then_def prepend_sent_Inr)
  then show "wr_open w'' \<and> wr_bs w'' = bs \<and> content (wr_buf w'') = rest \<and> wr_db w'' = db \<and> wr_out w'' = wr_out w @ concat out"
    using assms(2) w' unfolding wire_sent_def by simp
qed

lemma wire_send_ok:
  assumes "wire_ok w" and "d \<noteq> []"
  shows "\<exists>k w'. 0 < k \<and> k \<le> length d \<and> wire_send B d w = (Some k, w') \<and> wire_ok w' \<and> wire_sent B (take k d) w w'"
proof -
  let ?k = "piece w (length d)" and ?w1 = "w\<lparr>wr_step := Suc (wr_step w)\<rparr>"
  have k: "0 < ?k" "?k \<le> length d" using piece_bounds(1) piece_bounds(2) [of "length d" w] assms(2) by auto
  obtain buf where buf: "Buffer_append (wr_buf w) (take ?k d) = Inr buf" "Buffer_inv buf"
      "content buf = content (wr_buf w) @ take ?k d"
    using Buffer_append_correct [of "wr_buf w" "take ?k d"] assms(1) by (auto simp: wire_ok_def)
  obtain r db where r: "onMessage B (wr_bs w) buf [] (wr_db w) = (r, db)" by fastforce
  have sv: "serve B (wr_bs w) (content (wr_buf w) @ take ?k d) (wr_db w) = run_view (r, db)"
    using onMessage_serve [OF buf(2), of B "wr_bs w" "[]" "wr_db w"] buf(3) r by simp
  have "\<exists>w'. wire_send B d w = (Some ?k, w') \<and> wire_ok w' \<and> wire_sent B (take ?k d) w w'"
  proof (cases "wr_open w")
    case False
    then have "wire_send B d w = (Some ?k, ?w1)" by (simp add: wire_send_def Let_def)
    then show ?thesis using False assms(1) by (simp add: wire_sent_def)
  next
    case True
    show ?thesis
    proof (cases r)
      case (Inl e)
      then have "wire_send B d w = (Some ?k, ?w1\<lparr>wr_open := False, wr_db := db\<rparr>)"
        using True buf(1) r by (simp add: wire_send_def Let_def)
      then show ?thesis using sv Inl assms(1) by (simp add: wire_sent_def run_view_def)
    next
      case (Inr t)
      obtain bs buf' sent where t: "t = (bs, buf', sent)" by (cases t)
      then have s: "serve B (wr_bs w) (content (wr_buf w) @ take ?k d) (wr_db w) = (Inr (bs, content buf', sent), db)"
        using sv Inr by (simp add: run_view_def)
      have i: "Buffer_inv buf'" using onMessage_serve [OF buf(2), of B "wr_bs w" "[]" "wr_db w"] r Inr t by simp
      let ?w' = "?w1\<lparr>wr_bs := bs, wr_buf := buf', wr_db := db, wr_out := wr_out w @ concat sent\<rparr>"
      have "wire_send B d w = (Some ?k, ?w')" using True buf(1) r Inr t by (simp add: wire_send_def Let_def)
      moreover have "wire_ok ?w'" using serve_rest [OF s] i by (simp add: wire_ok_def)
      moreover have "wire_sent B (take ?k d) w ?w'" using True s by (simp add: wire_sent_def)
      ultimately show ?thesis by blast
    qed
  qed
  then show ?thesis using k by blast
qed

lemma wire_recv_ok:
  assumes "wire_ok w" and "0 < n" and "wr_out w \<noteq> []"
  shows "\<exists>data w'. wire_recv n w = (Received data, w') \<and> data \<noteq> [] \<and> length data \<le> n \<and> wire_ok w' \<and>
    wr_out w = data @ wr_out w' \<and> wire_peer w' = wire_peer w"
proof -
  let ?k = "piece w n" and ?w' = "w\<lparr>wr_step := Suc (wr_step w), wr_out := drop (piece w n) (wr_out w)\<rparr>"
  have "wire_recv n w = (Received (take ?k (wr_out w)), ?w')" using assms(3) by (simp add: wire_recv_def Let_def)
  then show ?thesis
    using assms piece_bounds(1) [of w n] piece_bounds(2) [OF assms(2), of w] by (intro exI [of _ "take ?k (wr_out w)"] exI [of _ ?w'])
      (auto simp: wire_peer_def)
qed

lemma wire_client_calls [simp]: "cl_send (wire_client B E) = wire_send B" "cl_recv (wire_client B E) = wire_recv"
  by (simp_all add: wire_client_def)

lemma wire_recv_none: "wr_out w = [] \<Longrightarrow> fst (wire_peer w) \<Longrightarrow> \<exists>w'. wire_recv n w = (Blocks, w')"
  by (simp add: wire_recv_def wire_peer_def Let_def)

interpretation wire: link "wire_client B E" wire_ok wr_out wire_peer fst "wire_sent B"
  for B :: "('d, 'w) bank" and E :: "('d, 'w wire) client"
  unfolding link_def wire_client_calls
  by (intro conjI allI impI; (rule wire_send_ok wire_sent_nil wire_recv_ok wire_recv_none, assumption+)?)
    (erule wire_sent_append, assumption)

subsection \<open>A command from end to end\<close>

text \<open>A connection between two commands.\<close>

definition idle :: "'w wire \<Rightarrow> bool" where
  "idle w \<longleftrightarrow> wire_ok w \<and> wr_open w \<and> content (wr_buf w) = [] \<and> wr_out w = [] \<and> ready (wr_bs w)"

lemma serve_one:
  assumes "length body + 12 \<le> 2048"
    and "serve_packet B bs (request cmd body) (length body + 12) db = (Inr (response, bs'), db')"
  shows "serve B bs (request cmd body) db = (Inr (bs', [], [response]), db')"
proof -
  have l: "unat (of_nat (length body + 8) :: 16 word) = length body + 8"
    using assms(1) by (simp add: unat_of_nat del: of_nat_add)
  have "drop 2 (request cmd body) = enc16 (of_nat (length body + 8)) @ body @
      fold_hash cmd (rfc_md5 (enc16 cmd @ enc16 (of_nat (length body + 8)) @ body))"
    by (simp add: request_def seal_def drop_append_exact)
  then have n: "packet_length (request cmd body) = length body + 12"
    using l by (simp only: packet_length_def unseal16)
  have "serve B bs' [] db' = (Inr (bs', [], []), db')" by (subst serve.simps) simp
  then show ?thesis using n assms(2) by (subst serve_step) (simp add: length_request)
qed

lemma length_received: "4 \<le> length a \<Longrightarrow> length a \<le> length buf \<Longrightarrow> length (received a buf) = length buf"
  by (simp add: received_def)

text \<open>
  What \<open>transact\<close> does on an idle connection, given what the server does with the packet: the answer
  is stored, and what the server sent behind it is still to be received.
\<close>

lemma transact_served_first:
  assumes "idle w" and "length (cs_buffer s) = 2048" and "writes p req" and "length req + 12 \<le> 2048"
    and "serve_packet B (wr_bs w) (request cmd req) (length req + 12) (wr_db w) =
      (Inr (answer cmd cnt seq err msg body @ later, bs'), db')"
    and "length body + 48 \<le> 2048" and "message msg"
  obtains w' jis buf hash where "wire_ok w'" "wire_peer w' = (True, bs', wr_buf w', db')" "content (wr_buf w') = []"
    "wr_out w' = later" "in_inv jis" "in_rest jis = body @ hash" "length buf = 2048"
    "transact (wire_client B E) (make_request cmd p) k (s, w) = (if err = 0 then k cnt jis else c_ret ())
       (s\<lparr>cs_buffer := received (answer cmd cnt seq err msg body) buf, cs_errorCode := err, cs_errorMsg := msg\<rparr>, w')"
proof -
  obtain jos where jos: "make_request cmd p = Inr jos" "out_inv jos" "out_msg jos = request cmd req"
    using make_request_correct [OF assms(3)] assms(4) by auto
  have sv: "serve B (wr_bs w) (content (wr_buf w) @ request cmd req) (wr_db w) =
      (Inr (bs', [], [answer cmd cnt seq err msg body @ later]), db')"
    using serve_one [OF assms(4,5)] assms(1) by (simp add: idle_def)
  have pend: "wr_out w1 = answer cmd cnt seq err msg body @ later" if "wire_sent B (out_msg jos) w w1" for w1
    using that sv assms(1) jos(3) by (auto simp: wire_sent_def idle_def)
  have ok: "wire_ok w" using assms(1) by (simp add: idle_def)
  obtain w1 w' jis buf hash where w: "wire_sent B (out_msg jos) w w1" "wire_ok w'" "wr_out w' = later"
      "wire_peer w' = wire_peer w1" "in_inv jis" "in_rest jis = body @ hash" "length buf = 2048"
      "transact (wire_client B E) (Inr jos) k (s, w) = (if err = 0 then k cnt jis else c_ret ())
       (s\<lparr>cs_buffer := received (answer cmd cnt seq err msg body) buf, cs_errorCode := err, cs_errorMsg := msg\<rparr>, w')"
    using wire.transact_ok [OF ok assms(2) jos(2) assms(6,7) pend] by metis
  have "wire_peer w' = (True, bs', wr_buf w', db') \<and> content (wr_buf w') = []"
    using w(1,4) sv assms(1) jos(3) by (auto simp: wire_sent_def idle_def wire_peer_def)
  then show thesis using that w(2,3,5-8) jos(1) by metis
qed

text \<open>Without anything behind the answer the connection is idle again.\<close>

lemma transact_served:
  assumes "idle w" and "length (cs_buffer s) = 2048" and "writes p req" and "length req + 12 \<le> 2048"
    and "serve_packet B (wr_bs w) (request cmd req) (length req + 12) (wr_db w) = (Inr (answer cmd cnt seq err msg body, bs'), db')"
    and "ready bs'" and "length body + 48 \<le> 2048" and "message msg"
  obtains w' jis buf hash where "idle w'" "wr_db w' = db'" "in_inv jis" "in_rest jis = body @ hash" "length buf = 2048"
    "transact (wire_client B E) (make_request cmd p) k (s, w) = (if err = 0 then k cnt jis else c_ret ())
       (s\<lparr>cs_buffer := buf, cs_errorCode := err, cs_errorMsg := msg\<rparr>, w')"
proof -
  have sv: "serve_packet B (wr_bs w) (request cmd req) (length req + 12) (wr_db w) =
      (Inr (answer cmd cnt seq err msg body @ [], bs'), db')" using assms(5) by simp
  from transact_served_first [OF assms(1-4) sv assms(7,8)]
  obtain w' jis buf hash where w: "wire_ok w'" "wire_peer w' = (True, bs', wr_buf w', db')" "content (wr_buf w') = []"
    "wr_out w' = []" "in_inv jis" "in_rest jis = body @ hash" "length buf = 2048"
    "transact (wire_client B E) (make_request cmd p) k (s, w) = (if err = 0 then k cnt jis else c_ret ())
       (s\<lparr>cs_buffer := received (answer cmd cnt seq err msg body) buf, cs_errorCode := err, cs_errorMsg := msg\<rparr>, w')" .
  have "idle w'" "wr_db w' = db'" using w(1-4) assms(6) by (simp_all add: idle_def wire_peer_def)
  moreover have "length (received (answer cmd cnt seq err msg body) buf) = 2048"
    using w(7) assms(7) by (simp add: length_received length_answer)
  ultimately show thesis using that w(5,6,8) by metis
qed

lemma message_reply:
  "message (snd (reply login_msgs code))" "message (snd (reply deposit_msgs code))"
  "message (snd (reply transfer_msgs code))"
  by (auto simp: reply_def login_msgs_def deposit_msgs_def transfer_msgs_def message_def wrong_user_def
      db_failed_def no_account_def wrong_pass_def poor_def no_other_def split: option.splits if_splits)

lemma GetAttribute_Some: "cs_request s k = Some v \<Longrightarrow> GetAttribute k (s, w) = Some (Inr v, (s, w))"
  by (simp add: GetAttribute_def)

text \<open>The strings of the client's program when it runs on the wire are those of \<open>E\<close>.\<close>

lemma str_world_wire: "str_world (wire_client B E) = str_world E"
  by (simp add: str_world_def wire_client_def)


text \<open>A client and a connection whose calls move at most three bytes.\<close>

definition demo_client :: "(int, nat wire) client" where
  "demo_client = \<lparr>cl_connect = (\<lambda>w. (True, w)), cl_send = (\<lambda>d w. (None, w)), cl_recv = (\<lambda>n w. (Blocks, w)),
     cl_close = (\<lambda>w. w), cl_arith = demo_arith, cl_behind = (\<lambda>k. replicate 15 65), cl_msg_end = 66, cl_dbl = 0,
     cl_u32 = 0, cl_u16 = 0\<rparr>"

definition demo_wire :: "nat wire" where
  "demo_wire = \<lparr>wr_open = True, wr_bs = BankSession_new (replicate 2048 0), wr_buf = Buffer_new, wr_db = 0,
     wr_out = [], wr_cut = (\<lambda>_. 3), wr_step = 0\<rparr>"

definition demo_session :: "16 word \<Rightarrow> (bytes \<rightharpoonup> bytes) \<Rightarrow> int client_session" where
  "demo_session cmd m = \<lparr>cs_buffer = replicate 2048 0, cs_cmd = cmd, cs_request = m, cs_response = Map.empty,
     cs_details = [], cs_errorCode = 0, cs_errorMsg = []\<rparr>"

lemma idle_demo: "idle demo_wire"
  by (simp add: idle_def demo_wire_def wire_ok_def ready_new)

lemma str_world_demo: "str_world demo_client"
  by (simp add: str_world_def demo_client_def)

lemma demo_session_simps [simp]:
  "length (cs_buffer (demo_session cmd m)) = 2048" "cs_cmd (demo_session cmd m) = cmd"
  "cs_request (demo_session cmd m) = m" "cs_response (demo_session cmd m) = Map.empty"
  "cs_details (demo_session cmd m) = []"
  by (simp_all add: demo_session_def)


text \<open>What an operation's account must look like for its answer to fit the client's buffer.\<close>

definition showable :: "('d, 'w) bank \<Rightarrow> 'd account \<Rightarrow> bool" where
  "showable B acc \<longleftrightarrow> length (acc_name acc) + length (DoubleToString (b_arith B) (acc_balance acc)) \<le> 1977 \<and>
     19 \<le> length (acc_op_date acc) \<and> 0 \<notin> set (take 19 (acc_op_date acc))"

text \<open>What the client's session holds of an account.\<close>

definition shown :: "('d, 'w) bank \<Rightarrow> 'd account \<Rightarrow> (bytes \<rightharpoonup> bytes) \<Rightarrow> bytes \<rightharpoonup> bytes" where
  "shown B acc m = m(lit ''name'' \<mapsto> acc_name acc, lit ''balance'' \<mapsto> DoubleToString (b_arith B) (acc_balance acc),
     lit ''trans_date'' \<mapsto> take 19 (acc_op_date acc))"

lemma length_showable: "showable B acc \<Longrightarrow> length (account_data B acc) + 48 \<le> 2048"
  by (simp add: showable_def account_data_def enc_string_short)

lemma account_reply_ok:
  assumes "showable B acc" and "in_inv jis" "in_rest jis = account_data B acc @ hash"
  shows "account_reply cnt jis (s, w) = Some (Inr (), (s\<lparr>cs_response := shown B acc (cs_response s)\<rparr>, w))"
proof -
  let ?bal = "DoubleToString (b_arith B) (acc_balance acc)" and ?date = "take 19 (acc_op_date acc)"
  have l: "length (acc_name acc) < 2 ^ 16" "length ?bal < 2 ^ 16" "length ?date = 19" "0 \<notin> set ?date"
    using assms(1) by (simp_all add: showable_def)
  have r: "in_rest jis = enc_string (acc_name acc) @ enc_string ?bal @ ?date @ hash"
    using assms(3) by (simp add: account_data_def)
  obtain j1 where j1: "JIn_string jis = Inr (acc_name acc, j1)" "in_inv j1" "in_rest j1 = enc_string ?bal @ ?date @ hash"
    using readsE [OF reads_string [OF l(1)] assms(2) r] .
  obtain j2 where j2: "JIn_string j1 = Inr (?bal, j2)" "in_inv j2" "in_rest j2 = ?date @ hash"
    using readsE [OF reads_string [OF l(2)] j1(2,3)] .
  obtain j3 where "read_chars j2 19 = Inr (?date, j3)"
    using readsE [OF reads_chars [OF l(3,4)] j2(2,3)] .
  then show ?thesis
    using j1(1) j2(1) by (simp add: account_reply_def c_then_def c_simps SetResponse_def shown_def)
qed

text \<open>A command that is answered with an account or with an error.\<close>

lemma account_served:
  assumes "idle w" and "length (cs_buffer s) = 2048" and "writes p req" and "length req + 12 \<le> 2048"
    and "serve_packet B (wr_bs w) (request cmd req) (length req + 12) (wr_db w) =
      (Inr (answer cmd 0 0 err msg (if err = 0 then account_data B acc else []), bs'), db')"
    and "ready bs'" and "message msg" and "err = 0 \<Longrightarrow> showable B acc"
  shows "\<exists>s' w'. transact (wire_client B E) (make_request cmd p) account_reply (s, w) = Some (Inr (), (s', w')) \<and>
    cs_errorCode s' = err \<and> cs_errorMsg s' = msg \<and>
    cs_response s' = (if err = 0 then shown B acc (cs_response s) else cs_response s) \<and>
    cs_request s' = cs_request s \<and> idle w' \<and> wr_db w' = db' \<and> length (cs_buffer s') = 2048"
proof -
  let ?body = "if err = 0 then account_data B acc else []"
  have "length ?body + 48 \<le> 2048" using assms(8) length_showable [of B acc] by simp
  from transact_served [OF assms(1-6) this assms(7)]
  obtain w' jis buf hash where t: "idle w'" "wr_db w' = db'" "in_inv jis" "in_rest jis = ?body @ hash" "length buf = 2048"
      "transact (wire_client B E) (make_request cmd p) account_reply (s, w) = (if err = 0 then account_reply 0 jis else c_ret ())
         (s\<lparr>cs_buffer := buf, cs_errorCode := err, cs_errorMsg := msg\<rparr>, w')" .
  show ?thesis
  proof (cases "err = 0")
    case True
    then show ?thesis
      using t assms(8) account_reply_ok [of B acc jis hash 0 "s\<lparr>cs_buffer := buf, cs_errorCode := err, cs_errorMsg := msg\<rparr>" w']
      by simp
  next
    case False
    then show ?thesis using t by (simp add: c_simps)
  qed
qed

text \<open>
  A transfer from the attributes of the session to its result: the bank is asked to move the amount from
  the one account to the other, with the password; the session ends with the result code and its text and,
  if the transfer was made, with the owner's name, the new balance and the date; the command returns, and
  the connection is ready for the next one.
\<close>

lemma transfer_command:
  assumes "idle w" and "length (cs_buffer s) = 2048" and "str_world E" and "cs_cmd s = 5"
    and "cs_request s (lit ''account_id'') = Some aid" "cs_request s (lit ''pass'') = Some pass"
    and "cs_request s (lit ''money'') = Some money" "cs_request s (lit ''other_account_id'') = Some other"
    and "account_id_text aid" "account_id_text other" "length pass < 16" "0 \<notin> set pass" "length money \<le> 2006"
    and "BankService_Transfer B (asked B aid pass money) other (wr_db w) = (Inr (code, acc), db')"
    and "(err, msg) = reply transfer_msgs code" and "err = 0 \<Longrightarrow> showable B acc"
  shows "\<exists>s' w'. Client_DoAction (wire_client B E) (s, w) = Some (Inr True, (s', w')) \<and>
    cs_errorCode s' = err \<and> cs_errorMsg s' = msg \<and>
    cs_response s' = (if err = 0 then shown B acc (cs_response s) else cs_response s) \<and>
    cs_request s' = cs_request s \<and> idle w' \<and> wr_db w' = db' \<and> length (cs_buffer s') = 2048"
proof -
  let ?C = "wire_client B E"
  let ?p = "\<lambda>jos. bind_res (put_chars ?C (lit ''account_id'') aid 6 jos) (\<lambda>jos.
       bind_res (put_one_pass ?C 5 (lit ''pass'') pass jos) (\<lambda>jos.
       bind_res (JOut_string jos money) (put_chars ?C (lit ''other_account_id'') other 6)))"
  obtain cipher where c: "enciphered 5 pass cipher" "length cipher = 16" "writes (put_one_pass ?C 5 (lit ''pass'') pass) cipher"
    using put_pass_writes [of ?C pass] assms(3,11,12) by (metis str_world_wire)
  let ?req = "aid @ cipher @ enc_string money @ other"
  have ids: "length aid = 6" "length other = 6" using assms(9,10) by (simp_all add: account_id_text_def)
  have chars: "writes (put_chars ?C k v 6) v" if "length v = 6" for k v
    using writes_put_chars [of 6 v ?C k] that by simp
  have p: "writes ?p ?req"
    by (intro writes_seq [OF chars [OF ids(1)]] writes_seq [OF c(3)] writes_seq [OF writes_string chars [OF ids(2)]])
  have l: "length ?req + 12 \<le> 2048" "length money < 2 ^ 16"
    using assms(13) c(2) ids by (simp_all add: enc_string_short)
  have r: "ready (wr_bs w)" using assms(1) by (simp add: idle_def)
  have d: "19 \<le> length (acc_op_date acc)" if "err = 0" using assms(16) that by (simp add: showable_def)
  obtain bs' where sv: "serve_packet B (wr_bs w) (request 5 ?req) (length ?req + 12) (wr_db w) =
      (Inr (answer 5 0 0 err msg (if err = 0 then account_data B acc else []), bs'), db')" "ready bs'"
    using Transfer_served [OF r _ l(1) assms(9) c(1) l(2) assms(10,14,15) d, of "request 5 ?req" "[]"] by auto
  have "message msg" using message_reply(3) [of code] assms(15) by (metis snd_conv)
  from account_served [OF assms(1,2) p l(1) sv this assms(16), of E]
  show ?thesis
    using assms(4-8)
    by (auto simp: Client_DoAction_def Client_actions_def Client_Transfer_def c_then_def c_simps GetAttribute_Some)
qed

text \<open>An answer of the server on its way, received in pieces of three bytes.\<close>

theorem client_accepts_sealed_witness:
  "\<exists>s' w'. Recv (wire_client (demo_bank []) demo_client) (demo_session 1 Map.empty, demo_wire\<lparr>wr_out := answer 1 0 0 0 [] []\<rparr>)
      = Some (Inr (), (s', w')) \<and>
    (\<exists>front. enc16 1 @ enc16 8 @ take 44 (drop 4 (cs_buffer s')) = seal 1 front)"
proof -
  let ?w = "demo_wire\<lparr>wr_out := answer 1 0 0 0 [] []\<rparr>" and ?s = "demo_session 1 Map.empty"
  let ?s' = "?s\<lparr>cs_buffer := received (answer 1 0 0 0 [] []) (cs_buffer ?s)\<rparr>"
  have ok: "wire_ok ?w" using idle_demo by (simp add: idle_def)
  have pend: "wr_out ?w = answer 1 0 0 0 [] [] @ []" by simp
  from wire.Recv_accepts [OF ok _ refl pend, of ?s "demo_bank []" demo_client]
  obtain w' where w': "Recv (wire_client (demo_bank []) demo_client) (?s, ?w) = Some (Inr (), (?s', w'))" by auto
  have f: "load16 (cs_buffer ?s') = 1" "load16 (drop 2 (cs_buffer ?s')) = 8"
    by (simp_all add: received_def answer_fields drop_append_exact)
  have "\<exists>front. enc16 1 @ enc16 8 @ take 44 (drop 4 (cs_buffer ?s')) = seal 1 front"
    using client_accepts_sealed [OF w' _ f(1) [symmetric] f(2) [symmetric]] by simp
  then show ?thesis using w' by blast
qed

end
