(* ===== verification/ClientReports.thy ===== *)
theory ClientReports imports ClientWire begin

text \<open>
  The reports from end to end: the client's loop over the rows (\<open>bill_loop\<close>) against the packets the
  server's report commands write.  A day's bill arrives row by row.  A history report of two rows does not:
  the length field of its second packet counts the first packet too, and the client waits for bytes that
  are never sent.
\<close>

subsection \<open>The server's part\<close>

text \<open>What is written into an empty stream.\<close>

definition writes_fresh :: "(jout \<Rightarrow> jout res) \<Rightarrow> bytes \<Rightarrow> bool" where
  "writes_fresh p out \<longleftrightarrow> (\<forall>jos. out_inv jos \<longrightarrow> out_msg jos = [] \<longrightarrow>
     (\<exists>jos'. p jos = Inr jos' \<and> out_inv jos' \<and> out_msg jos' = out))"

lemma write_report_correct:
  assumes "ready s" and "code \<noteq> 6" "code \<noteq> - 1"
    and "writes_fresh p out"
  shows "\<exists>jos'. write_report s code p = Inr (s\<lparr>bs_jos := jos'\<rparr>) \<and> out_inv jos' \<and> out_msg jos' = out"
proof -
  have "out_inv (bs_jos s)" "out_msg (bs_jos s) = []" using assms(1) by (simp_all add: ready_def)
  then obtain jos' where "p (bs_jos s) = Inr jos'" "out_inv jos'" "out_msg jos' = out"
    using assms(4) unfolding writes_fresh_def by blast
  then show ?thesis using assms(2,3) by (intro exI [of _ jos']) (simp add: write_report_def)
qed

lemma report_served:
  assumes "ready bs" and "length req + 12 \<le> 2048" and "TransactionManager_actions cmd = Some t"
    and "\<And>s. parsed s cmd req \<Longrightarrow> Execute t B s w = lift (write_report s code p) w'"
    and "code \<noteq> 6" "code \<noteq> - 1"
    and "writes_fresh p out"
  shows "\<exists>bs'. serve_packet B bs (request cmd req) (length req + 12) w = (Inr (out, bs'), w') \<and> ready bs'"
proof -
  obtain s where s: "parsed s cmd req" "serve_packet B bs (request cmd req) (length req + 12) =
      andThen (try_catch (BankSession_DoAction B s) (\<lambda>e. ret s)) (\<lambda>s. lift (hand_over s))"
    using serve_request [OF assms(1) _ assms(2), of "request cmd req" cmd "[]"] by auto
  have r: "ready s" using s(1) by (simp add: parsed_def)
  obtain jos where jos: "write_report s code p = Inr (s\<lparr>bs_jos := jos\<rparr>)" "out_inv jos" "out_msg jos = out"
    using write_report_correct [OF r assms(5-7)] by blast
  have "BankSession_DoAction B s w = (Inr (s\<lparr>bs_jos := jos\<rparr>), w')"
    using DoAction_Execute [OF _ assms(3), of s B] assms(4) [OF s(1)] s(1) jos(1) by (simp add: parsed_def prog_simps)
  moreover have "hand_over (s\<lparr>bs_jos := jos\<rparr>) = Inr (out, s\<lparr>bs_jos := JOut_Clear jos\<rparr>)"
    using hand_over_correct [of "s\<lparr>bs_jos := jos\<rparr>"] jos(2,3) by simp
  moreover have "ready (s\<lparr>bs_jos := JOut_Clear jos\<rparr>)" using r by (intro ready_clear) (simp add: ready_def)
  ultimately show ?thesis using s(2) by (simp add: prog_simps)
qed

definition date_text :: "bytes \<Rightarrow> bool" where
  "date_text d \<longleftrightarrow> length d = 10 \<and> 0 \<notin> set d"

lemma QueryDayBill_calls:
  assumes "parsed s cmd (enc32 page @ date)" "date_text date"
  shows "QueryDayBill_Execute B s = andThen (BankService_QueryDayBill B page date) (\<lambda>(code, details).
     lift (write_report s code (day_packets B cmd (of_nat (length details)) 0 details)))"
proof -
  obtain hash where r: "request_stream s = Inr (JIn_make (enc32 page @ date @ hash))"
    using assms(1) by (auto simp: parsed_def)
  have d: "length date = 10" "0 \<notin> set date" using assms(2) by (simp_all add: date_text_def)
  obtain j1 where j1: "JIn_uint32 (JIn_make (enc32 page @ date @ hash)) = Inr (page, j1)" "in_inv j1" "in_rest j1 = date @ hash"
    using readsE [OF reads_uint32 JIn_make_start(1)] JIn_make_start(2) by metis
  obtain j2 where "read_chars j1 10 = Inr (date, j2)" using readsE [OF reads_chars [OF d] j1(2,3)] .
  then show ?thesis
    using r j1(1) assms(1) by (simp add: QueryDayBill_Execute_def fun_eq_iff prog_simps parsed_def)
qed

lemma QueryHistoryBill_calls:
  assumes "parsed s cmd (enc32 page @ from_date @ to_date)" "date_text from_date" "date_text to_date"
  shows "QueryHistoryBill_Execute B s = andThen (BankService_QueryHistoryBill B page from_date to_date) (\<lambda>(code, details).
     lift (write_report s code (history_packets B cmd (of_nat (length details)) 0 details)))"
proof -
  obtain hash where r: "request_stream s = Inr (JIn_make (enc32 page @ from_date @ to_date @ hash))"
    using assms(1) by (auto simp: parsed_def)
  have d: "length from_date = 10" "0 \<notin> set from_date" "length to_date = 10" "0 \<notin> set to_date"
    using assms(2,3) by (simp_all add: date_text_def)
  obtain j1 where j1: "JIn_uint32 (JIn_make (enc32 page @ from_date @ to_date @ hash)) = Inr (page, j1)" "in_inv j1"
      "in_rest j1 = from_date @ to_date @ hash"
    using readsE [OF reads_uint32 JIn_make_start(1)] JIn_make_start(2) by metis
  obtain j2 where j2: "read_chars j1 10 = Inr (from_date, j2)" "in_inv j2" "in_rest j2 = to_date @ hash"
    using readsE [OF reads_chars [OF d(1,2)] j1(2,3)] .
  obtain j3 where "read_chars j2 10 = Inr (to_date, j3)" using readsE [OF reads_chars [OF d(3,4)] j2(2,3)] .
  then show ?thesis
    using r j1(1) j2(1) assms(1) by (simp add: QueryHistoryBill_Execute_def fun_eq_iff prog_simps parsed_def)
qed

subsection \<open>One row\<close>

text \<open>A row whose packet the client can read, and what the client makes of it.\<close>

definition row_text :: "('d, 'w) bank \<Rightarrow> 'd trans_detail \<Rightarrow> bool" where
  "row_text B td \<longleftrightarrow> full_row td \<and> 0 \<notin> set (take 19 (td_trans_date td)) \<and> 0 \<notin> set (take 6 (td_account_id td)) \<and>
     0 \<notin> set (take 6 (td_other_account_id td)) \<and>
     length (DoubleToString (b_arith B) (td_money td)) + length (td_abstract_name td) +
       length (DoubleToString (b_arith B) (td_balance td)) \<le> 1959"

definition client_row :: "('d, 'w) bank \<Rightarrow> ('d, 'v) client \<Rightarrow> 'd trans_detail \<Rightarrow> 'd trans_detail" where
  "client_row B E td = \<lparr>td_trans_id = [], td_account_id = take 6 (td_account_id td),
     td_other_account_id = take 6 (td_other_account_id td), td_abstract_name = td_abstract_name td,
     td_money = dbl_in (cl_arith E) (cl_dbl E) (DoubleToString (b_arith B) (td_money td)),
     td_balance = dbl_in (cl_arith E) (cl_dbl E) (DoubleToString (b_arith B) (td_balance td)),
     td_trans_date = take 19 (td_trans_date td), td_total = td_total td\<rparr>"

lemma length_row_text: "row_text B td \<Longrightarrow> length (detail_data B td) + 48 \<le> 2048"
  by (simp add: row_text_def full_row_def detail_data_def enc_string_short)

lemma read_detail_ok:
  assumes "row_text B td" and "length h = 4"
    and "d = h @ enc16 cnt @ enc16 seq @ enc16 err @ take 30 (msg_array msg) @ detail_data B td @ hash"
  shows "read_detail E (JIn_make d) = Inr (client_row B E td, cnt, seq)"
proof -
  let ?date = "take 19 (td_trans_date td)" and ?aid = "take 6 (td_account_id td)"
  let ?oid = "take 6 (td_other_account_id td)" and ?name = "td_abstract_name td"
  let ?money = "DoubleToString (b_arith B) (td_money td)" and ?bal = "DoubleToString (b_arith B) (td_balance td)"
  have t: "length ?date = 19" "0 \<notin> set ?date" "length ?aid = 6" "0 \<notin> set ?aid" "length ?oid = 6" "0 \<notin> set ?oid"
      "length ?money < 2 ^ 16" "length ?name < 2 ^ 16" "length ?bal < 2 ^ 16"
    using assms(1) by (simp_all add: row_text_def full_row_def)
  obtain j0 where j0: "head_fields (JIn_make d) = Inr (cnt, seq, err, take 30 (msg_array msg), j0)" "in_inv j0"
      "in_rest j0 = detail_data B td @ hash"
    using head_fields_ok [OF assms(2,3)] .
  have r: "in_rest j0 = ?date @ ?aid @ ?oid @ enc_string ?money @ enc_string ?name @ enc_string ?bal @ enc32 (td_total td) @ hash"
    using j0(3) by (simp add: detail_data_def)
  obtain j1 where j1: "read_chars j0 19 = Inr (?date, j1)" "in_inv j1"
      "in_rest j1 = ?aid @ ?oid @ enc_string ?money @ enc_string ?name @ enc_string ?bal @ enc32 (td_total td) @ hash"
    using readsE [OF reads_chars [OF t(1,2)] j0(2) r] .
  obtain j2 where j2: "read_chars j1 6 = Inr (?aid, j2)" "in_inv j2"
      "in_rest j2 = ?oid @ enc_string ?money @ enc_string ?name @ enc_string ?bal @ enc32 (td_total td) @ hash"
    using readsE [OF reads_chars [OF t(3,4)] j1(2,3)] .
  obtain j3 where j3: "read_chars j2 6 = Inr (?oid, j3)" "in_inv j3"
      "in_rest j3 = enc_string ?money @ enc_string ?name @ enc_string ?bal @ enc32 (td_total td) @ hash"
    using readsE [OF reads_chars [OF t(5,6)] j2(2,3)] .
  obtain j4 where j4: "JIn_string j3 = Inr (?money, j4)" "in_inv j4"
      "in_rest j4 = enc_string ?name @ enc_string ?bal @ enc32 (td_total td) @ hash"
    using readsE [OF reads_string [OF t(7)] j3(2,3)] .
  obtain j5 where j5: "JIn_string j4 = Inr (?name, j5)" "in_inv j5" "in_rest j5 = enc_string ?bal @ enc32 (td_total td) @ hash"
    using readsE [OF reads_string [OF t(8)] j4(2,3)] .
  obtain j6 where j6: "JIn_string j5 = Inr (?bal, j6)" "in_inv j6" "in_rest j6 = enc32 (td_total td) @ hash"
    using readsE [OF reads_string [OF t(9)] j5(2,3)] .
  obtain j7 where "JIn_uint32 j6 = Inr (td_total td, j7)" using readsE [OF reads_uint32 j6(2,3)] .
  then show ?thesis
    using j0(1) j1(1) j2(1) j3(1) j4(1) j5(1) j6(1) by (simp add: read_detail_def client_row_def)
qed

text \<open>The stream of a packet that has just been received.\<close>

lemma row_received:
  assumes "row_text B td" and "cs_buffer s = received (detail_answer B cmd cnt seq td) buf"
  obtains jis where "response_stream s = Inr jis" "read_detail E jis = Inr (client_row B E td, cnt, seq)"
proof -
  obtain hash where r: "response_stream s = Inr (JIn_make (mem16 cmd @ mem16 (of_nat (length (detail_data B td) + 8)) @
      enc16 cnt @ enc16 seq @ enc16 0 @ take 30 (msg_array []) @ detail_data B td @ hash))"
    using response_stream_received [of s cmd cnt seq 0 "[]" "detail_data B td" buf] length_row_text [OF assms(1)] assms(2)
    by (auto simp: detail_answer_def)
  have "read_detail E (JIn_make ((mem16 cmd @ mem16 (of_nat (length (detail_data B td) + 8))) @
      enc16 cnt @ enc16 seq @ enc16 0 @ take 30 (msg_array []) @ detail_data B td @ hash)) = Inr (client_row B E td, cnt, seq)"
    by (rule read_detail_ok [OF assms(1) _ refl]) simp
  then show thesis using r by (intro that) simp_all
qed

subsection \<open>The loop over the rows\<close>

context link
begin

text \<open>
  The loop with the packet of the row \<open>td\<close> in the buffer and those of \<open>tds\<close> on their way.
\<close>

lemma bill_loop_reads:
  assumes "ok w" and "length (cs_buffer s) = 2048" and "cs_buffer s = received (detail_answer B cmd cnt seq td) buf"
    and "pending w = report B cmd cnt (seq + 1) tds" and "\<forall>t \<in> set (td # tds). row_text B t"
    and "unat seq + length (td # tds) = unat cnt" and "length tds < n"
  shows "\<exists>s' w'. bill_loop C n (s, w) = Some (Inr (), (s', w')) \<and> ok w' \<and> pending w' = [] \<and> peer w' = peer w \<and>
    (\<exists>buf'. s' = s\<lparr>cs_buffer := buf', cs_details := cs_details s @ map (client_row B C) (td # tds)\<rparr> \<and> length buf' = 2048)"
  using assms
proof (induction tds arbitrary: n s w seq td buf)
  case Nil
  obtain jis where jis: "response_stream s = Inr jis" "read_detail C jis = Inr (client_row B C td, cnt, seq)"
    using row_received [of B td s cmd cnt seq buf C] Nil.prems(3,5) by auto
  obtain m where m: "n = Suc m" using Nil.prems(7) by (cases n) auto
  have "uint seq = uint cnt - 1" using Nil.prems(6) by (metis One_nat_def add_diff_cancel_right' list.size(3,4) of_nat_1 of_nat_add plus_nat.add_0 uint_nat)
  then show ?case
    using jis m Nil.prems(1,2,4)
    by (intro exI [of _ "s\<lparr>cs_details := cs_details s @ [client_row B C td]\<rparr>"] exI [of _ w])
      (auto simp: c_then_def c_simps AddDetail_def intro!: exI [of _ "cs_buffer s"])
next
  case (Cons t ts)
  let ?s = "s\<lparr>cs_details := cs_details s @ [client_row B C td]\<rparr>"
  let ?a = "detail_answer B cmd cnt (seq + 1) t" and ?row = "client_row B C td"
  obtain jis where jis: "response_stream s = Inr jis" "read_detail C jis = Inr (?row, cnt, seq)"
    using row_received [of B td s cmd cnt seq buf C] Cons.prems(3,5) by auto
  obtain m where m: "n = Suc m" "length ts < m" using Cons.prems(7) by (cases n) auto
  have "int (unat seq) + int (length (td # t # ts)) = int (unat cnt)" using Cons.prems(6) by (metis of_nat_add)
  then have "uint seq \<noteq> uint cnt - 1" by simp
  then have step: "bill_loop C n (s, w) = c_then (Recv C) (\<lambda>_. bill_loop C m) (?s, w)"
    using jis m(1) by (simp add: c_then_def c_simps AddDetail_def)
  have "row_text B t" using Cons.prems(5) by simp
  then have fits: "length (detail_data B t) + 48 \<le> 2048" by (rule length_row_text)
  have buf: "length (cs_buffer ?s) = 2048" using Cons.prems(2) by simp
  have pend: "pending w = ?a @ report B cmd cnt (seq + 2) ts" using Cons.prems(4) by (simp add: add.commute)
  from Recv_accepts [OF Cons.prems(1) buf detail_answer_def pend fits]
  obtain w1 where w1: "Recv C (?s, w) = Some (Inr (), (?s\<lparr>cs_buffer := received ?a (cs_buffer ?s)\<rparr>, w1))" "ok w1"
      "pending w1 = report B cmd cnt (seq + 2) ts" "peer w1 = peer w" by (elim exE conjE)
  let ?s1 = "?s\<lparr>cs_buffer := received ?a (cs_buffer ?s)\<rparr>"
  have "length ?a = 48 + length (detail_data B t)" by (simp add: detail_answer_def length_answer)
  then have b1: "length (cs_buffer ?s1) = 2048" using fits Cons.prems(2) by (simp add: received_def)
  have "unat seq + 1 < 2 ^ 16" using Cons.prems(6) u16_less [of cnt] by simp
  then have "unat (seq + 1) = unat seq + 1" by (simp add: unat_word_ariths)
  then have "unat (seq + 1) + length (t # ts) = unat cnt" using Cons.prems(6) by simp
  moreover have "pending w1 = report B cmd cnt (seq + 1 + 1) ts" using w1(3) by (simp add: add.assoc)
  ultimately obtain s' w' buf' where "bill_loop C m (?s1, w1) = Some (Inr (), (s', w'))" "ok w'" "pending w' = []" "peer w' = peer w1"
      "s' = ?s1\<lparr>cs_buffer := buf', cs_details := cs_details ?s1 @ map (client_row B C) (t # ts)\<rparr>" "length buf' = 2048"
    using Cons.IH [OF w1(2) b1, of "seq + 1" t "cs_buffer ?s" m] Cons.prems(5) m(2) by auto
  then show ?case
    using step w1(1,4) by (intro exI [of _ s'] exI [of _ w']) (auto simp: c_then_def intro!: exI [of _ buf'])
qed

text \<open>
  A packet whose length field promises more than the peer sends: the client receives what there is and
  waits.
\<close>

lemma Recv_waits:
  assumes "ok w" and "up (peer w)" and "length (cs_buffer s) = 2048"
    and "pending w = enc16 cmd @ enc16 len @ rest" "36 \<le> length rest" "length rest \<le> 2044" "length rest < unat len + 36"
  shows "Recv C (s, w) = None"
proof -
  let ?b1 = "take 40 (pending w) @ drop 40 (cs_buffer s)"
  have lp: "length (pending w) = length rest + 4" using assms(4) by simp
  have "40 \<le> length (pending w)" "0 + 40 \<le> length (cs_buffer s)" using lp assms(3,5) by simp_all
  from recv_into_delivers [OF assms(1) this]
  obtain w1 where w1: "recv_into C 0 40 (s, w) = Some (Inr 40, (s\<lparr>cs_buffer := ?b1\<rparr>, w1))"
      "ok w1" "pending w1 = drop 40 (pending w)" "peer w1 = peer w" by auto
  have "take 4 ?b1 = take 4 (pending w)" using lp assms(5) by (simp add: min_def)
  moreover have "networkToHost16 (load16 (drop 2 (pending w))) = len"
    unfolding assms(4) by (simp only: drop_append_exact [OF length_enc(1)] unseal16)
  ultimately have len: "networkToHost16 (load16 (drop 2 ?b1)) = len" using load16_front by metis
  have "recv_into C 40 (unat len) (s\<lparr>cs_buffer := ?b1\<rparr>, w1) = None"
    using w1 assms(2,3,5,6,7) lp by (intro recv_into_waits) simp_all
  moreover have "len \<noteq> 0" using assms(5,7) by auto
  ultimately show ?thesis
    using w1(1) len by (simp add: Recv_def c_then_def c_simps check_received_def sizeof_ResponseHead_def)
qed

end

subsection \<open>From end to end\<close>

lemma writes_fresh_writes: "writes p out \<Longrightarrow> writes_fresh p out"
  unfolding writes_def writes_fresh_def by force

text \<open>A database that finds two rows for every question.\<close>

definition demo_bill_bank :: "(int, nat) bank" where
  "demo_bill_bank = (demo_bank [])\<lparr>b_mysql := (demo_mysql [])\<lparr>my_store_result := (\<lambda>w. (Some (
     [lit ''total'', lit ''account_id'', lit ''other_account_id'', lit ''name'', lit ''money'', lit ''balance'', lit ''trans_date''],
     replicate 2 (map Some [lit ''2'', lit ''000003'', lit ''000012'', lit ''out'', lit ''40'', lit ''90'', lit ''2013-01-01 10:00:00''])), w))\<rparr>\<rparr>"

definition demo_bill_row :: "int trans_detail" where
  "demo_bill_row = \<lparr>td_trans_id = [], td_account_id = lit ''000003'', td_other_account_id = lit ''000012'',
     td_abstract_name = lit ''out'', td_money = 40, td_balance = 90, td_trans_date = lit ''2013-01-01 10:00:00'',
     td_total = StringToInt 0 (lit ''2'')\<rparr>"

lemmas demo_bill_run = bank_run demo_bill_bank_def detail_row_def demo_bill_row_def numeral_2_eq_2 digits_40 digits_90

lemma demo_day_bill:
  "BankService_QueryDayBill demo_bill_bank page date 0 = (Inr (0, [demo_bill_row, demo_bill_row]), 2)"
  by (simp add: BankService_QueryDayBill_def demo_bill_run)

lemma demo_history_bill:
  "BankService_QueryHistoryBill demo_bill_bank page from_date to_date 0 = (Inr (0, [demo_bill_row, demo_bill_row]), 2)"
  by (simp add: BankService_QueryHistoryBill_def demo_bill_run)

lemma row_text_demo: "row_text demo_bill_bank demo_bill_row"
proof -
  have f: "DoubleToString (b_arith demo_bill_bank) x = first_word (dec_digits (nat x))" for x
    by (simp add: DoubleToString_def demo_bill_bank_def demo_bank_def demo_arith_def)
  have d: "first_word (dec_digits n) = dec_digits n" for n
    using digit_not_space dec_digits_digit by (intro first_word_no_space) blast
  have l: "length (dec_digits 40) \<le> 2" "length (dec_digits 90) \<le> 2"
    using dec_digits_length [of 40 1] dec_digits_length [of 90 1] by simp_all
  show ?thesis using l by (simp add: row_text_def full_row_def demo_bill_row_def f d lit_nul)
qed

lemma demo_date: "date_text (lit ''2013-01-01'')"
  by (simp add: date_text_def lit_nul)

text \<open>The server's side of the two reports below: the bytes it answers the request with.\<close>

lemma day_bill_served:
  assumes "ready bs" and "date_text date"
    and "BankService_QueryDayBill B page date db = (Inr (code, tds), db')" and "code \<noteq> 6" "code \<noteq> - 1"
    and "\<forall>td \<in> set tds. full_row td" and "length date = 10"
  shows "\<exists>bs'. ready bs' \<and> serve_packet B bs (request 8 (enc32 page @ date)) (length (enc32 page @ date) + 12) db =
    (Inr (report B 8 (of_nat (length tds)) 0 tds, bs'), db')"
proof -
  have req: "length (enc32 page @ date) + 12 \<le> 2048" using assms(7) by simp
  have act: "TransactionManager_actions 8 = Some QueryDayBill" by (simp add: TransactionManager_actions_def)
  have exec: "Execute QueryDayBill B x db = lift (write_report x code (day_packets B 8 (of_nat (length tds)) 0 tds)) db'"
    if "parsed x 8 (enc32 page @ date)" for x
    using QueryDayBill_calls [OF that assms(2), of B] assms(3) by (simp add: prog_simps)
  show ?thesis
    using report_served [OF assms(1) req act exec assms(4,5) writes_fresh_writes [OF writes_day_packets [OF assms(6)]]] by blast
qed

text \<open>
  C19: a day's bill from the client's form fields to its list of rows: the server selects the page and the
  date the client asked for, and the client gets every row the server found, in order, each with the
  columns the server read and the amounts as their two-digit texts; however the connection cuts the
  bytes, the command returns after the last row, and the connection is ready for the next one.
\<close>

theorem day_bill_end_to_end:
  assumes "idle w" and "length (cs_buffer s) = 2048" and "cs_cmd s = 8"
    and "cs_request s (lit ''page'') = Some page" "cs_request s (lit ''date'') = Some date" "date_text date"
    and "BankService_QueryDayBill B (page_of (wire_client B E) page) date (wr_db w) = (Inr (code, tds), db')"
    and "code \<noteq> 6" "code \<noteq> - 1" "tds \<noteq> []" "length tds < 2 ^ 16" "\<forall>td \<in> set tds. row_text B td"
  shows "\<exists>s' w'. Client_DoAction (wire_client B E) (s, w) = Some (Inr True, (s', w')) \<and> cs_errorCode s' = 0 \<and>
    cs_details s' = cs_details s @ map (client_row B E) tds \<and> idle w' \<and> wr_db w' = db' \<and> length (cs_buffer s') = 2048"
proof -
  let ?C = "wire_client B E" and ?page = "page_of (wire_client B E) page" and ?cnt = "of_nat (length tds) :: 16 word"
  let ?p = "\<lambda>jos. bind_res (JOut_uint32 jos ?page) (put_chars ?C (lit ''date'') date 10)"
  obtain td ts where tds: "tds = td # ts" using assms(10) by (cases tds) auto
  have d: "length date = 10" using assms(6) by (simp add: date_text_def)
  have p: "writes ?p (enc32 ?page @ date)"
    using writes_seq [OF writes_uint32 writes_put_chars [of 10 date ?C "lit ''date''"], of ?page] d by simp
  have req: "length (enc32 ?page @ date) + 12 \<le> 2048" using d by simp
  have "ready (wr_bs w)" using assms(1) by (simp add: idle_def)
  from day_bill_served [OF this assms(6,7,8,9) _ d] assms(12) tds
  obtain bs' where sv: "serve_packet B (wr_bs w) (request 8 (enc32 ?page @ date)) (length (enc32 ?page @ date) + 12) (wr_db w) =
      (Inr (answer 8 ?cnt 0 0 [] (detail_data B td) @ report B 8 ?cnt 1 ts, bs'), db')" and bs': "ready bs'"
    by (auto simp: row_text_def detail_answer_def)
  have row: "row_text B td" using assms(12) tds by simp
  have msg: "message []" by (simp add: message_def)
  from transact_served_first [OF assms(1,2) p req sv length_row_text [OF row] msg, of E "bill_reply ?C"]
  obtain w1 jis buf hash where w1: "wire_ok w1" "wire_peer w1 = (True, bs', wr_buf w1, db')" "content (wr_buf w1) = []"
    "wr_out w1 = report B 8 ?cnt 1 ts" "in_inv jis" "in_rest jis = detail_data B td @ hash" "length buf = 2048"
    "transact ?C (make_request 8 ?p) (bill_reply ?C) (s, w) = (if (0 :: 16 word) = 0 then bill_reply ?C ?cnt jis else c_ret ())
       (s\<lparr>cs_buffer := received (answer 8 ?cnt 0 0 [] (detail_data B td)) buf, cs_errorCode := 0, cs_errorMsg := []\<rparr>, w1)" .
  let ?s1 = "s\<lparr>cs_buffer := received (answer 8 ?cnt 0 0 [] (detail_data B td)) buf, cs_errorCode := 0, cs_errorMsg := []\<rparr>"
  have cnt: "unat ?cnt = length tds" using assms(11) by (rule unat_len16)
  have b: "length (cs_buffer ?s1) = 2048"
    using w1(7) length_row_text [OF row] by (simp add: length_received length_answer)
  have c1: "cs_buffer ?s1 = received (detail_answer B 8 ?cnt 0 td) buf" by (simp add: detail_answer_def)
  have c2: "wr_out w1 = report B 8 ?cnt (0 + 1) ts" using w1(4) by simp
  have c3: "\<forall>t \<in> set (td # ts). row_text B t" using assms(12) tds by simp
  have c4: "unat (0 :: 16 word) + length (td # ts) = unat ?cnt" "length ts < unat ?cnt" using cnt tds by simp_all
  from wire.bill_loop_reads [OF w1(1) b c1 c2 c3 c4, where E = E and Ba = B]
  obtain s' w' buf' where l: "bill_loop ?C (unat ?cnt) (?s1, w1) = Some (Inr (), (s', w'))" "wire_ok w'" "wr_out w' = []"
      "wire_peer w' = wire_peer w1" "s' = ?s1\<lparr>cs_buffer := buf', cs_details := cs_details ?s1 @ map (client_row B ?C) (td # ts)\<rparr>"
      "length buf' = 2048" by (elim exE conjE)
  have "client_row B ?C = client_row B E" by (simp add: client_row_def fun_eq_iff wire_client_def)
  moreover have "idle w'" "wr_db w' = db'" using l(2-4) w1(2,3) bs' by (auto simp: idle_def wire_peer_def)
  moreover have "Client_DoAction ?C (s, w) = Some (Inr True, (s', w'))"
    using assms(3-5) w1(8) l(1)
    by (simp add: Client_DoAction_def Client_actions_def Client_QueryDayBill_def c_then_def c_simps GetAttribute_Some
        bill_reply_def)
  ultimately show ?thesis using l(5,6) tds by (intro exI [of _ s'] exI [of _ w']) simp
qed

theorem day_bill_end_to_end_witness:
  "\<exists>s' w'. Client_DoAction (wire_client demo_bill_bank demo_client)
      (demo_session 8 [lit ''page'' \<mapsto> lit ''0'', lit ''date'' \<mapsto> lit ''2013-01-01''], demo_wire) = Some (Inr True, (s', w'))
    \<and> map td_abstract_name (cs_details s') = [lit ''out'', lit ''out''] \<and> idle w'"
proof -
  have run: "BankService_QueryDayBill demo_bill_bank (page_of (wire_client demo_bill_bank demo_client) (lit ''0''))
      (lit ''2013-01-01'') (wr_db demo_wire) = (Inr (0, [demo_bill_row, demo_bill_row]), 2)"
    by (simp add: demo_day_bill demo_wire_def)
  from day_bill_end_to_end [OF idle_demo _ _ _ _ demo_date run,
      of "demo_session 8 [lit ''page'' \<mapsto> lit ''0'', lit ''date'' \<mapsto> lit ''2013-01-01'']"]
  moreover have "td_abstract_name (client_row B E demo_bill_row) = lit ''out''" for B :: "(int, 'a) bank" and E :: "(int, 'b) client"
    by (simp add: client_row_def demo_bill_row_def)
  ultimately show ?thesis by (auto simp: lit_eq row_text_demo)
qed

text \<open>The two packets of a history report of two rows.\<close>

definition two_rows :: "('d, 'w) bank \<Rightarrow> 'd trans_detail \<Rightarrow> 'd trans_detail \<Rightarrow> bytes" where
  "two_rows B td1 td2 =
     (let p1 = detail_answer B 9 2 0 td1; body = detail_data B td2;
          p2 = answer_head 9 (of_nat (length p1 + length body + 8)) 2 1 0 [] @ body
      in p2 @ fold_hash 9 (rfc_md5 (p1 @ p2)))"

lemma writes_fresh_two_rows:
  assumes "full_row td1" "full_row td2"
  shows "writes_fresh (history_packets B 9 2 0 [td1, td2]) (detail_answer B 9 2 0 td1 @ two_rows B td1 td2)"
  unfolding writes_fresh_def
proof (intro allI impI)
  fix jos
  assume j: "out_inv jos" "out_msg jos = []"
  let ?p1 = "detail_answer B 9 2 0 td1"
  obtain j1 where j1: "detail_packet B 9 2 0 td1 jos = Inr j1" "out_inv j1" "out_msg j1 = ?p1"
    using detail_packet_correct [OF j(1) assms(1), of B 9 2 0] j(2) by (auto simp: detail_answer_def answer_def)
  have "length ?p1 < 2 ^ 31"
    using length_detail_data [of B td1] by (simp add: detail_answer_def length_answer)
  then obtain j2 where "detail_packet B 9 2 1 td2 j1 = Inr j2" "out_inv j2" "out_msg j2 = ?p1 @ two_rows B td1 td2"
    using detail_packet_correct [OF j1(2) assms(2), of B 9 2 1] j1(3)
    by (auto simp: two_rows_def seal_def Let_def)
  then show "\<exists>jos'. history_packets B 9 2 0 [td1, td2] jos = Inr jos' \<and> out_inv jos' \<and>
      out_msg jos' = ?p1 @ two_rows B td1 td2"
    using j1(1) by simp
qed

lemma two_rows_split:
  assumes "row_text B td1" "row_text B td2"
  obtains len rest where "two_rows B td1 td2 = enc16 9 @ enc16 len @ rest" "36 \<le> length rest" "length rest \<le> 2044"
    "length rest < unat len + 36"
proof -
  let ?n = "length (detail_answer B 9 2 0 td1) + length (detail_data B td2) + 8"
  let ?rest = "enc16 2 @ enc16 1 @ enc16 0 @ take 30 (msg_array []) @ detail_data B td2 @
    fold_hash 9 (rfc_md5 (detail_answer B 9 2 0 td1 @ answer_head 9 (of_nat ?n) 2 1 0 [] @ detail_data B td2))"
  have "length (detail_data B td1) + 48 \<le> 2048" and 2: "length (detail_data B td2) + 48 \<le> 2048"
    using length_row_text assms by blast+
  then have "?n < 2 ^ 16" by (simp add: detail_answer_def length_answer)
  then have "unat (of_nat ?n :: 16 word) = ?n" by (rule unat_len16)
  moreover have "length (take 30 (msg_array [])) = 30" using length_msg_array [of "[]"] by simp
  then have "length ?rest = length (detail_data B td2) + 44" by (simp only: length_append length_enc length_fold_hash)
  moreover have "two_rows B td1 td2 = enc16 9 @ enc16 (of_nat ?n) @ ?rest"
    by (simp add: two_rows_def Let_def answer_head_def)
  ultimately show thesis
    using 2 length_answer [of 9 2 0 0 "[]" "detail_data B td1"]
    by (intro that [of "of_nat ?n" ?rest]) (simp_all add: detail_answer_def)
qed

lemma history_bill_served:
  assumes "ready bs" and "date_text from_date" "date_text to_date"
    and "BankService_QueryHistoryBill B page from_date to_date db = (Inr (code, [td1, td2]), db')"
    and "code \<noteq> 6" "code \<noteq> - 1" and rows: "full_row td1" "full_row td2"
  shows "\<exists>bs'. serve_packet B bs (request 9 (enc32 page @ from_date @ to_date)) (length (enc32 page @ from_date @ to_date) + 12) db =
    (Inr (answer 9 2 0 0 [] (detail_data B td1) @ two_rows B td1 td2, bs'), db')"
proof -
  have req: "length (enc32 page @ from_date @ to_date) + 12 \<le> 2048" using assms(2,3) by (simp add: date_text_def)
  have act: "TransactionManager_actions 9 = Some QueryHistoryBill" by (simp add: TransactionManager_actions_def)
  have exec: "Execute QueryHistoryBill B x db = lift (write_report x code (history_packets B 9 2 0 [td1, td2])) db'"
    if "parsed x 9 (enc32 page @ from_date @ to_date)" for x
    using QueryHistoryBill_calls [OF that assms(2,3), of B] assms(4) by (simp add: prog_simps del: history_packets.simps)
  show ?thesis
    using report_served [OF assms(1) req act exec assms(5,6) writes_fresh_two_rows [OF rows]]
    by (auto simp: detail_answer_def)
qed

text \<open>
  C20: the client does not survive a history report of two rows: it receives the first row, and then waits
  for a second packet as long as its length field says, which counts the first packet too; the server has
  sent everything, so that the command never returns.
\<close>

theorem history_bill_hangs:
  assumes "idle w" and "length (cs_buffer s) = 2048" and "cs_cmd s = 9" and "cs_request s (lit ''page'') = Some page"
    and "cs_request s (lit ''begin_date'') = Some from_date" "cs_request s (lit ''end_date'') = Some to_date"
    and "date_text from_date" "date_text to_date"
    and "BankService_QueryHistoryBill B (page_of (wire_client B E) page) from_date to_date (wr_db w) = (Inr (code, [td1, td2]), db')"
    and "code \<noteq> 6" "code \<noteq> - 1" "row_text B td1" "row_text B td2"
  shows "Client_DoAction (wire_client B E) (s, w) = None"
proof -
  let ?C = "wire_client B E" and ?page = "page_of (wire_client B E) page"
  let ?p = "\<lambda>jos. bind_res (JOut_uint32 jos ?page) (\<lambda>jos.
       bind_res (put_chars ?C (lit ''begin_date'') from_date 10 jos) (put_chars ?C (lit ''end_date'') to_date 10))"
  have d: "length from_date = 10" "length to_date = 10" using assms(7,8) by (simp_all add: date_text_def)
  have chars: "writes (put_chars ?C k v 10) v" if "length v = 10" for k v
    using writes_put_chars [of 10 v ?C k] that by simp
  have p: "writes ?p (enc32 ?page @ from_date @ to_date)"
    by (intro writes_seq [OF writes_uint32] writes_seq [OF chars [OF d(1)] chars [OF d(2)]])
  have req: "length (enc32 ?page @ from_date @ to_date) + 12 \<le> 2048" using d by simp
  have "ready (wr_bs w)" using assms(1) by (simp add: idle_def)
  moreover have "full_row td1" "full_row td2" using assms(12,13) by (simp_all add: row_text_def)
  ultimately obtain bs' where sv: "serve_packet B (wr_bs w) (request 9 (enc32 ?page @ from_date @ to_date))
      (length (enc32 ?page @ from_date @ to_date) + 12) (wr_db w) =
      (Inr (answer 9 2 0 0 [] (detail_data B td1) @ two_rows B td1 td2, bs'), db')"
    using history_bill_served [OF _ assms(7,8,9,10,11)] by blast
  have msg: "message []" by (simp add: message_def)
  from transact_served_first [OF assms(1,2) p req sv length_row_text [OF assms(12)] msg, of E "bill_reply ?C"]
  obtain w1 jis buf hash where w1: "wire_ok w1" "wire_peer w1 = (True, bs', wr_buf w1, db')" "content (wr_buf w1) = []"
    "wr_out w1 = two_rows B td1 td2" "in_inv jis" "in_rest jis = detail_data B td1 @ hash" "length buf = 2048"
    "transact ?C (make_request 9 ?p) (bill_reply ?C) (s, w) = (if (0 :: 16 word) = 0 then bill_reply ?C 2 jis else c_ret ())
       (s\<lparr>cs_buffer := received (answer 9 2 0 0 [] (detail_data B td1)) buf, cs_errorCode := 0, cs_errorMsg := []\<rparr>, w1)" .
  let ?s1 = "s\<lparr>cs_buffer := received (answer 9 2 0 0 [] (detail_data B td1)) buf, cs_errorCode := 0, cs_errorMsg := []\<rparr>"
  let ?s2 = "?s1\<lparr>cs_details := cs_details ?s1 @ [client_row B ?C td1]\<rparr>"
  have b: "length (cs_buffer ?s2) = 2048"
    using w1(7) length_row_text [OF assms(12)] by (simp add: length_received length_answer)
  have c1: "cs_buffer ?s1 = received (detail_answer B 9 2 0 td1) buf" by (simp add: detail_answer_def)
  obtain jis' where jis': "response_stream ?s1 = Inr jis'" "read_detail ?C jis' = Inr (client_row B ?C td1, 2, 0)"
    using row_received [OF assms(12) c1] .
  obtain len rest where l: "two_rows B td1 td2 = enc16 9 @ enc16 len @ rest" "36 \<le> length rest" "length rest \<le> 2044"
      "length rest < unat len + 36"
    using two_rows_split [OF assms(12,13)] .
  have up: "fst (wire_peer w1)" using w1(2) by simp
  have "Recv ?C (?s2, w1) = None"
    using wire.Recv_waits [OF w1(1) up b, of 9 len rest B E] w1(4) l by simp
  then have "bill_loop ?C (Suc (Suc 0)) (?s1, w1) = None"
    using jis' by (simp add: c_then_def c_simps AddDetail_def)
  moreover have "unat (2 :: 16 word) = Suc (Suc 0)" by simp
  ultimately have "bill_reply ?C 2 jis (?s1, w1) = None" by (simp only: bill_reply_def)
  then show ?thesis
    using assms(3-6) w1(8)
    by (simp add: Client_DoAction_def Client_actions_def Client_QueryHistoryBill_def c_then_def c_simps GetAttribute_Some)
qed

theorem history_bill_hangs_witness:
  "Client_DoAction (wire_client demo_bill_bank demo_client) (demo_session 9 [lit ''page'' \<mapsto> lit ''0'',
      lit ''begin_date'' \<mapsto> lit ''2013-01-01'', lit ''end_date'' \<mapsto> lit ''2013-01-01''], demo_wire) = None"
proof -
  have run: "BankService_QueryHistoryBill demo_bill_bank (page_of (wire_client demo_bill_bank demo_client) (lit ''0''))
      (lit ''2013-01-01'') (lit ''2013-01-01'') (wr_db demo_wire) = (Inr (0, [demo_bill_row, demo_bill_row]), 2)"
    by (simp add: demo_history_bill demo_wire_def)
  show ?thesis
    by (rule history_bill_hangs [OF idle_demo _ _ _ _ _ demo_date demo_date run _ _ row_text_demo row_text_demo])
      (simp_all add: lit_eq)
qed

end
