(* ===== verification/ClientEdit.thy ===== *)
theory ClientEdit imports ClientSession begin

text \<open>
  The teller's keyboard and the fields of the forms: the key codes and the modal loop of a message box
  (\<open>JFC/JWindowBase.h\<close>, \<open>JMessageBox.cpp\<close>), the line editor \<open>JFC/JEdit.cpp\<close>, the validators of
  \<open>UI/Validator.cpp\<close>, and the search for the next window that takes the focus (\<open>JFC/JWindow.cpp\<close>).

  The locale \<open>validator\<close> states what a validator promises of the characters it lets in; every text that
  is typed into an editor with it has this form.  Its six interpretations are the six validators.
  Drawing is not modelled.
\<close>

subsection \<open>Keys\<close>

definition KEY_ENTER :: int where "KEY_ENTER = 13"
definition KEY_ESC :: int where "KEY_ESC = 27"
definition KEY_BACK :: int where "KEY_BACK = 8"
definition KEY_TAB :: int where "KEY_TAB = 9"
definition KEY_UP :: int where "KEY_UP = push_bit 8 224 + 72"
definition KEY_DOWN :: int where "KEY_DOWN = push_bit 8 224 + 80"
definition KEY_LEFT :: int where "KEY_LEFT = push_bit 8 224 + 75"
definition KEY_RIGHT :: int where "KEY_RIGHT = push_bit 8 224 + 77"
definition KEY_DEL :: int where "KEY_DEL = push_bit 8 224 + 83"
definition KEY_HOME :: int where "KEY_HOME = push_bit 8 224 + 71"
definition KEY_END :: int where "KEY_END = push_bit 8 224 + 79"
definition KEY_PGUP :: int where "KEY_PGUP = push_bit 8 224 + 73"
definition KEY_PGDN :: int where "KEY_PGDN = push_bit 8 224 + 81"

text \<open>\<open>KEY_(n)\<close>, the digit keys.\<close>

definition KEY_digit :: "int \<Rightarrow> int" where "KEY_digit n = 48 + n"

lemmas key_defs = KEY_ENTER_def KEY_ESC_def KEY_BACK_def KEY_TAB_def KEY_UP_def KEY_DOWN_def KEY_LEFT_def
  KEY_RIGHT_def KEY_DEL_def KEY_HOME_def KEY_END_def KEY_PGUP_def KEY_PGDN_def KEY_digit_def push_bit_eq_mult

text \<open>
  The code of the key that \<open>_getch\<close> gives next, in the loop of a message box: two codes for a key of the
  second group.  No code: the call does not return.
\<close>

fun box_key :: "int list \<Rightarrow> (int \<times> int list) option" where
  "box_key [] = None"
| "box_key (c # cs) =
     (if c = 224 then case cs of [] \<Rightarrow> None | d # ds \<Rightarrow> Some (push_bit 8 c + d, ds) else Some (c, cs))"

lemma box_key_shorter: "box_key cs = Some (key, cs') \<Longrightarrow> length cs' < length cs"
  by (cases cs rule: box_key.cases) (auto split: if_splits list.splits)

text \<open>
  \<open>JMessageBoxImpl::Exec\<close> with \<open>n\<close> buttons: the position of the button that is chosen, or \<open>-1\<close>.
\<close>

function box_Exec :: "int \<Rightarrow> int \<Rightarrow> int list \<Rightarrow> (int \<times> int list) option" where
  "box_Exec n pos cs =
     (case box_key cs of None \<Rightarrow> None
      | Some (key, cs') \<Rightarrow>
          if key = KEY_ESC then Some (- 1, cs')
          else if key = KEY_ENTER then Some (pos, cs')
          else if key = KEY_LEFT \<or> key = KEY_UP then
            box_Exec n (let pos = pos - 1 in if pos < 0 then n - 1 else pos) cs'
          else if key = KEY_RIGHT \<or> key = KEY_TAB \<or> key = KEY_DOWN then
            box_Exec n (let pos = pos + 1 in if pos = n then 0 else pos) cs'
          else box_Exec n pos cs')"
  by pat_completeness auto
termination
  by (relation "measure (\<lambda>(n, pos, cs). length cs)") (auto dest: box_key_shorter)

declare box_Exec.simps [simp del]

lemma box_Exec_result:
  "box_Exec n pos cs = Some (r, cs') \<Longrightarrow> 0 \<le> pos \<Longrightarrow> pos < n \<Longrightarrow> - 1 \<le> r \<and> r < n \<and> length cs' < length cs"
proof (induction n pos cs rule: box_Exec.induct)
  case (1 n pos cs)
  obtain key cs1 where k: "box_key cs = Some (key, cs1)"
    using 1(4) by (subst (asm) box_Exec.simps) (auto split: option.splits)
  note l = box_key_shorter [OF k]
  note ih = 1(1,2,3) [OF k refl]
  consider "key = KEY_ESC" | "key = KEY_ENTER" | "key = KEY_LEFT \<or> key = KEY_UP"
    | "key = KEY_RIGHT \<or> key = KEY_TAB \<or> key = KEY_DOWN"
    | "key \<notin> {KEY_ESC, KEY_ENTER, KEY_LEFT, KEY_UP, KEY_RIGHT, KEY_TAB, KEY_DOWN}" by blast
  then show ?case
  proof cases
    case 3
    then have "box_Exec n (let pos = pos - 1 in if pos < 0 then n - 1 else pos) cs1 = Some (r, cs')"
      using 1(4) k by (subst (asm) box_Exec.simps) (auto simp: key_defs)
    then show ?thesis using ih(1) 3 1(5,6) l by (auto simp: key_defs Let_def split: if_splits)
  next
    case 4
    then have "box_Exec n (let pos = pos + 1 in if pos = n then 0 else pos) cs1 = Some (r, cs')"
      using 1(4) k by (subst (asm) box_Exec.simps) (auto simp: key_defs)
    then show ?thesis using ih(2) 4 1(5,6) l by (auto simp: key_defs Let_def split: if_splits)
  next
    case 5
    then have "box_Exec n pos cs1 = Some (r, cs')"
      using 1(4) k by (subst (asm) box_Exec.simps) auto
    then show ?thesis using ih(3) 5 1(5,6) l by auto
  qed (use 1(4-) k l in \<open>subst (asm) box_Exec.simps, auto simp: key_defs\<close>)+
qed

subsection \<open>The line editor\<close>

record edit =
  ed_text :: bytes
  ed_pos :: int
  ed_width :: int
  ed_valid :: "bytes \<Rightarrow> byte \<Rightarrow> bool"

definition JEdit_new :: "int \<Rightarrow> (bytes \<Rightarrow> byte \<Rightarrow> bool) \<Rightarrow> edit" where
  "JEdit_new width V = \<lparr>ed_text = [], ed_pos = 0, ed_width = width, ed_valid = V\<rparr>"

definition SetText :: "bytes \<Rightarrow> edit \<Rightarrow> edit" where
  "SetText s e = e\<lparr>ed_text := s, ed_pos := int (length s)\<rparr>"

lemma SetText_fields [simp]:
  "ed_valid (SetText s e) = ed_valid e" "ed_width (SetText s e) = ed_width e" "ed_text (SetText s e) = s"
  by (simp_all add: SetText_def)

text \<open>\<open>text_.erase(text_.begin()+i)\<close> and \<open>text_.insert(text_.begin()+i, 1, c)\<close>.\<close>

definition erase_at :: "bytes \<Rightarrow> int \<Rightarrow> bytes res" where
  "erase_at s i = (if 0 \<le> i \<and> i < int (length s) then Inr (take (nat i) s @ drop (Suc (nat i)) s) else Inl OutOfBounds)"

definition insert_at :: "bytes \<Rightarrow> int \<Rightarrow> byte \<Rightarrow> bytes res" where
  "insert_at s i c = (if 0 \<le> i \<and> i \<le> int (length s) then Inr (take (nat i) s @ c # drop (nat i) s) else Inl OutOfBounds)"

definition is_print :: "int \<Rightarrow> bool" where
  "is_print key \<longleftrightarrow> 32 \<le> key \<and> key < 127"

text \<open>\<open>JEdit::OnKeyEvent\<close>: whether the event is done, and the editor; otherwise the form gets the event.\<close>

definition JEdit_OnKeyEvent :: "int \<Rightarrow> edit \<Rightarrow> (bool \<times> edit) res" where
  "JEdit_OnKeyEvent key e =
     (if key = KEY_RIGHT then
        Inr (if ed_pos e < int (length (ed_text e)) then (True, e\<lparr>ed_pos := ed_pos e + 1\<rparr>) else (False, e))
      else if key = KEY_LEFT then
        Inr (if 0 < ed_pos e then (True, e\<lparr>ed_pos := ed_pos e - 1\<rparr>) else (False, e))
      else if key = KEY_DEL then
        bind_res (erase_at (ed_text e) (ed_pos e)) (\<lambda>s. Inr (True, e\<lparr>ed_text := s\<rparr>))
      else if key = KEY_BACK then
        if 0 < ed_pos e then
          bind_res (erase_at (ed_text e) (ed_pos e - 1)) (\<lambda>s. Inr (True, e\<lparr>ed_text := s, ed_pos := ed_pos e - 1\<rparr>))
        else Inr (True, e)
      else if key = KEY_ENTER \<or> key = KEY_DOWN \<or> key = KEY_TAB \<or> key = KEY_UP then Inr (False, e)
      else if 0 < key \<and> key < 256 \<and> is_print key \<and> int (length (ed_text e)) < ed_width e - 1 \<and>
              ed_valid e (ed_text e) (word_of_int key) then
        bind_res (insert_at (ed_text e) (ed_pos e) (word_of_int key))
          (\<lambda>s. Inr (True, e\<lparr>ed_text := s, ed_pos := ed_pos e + 1\<rparr>))
      else Inr (False, e))"

subsection \<open>The validators\<close>

definition is_alpha :: "byte \<Rightarrow> bool" where
  "is_alpha c \<longleftrightarrow> (65 \<le> c \<and> c \<le> 90) \<or> (97 \<le> c \<and> c \<le> 122)"

definition ValidateName :: "bytes \<Rightarrow> byte \<Rightarrow> bool" where
  "ValidateName str ch \<longleftrightarrow> length str < 10 \<and> (is_alpha ch \<or> is_digit ch)"

definition ValidatePass :: "bytes \<Rightarrow> byte \<Rightarrow> bool" where
  "ValidatePass str ch \<longleftrightarrow> length str < 8"

definition ValidateId :: "bytes \<Rightarrow> byte \<Rightarrow> bool" where
  "ValidateId str ch =
     (if length str \<ge> 18 then False
      else if \<not> is_digit ch \<and> ch \<noteq> 120 \<and> ch \<noteq> 88 then False
      else if (ch = 120 \<or> ch = 88) \<and> length str \<noteq> 17 then False
      else True)"

definition ValidateAccountId :: "bytes \<Rightarrow> byte \<Rightarrow> bool" where
  "ValidateAccountId str ch \<longleftrightarrow> length str < 6 \<and> is_digit ch"

definition find_dot :: "bytes \<Rightarrow> nat option" where
  "find_dot str = (if 46 \<in> set str then Some (length (takeWhile (\<lambda>c. c \<noteq> 46) str)) else None)"

text \<open>A text with a dot is not empty, so \<open>str.length()-1\<close> does not wrap around.\<close>

definition ValidateMoney :: "bytes \<Rightarrow> byte \<Rightarrow> bool" where
  "ValidateMoney str ch =
     (if length str \<ge> 11 \<or> (\<not> is_digit ch \<and> ch \<noteq> 46) then False
      else case find_dot str of
          Some dotPos \<Rightarrow> (if ch = 46 then False else if length str - 1 \<ge> dotPos + 2 then False else True)
        | None \<Rightarrow> (if ch \<noteq> 46 \<and> length str \<ge> 8 then False else True))"

definition ValidateDate :: "bytes \<Rightarrow> byte \<Rightarrow> bool" where
  "ValidateDate str ch \<longleftrightarrow> length str < 10 \<and> (is_digit ch \<or> ch = 45)"

subsection \<open>What can be typed\<close>

definition printable :: "byte \<Rightarrow> bool" where
  "printable c \<longleftrightarrow> 32 \<le> c \<and> c < 127"

text \<open>The editor's own invariant, and the texts of a validator that lets in \<open>n\<close> characters of a kind.\<close>

definition edit_ok :: "edit \<Rightarrow> bool" where
  "edit_ok e \<longleftrightarrow> 0 \<le> ed_pos e \<and> ed_pos e \<le> int (length (ed_text e))"

definition typed_text :: "nat \<Rightarrow> (byte \<Rightarrow> bool) \<Rightarrow> bytes \<Rightarrow> bool" where
  "typed_text n P s \<longleftrightarrow> length s \<le> n \<and> (\<forall>c\<in>set s. P c \<and> printable c)"

lemma erase_at_Inr:
  "erase_at s i = Inr s' \<longleftrightarrow> 0 \<le> i \<and> i < int (length s) \<and> s' = take (nat i) s @ drop (Suc (nat i)) s"
  by (auto simp: erase_at_def)

lemma insert_at_Inr:
  "insert_at s i c = Inr s' \<longleftrightarrow> 0 \<le> i \<and> i \<le> int (length s) \<and> s' = take (nat i) s @ c # drop (nat i) s"
  by (auto simp: insert_at_def)

lemma is_print_char: "is_print key \<Longrightarrow> printable (word_of_int key)"
  by (simp add: is_print_def printable_def word_le_def word_less_def unsigned_of_int take_bit_int_eq_self)

text \<open>The events an editor handles.\<close>

lemma JEdit_cases:
  assumes "JEdit_OnKeyEvent key e = Inr (handled, e')" and "edit_ok e"
  obtains (same) "e' = e"
    | (move) i where "e' = e\<lparr>ed_pos := i\<rparr>" "0 \<le> i" "i \<le> int (length (ed_text e))"
    | (erase) i k where "e' = e\<lparr>ed_text := take i (ed_text e) @ drop (Suc i) (ed_text e), ed_pos := k\<rparr>"
        "i < length (ed_text e)" "0 \<le> k" "k < int (length (ed_text e))"
    | (put) i c where "e' = e\<lparr>ed_text := take i (ed_text e) @ c # drop i (ed_text e), ed_pos := int (Suc i)\<rparr>"
        "i \<le> length (ed_text e)" "printable c" "ed_valid e (ed_text e) c" "int (length (ed_text e)) < ed_width e - 1"
proof -
  note o = assms(2) [unfolded edit_ok_def]
  consider "key = KEY_RIGHT" | "key = KEY_LEFT" | "key = KEY_DEL" | "key = KEY_BACK"
    | "key \<notin> {KEY_RIGHT, KEY_LEFT, KEY_DEL, KEY_BACK}" by blast
  then show thesis
  proof cases
    case 1
    then show thesis using assms(1) o same move [where i = "ed_pos e + 1"]
      by (auto simp: JEdit_OnKeyEvent_def split: if_splits)
  next
    case 2
    then show thesis using assms(1) o same move [where i = "ed_pos e - 1"]
      by (auto simp: JEdit_OnKeyEvent_def key_defs split: if_splits)
  next
    case 3
    then show thesis using assms(1) o erase [where i = "nat (ed_pos e)" and k = "ed_pos e"]
      by (auto simp: JEdit_OnKeyEvent_def key_defs bind_res_Inr erase_at_Inr split: if_splits)
  next
    case 4
    then show thesis using assms(1) o same erase [where i = "nat (ed_pos e - 1)" and k = "ed_pos e - 1"]
      by (auto simp: JEdit_OnKeyEvent_def key_defs bind_res_Inr erase_at_Inr split: if_splits)
  next
    case 5
    then show thesis using assms(1) o same put [where i = "nat (ed_pos e)" and c = "word_of_int key"] is_print_char
      by (auto simp: JEdit_OnKeyEvent_def bind_res_Inr insert_at_Inr split: if_splits)
  qed
qed

lemma JEdit_ok: "JEdit_OnKeyEvent key e = Inr (handled, e') \<Longrightarrow> edit_ok e \<Longrightarrow> edit_ok e'"
  by (erule JEdit_cases, assumption) (auto simp: edit_ok_def)

lemma JEdit_fields:
  "JEdit_OnKeyEvent key e = Inr (handled, e') \<Longrightarrow> edit_ok e \<Longrightarrow> ed_valid e' = ed_valid e \<and> ed_width e' = ed_width e"
  by (erule JEdit_cases, assumption) auto

text \<open>The only key an editor fails on.\<close>

lemma JEdit_fails:
  assumes "edit_ok e"
  shows "JEdit_OnKeyEvent key e = Inl f \<longleftrightarrow> f = OutOfBounds \<and> key = KEY_DEL \<and> ed_pos e = int (length (ed_text e))"
  using assms by (auto simp: JEdit_OnKeyEvent_def edit_ok_def erase_at_def insert_at_def key_defs)

locale validator =
  fixes V :: "bytes \<Rightarrow> byte \<Rightarrow> bool" and n :: nat and P :: "byte \<Rightarrow> bool"
  assumes short: "V s c \<Longrightarrow> length s < n" and kind: "V s c \<Longrightarrow> P c"
begin

lemma typed_step:
  assumes "JEdit_OnKeyEvent key e = Inr (handled, e')" and "edit_ok e" and "ed_valid e = V"
    and "typed_text n P (ed_text e)"
  shows "typed_text n P (ed_text e')"
  using assms(1,2)
proof (cases rule: JEdit_cases)
  case (erase i k)
  then show ?thesis using assms(4) by (auto simp: typed_text_def dest: in_set_takeD in_set_dropD)
next
  case (put i c)
  then have "length (ed_text e) < n" "P c" using short kind assms(3) by auto
  then show ?thesis using put assms(4) by (auto simp: typed_text_def dest: in_set_takeD in_set_dropD)
qed (use assms(4) in simp_all)

lemma typed_empty: "typed_text n P []"
  by (simp add: typed_text_def)

end

interpretation name: validator ValidateName 10 "\<lambda>c. is_alpha c \<or> is_digit c"
  by unfold_locales (auto simp: ValidateName_def)

interpretation pass: validator ValidatePass 8 "\<lambda>c. True"
  by unfold_locales (auto simp: ValidatePass_def)

interpretation id_number: validator ValidateId 18 "\<lambda>c. is_digit c \<or> c = 120 \<or> c = 88"
  by unfold_locales (auto simp: ValidateId_def split: if_splits)

interpretation account: validator ValidateAccountId 6 is_digit
  by unfold_locales (auto simp: ValidateAccountId_def)

interpretation money: validator ValidateMoney 11 "\<lambda>c. is_digit c \<or> c = 46"
  by unfold_locales (auto simp: ValidateMoney_def split: if_splits)

interpretation date: validator ValidateDate 10 "\<lambda>c. is_digit c \<or> c = 45"
  by unfold_locales (auto simp: ValidateDate_def)

subsection \<open>Amounts\<close>

fun type_keys :: "int list \<Rightarrow> edit \<Rightarrow> edit res" where
  "type_keys [] e = Inr e"
| "type_keys (key # keys) e = bind_res (JEdit_OnKeyEvent key e) (\<lambda>(handled, e). type_keys keys e)"

text \<open>\<open>decimal(10,2)\<close>: at most eight digits, and two behind the dot.\<close>

definition digits :: "nat \<Rightarrow> bytes \<Rightarrow> bool" where
  "digits n ds \<longleftrightarrow> length ds \<le> n \<and> (\<forall>c\<in>set ds. is_digit c)"

definition money_text :: "bytes \<Rightarrow> bool" where
  "money_text s \<longleftrightarrow> digits 8 s \<or> (\<exists>ds fs. s = ds @ 46 # fs \<and> digits 8 ds \<and> digits 2 fs)"

lemma is_digit_dot: "\<not> is_digit 46"
  by (simp add: is_digit_def)

lemma no_dot: "digits n ds \<Longrightarrow> 46 \<notin> set ds"
  using is_digit_dot by (auto simp: digits_def)

lemma find_dot_digits:
  "digits n ds \<Longrightarrow> find_dot ds = None" "digits n ds \<Longrightarrow> find_dot (ds @ 46 # fs) = Some (length ds)"
  using no_dot [of n ds] by (auto simp: find_dot_def takeWhile_append)

lemma digits_snoc: "digits n ds \<Longrightarrow> length ds < n \<Longrightarrow> is_digit c \<Longrightarrow> digits n (ds @ [c])"
  by (auto simp: digits_def)

lemma digits_butlast: "digits n ds \<Longrightarrow> digits n (butlast ds)"
  by (auto simp: digits_def dest: in_set_butlastD)

lemma money_text_snoc:
  assumes "money_text s" and "ValidateMoney s c"
  shows "money_text (s @ [c])"
proof (cases "digits 8 s")
  case True
  have c: "is_digit c \<or> c = 46" using assms(2) by (rule money.kind)
  then show ?thesis
  proof
    assume "is_digit c"
    moreover then have "length s < 8"
      using assms(2) True is_digit_dot by (auto simp: ValidateMoney_def find_dot_digits split: if_splits)
    ultimately show ?thesis using True by (simp add: money_text_def digits_snoc)
  next
    assume "c = 46"
    moreover have "digits 2 []" by (simp add: digits_def)
    ultimately show ?thesis using True by (auto simp: money_text_def)
  qed
next
  case False
  then obtain ds fs where s: "s = ds @ 46 # fs" "digits 8 ds" "digits 2 fs" using assms(1) by (auto simp: money_text_def)
  then have "c \<noteq> 46" "length fs < 2" "is_digit c"
    using assms(2) by (auto simp: ValidateMoney_def find_dot_digits split: if_splits)
  then have "digits 2 (fs @ [c])" using s(3) by (simp add: digits_snoc)
  then show ?thesis using s by (auto simp: money_text_def)
qed

lemma money_text_butlast: "money_text s \<Longrightarrow> money_text (butlast s)"
  unfolding money_text_def
proof (elim disjE exE conjE)
  fix ds fs
  assume s: "s = ds @ 46 # fs" "digits 8 ds" "digits 2 fs"
  show "digits 8 (butlast s) \<or> (\<exists>ds fs. butlast s = ds @ 46 # fs \<and> digits 8 ds \<and> digits 2 fs)"
    using s digits_butlast [OF s(3)] by (cases "fs = []") (auto simp: butlast_append)
qed (simp add: digits_butlast)

text \<open>An editor whose cursor stands behind the text.\<close>

lemma JEdit_behind:
  assumes "JEdit_OnKeyEvent key e = Inr (handled, e')" and "ed_pos e = int (length (ed_text e))"
    and "key \<notin> {KEY_LEFT, KEY_RIGHT, KEY_DEL}"
  obtains "e' = e" | "e' = SetText (butlast (ed_text e)) e" | c where "ed_valid e (ed_text e) c" "e' = SetText (ed_text e @ [c]) e"
proof (cases "key = KEY_BACK \<and> ed_text e \<noteq> []")
  case True
  then obtain s c where s: "ed_text e = s @ [c]" by (metis append_butlast_last_id)
  then have "JEdit_OnKeyEvent key e = Inr (True, e\<lparr>ed_text := s, ed_pos := int (length s)\<rparr>)"
    using True assms(2) by (simp add: JEdit_OnKeyEvent_def erase_at_def key_defs)
  then show thesis using assms(1) s that(2) by (simp add: SetText_def)
next
  case False
  show thesis
  proof (cases "key = KEY_BACK")
    case True
    then show thesis using assms(1,2) False that(1) by (auto simp: JEdit_OnKeyEvent_def key_defs)
  next
    case False
    then have k: "key \<notin> {KEY_RIGHT, KEY_LEFT, KEY_DEL, KEY_BACK}" using assms(3) by blast
    have i: "insert_at (ed_text e) (ed_pos e) c = Inr (ed_text e @ [c])" for c
      by (simp add: insert_at_def assms(2))
    have "e' = e \<or> (\<exists>c. ed_valid e (ed_text e) c \<and> e' = e\<lparr>ed_text := ed_text e @ [c], ed_pos := ed_pos e + 1\<rparr>)"
      using assms(1) k by (simp add: JEdit_OnKeyEvent_def i split: if_splits) blast
    moreover have "e\<lparr>ed_text := ed_text e @ [c], ed_pos := ed_pos e + 1\<rparr> = SetText (ed_text e @ [c]) e" for c
      by (simp add: SetText_def assms(2))
    ultimately show thesis using that(1,3) by auto
  qed
qed

lemma type_keys_money:
  "type_keys keys e = Inr e' \<Longrightarrow> set keys \<inter> {KEY_LEFT, KEY_RIGHT, KEY_DEL} = {} \<Longrightarrow> ed_valid e = ValidateMoney \<Longrightarrow>
   ed_pos e = int (length (ed_text e)) \<Longrightarrow> money_text (ed_text e) \<Longrightarrow> money_text (ed_text e')"
proof (induction keys arbitrary: e)
  case (Cons key keys)
  obtain handled e1 where s: "JEdit_OnKeyEvent key e = Inr (handled, e1)" "type_keys keys e1 = Inr e'"
    using Cons.prems(1) by (auto simp: bind_res_Inr)
  have k: "key \<notin> {KEY_LEFT, KEY_RIGHT, KEY_DEL}" "set keys \<inter> {KEY_LEFT, KEY_RIGHT, KEY_DEL} = {}"
    using Cons.prems(2) by auto
  have "ed_valid e1 = ValidateMoney \<and> ed_pos e1 = int (length (ed_text e1)) \<and> money_text (ed_text e1)"
    using s(1) Cons.prems(4) k(1)
    by (cases rule: JEdit_behind)
      (use Cons.prems(3-5) in \<open>auto simp: SetText_def money_text_snoc money_text_butlast\<close>)
  then show ?case using Cons.IH [OF s(2) k(2)] by blast
qed simp



text \<open>
  The validator does not see where the cursor stands: a dot in front of eight digits is let in, and so is
  an \<open>x\<close> in the middle of an identity number.
\<close>

fun typed :: "edit res \<Rightarrow> bytes res" where
  "typed (Inr e) = Inr (ed_text e)"
| "typed (Inl f) = Inl f"

lemma money_dot_in_front:
  "typed (type_keys (map int [49..<57] @ replicate 8 KEY_LEFT @ [46]) (JEdit_new 21 ValidateMoney)) =
     Inr (46 # map of_nat [49..<57]) \<and> \<not> money_text (46 # map of_nat [49..<57])"
proof
  show "typed (type_keys (map int [49..<57] @ replicate 8 KEY_LEFT @ [46]) (JEdit_new 21 ValidateMoney)) =
     Inr (46 # map of_nat [49..<57])" by code_simp
  show "\<not> money_text (46 # map of_nat [49..<57])"
    by (auto simp: money_text_def digits_def upt_rec is_digit_def Cons_eq_append_conv)
qed

lemma id_x_inside:
  "typed (type_keys (replicate 17 49 @ [KEY_LEFT, 120]) (JEdit_new 21 ValidateId)) = Inr (replicate 16 49 @ [120, 49])"
  by code_simp

end
