(* ===== verification/ClientDesktop.thy ===== *)
theory ClientDesktop imports ClientEdit ClientCommands begin

text \<open>
  The teller's screen: the windows of a form and the order in which they take the focus
  (\<open>JFC/JWindow.cpp\<close>, \<open>JForm.cpp\<close>), the forms of \<open>UI/FormManager.cpp\<close> with the editors and buttons their
  constructors create, the receipts (\<open>UI/ReceiptForm.cpp\<close>), the message boxes and the sessions a form
  opens.

  A program of the screen acts on the desktop and the outside world.  The desktop holds the codes the
  keyboard has yet to give, the windows of every form, the window that has the focus, the receipts, the
  report on the screen, the boxes shown so far, and the client's own session.  Colours, positions and
  captions are not modelled.
\<close>

subsection \<open>Windows and the focus\<close>

datatype widget = Label | Edit edit | Button

datatype child = Whole | Lbl nat | Tip nat | Item nat
  | EditUser | EditName | EditId | EditPass | EditPass2 | EditMoney | EditAccountId | EditOtherAccountId
  | EditNewPass | EditNewPass2 | EditDate | EditBeginDate | EditEndDate
  | BtnLogin | BtnExit | BtnSubmit | BtnReset | BtnCancel | BtnQuery | BtnReturn
  | BtnDetail1 | BtnDetail2 | BtnDetail3

text \<open>\<open>childs_\<close> of a form in the order of their creation.\<close>

type_synonym form = "(child \<times> widget) list"

definition can_focus :: "child \<times> widget \<Rightarrow> bool" where
  "can_focus w = (case snd w of Label \<Rightarrow> False | _ \<Rightarrow> True)"

definition FindFirst :: "form \<Rightarrow> child option" where
  "FindFirst childs = map_option fst (find can_focus childs)"

definition FindLast :: "form \<Rightarrow> child option" where
  "FindLast childs = map_option fst (find can_focus (rev childs))"

text \<open>\<open>FindPrev\<close> stops at no end of the list: before the first window it reads outside of it.\<close>

definition FindPrev :: "form \<Rightarrow> child \<Rightarrow> child option res" where
  "FindPrev childs win =
     (case dropWhile (\<lambda>w. fst w \<noteq> win) (rev childs) of
        [] \<Rightarrow> Inr None
      | w # before \<Rightarrow>
          if Some win = FindFirst childs then Inr (FindLast childs)
          else case find can_focus before of None \<Rightarrow> Inl OutOfBounds | Some p \<Rightarrow> Inr (Some (fst p)))"

definition FindNext :: "form \<Rightarrow> child \<Rightarrow> child option" where
  "FindNext childs win =
     (case dropWhile (\<lambda>w. fst w \<noteq> win) childs of
        [] \<Rightarrow> None
      | w # behind \<Rightarrow>
          if Some win = FindLast childs then FindFirst childs else map_option fst (find can_focus behind))"

lemma find_hd_filter: "find P xs = (if filter P xs = [] then None else Some (hd (filter P xs)))"
  by (induction xs) auto

text \<open>The focus goes round the windows that can have it, forwards and backwards.\<close>

lemma focus_order:
  assumes "map fst (filter can_focus childs) = xs @ win # ys" and "distinct (map fst childs)"
  shows "FindNext childs win = Some (hd (ys @ xs @ [win]))"
    and "FindPrev childs win = Inr (Some (last (win # ys @ xs)))"
proof -
  obtain us w vs where f: "filter can_focus childs = us @ w # vs" "map fst us = xs" "fst w = win" "map fst vs = ys"
    using assms(1) by (auto simp: map_eq_append_conv map_eq_Cons_conv)
  have w: "w \<in> set childs" "can_focus w" using arg_cong [OF f(1), of set] by auto
  obtain as bs where c: "childs = as @ w # bs" using w(1) by (meson split_list)
  have d: "win \<notin> set (map fst as)" "win \<notin> set (map fst bs)" using assms(2) f(3) by (auto simp: c)
  have nw: "w \<notin> set as" "w \<notin> set bs" using d f(3) by auto
  have fc: "filter can_focus as @ w # filter can_focus bs = us @ w # vs" using f(1) w(2) by (simp add: c)
  have ab: "filter can_focus as = us" "filter can_focus bs = vs"
    using fc nw by (simp_all add: append_Cons_eq_iff)
  have drop: "dropWhile (\<lambda>w. fst w \<noteq> win) (us @ w # vs) = w # vs" if "win \<notin> set (map fst us)" for us vs :: form
    using that f(3) by (induction us) auto
  have dw: "dropWhile (\<lambda>w. fst w \<noteq> win) childs = w # bs" "dropWhile (\<lambda>w. fst w \<noteq> win) (rev childs) = w # rev as"
    using d drop by (simp_all add: c)
  have fl: "FindFirst childs = Some (hd (xs @ [win]))" "FindLast childs = Some (last (win # ys))"
    using f by (auto simp: FindFirst_def FindLast_def find_hd_filter hd_rev hd_append last_map hd_map simp flip: rev_filter)
  have nin: "win \<notin> set xs" "win \<notin> set ys" using d ab f(2,4) by auto
  show "FindNext childs win = Some (hd (ys @ xs @ [win]))"
  proof (cases "ys = []")
    case True
    then show ?thesis using fl dw(1) by (simp add: FindNext_def)
  next
    case False
    then have "last (win # ys) \<noteq> win" using nin(2) last_in_set [of ys] by auto
    then show ?thesis using fl dw(1) ab(2) f(4) False
      by (auto simp: FindNext_def find_hd_filter hd_map intro!: exI [of _ "snd (hd (filter can_focus bs))"])
  qed
  show "FindPrev childs win = Inr (Some (last (win # ys @ xs)))"
  proof (cases "xs = []")
    case True
    then show ?thesis using fl dw(2) by (simp add: FindPrev_def)
  next
    case False
    then have "win \<noteq> hd (xs @ [win])" "us \<noteq> []" using nin(1) f(2) hd_in_set [OF False] by (metis hd_append2, auto)
    moreover have "find can_focus (rev as) = Some (last us)"
      using ab(1) \<open>us \<noteq> []\<close> by (simp add: find_hd_filter hd_rev flip: rev_filter)
    ultimately show ?thesis using fl dw(2) f(2) False by (auto simp: FindPrev_def last_map)
  qed
qed

subsection \<open>The forms\<close>

definition LoginForm_new :: form where
  "LoginForm_new =
    [(Lbl 0, Label), (EditUser, Edit (JEdit_new 21 ValidateName)), (Tip 0, Label), (Lbl 1, Label),
     (EditPass, Edit (JEdit_new 21 ValidatePass)), (Tip 1, Label), (BtnLogin, Button),
     (BtnExit, Button)]"

definition MainMenuForm_new :: form where
  "MainMenuForm_new = map (\<lambda>i. (Item i, Button)) [0..<9]"

definition OpenAccountForm_new :: form where
  "OpenAccountForm_new =
    [(Lbl 0, Label), (EditName, Edit (JEdit_new 21 ValidateName)), (Tip 0, Label), (Lbl 1, Label),
     (EditId, Edit (JEdit_new 21 ValidateId)), (Tip 1, Label), (Lbl 2, Label),
     (EditPass, Edit (JEdit_new 21 ValidatePass)), (Tip 2, Label), (Lbl 3, Label),
     (EditPass2, Edit (JEdit_new 21 ValidatePass)), (Tip 3, Label), (Lbl 4, Label),
     (EditMoney, Edit (JEdit_new 21 ValidateMoney)), (Tip 4, Label), (BtnSubmit, Button),
     (BtnReset, Button), (BtnCancel, Button)]"

definition DepositForm_new :: form where
  "DepositForm_new =
    [(Lbl 0, Label), (EditAccountId, Edit (JEdit_new 21 ValidateAccountId)), (Tip 0, Label),
     (Lbl 1, Label), (EditMoney, Edit (JEdit_new 21 ValidateMoney)), (Tip 1, Label),
     (BtnSubmit, Button), (BtnReset, Button), (BtnCancel, Button)]"

definition WithdrawalForm_new :: form where
  "WithdrawalForm_new =
    [(Lbl 0, Label), (EditAccountId, Edit (JEdit_new 21 ValidateAccountId)), (Tip 0, Label),
     (Lbl 1, Label), (EditPass, Edit (JEdit_new 21 ValidatePass)), (Tip 1, Label), (Lbl 2, Label),
     (EditMoney, Edit (JEdit_new 21 ValidateMoney)), (Tip 2, Label), (BtnSubmit, Button),
     (BtnReset, Button), (BtnCancel, Button)]"

definition TransferForm_new :: form where
  "TransferForm_new =
    [(Lbl 0, Label), (EditAccountId, Edit (JEdit_new 21 ValidateAccountId)), (Tip 0, Label),
     (Lbl 1, Label), (EditPass, Edit (JEdit_new 21 ValidatePass)), (Tip 1, Label), (Lbl 2, Label),
     (EditMoney, Edit (JEdit_new 21 ValidateMoney)), (Tip 2, Label), (Lbl 3, Label),
     (EditOtherAccountId, Edit (JEdit_new 21 ValidateAccountId)), (Tip 3, Label), (BtnSubmit, Button),
     (BtnReset, Button), (BtnCancel, Button)]"

definition BalanceInquiryForm_new :: form where
  "BalanceInquiryForm_new =
    [(Lbl 0, Label), (EditAccountId, Edit (JEdit_new 21 ValidateAccountId)), (Tip 0, Label),
     (Lbl 1, Label), (EditPass, Edit (JEdit_new 21 ValidatePass)), (Tip 1, Label), (BtnSubmit, Button),
     (BtnReset, Button), (BtnCancel, Button)]"

definition ChangePasswordForm_new :: form where
  "ChangePasswordForm_new =
    [(Lbl 0, Label), (EditAccountId, Edit (JEdit_new 21 ValidateAccountId)), (Tip 0, Label),
     (Lbl 1, Label), (EditPass, Edit (JEdit_new 21 ValidatePass)), (Tip 1, Label), (Lbl 2, Label),
     (EditNewPass, Edit (JEdit_new 21 ValidatePass)), (Tip 2, Label), (Lbl 3, Label),
     (EditNewPass2, Edit (JEdit_new 21 ValidatePass)), (Tip 3, Label), (BtnSubmit, Button),
     (BtnReset, Button), (BtnCancel, Button)]"

definition DetailStatementForm_new :: form where
  "DetailStatementForm_new =
    [(BtnDetail1, Button), (BtnDetail2, Button), (BtnDetail3, Button), (BtnReturn, Button)]"

definition CloseAccountForm_new :: form where
  "CloseAccountForm_new =
    [(Lbl 0, Label), (EditAccountId, Edit (JEdit_new 21 ValidateAccountId)), (Tip 0, Label),
     (Lbl 1, Label), (EditPass, Edit (JEdit_new 21 ValidatePass)), (Tip 1, Label), (BtnSubmit, Button),
     (BtnReset, Button), (BtnCancel, Button)]"

definition QueryDayBillForm_new :: form where
  "QueryDayBillForm_new =
    [(EditDate, Edit (JEdit_new 20 ValidateDate)), (BtnQuery, Button), (BtnCancel, Button)]"

definition QueryHistoryBillForm_new :: form where
  "QueryHistoryBillForm_new =
    [(EditBeginDate, Edit (JEdit_new 20 ValidateDate)),
     (EditEndDate, Edit (JEdit_new 20 ValidateDate)), (BtnQuery, Button), (BtnCancel, Button)]"

definition QueryAccountHistoryBillForm_new :: form where
  "QueryAccountHistoryBillForm_new =
    [(EditAccountId, Edit (JEdit_new 20 ValidateAccountId)),
     (EditBeginDate, Edit (JEdit_new 20 ValidateDate)),
     (EditEndDate, Edit (JEdit_new 20 ValidateDate)), (BtnQuery, Button), (BtnCancel, Button)]"

text \<open>The report has no windows of its own.  A receipt has a label for every item and a button.\<close>

definition lbl_trans_date :: bytes where
  "lbl_trans_date = [0xbd, 0xbb, 0xd2, 0xd7, 0xc8, 0xd5, 0xc6, 0xda]"

definition lbl_open_date :: bytes where
  "lbl_open_date = [0xbf, 0xaa, 0xbb, 0xa7, 0xc8, 0xd5, 0xc6, 0xda]"

definition lbl_close_date :: bytes where
  "lbl_close_date = [0xcf, 0xfa, 0xbb, 0xa7, 0xc8, 0xd5, 0xc6, 0xda]"

definition lbl_owner :: bytes where
  "lbl_owner = [0xbb, 0xa7, 32, 32, 32, 32, 0xc3, 0xfb]"

definition lbl_account :: bytes where
  "lbl_account = [0xd5, 0xca, 32, 32, 32, 32, 0xba, 0xc5]"

definition lbl_other :: bytes where
  "lbl_other = [0xb6, 0xd4, 0xb7, 0xbd, 0xd5, 0xca, 0xba, 0xc5]"

definition lbl_money :: bytes where
  "lbl_money = [0xbd, 0xbb, 0xd2, 0xd7, 0xbd, 0xf0, 0xb6, 0xee]"

definition lbl_sum :: bytes where
  "lbl_sum = [0xbd, 0xf0, 32, 32, 32, 32, 0xb6, 0xee]"

definition lbl_abstract :: bytes where
  "lbl_abstract = [0xd5, 0xaa, 32, 32, 32, 32, 0xd2, 0xaa]"

definition lbl_balance :: bytes where
  "lbl_balance = [0xd3, 0xe0, 32, 32, 32, 32, 0xb6, 0xee]"

definition lbl_interest :: bytes where
  "lbl_interest = [0xc0, 0xfb, 32, 32, 32, 32, 0xcf, 0xa2]"

definition lbl_total :: bytes where
  "lbl_total = [0xd7, 0xdc, 32, 32, 32, 32, 0xbc, 0xc6]"

definition txt_deposit :: bytes where
  "txt_deposit = [0xb4, 0xe6, 0xbf, 0xee]"

definition txt_withdraw :: bytes where
  "txt_withdraw = [0xc8, 0xa1, 0xbf, 0xee]"

definition txt_transfer :: bytes where
  "txt_transfer = [0xd7, 0xaa, 0xd5, 0xca]"

definition opened :: bytes where
  "opened = [0xbf, 0xaa, 0xbb, 0xa7, 0xb3, 0xc9, 0xb9, 0xa6]"

definition deposited :: bytes where
  "deposited = [0xb4, 0xe6, 0xbf, 0xee, 0xb3, 0xc9, 0xb9, 0xa6]"

definition withdrawn :: bytes where
  "withdrawn = [0xc8, 0xa1, 0xbf, 0xee, 0xb3, 0xc9, 0xb9, 0xa6]"

definition transferred :: bytes where
  "transferred = [0xd7, 0xaa, 0xd5, 0xca, 0xb3, 0xc9, 0xb9, 0xa6]"

definition inquired :: bytes where
  "inquired = [0xd3, 0xe0, 0xb6, 0xee, 0xb2, 0xe9, 0xd1, 0xaf, 0xb3, 0xc9, 0xb9, 0xa6]"

definition closed :: bytes where
  "closed = [0xcf, 0xfa, 0xbb, 0xa7, 0xb3, 0xc9, 0xb9, 0xa6]"

definition receipt_new :: "bytes list \<Rightarrow> form" where
  "receipt_new items = map (\<lambda>i. (Lbl i, Label)) [0..<length items] @ [(BtnReturn, Button)]"

definition items_open :: "bytes list" where
  "items_open = [lbl_open_date, lbl_owner, lbl_account, lbl_sum]"

definition items_cash :: "bytes list" where
  "items_cash = [lbl_trans_date, lbl_owner, lbl_account, lbl_money, lbl_abstract, lbl_balance]"

definition items_transfer :: "bytes list" where
  "items_transfer = [lbl_trans_date, lbl_owner, lbl_account, lbl_other, lbl_money, lbl_abstract, lbl_balance]"

definition items_inquiry :: "bytes list" where
  "items_inquiry = [lbl_trans_date, lbl_owner, lbl_account, lbl_balance]"

definition items_close :: "bytes list" where
  "items_close = [lbl_close_date, lbl_owner, lbl_account, lbl_balance, lbl_interest, lbl_total]"

text \<open>The names under which \<open>FormManager\<close> holds the forms.\<close>

datatype form_name = LoginForm | MainMenuForm | OpenAccountForm | DepositForm | WithdrawalForm | TransferForm
  | BalanceInquiryForm | ChangePasswordForm | DetailStatementForm | CloseAccountForm | QueryDayBillForm
  | QueryHistoryBillForm | QueryAccountHistoryBillForm | ReportForm
  | OpenAccountReceiptForm | ReceiptForm | TransferReceiptForm | BalanceInquiryReceiptForm | CloseAccountReceiptForm

fun FormManager_forms :: "form_name \<Rightarrow> form" where
  "FormManager_forms LoginForm = LoginForm_new"
| "FormManager_forms MainMenuForm = MainMenuForm_new"
| "FormManager_forms OpenAccountForm = OpenAccountForm_new"
| "FormManager_forms DepositForm = DepositForm_new"
| "FormManager_forms WithdrawalForm = WithdrawalForm_new"
| "FormManager_forms TransferForm = TransferForm_new"
| "FormManager_forms BalanceInquiryForm = BalanceInquiryForm_new"
| "FormManager_forms ChangePasswordForm = ChangePasswordForm_new"
| "FormManager_forms DetailStatementForm = DetailStatementForm_new"
| "FormManager_forms CloseAccountForm = CloseAccountForm_new"
| "FormManager_forms QueryDayBillForm = QueryDayBillForm_new"
| "FormManager_forms QueryHistoryBillForm = QueryHistoryBillForm_new"
| "FormManager_forms QueryAccountHistoryBillForm = QueryAccountHistoryBillForm_new"
| "FormManager_forms ReportForm = []"
| "FormManager_forms OpenAccountReceiptForm = receipt_new items_open"
| "FormManager_forms ReceiptForm = receipt_new items_cash"
| "FormManager_forms TransferReceiptForm = receipt_new items_transfer"
| "FormManager_forms BalanceInquiryReceiptForm = receipt_new items_inquiry"
| "FormManager_forms CloseAccountReceiptForm = receipt_new items_close"

subsection \<open>Receipts\<close>

datatype receipt_type = RFT_UNKNOWN | RFT_OPEN_ACCOUNT | RFT_DEPOSIT | RFT_WITHDRAW | RFT_TRANSFER
  | RFT_BALANCE_INQUIRY | RFT_CLOSE_ACCOUNT

record receipt =
  rf_type :: receipt_type
  rf_title :: bytes
  rf_items :: "bytes \<rightharpoonup> bytes"

definition ReceiptForm_make :: "bytes list \<Rightarrow> bytes \<Rightarrow> receipt" where
  "ReceiptForm_make items title =
     \<lparr>rf_type = RFT_UNKNOWN, rf_title = title, rf_items = (\<lambda>k. if k \<in> set items then Some k else None)\<rparr>"

fun FormManager_receipts :: "form_name \<Rightarrow> receipt" where
  "FormManager_receipts OpenAccountReceiptForm = ReceiptForm_make items_open opened"
| "FormManager_receipts ReceiptForm = ReceiptForm_make items_cash []"
| "FormManager_receipts TransferReceiptForm = ReceiptForm_make items_transfer transferred"
| "FormManager_receipts BalanceInquiryReceiptForm = ReceiptForm_make items_inquiry inquired"
| "FormManager_receipts CloseAccountReceiptForm = ReceiptForm_make items_close []"
| "FormManager_receipts _ = ReceiptForm_make [] []"

text \<open>\<open>items_[name]\<close> is a null pointer for a name that is not an item of the receipt.\<close>

definition SetItemText :: "bytes \<Rightarrow> bytes \<Rightarrow> receipt \<Rightarrow> receipt res" where
  "SetItemText name s r =
     (case rf_items r name of None \<Rightarrow> Inl OutOfBounds
      | Some label \<Rightarrow> Inr (r\<lparr>rf_items := (rf_items r)(name \<mapsto> name @ lit '':  '' @ s)\<rparr>))"

definition SetTitle :: "bytes \<Rightarrow> receipt \<Rightarrow> receipt" where
  "SetTitle title r = r\<lparr>rf_title := title\<rparr>"

definition SetReceiptFormType :: "receipt_type \<Rightarrow> receipt \<Rightarrow> receipt" where
  "SetReceiptFormType rft r = r\<lparr>rf_type := rft\<rparr>"

fun set_items :: "(bytes \<times> bytes) list \<Rightarrow> receipt \<Rightarrow> receipt res" where
  "set_items [] r = Inr r"
| "set_items ((name, s) # items) r = bind_res (SetItemText name s r) (set_items items)"

subsection \<open>The desktop\<close>

record 'd report_form =
  rp_cmd :: "16 word"
  rp_details :: "'d trans_detail list"
  rp_date :: bytes
  rp_beginDate :: bytes
  rp_endDate :: bytes
  rp_accountId :: bytes
  rp_start :: int
  rp_cur :: int
  rp_curpage :: int
  rp_lines :: int
  rp_pages :: int

definition ReportForm_new :: "16 word \<Rightarrow> 'd report_form" where
  "ReportForm_new cmd = \<lparr>rp_cmd = cmd, rp_details = [], rp_date = [], rp_beginDate = [], rp_endDate = [],
     rp_accountId = [], rp_start = 0, rp_cur = 0, rp_curpage = 0, rp_lines = 0, rp_pages = 0\<rparr>"

record 'd desktop =
  dt_input :: "int list"
  dt_forms :: "form_name \<Rightarrow> form"
  dt_current :: "form_name \<times> child"
  dt_receipts :: "form_name \<Rightarrow> receipt"
  dt_report :: "'d report_form"
  dt_boxes :: "(bytes \<times> bytes) list"
  dt_session :: "'d client_session"
  dt_exited :: bool

type_synonym ('d, 'w) ui = "'d desktop \<times> 'w"

definition GetText :: "form_name \<Rightarrow> child \<Rightarrow> 'd desktop \<Rightarrow> bytes" where
  "GetText name c dt = (case map_of (dt_forms dt name) c of Some (Edit e) \<Rightarrow> ed_text e | _ \<Rightarrow> [])"

fun set_edit :: "(edit \<Rightarrow> edit) \<Rightarrow> widget \<Rightarrow> widget" where
  "set_edit f (Edit e) = Edit (f e)"
| "set_edit f w = w"

definition change_edit :: "form_name \<Rightarrow> child \<Rightarrow> (edit \<Rightarrow> edit) \<Rightarrow> 'd desktop \<Rightarrow> 'd desktop" where
  "change_edit name c f dt = dt\<lparr>dt_forms := (dt_forms dt)(name :=
     map (\<lambda>(c', w). (c', if c' = c then set_edit f w else w)) (dt_forms dt name))\<rparr>"

text \<open>\<open>SetText("")\<close> on each of the editors.\<close>

definition clear_edits :: "form_name \<Rightarrow> child list \<Rightarrow> 'd desktop \<Rightarrow> 'd desktop" where
  "clear_edits name cs dt = fold (\<lambda>c. change_edit name c (SetText [])) cs dt"

text \<open>
  \<open>SetCurrent\<close> of a window that can take the focus, and \<open>Show\<close> of a form: the focus stays where it is
  when it is in the form already.
\<close>

definition SetCurrent :: "form_name \<Rightarrow> child \<Rightarrow> 'd desktop \<Rightarrow> 'd desktop" where
  "SetCurrent name c dt = dt\<lparr>dt_current := (name, c)\<rparr>"

definition show_form :: "form_name \<Rightarrow> 'd desktop \<Rightarrow> 'd desktop" where
  "show_form name dt =
     (if fst (dt_current dt) = name then dt
      else dt\<lparr>dt_current := (name, case FindFirst (dt_forms dt name) of Some c \<Rightarrow> c | None \<Rightarrow> Whole)\<rparr>)"

definition on_desk :: "('d desktop \<Rightarrow> 'd desktop) \<Rightarrow> (('d, 'w) ui, unit) cprog" where
  "on_desk f = c_set (\<lambda>(dt, w). (f dt, w))"

definition JMessageBox_Show :: "bytes \<Rightarrow> bytes \<Rightarrow> int \<Rightarrow> (('d, 'w) ui, int) cprog" where
  "JMessageBox_Show title s buttons = (\<lambda>(dt, w).
     case box_Exec buttons 0 (dt_input dt) of
       None \<Rightarrow> None
     | Some (r, cs) \<Rightarrow> Some (Inr r, (dt\<lparr>dt_input := cs, dt_boxes := dt_boxes dt @ [(title, s)]\<rparr>, w)))"

text \<open>A box with one button, and then the form as it was.\<close>

definition show_box :: "form_name \<Rightarrow> bytes \<Rightarrow> bytes \<Rightarrow> (('d, 'w) ui, unit) cprog" where
  "show_box name title s = c_then (JMessageBox_Show title s 1) (\<lambda>_. on_desk (show_form name))"

definition error_box :: "form_name \<Rightarrow> bytes \<Rightarrow> (('d, 'w) ui, unit) cprog" where
  "error_box name s = show_box name (lit ''-ERROR-'') s"

text \<open>The box about a field, which then takes the focus.\<close>

definition refuse :: "form_name \<Rightarrow> child \<Rightarrow> bytes \<Rightarrow> (('d, 'w) ui, unit) cprog" where
  "refuse name c s = c_then (error_box name s) (\<lambda>_. on_desk (SetCurrent name c))"

definition show_receipt ::
  "form_name \<Rightarrow> receipt_type \<Rightarrow> bytes option \<Rightarrow> (bytes \<times> bytes) list \<Rightarrow> (('d, 'w) ui, unit) cprog" where
  "show_receipt name rft title items =
     c_then (c_read (\<lambda>(dt, w). set_items items
        ((case title of None \<Rightarrow> (\<lambda>r. r) | Some s \<Rightarrow> SetTitle s) (SetReceiptFormType rft (dt_receipts dt name))))) (\<lambda>r.
     on_desk (\<lambda>dt. show_form name (dt\<lparr>dt_receipts := (dt_receipts dt)(name := r)\<rparr>)))"

subsection \<open>Sessions\<close>

text \<open>A \<open>try\<close> block: an \<open>Exception\<close> is shown in a box, whose text ends at the first NUL.\<close>

definition c_catch :: "('s, 'a) cprog \<Rightarrow> (bytes \<Rightarrow> ('s, 'a) cprog) \<Rightarrow> ('s, 'a) cprog" where
  "c_catch m h = (\<lambda>s. case m s of Some (Inl (Throw e), s') \<Rightarrow> h (c_str e) s' | r \<Rightarrow> r)"

text \<open>
  \<open>BankSession bs\<close> in a block: it is opened, the request \<open>act\<close> runs in it, then \<open>k\<close> on the desktop, and at
  the end of the block, or when an exception leaves it, the socket is closed.
\<close>

definition in_session ::
  "('d, 'w) client \<Rightarrow> bytes \<Rightarrow> (('d, 'w) client_state, 'a) cprog \<Rightarrow> ('a \<Rightarrow> (('d, 'w) ui, unit) cprog)
     \<Rightarrow> (('d, 'w) ui, unit) cprog" where
  "in_session C mem act k = (\<lambda>(dt, w).
     case BankSession_open C mem w of
       (Inl e, w') \<Rightarrow> Some (Inl e, (dt, cl_close C w'))
     | (Inr s, w') \<Rightarrow>
         (case act (s, w') of
            None \<Rightarrow> None
          | Some (Inl e, (s', w'')) \<Rightarrow> Some (Inl e, (dt, cl_close C w''))
          | Some (Inr x, (s', w'')) \<Rightarrow>
              (case k x (dt, w'') of
                 None \<Rightarrow> None
               | Some (r, (dt', w3)) \<Rightarrow> Some (r, (dt', cl_close C w3)))))"

text \<open>The same in the client's own session, which stays open.\<close>

definition in_own_session ::
  "(('d, 'w) client_state, 'a) cprog \<Rightarrow> ('a \<Rightarrow> (('d, 'w) ui, unit) cprog) \<Rightarrow> (('d, 'w) ui, unit) cprog" where
  "in_own_session act k = (\<lambda>(dt, w).
     case act (dt_session dt, w) of
       None \<Rightarrow> None
     | Some (Inl e, (s, w')) \<Rightarrow> Some (Inl e, (dt\<lparr>dt_session := s\<rparr>, w'))
     | Some (Inr x, (s, w')) \<Rightarrow> k x (dt\<lparr>dt_session := s\<rparr>, w'))"

text \<open>
  A request: command and attributes, \<open>DoAction\<close>, and what is read from the session when the error code
  is zero; otherwise the error message.
\<close>

definition ask ::
  "('d, 'w) client \<Rightarrow> 16 word \<Rightarrow> (bytes \<times> bytes) list \<Rightarrow> (('d, 'w) client_state, 'a) cprog
     \<Rightarrow> (('d, 'w) client_state, bytes + 'a) cprog" where
  "ask C cmd attrs rd =
     c_then (c_set (\<lambda>(s, w). (fold (\<lambda>(k, v). SetAttribute k v) attrs (s\<lparr>cs_cmd := cmd\<rparr>), w))) (\<lambda>_.
     c_then (Client_DoAction C) (\<lambda>_.
     c_then (c_read (\<lambda>(s, w). Inr (cs_errorCode s, cs_errorMsg s))) (\<lambda>(code, s).
     if code = 0 then c_then rd (\<lambda>x. c_ret (Inr x)) else c_ret (Inl s))))"

text \<open>The texts of a receipt come from the answer, from the request, or are fixed.\<close>

datatype source = Response bytes | Attribute bytes | Text bytes

fun read_source :: "source \<Rightarrow> (('d, 'w) client_state, bytes) cprog" where
  "read_source (Response k) = GetResponse k"
| "read_source (Attribute k) = GetAttribute k"
| "read_source (Text s) = c_ret s"

fun read_sources :: "(bytes \<times> source) list \<Rightarrow> (('d, 'w) client_state, (bytes \<times> bytes) list) cprog" where
  "read_sources [] = c_ret []"
| "read_sources ((name, src) # rest) =
     c_then (read_source src) (\<lambda>s. c_then (read_sources rest) (\<lambda>items. c_ret ((name, s) # items)))"

lemma show_form_fields [simp]:
  "dt_report (show_form name dt) = dt_report dt" "dt_forms (show_form name dt) = dt_forms dt"
  "dt_receipts (show_form name dt) = dt_receipts dt" "dt_boxes (show_form name dt) = dt_boxes dt"
  "dt_input (show_form name dt) = dt_input dt" "dt_session (show_form name dt) = dt_session dt"
  by (simp_all add: show_form_def)

text \<open>How a session's block ends.\<close>

lemma in_sessionE:
  assumes "in_session C mem act k (dt, w) = Some (r, (dt', w'))"
  obtains (thrown) e where "r = Inl e" "dt' = dt"
    | (finished) s w1 x s' w2 w3 where "BankSession_open C mem w = (Inr s, w1)" "act (s, w1) = Some (Inr x, (s', w2))"
        "k x (dt, w2) = Some (r, (dt', w3))" "w' = cl_close C w3"
proof -
  obtain o1 w1 where op: "BankSession_open C mem w = (o1, w1)" by fastforce
  show thesis
  proof (cases o1)
    case (Inl e)
    then show thesis using assms op thrown by (auto simp: in_session_def)
  next
    case (Inr s)
    then show thesis using assms op thrown finished
      by (auto simp: in_session_def split: option.splits sum.splits prod.splits)
  qed
qed

end
