(* ===== verification/ClientPages.thy ===== *)
theory ClientPages imports ClientDesktop "HOL-Library.Signed_Division" begin

text \<open>
  The report on the screen, \<open>UI/ReportForm.cpp\<close>: fifteen rows at a time, a cursor, and the keys that move
  it.  A move that leaves the page opens a session, asks the bank for the new page and replaces the rows.
  The line numbers are C's \<open>int\<close> values without their upper bound.
\<close>

subsection \<open>The moves\<close>

definition SetLines :: "int \<Rightarrow> 'd report_form \<Rightarrow> 'd report_form" where
  "SetLines lines rp = rp\<lparr>rp_lines := lines, rp_pages := (lines + 14) sdiv 15\<rparr>"

definition ReportForm_Reset :: "'d report_form \<Rightarrow> 'd report_form" where
  "ReportForm_Reset rp = rp\<lparr>rp_start := 0, rp_cur := 0, rp_lines := 0, rp_curpage := 0, rp_pages := 0, rp_details := []\<rparr>"

text \<open>Each move says whether the rows have to be fetched.\<close>

definition PageUp :: "'d report_form \<Rightarrow> bool \<times> 'd report_form" where
  "PageUp rp =
     (if rp_curpage rp = 0 then (False, rp)
      else (True, rp\<lparr>rp_curpage := rp_curpage rp - 1, rp_start := rp_start rp - 15, rp_cur := rp_start rp - 15\<rparr>))"

definition PageDown :: "'d report_form \<Rightarrow> bool \<times> 'd report_form" where
  "PageDown rp =
     (if rp_curpage rp = rp_pages rp - 1 then (False, rp)
      else (True, rp\<lparr>rp_curpage := rp_curpage rp + 1, rp_start := rp_start rp + 15, rp_cur := rp_start rp + 15\<rparr>))"

definition Up :: "'d report_form \<Rightarrow> bool \<times> 'd report_form" where
  "Up rp =
     (let rp = (if rp_cur rp > 0 then rp\<lparr>rp_cur := rp_cur rp - 1\<rparr> else rp) in
      if rp_cur rp < rp_start rp then
        (True, rp\<lparr>rp_curpage := rp_curpage rp - 1, rp_start := rp_start rp - 15\<rparr>)
      else (False, rp))"

definition Down :: "'d report_form \<Rightarrow> bool \<times> 'd report_form" where
  "Down rp =
     (let rp = (if rp_cur rp < rp_lines rp - 1 then rp\<lparr>rp_cur := rp_cur rp + 1\<rparr> else rp) in
      if rp_cur rp - rp_start rp \<ge> 15 then
        (True, rp\<lparr>rp_curpage := rp_curpage rp + 1, rp_start := rp_start rp + 15, rp_cur := rp_start rp + 15\<rparr>)
      else (False, rp))"

definition Home :: "'d report_form \<Rightarrow> bool \<times> 'd report_form" where
  "Home rp =
     (if rp_curpage rp = 0 then (False, rp)
      else (True, rp\<lparr>rp_start := 0, rp_cur := 0, rp_curpage := 0\<rparr>))"

definition End :: "'d report_form \<Rightarrow> bool \<times> 'd report_form" where
  "End rp =
     (if rp_curpage rp = rp_pages rp - 1 then (False, rp)
      else (True, rp\<lparr>rp_curpage := rp_pages rp - 1, rp_start := 15 * (rp_pages rp - 1), rp_cur := 15 * (rp_pages rp - 1)\<rparr>))"

text \<open>The request for the page that starts at \<open>start_\<close>, and the rows that come back.\<close>

definition page_request :: "'d report_form \<Rightarrow> 'd client_session \<Rightarrow> 'd client_session" where
  "page_request rp s =
     SetAttribute (lit ''page'') (IntToString (word_of_int (rp_start rp sdiv 15)))
    (SetAttribute (lit ''account_id'') (rp_accountId rp)
    (SetAttribute (lit ''end_date'') (rp_endDate rp)
    (SetAttribute (lit ''begin_date'') (rp_beginDate rp)
    (SetAttribute (lit ''date'') (rp_date rp) (s\<lparr>cs_cmd := rp_cmd rp\<rparr>)))))"

definition fetch_page :: "('d, 'w) client \<Rightarrow> bytes \<Rightarrow> (('d, 'w) ui, unit) cprog" where
  "fetch_page C mem = (\<lambda>(dt, w).
     in_session C mem
       (c_then (c_set (\<lambda>(s, w). (page_request (dt_report dt) s, w))) (\<lambda>_.
        c_then (Client_DoAction C) (\<lambda>_. c_read (\<lambda>(s, w). Inr (cs_details s)))))
       (\<lambda>rows. on_desk (\<lambda>dt. show_form ReportForm (dt\<lparr>dt_report := (dt_report dt)\<lparr>rp_details := rows\<rparr>\<rparr>)))
       (dt, w))"

definition report_move ::
  "('d, 'w) client \<Rightarrow> bytes \<Rightarrow> ('d report_form \<Rightarrow> bool \<times> 'd report_form) \<Rightarrow> (('d, 'w) ui, unit) cprog" where
  "report_move C mem move = (\<lambda>(dt, w).
     case move (dt_report dt) of (fetch, rp) \<Rightarrow>
       if fetch then fetch_page C mem (dt\<lparr>dt_report := rp\<rparr>, w)
       else on_desk (\<lambda>dt. show_form ReportForm (dt\<lparr>dt_report := rp\<rparr>)) (dt, w))"

definition ReportForm_OnKeyEvent :: "('d, 'w) client \<Rightarrow> bytes \<Rightarrow> int \<Rightarrow> (('d, 'w) ui, unit) cprog" where
  "ReportForm_OnKeyEvent C mem key =
     (if key = KEY_ESC then
        on_desk (\<lambda>dt. show_form DetailStatementForm (dt\<lparr>dt_report := ReportForm_Reset (dt_report dt)\<rparr>))
      else if key = KEY_PGDN then report_move C mem PageDown
      else if key = KEY_PGUP then report_move C mem PageUp
      else if key = KEY_DOWN then report_move C mem Down
      else if key = KEY_UP then report_move C mem Up
      else if key = KEY_HOME then report_move C mem Home
      else if key = KEY_END then report_move C mem End
      else c_ret ())"

subsection \<open>Where the cursor is\<close>

definition report_ok :: "'d report_form \<Rightarrow> bool" where
  "report_ok rp \<longleftrightarrow> 0 < rp_lines rp \<and> rp_pages rp = (rp_lines rp + 14) div 15 \<and>
     0 \<le> rp_curpage rp \<and> rp_curpage rp < rp_pages rp \<and> rp_start rp = 15 * rp_curpage rp \<and>
     rp_start rp \<le> rp_cur rp \<and> rp_cur rp < rp_start rp + 15 \<and> rp_cur rp < rp_lines rp"

lemma sdiv_15: "0 \<le> i \<Longrightarrow> i sdiv 15 = i div 15" for i :: int
  by (simp add: signed_divide_int_def sgn_if)

lemma report_ok_first:
  "0 < lines \<Longrightarrow> rp_start rp = 0 \<Longrightarrow> rp_cur rp = 0 \<Longrightarrow> rp_curpage rp = 0 \<Longrightarrow> report_ok (SetLines lines rp)"
  by (auto simp: report_ok_def SetLines_def sdiv_15)

text \<open>A move on a report that is right, and the row it leads to.\<close>

lemma moves_ok:
  assumes "report_ok rp"
  shows "report_ok (snd (PageUp rp))" "report_ok (snd (PageDown rp))" "report_ok (snd (Up rp))"
    "report_ok (snd (Down rp))" "report_ok (snd (Home rp))" "report_ok (snd (End rp))"
  using assms by (auto simp: report_ok_def PageUp_def PageDown_def Up_def Down_def Home_def End_def Let_def)

lemma moves_fetch:
  assumes "report_ok rp" and "move \<in> {PageUp, PageDown, Up, Down, Home, End}"
  shows "fst (move rp) \<longleftrightarrow> rp_curpage (snd (move rp)) \<noteq> rp_curpage rp"
    and "rp_details (snd (move rp)) = rp_details rp" and "rp_cmd (snd (move rp)) = rp_cmd rp"
  using assms by (auto simp: report_ok_def PageUp_def PageDown_def Up_def Down_def Home_def End_def Let_def split: if_splits)

lemma page_request_page:
  "report_ok rp \<Longrightarrow> cs_request (page_request rp s) (lit ''page'') = Some (IntToString (word_of_int (rp_curpage rp)))"
  by (simp add: page_request_def SetAttribute_def report_ok_def sdiv_15)

text \<open>How a session's block ends, seen from the rows of the report.\<close>

lemma fetch_page_rows:
  assumes "fetch_page C mem (dt, w) = Some (r, (dt', w'))"
  shows "(\<exists>f. r = Inl f) \<and> dt_report dt' = dt_report dt \<or>
    (\<exists>s w1 b s' w2. BankSession_open C mem w = (Inr s, w1) \<and>
       Client_DoAction C (page_request (dt_report dt) s, w1) = Some (Inr b, (s', w2)) \<and>
       r = Inr () \<and> dt_report dt' = (dt_report dt)\<lparr>rp_details := cs_details s'\<rparr>)"
  using assms unfolding fetch_page_def prod.case
proof (cases rule: in_sessionE)
  case (finished s w1 x s' w2 w3)
  then obtain b where "Client_DoAction C (page_request (dt_report dt) s, w1) = Some (Inr b, (s', w2))" "x = cs_details s'"
    by (auto simp: c_then_def c_simps split: option.splits sum.splits prod.splits)
  then show ?thesis using finished by (auto simp: on_desk_def c_simps)
qed simp


end
