(* ===== verification/ClientForms.thy ===== *)
theory ClientForms imports ClientPages begin

text \<open>
  The forms of \<open>BankClient/UI\<close> as programs of the desktop: what each makes of a key, the checks before a
  request is sent, the request, the receipt or the report that shows the answer; and the loop of
  \<open>JFC/JApplication.cpp\<close> that hands the keys to the window with the focus.

  \<open>Own\<close> is the connection of the client's own session, which the login and the inquiry use; the other
  forms open a session of their own over \<open>C\<close>, whose buffer holds \<open>mem\<close>.
\<close>

subsection \<open>Keys a form does not handle itself\<close>

definition JForm_OnKeyEvent :: "form_name \<Rightarrow> child \<Rightarrow> int \<Rightarrow> (('d, 'w) ui, unit) cprog" where
  "JForm_OnKeyEvent name sender key =
     (if sender = Whole then c_ret ()
      else if key = KEY_UP \<or> key = KEY_LEFT then
        c_then (c_read (\<lambda>(dt, w). FindPrev (dt_forms dt name) sender)) (\<lambda>win.
          case win of None \<Rightarrow> c_ret () | Some c \<Rightarrow> on_desk (SetCurrent name c))
      else if key = KEY_ENTER \<or> key = KEY_DOWN \<or> key = KEY_RIGHT \<or> key = KEY_TAB then
        c_then (c_read (\<lambda>(dt, w). Inr (FindNext (dt_forms dt name) sender))) (\<lambda>win.
          case win of None \<Rightarrow> c_ret () | Some c \<Rightarrow> on_desk (SetCurrent name c))
      else c_ret ())"

definition to_menu :: "nat \<Rightarrow> 'd desktop \<Rightarrow> 'd desktop" where
  "to_menu i dt = show_form MainMenuForm (SetCurrent MainMenuForm (Item i) dt)"

text \<open>
  The keys of a form with fields: escape and the cancel button clear it and go back to item \<open>i\<close> of the
  menu, the reset button clears it, the submit button sends it.
\<close>

definition entry_OnKeyEvent ::
  "form_name \<Rightarrow> child list \<Rightarrow> nat \<Rightarrow> child \<Rightarrow> (('d, 'w) ui, unit) cprog \<Rightarrow> child \<Rightarrow> int \<Rightarrow> (('d, 'w) ui, unit) cprog" where
  "entry_OnKeyEvent name edits i first submit sender key =
     (if key = KEY_ESC then on_desk (\<lambda>dt. to_menu i (clear_edits name edits dt))
      else if key = KEY_ENTER \<and> sender = BtnCancel then on_desk (\<lambda>dt. to_menu i (clear_edits name edits dt))
      else if key = KEY_ENTER \<and> sender = BtnReset then
        on_desk (\<lambda>dt. show_form name (SetCurrent name first (clear_edits name edits dt)))
      else if key = KEY_ENTER \<and> sender = BtnSubmit then submit
      else JForm_OnKeyEvent name sender key)"

subsection \<open>Sending a form\<close>

text \<open>
  What all forms do: a refused request is shown in a box, as is an exception; a request that was done
  goes on with \<open>k\<close>.
\<close>

definition answered ::
  "form_name \<Rightarrow> ('a \<Rightarrow> (('d, 'w) ui, unit) cprog) \<Rightarrow> bytes + 'a \<Rightarrow> (('d, 'w) ui, unit) cprog" where
  "answered name k r = (case r of Inl s \<Rightarrow> error_box name s | Inr x \<Rightarrow> k x)"

definition send_form ::
  "('d, 'w) client \<Rightarrow> bytes \<Rightarrow> form_name \<Rightarrow> 16 word \<Rightarrow> (bytes \<times> bytes) list \<Rightarrow> (('d, 'w) client_state, 'a) cprog
     \<Rightarrow> ('a \<Rightarrow> (('d, 'w) ui, unit) cprog) \<Rightarrow> (('d, 'w) ui, unit) cprog" where
  "send_form C mem name cmd attrs rd k =
     c_catch (in_session C mem (ask C cmd attrs rd) (answered name k)) (error_box name)"

definition send_own_form ::
  "('d, 'w) client \<Rightarrow> form_name \<Rightarrow> 16 word \<Rightarrow> (bytes \<times> bytes) list \<Rightarrow> (('d, 'w) client_state, 'a) cprog
     \<Rightarrow> ('a \<Rightarrow> (('d, 'w) ui, unit) cprog) \<Rightarrow> (('d, 'w) ui, unit) cprog" where
  "send_own_form Own name cmd attrs rd k =
     c_catch (in_own_session (c_then (c_set (\<lambda>(s, w). (Session_Clear s, w))) (\<lambda>_. ask Own cmd attrs rd))
       (answered name k)) (error_box name)"

text \<open>The fields of a form, read before the checks.\<close>

definition with_texts :: "form_name \<Rightarrow> child list \<Rightarrow> (bytes list \<Rightarrow> (('d, 'w) ui, unit) cprog) \<Rightarrow> (('d, 'w) ui, unit) cprog" where
  "with_texts name cs k = c_then (c_read (\<lambda>(dt, w). Inr (map (\<lambda>c. GetText name c dt) cs))) k"

subsection \<open>The texts of the boxes\<close>

definition short_account :: bytes where
  "short_account = [0xd5, 0xca, 0xba, 0xc5, 0xd0, 0xa1, 0xd3, 0xda, 54, 0xce, 0xbb]"

definition short_account2 :: bytes where
  "short_account2 = [0xd5, 0xca, 0xba, 0xc5, 0xb3, 0xa4, 0xb6, 0xc8, 0xd0, 0xa1, 0xd3, 0xda, 54, 0xce, 0xbb]"

definition short_pass :: bytes where
  "short_pass = [0xc3, 0xdc, 0xc2, 0xeb, 0xd0, 0xa1, 0xd3, 0xda, 54, 0xce, 0xbb]"

definition short_user :: bytes where
  "short_user = [0xd3, 0xc3, 0xbb, 0xa7, 0xc3, 0xfb, 0xd0, 0xa1, 0xd3, 0xda, 51, 0xce, 0xbb]"

definition short_name :: bytes where
  "short_name = [0xc3, 0xfb, 0xb3, 0xc6, 0xd0, 0xa1, 0xd3, 0xda, 51, 0xce, 0xbb]"

definition wrong_id :: bytes where
  "wrong_id = [0xc9, 0xed, 0xb7, 0xdd, 0xd6, 0xa4, 0xba, 0xc5, 0xb1, 0xd8, 0xd0, 0xeb, 0xca, 0xc7, 49, 56, 0xce, 0xbb]"

definition no_money :: bytes where
  "no_money = [0xbd, 0xf0, 0xb6, 0xee, 0xb2, 0xbb, 0xc4, 0xdc, 0xce, 0xaa, 0xbf, 0xd5]"

definition own_account :: bytes where
  "own_account = [0xb2, 0xbb, 0xc4, 0xdc, 0xd7, 0xaa, 0xc8, 0xeb, 0xb5, 0xbd, 0xd7, 0xd4, 0xc9, 0xed, 0xd5, 0xca, 0xbb, 0xa7]"

definition other_repeat :: bytes where
  "other_repeat = [0xc8, 0xb7, 0xc8, 0xcf, 0xc3, 0xdc, 0xc2, 0xeb, 0xb2, 0xbb, 0xd2, 0xbb, 0xd6, 0xc2]"

definition same_pass :: bytes where
  "same_pass = [0xd0, 0xc2, 0xc3, 0xdc, 0xc2, 0xeb, 0xd3, 0xeb, 0xd4, 0xad, 0xc3, 0xdc, 0xc2, 0xeb, 0xb2, 0xbb, 0xc4, 0xdc, 0xcf, 0xe0, 0xcd, 0xac]"

definition short_date :: bytes where
  "short_date = [0xc8, 0xd5, 0xc6, 0xda, 0xd0, 0xa1, 0xd3, 0xda, 49, 48, 0xce, 0xbb]"

definition short_begin :: bytes where
  "short_begin = [0xbf, 0xaa, 0xca, 0xbc, 0xc8, 0xd5, 0xc6, 0xda, 0xd0, 0xa1, 0xd3, 0xda, 49, 48, 0xce, 0xbb]"

definition short_end :: bytes where
  "short_end = [0xbd, 0xe1, 0xca, 0xf8, 0xc8, 0xd5, 0xc6, 0xda, 0xd0, 0xa1, 0xd3, 0xda, 49, 48, 0xce, 0xbb]"

definition logged_in :: bytes where
  "logged_in = [0xb5, 0xc7, 0xc2, 0xbc, 0xb3, 0xc9, 0xb9, 0xa6]"

definition pass_changed :: bytes where
  "pass_changed = [0xd0, 0xde, 0xb8, 0xc4, 0xc3, 0xdc, 0xc2, 0xeb, 0xb3, 0xc9, 0xb9, 0xa6]"

subsection \<open>LoginForm\<close>

definition LoginForm_Reset :: "'d desktop \<Rightarrow> 'd desktop" where
  "LoginForm_Reset = clear_edits LoginForm [EditUser, EditPass]"

definition LoginForm_Login :: "('d, 'w) client \<Rightarrow> (('d, 'w) ui, unit) cprog" where
  "LoginForm_Login Own = with_texts LoginForm [EditUser, EditPass] (\<lambda>texts.
     let user = texts ! 0; pass = texts ! 1 in
     if length user < 3 then
       c_then (JMessageBox_Show (lit ''-ERROR-'') short_user 1) (\<lambda>_. on_desk (SetCurrent LoginForm EditUser))
     else if length pass < 6 then
       c_then (JMessageBox_Show (lit ''-ERROR-'') short_pass 1) (\<lambda>_. on_desk (SetCurrent LoginForm EditPass))
     else
       send_own_form Own LoginForm 1 [(lit ''name'', user), (lit ''pass'', pass)] (c_ret ()) (\<lambda>_.
         c_then (JMessageBox_Show (lit ''-MESSAGE-'') logged_in 1) (\<lambda>_.
         on_desk (\<lambda>dt. show_form MainMenuForm (LoginForm_Reset dt)))))"

definition LoginForm_Exit :: "(('d, 'w) ui, unit) cprog" where
  "LoginForm_Exit =
     c_then (JMessageBox_Show (lit ''-MESSAGE-'') (lit ''Do you want to exit'' @ replicate 77 63) 7) (\<lambda>result.
     if result = 0 then on_desk (\<lambda>dt. dt\<lparr>dt_exited := True\<rparr>) else on_desk (show_form LoginForm))"

definition LoginForm_OnKeyEvent :: "('d, 'w) client \<Rightarrow> child \<Rightarrow> int \<Rightarrow> (('d, 'w) ui, unit) cprog" where
  "LoginForm_OnKeyEvent Own sender key =
     (if sender = BtnLogin \<and> key = KEY_ENTER then LoginForm_Login Own
      else if sender = BtnExit \<and> key = KEY_ENTER then LoginForm_Exit
      else JForm_OnKeyEvent LoginForm sender key)"

subsection \<open>MainMenuForm\<close>

text \<open>The forms behind the items of the menu and behind the digit keys.\<close>

definition menu_forms :: "form_name list" where
  "menu_forms = [OpenAccountForm, DepositForm, WithdrawalForm, TransferForm, BalanceInquiryForm,
     ChangePasswordForm, DetailStatementForm, CloseAccountForm]"

definition MainMenuForm_exit :: "(('d, 'w) ui, unit) cprog" where
  "MainMenuForm_exit =
     c_then (JMessageBox_Show (lit ''-MESSAGE-'') (lit ''Do you want to exit?'') 2) (\<lambda>result.
     if result = 0 then on_desk (show_form LoginForm) else on_desk (show_form MainMenuForm))"

definition MainMenuForm_OnKeyEvent :: "child \<Rightarrow> int \<Rightarrow> (('d, 'w) ui, unit) cprog" where
  "MainMenuForm_OnKeyEvent sender key =
     (if KEY_digit 1 \<le> key \<and> key \<le> KEY_digit 8 then on_desk (show_form (menu_forms ! nat (key - KEY_digit 1)))
      else if key = KEY_digit 0 \<or> key = KEY_ESC then MainMenuForm_exit
      else if key = KEY_ENTER then
        (case sender of
           Item i \<Rightarrow> if i < 8 then on_desk (show_form (menu_forms ! i))
                     else if i = 8 then MainMenuForm_exit else JForm_OnKeyEvent MainMenuForm sender key
         | _ \<Rightarrow> JForm_OnKeyEvent MainMenuForm sender key)
      else JForm_OnKeyEvent MainMenuForm sender key)"

subsection \<open>OpenAccountForm\<close>

definition OpenAccountForm_Submit :: "('d, 'w) client \<Rightarrow> bytes \<Rightarrow> (('d, 'w) ui, unit) cprog" where
  "OpenAccountForm_Submit C mem =
     with_texts OpenAccountForm [EditName, EditId, EditPass, EditPass2, EditMoney] (\<lambda>texts.
     let name = texts ! 0; idnr = texts ! 1; pass = texts ! 2; pass2 = texts ! 3; money = texts ! 4 in
     if length name < 3 then refuse OpenAccountForm EditName short_name
     else if length idnr \<noteq> 18 then refuse OpenAccountForm EditId wrong_id
     else if length pass < 6 then refuse OpenAccountForm EditPass short_pass
     else if length pass2 < 6 then refuse OpenAccountForm EditPass2 short_pass
     else if pass \<noteq> pass2 then refuse OpenAccountForm EditPass2 other_repeat
     else if money = [] then refuse OpenAccountForm EditMoney no_money
     else
       send_form C mem OpenAccountForm 2
         [(lit ''name'', name), (lit ''pass'', pass), (lit ''id'', idnr), (lit ''money'', money)]
         (read_sources [(lbl_open_date, Response (lit ''open_date'')), (lbl_owner, Attribute (lit ''name'')),
            (lbl_account, Response (lit ''account_id'')), (lbl_sum, Attribute (lit ''money''))])
         (\<lambda>items. c_then (on_desk (clear_edits OpenAccountForm [EditName, EditId, EditPass, EditPass2, EditMoney])) (\<lambda>_.
            show_receipt OpenAccountReceiptForm RFT_OPEN_ACCOUNT None items)))"

definition OpenAccountForm_OnKeyEvent :: "('d, 'w) client \<Rightarrow> bytes \<Rightarrow> child \<Rightarrow> int \<Rightarrow> (('d, 'w) ui, unit) cprog" where
  "OpenAccountForm_OnKeyEvent C mem = entry_OnKeyEvent OpenAccountForm [EditName, EditId, EditPass, EditPass2, EditMoney] 0 EditName (OpenAccountForm_Submit C mem)"

subsection \<open>DepositForm\<close>

definition DepositForm_Submit :: "('d, 'w) client \<Rightarrow> bytes \<Rightarrow> (('d, 'w) ui, unit) cprog" where
  "DepositForm_Submit C mem =
     with_texts DepositForm [EditAccountId, EditMoney] (\<lambda>texts.
     let aid = texts ! 0; money = texts ! 1 in
     if length aid < 6 then refuse DepositForm EditAccountId short_account
     else if money = [] then refuse DepositForm EditAccountId no_money
     else
       send_form C mem DepositForm 3 [(lit ''account_id'', aid), (lit ''money'', money)]
         (read_sources [(lbl_trans_date, Response (lit ''trans_date'')), (lbl_owner, Response (lit ''name'')),
            (lbl_account, Attribute (lit ''account_id'')), (lbl_money, Attribute (lit ''money'')),
            (lbl_abstract, Text txt_deposit), (lbl_balance, Response (lit ''balance''))])
         (\<lambda>items. c_then (on_desk (clear_edits DepositForm [EditAccountId, EditMoney])) (\<lambda>_.
            show_receipt ReceiptForm RFT_DEPOSIT (Some deposited) items)))"

definition DepositForm_OnKeyEvent :: "('d, 'w) client \<Rightarrow> bytes \<Rightarrow> child \<Rightarrow> int \<Rightarrow> (('d, 'w) ui, unit) cprog" where
  "DepositForm_OnKeyEvent C mem = entry_OnKeyEvent DepositForm [EditAccountId, EditMoney] 1 EditAccountId (DepositForm_Submit C mem)"

subsection \<open>WithdrawalForm\<close>

text \<open>\<open>GetResponse("money")\<close> only goes into a text that is not shown.\<close>

definition WithdrawalForm_Submit :: "('d, 'w) client \<Rightarrow> bytes \<Rightarrow> (('d, 'w) ui, unit) cprog" where
  "WithdrawalForm_Submit C mem =
     with_texts WithdrawalForm [EditAccountId, EditPass, EditMoney] (\<lambda>texts.
     let aid = texts ! 0; pass = texts ! 1; money = texts ! 2 in
     if length aid < 6 then refuse WithdrawalForm EditAccountId short_account
     else if length pass < 6 then refuse WithdrawalForm EditPass short_pass
     else if money = [] then refuse WithdrawalForm EditPass no_money
     else
       send_form C mem WithdrawalForm 4
         [(lit ''account_id'', aid), (lit ''pass'', pass), (lit ''money'', money)]
         (c_then (GetResponse (lit ''money'')) (\<lambda>_.
          read_sources [(lbl_trans_date, Response (lit ''trans_date'')), (lbl_owner, Response (lit ''name'')),
            (lbl_account, Attribute (lit ''account_id'')), (lbl_money, Attribute (lit ''money'')),
            (lbl_abstract, Text txt_withdraw), (lbl_balance, Response (lit ''balance''))]))
         (\<lambda>items. c_then (on_desk (clear_edits WithdrawalForm [EditAccountId, EditPass, EditMoney])) (\<lambda>_.
            show_receipt ReceiptForm RFT_WITHDRAW (Some withdrawn) items)))"

definition WithdrawalForm_OnKeyEvent :: "('d, 'w) client \<Rightarrow> bytes \<Rightarrow> child \<Rightarrow> int \<Rightarrow> (('d, 'w) ui, unit) cprog" where
  "WithdrawalForm_OnKeyEvent C mem = entry_OnKeyEvent WithdrawalForm [EditAccountId, EditPass, EditMoney] 2 EditAccountId (WithdrawalForm_Submit C mem)"

subsection \<open>TransferForm\<close>

definition TransferForm_Submit :: "('d, 'w) client \<Rightarrow> bytes \<Rightarrow> (('d, 'w) ui, unit) cprog" where
  "TransferForm_Submit C mem =
     with_texts TransferForm [EditAccountId, EditPass, EditMoney, EditOtherAccountId] (\<lambda>texts.
     let aid = texts ! 0; pass = texts ! 1; money = texts ! 2; other = texts ! 3 in
     if length aid < 6 then refuse TransferForm EditAccountId short_account
     else if length pass < 6 then refuse TransferForm EditPass short_pass
     else if length other < 6 then refuse TransferForm EditAccountId short_account
     else if money = [] then refuse TransferForm EditAccountId no_money
     else if aid = other then refuse TransferForm EditAccountId own_account
     else
       send_form C mem TransferForm 5
         [(lit ''account_id'', aid), (lit ''pass'', pass), (lit ''money'', money), (lit ''other_account_id'', other)]
         (c_then (GetResponse (lit ''account_id'')) (\<lambda>_.
          read_sources [(lbl_trans_date, Response (lit ''trans_date'')), (lbl_owner, Response (lit ''name'')),
            (lbl_account, Attribute (lit ''account_id'')), (lbl_other, Attribute (lit ''other_account_id'')),
            (lbl_money, Attribute (lit ''money'')), (lbl_abstract, Text txt_transfer),
            (lbl_balance, Response (lit ''balance''))]))
         (\<lambda>items. c_then (on_desk (clear_edits TransferForm [EditAccountId, EditPass, EditMoney, EditOtherAccountId])) (\<lambda>_.
            show_receipt TransferReceiptForm RFT_TRANSFER (Some transferred) items)))"

definition TransferForm_OnKeyEvent :: "('d, 'w) client \<Rightarrow> bytes \<Rightarrow> child \<Rightarrow> int \<Rightarrow> (('d, 'w) ui, unit) cprog" where
  "TransferForm_OnKeyEvent C mem = entry_OnKeyEvent TransferForm [EditAccountId, EditPass, EditMoney, EditOtherAccountId] 3 EditAccountId (TransferForm_Submit C mem)"

subsection \<open>BalanceInquiryForm\<close>

definition BalanceInquiryForm_Submit :: "('d, 'w) client \<Rightarrow> (('d, 'w) ui, unit) cprog" where
  "BalanceInquiryForm_Submit Own =
     with_texts BalanceInquiryForm [EditAccountId, EditPass] (\<lambda>texts.
     let aid = texts ! 0; pass = texts ! 1 in
     if length aid < 6 then refuse BalanceInquiryForm EditAccountId short_account
     else if length pass < 6 then refuse BalanceInquiryForm EditPass short_pass
     else
       send_own_form Own BalanceInquiryForm 6 [(lit ''account_id'', aid), (lit ''pass'', pass)]
         (read_sources [(lbl_trans_date, Response (lit ''trans_date'')), (lbl_owner, Response (lit ''name'')),
            (lbl_account, Attribute (lit ''account_id'')), (lbl_balance, Response (lit ''balance''))])
         (\<lambda>items. c_then (on_desk (clear_edits BalanceInquiryForm [EditAccountId, EditPass])) (\<lambda>_.
            show_receipt BalanceInquiryReceiptForm RFT_BALANCE_INQUIRY (Some inquired) items)))"

definition BalanceInquiryForm_OnKeyEvent :: "('d, 'w) client \<Rightarrow> child \<Rightarrow> int \<Rightarrow> (('d, 'w) ui, unit) cprog" where
  "BalanceInquiryForm_OnKeyEvent Own =
     entry_OnKeyEvent BalanceInquiryForm [EditAccountId, EditPass] 4 EditAccountId (BalanceInquiryForm_Submit Own)"

subsection \<open>ChangePasswordForm\<close>

text \<open>The length of the new password is not checked.\<close>

definition ChangePasswordForm_Submit :: "('d, 'w) client \<Rightarrow> bytes \<Rightarrow> (('d, 'w) ui, unit) cprog" where
  "ChangePasswordForm_Submit C mem =
     with_texts ChangePasswordForm [EditAccountId, EditPass, EditNewPass, EditNewPass2] (\<lambda>texts.
     let aid = texts ! 0; pass = texts ! 1; newpass = texts ! 2; newpass2 = texts ! 3 in
     if length aid < 6 then refuse ChangePasswordForm EditAccountId short_account
     else if length pass < 6 then refuse ChangePasswordForm EditPass short_pass
     else if newpass \<noteq> newpass2 then refuse ChangePasswordForm EditNewPass2 other_repeat
     else if pass = newpass then refuse ChangePasswordForm EditNewPass same_pass
     else
       send_form C mem ChangePasswordForm 7
         [(lit ''account_id'', aid), (lit ''pass'', pass), (lit ''newpass'', newpass)] (c_ret ()) (\<lambda>_.
         c_then (on_desk (clear_edits ChangePasswordForm [EditAccountId, EditPass, EditNewPass, EditNewPass2])) (\<lambda>_.
         c_then (JMessageBox_Show (lit ''-MESSAGE-'') pass_changed 1) (\<lambda>_. on_desk (to_menu 5)))))"

definition ChangePasswordForm_OnKeyEvent :: "('d, 'w) client \<Rightarrow> bytes \<Rightarrow> child \<Rightarrow> int \<Rightarrow> (('d, 'w) ui, unit) cprog" where
  "ChangePasswordForm_OnKeyEvent C mem = entry_OnKeyEvent ChangePasswordForm [EditAccountId, EditPass, EditNewPass, EditNewPass2] 5 EditAccountId (ChangePasswordForm_Submit C mem)"

subsection \<open>CloseAccountForm\<close>

definition CloseAccountForm_Submit :: "('d, 'w) client \<Rightarrow> bytes \<Rightarrow> (('d, 'w) ui, unit) cprog" where
  "CloseAccountForm_Submit C mem =
     with_texts CloseAccountForm [EditAccountId, EditPass] (\<lambda>texts.
     let aid = texts ! 0; pass = texts ! 1 in
     if length aid < 6 then refuse CloseAccountForm EditAccountId short_account
     else if length pass < 6 then refuse CloseAccountForm EditPass short_pass
     else
       send_form C mem CloseAccountForm 11 [(lit ''account_id'', aid), (lit ''pass'', pass)]
         (c_then (GetResponse (lit ''balance'')) (\<lambda>balance.
          c_then (GetResponse (lit ''interest'')) (\<lambda>interest.
          c_then (c_ret (dbl_add (cl_arith C) (StringToDouble (cl_arith C) (cl_dbl C) balance)
                    (StringToDouble (cl_arith C) (cl_dbl C) interest))) (\<lambda>total.
          read_sources [(lbl_close_date, Response (lit ''close_date'')), (lbl_owner, Response (lit ''name'')),
            (lbl_account, Attribute (lit ''account_id'')), (lbl_balance, Response (lit ''balance'')),
            (lbl_interest, Response (lit ''interest'')),
            (lbl_total, Text (DoubleToString (cl_arith C) total))]))))
         (\<lambda>items. c_then (on_desk (clear_edits CloseAccountForm [EditAccountId, EditPass])) (\<lambda>_.
            show_receipt CloseAccountReceiptForm RFT_CLOSE_ACCOUNT (Some closed) items)))"

definition CloseAccountForm_OnKeyEvent :: "('d, 'w) client \<Rightarrow> bytes \<Rightarrow> child \<Rightarrow> int \<Rightarrow> (('d, 'w) ui, unit) cprog" where
  "CloseAccountForm_OnKeyEvent C mem = entry_OnKeyEvent CloseAccountForm [EditAccountId, EditPass] 7 EditAccountId (CloseAccountForm_Submit C mem)"

subsection \<open>The queries\<close>

text \<open>
  The rows of an answer in the report: the number of lines is taken from the first row, which is read
  without a check that there is one.
\<close>

definition show_report ::
  "16 word \<Rightarrow> ('d report_form \<Rightarrow> 'd report_form) \<Rightarrow> ('d desktop \<Rightarrow> 'd desktop) \<Rightarrow> 'd trans_detail list
     \<Rightarrow> (('d, 'w) ui, unit) cprog" where
  "show_report cmd dates reset rows =
     (case rows of [] \<Rightarrow> c_lift (Inl OutOfBounds)
      | td # _ \<Rightarrow> on_desk (\<lambda>dt. show_form ReportForm (reset (dt\<lparr>dt_report :=
          dates ((SetLines (sint (td_total td)) ((dt_report dt)\<lparr>rp_cmd := cmd\<rparr>))\<lparr>rp_details := rows\<rparr>)\<rparr>))))"

definition read_rows :: "(('d, 'w) client_state, 'd trans_detail list) cprog" where
  "read_rows = c_read (\<lambda>(s, w). Inr (cs_details s))"

definition QueryDayBillForm_Query :: "('d, 'w) client \<Rightarrow> bytes \<Rightarrow> (('d, 'w) ui, unit) cprog" where
  "QueryDayBillForm_Query C mem = with_texts QueryDayBillForm [EditDate] (\<lambda>texts.
     let date = texts ! 0 in
     if length date < 10 then refuse QueryDayBillForm EditDate short_date
     else
       send_form C mem QueryDayBillForm 8 [(lit ''date'', date), (lit ''page'', lit ''0'')] read_rows
         (show_report 8 (\<lambda>rp. rp\<lparr>rp_date := date\<rparr>) (clear_edits QueryDayBillForm [EditDate])))"

definition QueryHistoryBillForm_Query :: "('d, 'w) client \<Rightarrow> bytes \<Rightarrow> (('d, 'w) ui, unit) cprog" where
  "QueryHistoryBillForm_Query C mem = with_texts QueryHistoryBillForm [EditBeginDate, EditEndDate] (\<lambda>texts.
     let begin_date = texts ! 0; end_date = texts ! 1 in
     if length begin_date < 10 then refuse QueryHistoryBillForm EditBeginDate short_begin
     else if length end_date < 10 then refuse QueryHistoryBillForm EditEndDate short_end
     else
       send_form C mem QueryHistoryBillForm 9
         [(lit ''begin_date'', begin_date), (lit ''end_date'', end_date), (lit ''page'', lit ''0'')] read_rows
         (show_report 9 (\<lambda>rp. rp\<lparr>rp_beginDate := begin_date, rp_endDate := end_date\<rparr>) (\<lambda>dt. dt)))"

definition QueryAccountHistoryBillForm_Query :: "('d, 'w) client \<Rightarrow> bytes \<Rightarrow> (('d, 'w) ui, unit) cprog" where
  "QueryAccountHistoryBillForm_Query C mem =
     with_texts QueryAccountHistoryBillForm [EditAccountId, EditBeginDate, EditEndDate] (\<lambda>texts.
     let aid = texts ! 0; begin_date = texts ! 1; end_date = texts ! 2 in
     if length aid < 6 then refuse QueryAccountHistoryBillForm EditAccountId short_account2
     else if length begin_date < 10 then refuse QueryAccountHistoryBillForm EditBeginDate short_begin
     else if length end_date < 10 then refuse QueryAccountHistoryBillForm EditEndDate short_end
     else
       send_form C mem QueryAccountHistoryBillForm 10
         [(lit ''account_id'', aid), (lit ''begin_date'', begin_date), (lit ''end_date'', end_date),
          (lit ''page'', lit ''0'')] read_rows
         (show_report 10 (\<lambda>rp. rp\<lparr>rp_accountId := aid, rp_beginDate := begin_date, rp_endDate := end_date\<rparr>) (\<lambda>dt. dt)))"

text \<open>The keys of a query form; \<open>detail\<close> is the button of the form before it.\<close>

definition query_OnKeyEvent ::
  "form_name \<Rightarrow> child \<Rightarrow> (('d, 'w) ui, unit) cprog \<Rightarrow> child \<Rightarrow> int \<Rightarrow> (('d, 'w) ui, unit) cprog" where
  "query_OnKeyEvent name detail submit sender key =
     (if key = KEY_ESC \<or> (key = KEY_ENTER \<and> sender = BtnCancel) then
        on_desk (\<lambda>dt. show_form DetailStatementForm (SetCurrent DetailStatementForm detail dt))
      else if key = KEY_ENTER \<and> sender = BtnQuery then submit
      else JForm_OnKeyEvent name sender key)"

definition QueryDayBillForm_OnKeyEvent :: "('d, 'w) client \<Rightarrow> bytes \<Rightarrow> child \<Rightarrow> int \<Rightarrow> (('d, 'w) ui, unit) cprog" where
  "QueryDayBillForm_OnKeyEvent C mem = query_OnKeyEvent QueryDayBillForm BtnDetail1 (QueryDayBillForm_Query C mem)"

definition QueryHistoryBillForm_OnKeyEvent :: "('d, 'w) client \<Rightarrow> bytes \<Rightarrow> child \<Rightarrow> int \<Rightarrow> (('d, 'w) ui, unit) cprog" where
  "QueryHistoryBillForm_OnKeyEvent C mem =
     query_OnKeyEvent QueryHistoryBillForm BtnDetail2 (QueryHistoryBillForm_Query C mem)"

definition QueryAccountHistoryBillForm_OnKeyEvent :: "('d, 'w) client \<Rightarrow> bytes \<Rightarrow> child \<Rightarrow> int \<Rightarrow> (('d, 'w) ui, unit) cprog" where
  "QueryAccountHistoryBillForm_OnKeyEvent C mem =
     query_OnKeyEvent QueryAccountHistoryBillForm BtnDetail3 (QueryAccountHistoryBillForm_Query C mem)"

definition DetailStatementForm_OnKeyEvent :: "child \<Rightarrow> int \<Rightarrow> (('d, 'w) ui, unit) cprog" where
  "DetailStatementForm_OnKeyEvent sender key =
     (if key = KEY_ESC \<or> (key = KEY_ENTER \<and> sender = BtnReturn) then on_desk (to_menu 6)
      else if key = KEY_ENTER \<and> sender = BtnDetail1 then on_desk (show_form QueryDayBillForm)
      else if key = KEY_ENTER \<and> sender = BtnDetail2 then on_desk (show_form QueryHistoryBillForm)
      else if key = KEY_ENTER \<and> sender = BtnDetail3 then on_desk (show_form QueryAccountHistoryBillForm)
      else JForm_OnKeyEvent DetailStatementForm sender key)"

subsection \<open>ReceiptForm\<close>

fun receipt_item :: "receipt_type \<Rightarrow> nat option" where
  "receipt_item RFT_OPEN_ACCOUNT = Some 0"
| "receipt_item RFT_DEPOSIT = Some 1"
| "receipt_item RFT_WITHDRAW = Some 2"
| "receipt_item RFT_TRANSFER = Some 3"
| "receipt_item RFT_BALANCE_INQUIRY = Some 4"
| "receipt_item RFT_CLOSE_ACCOUNT = Some 7"
| "receipt_item RFT_UNKNOWN = None"

definition ReceiptForm_OnKeyEvent :: "form_name \<Rightarrow> child \<Rightarrow> int \<Rightarrow> (('d, 'w) ui, unit) cprog" where
  "ReceiptForm_OnKeyEvent name sender key =
     (if key = KEY_ENTER \<and> sender = BtnReturn then
        on_desk (\<lambda>dt. case receipt_item (rf_type (dt_receipts dt name)) of
            Some i \<Rightarrow> to_menu i dt | None \<Rightarrow> show_form MainMenuForm dt)
      else JForm_OnKeyEvent name sender key)"

subsection \<open>The loop of the program\<close>

fun Form_OnKeyEvent ::
  "('d, 'w) client \<Rightarrow> ('d, 'w) client \<Rightarrow> bytes \<Rightarrow> form_name \<Rightarrow> child \<Rightarrow> int \<Rightarrow> (('d, 'w) ui, unit) cprog" where
  "Form_OnKeyEvent Own C mem LoginForm = LoginForm_OnKeyEvent Own"
| "Form_OnKeyEvent Own C mem MainMenuForm = MainMenuForm_OnKeyEvent"
| "Form_OnKeyEvent Own C mem OpenAccountForm = OpenAccountForm_OnKeyEvent C mem"
| "Form_OnKeyEvent Own C mem DepositForm = DepositForm_OnKeyEvent C mem"
| "Form_OnKeyEvent Own C mem WithdrawalForm = WithdrawalForm_OnKeyEvent C mem"
| "Form_OnKeyEvent Own C mem TransferForm = TransferForm_OnKeyEvent C mem"
| "Form_OnKeyEvent Own C mem BalanceInquiryForm = BalanceInquiryForm_OnKeyEvent Own"
| "Form_OnKeyEvent Own C mem ChangePasswordForm = ChangePasswordForm_OnKeyEvent C mem"
| "Form_OnKeyEvent Own C mem DetailStatementForm = DetailStatementForm_OnKeyEvent"
| "Form_OnKeyEvent Own C mem CloseAccountForm = CloseAccountForm_OnKeyEvent C mem"
| "Form_OnKeyEvent Own C mem QueryDayBillForm = QueryDayBillForm_OnKeyEvent C mem"
| "Form_OnKeyEvent Own C mem QueryHistoryBillForm = QueryHistoryBillForm_OnKeyEvent C mem"
| "Form_OnKeyEvent Own C mem QueryAccountHistoryBillForm = QueryAccountHistoryBillForm_OnKeyEvent C mem"
| "Form_OnKeyEvent Own C mem ReportForm = (\<lambda>sender. ReportForm_OnKeyEvent C mem)"
| "Form_OnKeyEvent Own C mem name = ReceiptForm_OnKeyEvent name"

text \<open>An editor first handles the key itself.\<close>

definition window_OnKeyEvent ::
  "('d, 'w) client \<Rightarrow> ('d, 'w) client \<Rightarrow> bytes \<Rightarrow> form_name \<Rightarrow> child \<Rightarrow> int \<Rightarrow> (('d, 'w) ui, unit) cprog" where
  "window_OnKeyEvent Own C mem name c key =
     c_then (c_read (\<lambda>(dt, w). Inr (map_of (dt_forms dt name) c))) (\<lambda>win.
     case win of
       Some (Edit e) \<Rightarrow>
         c_then (c_lift (JEdit_OnKeyEvent key e)) (\<lambda>(handled, e').
         c_then (on_desk (change_edit name c (\<lambda>_. e'))) (\<lambda>_.
         if handled then c_ret () else Form_OnKeyEvent Own C mem name c key))
     | _ \<Rightarrow> Form_OnKeyEvent Own C mem name c key)"

text \<open>The code of the next key in the loop: here a function key has two codes too.\<close>

fun app_key :: "int list \<Rightarrow> (int \<times> int list) option" where
  "app_key [] = None"
| "app_key (c # cs) =
     (if c = 224 then case cs of [] \<Rightarrow> None | d # ds \<Rightarrow> Some (push_bit 8 224 + d, ds)
      else if c = 0 then case cs of [] \<Rightarrow> None | d # ds \<Rightarrow> Some (- 1 * d, ds)
      else Some (c, cs))"

definition App_step :: "('d, 'w) client \<Rightarrow> ('d, 'w) client \<Rightarrow> bytes \<Rightarrow> (('d, 'w) ui, unit) cprog" where
  "App_step Own C mem = (\<lambda>(dt, w).
     case app_key (dt_input dt) of
       None \<Rightarrow> None
     | Some (key, cs) \<Rightarrow>
         window_OnKeyEvent Own C mem (fst (dt_current dt)) (snd (dt_current dt)) key (dt\<lparr>dt_input := cs\<rparr>, w))"

text \<open>\<open>n\<close> turns of \<open>JApplication::Exec\<close>; \<open>exit\<close> ends the program.\<close>

fun App_Exec :: "nat \<Rightarrow> ('d, 'w) client \<Rightarrow> ('d, 'w) client \<Rightarrow> bytes \<Rightarrow> (('d, 'w) ui, unit) cprog" where
  "App_Exec 0 Own C mem = c_ret ()"
| "App_Exec (Suc n) Own C mem =
     c_then (c_read (\<lambda>(dt, w). Inr (dt_exited dt))) (\<lambda>ex.
     if ex then c_ret () else c_then (App_step Own C mem) (\<lambda>_. App_Exec n Own C mem))"

text \<open>\<open>main\<close>: the client's session, all forms as they are created, and the login form on the screen.\<close>

definition Client_main :: "('d, 'w) client \<Rightarrow> bytes \<Rightarrow> int list \<Rightarrow> 'w \<Rightarrow> 'd desktop res \<times> 'w" where
  "Client_main Own mem input w =
     (case BankSession_open Own mem w of
        (Inl e, w') \<Rightarrow> (Inl e, w')
      | (Inr s, w') \<Rightarrow>
          (Inr (show_form LoginForm \<lparr>dt_input = input, dt_forms = FormManager_forms, dt_current = (MainMenuForm, Whole),
             dt_receipts = FormManager_receipts, dt_report = ReportForm_new (cl_u16 Own), dt_boxes = [],
             dt_session = s, dt_exited = False\<rparr>), w'))"

end
