(* ===== verification/ClientTeller.thy ===== *)
theory ClientTeller imports ClientForms ClientWire begin

text \<open>
  What holds at the teller's screen whatever keys are pressed: the forms keep their windows, every field
  holds a text its validator lets in, the focus is on a window that can have it, and a receipt has a label
  for every item (\<open>desk_ok\<close>, kept by every program of the desktop).  With the server at the other end of
  the wire, a transfer that is submitted on the form is the transfer of the bank, and its receipt or box
  is what the teller sees.
\<close>

subsection \<open>The desktop's invariant\<close>

definition field_ok :: "edit \<Rightarrow> bool" where
  "field_ok e \<longleftrightarrow> edit_ok e \<and>
     (ed_valid e = ValidateName \<longrightarrow> typed_text 10 (\<lambda>c. is_alpha c \<or> is_digit c) (ed_text e)) \<and>
     (ed_valid e = ValidatePass \<longrightarrow> typed_text 8 (\<lambda>c. True) (ed_text e)) \<and>
     (ed_valid e = ValidateId \<longrightarrow> typed_text 18 (\<lambda>c. is_digit c \<or> c = 120 \<or> c = 88) (ed_text e)) \<and>
     (ed_valid e = ValidateAccountId \<longrightarrow> typed_text 6 is_digit (ed_text e)) \<and>
     (ed_valid e = ValidateMoney \<longrightarrow> typed_text 11 (\<lambda>c. is_digit c \<or> c = 46) (ed_text e)) \<and>
     (ed_valid e = ValidateDate \<longrightarrow> typed_text 10 (\<lambda>c. is_digit c \<or> c = 45) (ed_text e))"

lemma field_ok_typed:
  "JEdit_OnKeyEvent key e = Inr (handled, e') \<Longrightarrow> field_ok e \<Longrightarrow> field_ok e'"
  using JEdit_ok [of key e handled e'] JEdit_fields [of key e handled e']
    name.typed_step [of key e handled e'] pass.typed_step [of key e handled e'] id_number.typed_step [of key e handled e']
    account.typed_step [of key e handled e'] money.typed_step [of key e handled e'] date.typed_step [of key e handled e']
  unfolding field_ok_def by simp

lemma field_ok_empty: "field_ok (SetText [] e)"
  by (simp add: field_ok_def SetText_def edit_ok_def typed_text_def)

fun widget_ok :: "widget \<Rightarrow> widget \<Rightarrow> bool" where
  "widget_ok Label w \<longleftrightarrow> w = Label"
| "widget_ok Button w \<longleftrightarrow> w = Button"
| "widget_ok (Edit e0) w \<longleftrightarrow> (\<exists>e. w = Edit e \<and> ed_valid e = ed_valid e0 \<and> ed_width e = ed_width e0 \<and> field_ok e)"

definition form_ok :: "form \<Rightarrow> form \<Rightarrow> bool" where
  "form_ok f0 f \<longleftrightarrow> list_all2 (\<lambda>w0 w. fst w = fst w0 \<and> widget_ok (snd w0) (snd w)) f0 f"

definition focusable :: "form_name \<Rightarrow> child \<Rightarrow> bool" where
  "focusable name c \<longleftrightarrow> c \<in> fst ` set (filter can_focus (FormManager_forms name))"

definition desk_ok :: "'d desktop \<Rightarrow> bool" where
  "desk_ok dt \<longleftrightarrow> (\<forall>name. form_ok (FormManager_forms name) (dt_forms dt name)) \<and>
     (snd (dt_current dt) = Whole \<or> focusable (fst (dt_current dt)) (snd (dt_current dt))) \<and>
     (\<forall>name. dom (rf_items (dt_receipts dt name)) = dom (rf_items (FormManager_receipts name)))"

lemma can_focus_same: "widget_ok w0 w \<Longrightarrow> can_focus (c, w) = can_focus (c, w0)"
  by (cases w0) (auto simp: can_focus_def)

lemma form_ok_focus:
  assumes "form_ok f0 f"
  shows "map fst f = map fst f0" "map fst (filter can_focus f) = map fst (filter can_focus f0)" "FindFirst f = FindFirst f0"
proof -
  have "map fst f = map fst f0 \<and> map fst (filter can_focus f) = map fst (filter can_focus f0)"
    using assms unfolding form_ok_def
  proof (induction rule: list_all2_induct)
    case (Cons w0 f0 w f)
    then have "can_focus w = can_focus w0" by (metis can_focus_same prod.collapse can_focus_def snd_conv)
    then show ?case using Cons by simp
  qed simp
  then show "map fst f = map fst f0" and foc: "map fst (filter can_focus f) = map fst (filter can_focus f0)" by auto
  show "FindFirst f = FindFirst f0"
    using foc by (cases "filter can_focus f"; cases "filter can_focus f0") (auto simp: FindFirst_def find_hd_filter)
qed

lemma FindFirst_focusable: "FindFirst (FormManager_forms name) = Some c \<Longrightarrow> focusable name c"
  by (auto simp: FindFirst_def focusable_def find_Some_iff image_iff) (metis nth_mem)

lemma desk_SetCurrent: "desk_ok dt \<Longrightarrow> focusable name c \<Longrightarrow> desk_ok (SetCurrent name c dt)"
  by (simp add: desk_ok_def SetCurrent_def)

lemma desk_show_form: "desk_ok dt \<Longrightarrow> desk_ok (show_form name dt)"
  using form_ok_focus(3) [of "FormManager_forms name" "dt_forms dt name"] FindFirst_focusable
  by (auto simp: desk_ok_def show_form_def split: option.split)

lemma form_ok_change:
  assumes "form_ok f0 f" and "\<And>e. (c, Edit e) \<in> set f \<Longrightarrow> field_ok e \<Longrightarrow> field_ok (g e) \<and> ed_valid (g e) = ed_valid e \<and> ed_width (g e) = ed_width e"
  shows "form_ok f0 (map (\<lambda>(c', w). (c', if c' = c then set_edit g w else w)) f)"
  using assms unfolding form_ok_def
proof (induction rule: list_all2_induct)
  case (Cons w0 f0 w f)
  have "widget_ok (snd w0) (if fst w = c then set_edit g (snd w) else snd w)"
    using Cons.hyps(1) Cons.prems by (cases "snd w0"; cases w) auto
  then show ?case using Cons by (cases w) auto
qed simp

lemma desk_change_edit:
  assumes "desk_ok dt" and "\<And>e. (c, Edit e) \<in> set (dt_forms dt name) \<Longrightarrow> field_ok e \<Longrightarrow>
      field_ok (g e) \<and> ed_valid (g e) = ed_valid e \<and> ed_width (g e) = ed_width e"
  shows "desk_ok (change_edit name c g dt)"
  using assms form_ok_change [of "FormManager_forms name" "dt_forms dt name" c g]
  by (simp add: desk_ok_def change_edit_def)

lemma desk_clear: "desk_ok dt \<Longrightarrow> desk_ok (change_edit name c (SetText []) dt)"
  by (rule desk_change_edit) (simp_all add: field_ok_empty)

lemma desk_clear_edits: "desk_ok dt \<Longrightarrow> desk_ok (clear_edits name cs dt)"
  unfolding clear_edits_def by (induction cs arbitrary: dt) (auto intro: desk_clear)

subsection \<open>Programs that keep it\<close>

definition keeps :: "(('d, 'w) ui, 'a) cprog \<Rightarrow> bool" where
  "keeps m \<longleftrightarrow> (\<forall>s r s'. desk_ok (fst s) \<longrightarrow> m s = Some (r, s') \<longrightarrow> desk_ok (fst s'))"

named_theorems keeps

lemma keepsI: "(\<And>s r s'. desk_ok (fst s) \<Longrightarrow> m s = Some (r, s') \<Longrightarrow> desk_ok (fst s')) \<Longrightarrow> keeps m"
  unfolding keeps_def by blast

lemma keepsD: "keeps m \<Longrightarrow> desk_ok (fst s) \<Longrightarrow> m s = Some (r, s') \<Longrightarrow> desk_ok (fst s')"
  unfolding keeps_def by blast

lemma keeps_basic [keeps]: "keeps (c_ret x)" "keeps (c_lift y)" "keeps (c_read f)"
  by (auto simp: keeps_def c_simps)

lemma keeps_then [keeps]:
  assumes "keeps m" and "\<And>x. keeps (f x)"
  shows "keeps (c_then m f)"
proof (rule keepsI)
  fix s r s'
  assume ok: "desk_ok (fst s)" and "c_then m f s = Some (r, s')"
  then consider e where "m s = Some (Inl e, s')" | x s1 where "m s = Some (Inr x, s1)" "f x s1 = Some (r, s')"
    by (auto simp: c_then_def split: option.splits sum.splits prod.splits)
  then show "desk_ok (fst s')" using keepsD [OF assms(1) ok] keepsD [OF assms(2)] by cases blast+
qed

text \<open>What is read from the desktop, when the rest depends on it.\<close>

lemma keeps_read:
  assumes "\<And>s x. desk_ok (fst s) \<Longrightarrow> g s = Inr x \<Longrightarrow> keeps (f x)"
  shows "keeps (c_then (c_read g) f)"
proof (rule keepsI)
  fix s r s'
  assume ok: "desk_ok (fst s)" and "c_then (c_read g) f s = Some (r, s')"
  then consider "s' = s" | x where "g s = Inr x" "f x s = Some (r, s')"
    by (auto simp: c_then_def c_simps split: sum.splits)
  then show "desk_ok (fst s')" using keepsD [OF assms ok] ok by cases blast+
qed

lemma keeps_on_desk: "(\<And>dt. desk_ok dt \<Longrightarrow> desk_ok (f dt)) \<Longrightarrow> keeps (on_desk f)"
  by (auto simp: keeps_def on_desk_def c_simps)

lemma keeps_box [keeps]: "keeps (JMessageBox_Show title s n)"
  by (auto simp: keeps_def JMessageBox_Show_def desk_ok_def split: option.splits)

lemma keeps_show_form [keeps]: "keeps (on_desk (show_form name))"
  by (intro keeps_on_desk desk_show_form)

lemma keeps_SetCurrent [keeps]: "focusable name c \<Longrightarrow> keeps (on_desk (SetCurrent name c))"
  by (intro keeps_on_desk desk_SetCurrent)

lemma keeps_clear [keeps]: "keeps (on_desk (clear_edits name cs))"
  by (intro keeps_on_desk desk_clear_edits)

lemma keeps_error [keeps]: "keeps (error_box name s)"
  by (simp add: error_box_def show_box_def keeps)

lemma keeps_refuse [keeps]: "focusable name c \<Longrightarrow> keeps (refuse name c s)"
  by (simp add: refuse_def keeps)

lemma keeps_in_session [keeps]:
  assumes "\<And>x. keeps (k x)"
  shows "keeps (in_session C mem act k)"
proof (rule keepsI)
  fix s r s'
  assume ok: "desk_ok (fst s)" and run: "in_session C mem act k s = Some (r, s')"
  obtain dt w dt' w' where s: "s = (dt, w)" "s' = (dt', w')" by (cases s, cases s')
  show "desk_ok (fst s')"
    using run unfolding s
    by (cases rule: in_sessionE) (use ok s keepsD [OF assms] in fastforce)+
qed

lemma keeps_own_session [keeps]:
  assumes "\<And>x. keeps (k x)"
  shows "keeps (in_own_session act k)"
proof (rule keepsI)
  fix s r s'
  assume ok: "desk_ok (fst s)" and run: "in_own_session act k s = Some (r, s')"
  obtain dt w where s: "s = (dt, w)" by (cases s)
  have "desk_ok (dt\<lparr>dt_session := bs\<rparr>)" for bs using ok s by (simp add: desk_ok_def)
  then show "desk_ok (fst s')"
    using run s keepsD [OF assms, of "(dt\<lparr>dt_session := _\<rparr>, _)"]
    by (auto simp: in_own_session_def split: option.splits sum.splits prod.splits)
qed

lemma keeps_catch [keeps]:
  assumes "keeps m" and "\<And>e. keeps (h e)"
  shows "keeps (c_catch m h)"
proof (rule keepsI)
  fix s r s'
  assume ok: "desk_ok (fst s)" and "c_catch m h s = Some (r, s')"
  then consider "m s = Some (r, s')" | e s1 where "m s = Some (Inl (Throw e), s1)" "h (c_str e) s1 = Some (r, s')"
    by (auto simp: c_catch_def split: option.splits sum.splits prod.splits fault.splits)
  then show "desk_ok (fst s')" using keepsD [OF assms(1) ok] keepsD [OF assms(2)] by cases blast+
qed

lemma keeps_answered [keeps]: "(\<And>x. keeps (k x)) \<Longrightarrow> keeps (answered name k r)"
  by (cases r) (simp_all add: answered_def keeps)

lemma keeps_send [keeps]: "(\<And>x. keeps (k x)) \<Longrightarrow> keeps (send_form C mem name cmd attrs rd k)"
  by (simp add: send_form_def keeps)

lemma keeps_send_own [keeps]: "(\<And>x. keeps (k x)) \<Longrightarrow> keeps (send_own_form Own name cmd attrs rd k)"
  by (simp add: send_own_form_def keeps)

lemma keeps_with_texts [keeps]: "(\<And>x. keeps (k x)) \<Longrightarrow> keeps (with_texts name cs k)"
  by (simp add: with_texts_def keeps)

text \<open>A receipt keeps its items.\<close>

lemma set_items_dom: "set_items items r = Inr r' \<Longrightarrow> dom (rf_items r') = dom (rf_items r)"
proof (induction items r rule: set_items.induct)
  case (2 name s items r)
  then obtain r1 where r1: "SetItemText name s r = Inr r1" "set_items items r1 = Inr r'" by (auto simp: bind_res_Inr)
  then have "dom (rf_items r1) = dom (rf_items r)" by (auto simp: SetItemText_def split: option.splits if_splits)
  then show ?case using 2(1) [OF r1(2)] by simp
qed simp

lemma keeps_receipt [keeps]: "keeps (show_receipt name rft title items)"
  unfolding show_receipt_def
proof (intro keeps_read keeps_on_desk desk_show_form)
  fix s r and dt :: "'a desktop"
  assume s: "desk_ok (fst s)" and dt: "desk_ok dt"
    and "(\<lambda>(dt, w). set_items items ((case title of None \<Rightarrow> (\<lambda>r. r) | Some s \<Rightarrow> SetTitle s)
      (SetReceiptFormType rft (dt_receipts dt name)))) s = Inr r"
  then have "dom (rf_items r) = dom (rf_items (dt_receipts (fst s) name))"
    by (cases title; cases s) (simp_all add: SetTitle_def SetReceiptFormType_def set_items_dom)
  then have "dom (rf_items r) = dom (rf_items (FormManager_receipts name))" using s by (simp add: desk_ok_def)
  then show "desk_ok (dt\<lparr>dt_receipts := (dt_receipts dt)(name := r)\<rparr>)" using dt unfolding desk_ok_def by simp
qed

subsection \<open>Every program of the screen keeps it\<close>

lemma find_focus: "find can_focus ws = Some w \<Longrightarrow> fst w \<in> fst ` set (filter can_focus ws)"
  by (auto simp: find_hd_filter split: if_splits dest: hd_in_set)

lemma FindNext_focus: "FindNext childs win = Some c \<Longrightarrow> c \<in> fst ` set (filter can_focus childs)"
  using find_focus [of childs] find_focus [of "tl (dropWhile (\<lambda>w. fst w \<noteq> win) childs)"] set_dropWhileD [of _ "\<lambda>w. fst w \<noteq> win" childs]
  by (force simp: FindNext_def FindFirst_def split: list.splits if_splits)

lemma FindPrev_focus: "FindPrev childs win = Inr (Some c) \<Longrightarrow> c \<in> fst ` set (filter can_focus childs)"
  using find_focus [of "rev childs"] find_focus [of "tl (dropWhile (\<lambda>w. fst w \<noteq> win) (rev childs))"]
    set_dropWhileD [of _ "\<lambda>w. fst w \<noteq> win" "rev childs"]
  by (force simp: FindPrev_def FindLast_def split: list.splits if_splits option.splits)

lemma next_focusable:
  assumes "desk_ok dt"
  shows "FindNext (dt_forms dt name) win = Some c \<Longrightarrow> focusable name c"
    and "FindPrev (dt_forms dt name) win = Inr (Some c) \<Longrightarrow> focusable name c"
proof -
  have "fst ` set (filter can_focus (dt_forms dt name)) = fst ` set (filter can_focus (FormManager_forms name))"
    using form_ok_focus(2) [of "FormManager_forms name" "dt_forms dt name"] assms unfolding desk_ok_def
    by (metis list.set_map)
  then show "FindNext (dt_forms dt name) win = Some c \<Longrightarrow> focusable name c"
    and "FindPrev (dt_forms dt name) win = Inr (Some c) \<Longrightarrow> focusable name c"
    using FindNext_focus [of "dt_forms dt name" win c] FindPrev_focus [of "dt_forms dt name" win c]
    unfolding focusable_def by blast+
qed

lemma keeps_JForm [keeps]: "keeps (JForm_OnKeyEvent name sender key)"
  unfolding JForm_OnKeyEvent_def
  by (auto intro!: keeps keeps_read dest: next_focusable split: option.split)

lemma focusable_children:
  "i < 9 \<Longrightarrow> focusable MainMenuForm (Item i)"
  "focusable LoginForm EditUser" "focusable LoginForm EditPass"
  "focusable OpenAccountForm EditName" "focusable OpenAccountForm EditId" "focusable OpenAccountForm EditPass"
  "focusable OpenAccountForm EditPass2" "focusable OpenAccountForm EditMoney"
  "focusable DepositForm EditAccountId" "focusable WithdrawalForm EditAccountId" "focusable WithdrawalForm EditPass"
  "focusable TransferForm EditAccountId" "focusable TransferForm EditPass"
  "focusable BalanceInquiryForm EditAccountId" "focusable BalanceInquiryForm EditPass"
  "focusable ChangePasswordForm EditAccountId" "focusable ChangePasswordForm EditPass"
  "focusable ChangePasswordForm EditNewPass" "focusable ChangePasswordForm EditNewPass2"
  "focusable CloseAccountForm EditAccountId" "focusable CloseAccountForm EditPass"
  "focusable QueryDayBillForm EditDate" "focusable QueryHistoryBillForm EditBeginDate"
  "focusable QueryHistoryBillForm EditEndDate" "focusable QueryAccountHistoryBillForm EditAccountId"
  "focusable QueryAccountHistoryBillForm EditBeginDate" "focusable QueryAccountHistoryBillForm EditEndDate"
  "focusable DetailStatementForm BtnDetail1" "focusable DetailStatementForm BtnDetail2" "focusable DetailStatementForm BtnDetail3"
  by (auto simp: focusable_def can_focus_def image_iff MainMenuForm_new_def LoginForm_new_def OpenAccountForm_new_def
      DepositForm_new_def WithdrawalForm_new_def TransferForm_new_def BalanceInquiryForm_new_def
      ChangePasswordForm_new_def CloseAccountForm_new_def QueryDayBillForm_new_def QueryHistoryBillForm_new_def
      QueryAccountHistoryBillForm_new_def DetailStatementForm_new_def)

lemma desk_menu: "desk_ok dt \<Longrightarrow> i < 9 \<Longrightarrow> desk_ok (to_menu i dt)"
  by (simp add: to_menu_def desk_show_form desk_SetCurrent focusable_children)

lemma keeps_menu [keeps]: "i < 9 \<Longrightarrow> keeps (on_desk (to_menu i))"
  by (intro keeps_on_desk desk_menu)

lemma keeps_entry [keeps]:
  "keeps submit \<Longrightarrow> i < 9 \<Longrightarrow> focusable name first \<Longrightarrow> keeps (entry_OnKeyEvent name edits i first submit sender key)"
  unfolding entry_OnKeyEvent_def
  by (auto intro!: keeps keeps_on_desk desk_menu desk_show_form desk_SetCurrent desk_clear_edits)

lemma desk_other [simp]:
  "desk_ok (dt\<lparr>dt_report := rp\<rparr>) = desk_ok dt" "desk_ok (dt\<lparr>dt_exited := b\<rparr>) = desk_ok dt" "desk_ok (dt\<lparr>dt_input := cs\<rparr>) = desk_ok dt"
  by (simp_all add: desk_ok_def)

lemma keeps_the_report [keeps]:
  "(\<And>dt. desk_ok dt \<Longrightarrow> desk_ok (reset dt)) \<Longrightarrow> keeps (show_report cmd dates reset rows)"
  by (cases rows) (auto simp: show_report_def intro!: keeps keeps_on_desk desk_show_form)

lemma keeps_login [keeps]: "keeps (LoginForm_OnKeyEvent Own sender key)"
proof -
  have "desk_ok (show_form MainMenuForm (LoginForm_Reset dt))" if "desk_ok dt" for dt :: "'a desktop"
    using that by (simp add: LoginForm_Reset_def desk_show_form desk_clear_edits)
  then have "keeps (LoginForm_Login Own)"
    unfolding LoginForm_Login_def Let_def by (auto intro!: keeps keeps_on_desk desk_SetCurrent simp: focusable_children)
  moreover have "keeps (LoginForm_Exit)"
    unfolding LoginForm_Exit_def by (auto intro!: keeps keeps_on_desk)
  ultimately show ?thesis unfolding LoginForm_OnKeyEvent_def by (auto intro!: keeps)
qed

lemma keeps_main_menu [keeps]: "keeps (MainMenuForm_OnKeyEvent sender key)"
  unfolding MainMenuForm_OnKeyEvent_def MainMenuForm_exit_def by (auto intro!: keeps split: child.split)

lemmas submit_defs = with_texts_def Let_def OpenAccountForm_Submit_def DepositForm_Submit_def WithdrawalForm_Submit_def
  TransferForm_Submit_def BalanceInquiryForm_Submit_def ChangePasswordForm_Submit_def CloseAccountForm_Submit_def

lemma keeps_submits [keeps]:
  "keeps (OpenAccountForm_Submit C mem)" "keeps (DepositForm_Submit C mem)" "keeps (WithdrawalForm_Submit C mem)"
  "keeps (TransferForm_Submit C mem)" "keeps (BalanceInquiryForm_Submit C)" "keeps (ChangePasswordForm_Submit C mem)"
  "keeps (CloseAccountForm_Submit C mem)"
  unfolding submit_defs by (auto intro!: keeps simp: focusable_children)

lemma keeps_entries [keeps]:
  "keeps (OpenAccountForm_OnKeyEvent C mem sender key)" "keeps (DepositForm_OnKeyEvent C mem sender key)"
  "keeps (WithdrawalForm_OnKeyEvent C mem sender key)" "keeps (TransferForm_OnKeyEvent C mem sender key)"
  "keeps (BalanceInquiryForm_OnKeyEvent C sender key)" "keeps (ChangePasswordForm_OnKeyEvent C mem sender key)"
  "keeps (CloseAccountForm_OnKeyEvent C mem sender key)"
  unfolding OpenAccountForm_OnKeyEvent_def DepositForm_OnKeyEvent_def WithdrawalForm_OnKeyEvent_def TransferForm_OnKeyEvent_def
    BalanceInquiryForm_OnKeyEvent_def ChangePasswordForm_OnKeyEvent_def CloseAccountForm_OnKeyEvent_def
  by (auto intro!: keeps simp: focusable_children)

lemma keeps_queries [keeps]:
  "keeps (QueryDayBillForm_OnKeyEvent C mem sender key)" "keeps (QueryHistoryBillForm_OnKeyEvent C mem sender key)"
  "keeps (QueryAccountHistoryBillForm_OnKeyEvent C mem sender key)" "keeps (DetailStatementForm_OnKeyEvent sender key)"
proof -
  have q: "keeps (query_OnKeyEvent name detail submit sender key)" if "keeps submit" "focusable DetailStatementForm detail"
    for name detail sender key and submit :: "(('a, 'b) ui, unit) cprog"
    using that unfolding query_OnKeyEvent_def by (auto intro!: keeps keeps_on_desk desk_show_form desk_SetCurrent)
  show "keeps (QueryDayBillForm_OnKeyEvent C mem sender key)" "keeps (QueryHistoryBillForm_OnKeyEvent C mem sender key)"
    "keeps (QueryAccountHistoryBillForm_OnKeyEvent C mem sender key)"
    unfolding QueryDayBillForm_OnKeyEvent_def QueryDayBillForm_Query_def QueryHistoryBillForm_OnKeyEvent_def
      QueryHistoryBillForm_Query_def QueryAccountHistoryBillForm_OnKeyEvent_def QueryAccountHistoryBillForm_Query_def Let_def
    by (auto intro!: q keeps desk_clear_edits simp: focusable_children)
  show "keeps (DetailStatementForm_OnKeyEvent sender key)"
    unfolding DetailStatementForm_OnKeyEvent_def by (auto intro!: keeps)
qed

lemma keeps_receipts [keeps]: "keeps (ReceiptForm_OnKeyEvent name sender key)"
proof -
  have "receipt_item t = Some i \<Longrightarrow> i < 9" for t i by (cases t) auto
  then show ?thesis unfolding ReceiptForm_OnKeyEvent_def
    by (auto intro!: keeps keeps_on_desk desk_menu desk_show_form split: option.split)
qed

lemma keeps_report_form [keeps]: "keeps (ReportForm_OnKeyEvent C mem key)"
proof -
  have fetch: "keeps (fetch_page C mem)"
  proof (rule keepsI)
    fix s r s'
    assume ok: "desk_ok (fst s)" and run: "fetch_page C mem s = Some (r, s')"
    obtain dt w dt' w' where s: "s = (dt, w)" "s' = (dt', w')" by (cases s, cases s')
    show "desk_ok (fst s')"
      using run unfolding s fetch_page_def prod.case
      by (cases rule: in_sessionE) (use ok s in \<open>auto simp: on_desk_def c_simps desk_show_form\<close>)
  qed
  have move: "keeps (report_move C mem move)" for move
  proof (rule keepsI)
    fix s r s'
    assume ok: "desk_ok (fst s)" and run: "report_move C mem move s = Some (r, s')"
    obtain dt w where s: "s = (dt, w)" by (cases s)
    obtain b rp where m: "move (dt_report dt) = (b, rp)" by fastforce
    show "desk_ok (fst s')"
    proof (cases b)
      case True
      then show ?thesis using run ok s m keepsD [OF fetch, of "(dt\<lparr>dt_report := rp\<rparr>, w)"] by (simp add: report_move_def)
    next
      case False
      then show ?thesis using run ok s m by (auto simp: report_move_def on_desk_def c_simps desk_show_form)
    qed
  qed
  show ?thesis unfolding ReportForm_OnKeyEvent_def
    by (auto intro!: keeps move keeps_on_desk desk_show_form)
qed

lemma keeps_form [keeps]: "keeps (Form_OnKeyEvent Own C mem name sender key)"
  by (cases name) (simp_all add: keeps)

text \<open>An editor of a form that is as it should be, and what a key makes of it.\<close>

lemma form_edit: "form_ok f0 f \<Longrightarrow> (c, Edit e) \<in> set f \<Longrightarrow> field_ok e"
  unfolding form_ok_def
proof (induction rule: list_all2_induct)
  case (Cons w0 f0 w f)
  then show ?case by (cases "snd w0"; cases w) auto
qed simp

lemma desk_typed:
  assumes "desk_ok dt" and "map_of (dt_forms dt name) c = Some (Edit e)" and "JEdit_OnKeyEvent key e = Inr (handled, e')"
    and "distinct (map fst (FormManager_forms name))"
  shows "desk_ok (change_edit name c (\<lambda>_. e') dt)"
proof (rule desk_change_edit [OF assms(1)])
  have f: "form_ok (FormManager_forms name) (dt_forms dt name)" using assms(1) by (simp add: desk_ok_def)
  have "distinct (map fst (dt_forms dt name))" using form_ok_focus(1) [OF f] assms(4) by simp
  moreover fix e1 assume "(c, Edit e1) \<in> set (dt_forms dt name)" "field_ok e1"
  ultimately have "e1 = e" using assms(2) by (metis map_of_is_SomeI option.inject widget.inject)
  then show "field_ok e' \<and> ed_valid e' = ed_valid e1 \<and> ed_width e' = ed_width e1"
    using JEdit_fields [OF assms(3)] field_ok_typed [OF assms(3)] \<open>field_ok e1\<close> by (simp add: field_ok_def)
qed

lemma forms_distinct: "distinct (map fst (FormManager_forms name))"
  by (cases name) (simp_all add: MainMenuForm_new_def LoginForm_new_def OpenAccountForm_new_def
      DepositForm_new_def WithdrawalForm_new_def TransferForm_new_def BalanceInquiryForm_new_def
      ChangePasswordForm_new_def CloseAccountForm_new_def QueryDayBillForm_new_def QueryHistoryBillForm_new_def
      QueryAccountHistoryBillForm_new_def DetailStatementForm_new_def receipt_new_def distinct_map inj_on_def comp_def image_iff)

lemma keeps_window [keeps]: "keeps (window_OnKeyEvent Own C mem name c key)"
proof (rule keepsI)
  fix s r s'
  assume ok: "desk_ok (fst s)" and run: "window_OnKeyEvent Own C mem name c key s = Some (r, s')"
  obtain dt w where s: "s = (dt, w)" by (cases s)
  have K: "keeps (Form_OnKeyEvent Own C mem name c key)" by (rule keeps)
  show "desk_ok (fst s')"
  proof (cases "\<exists>e. map_of (dt_forms dt name) c = Some (Edit e)")
    case False
    then have "Form_OnKeyEvent Own C mem name c key (dt, w) = Some (r, s')"
      using run by (auto simp: s window_OnKeyEvent_def c_then_def c_simps split: option.splits widget.splits)
    then show ?thesis using keepsD [OF K] ok s by metis
  next
    case True
    then obtain e where e: "map_of (dt_forms dt name) c = Some (Edit e)" by blast
    show ?thesis
    proof (cases "JEdit_OnKeyEvent key e")
      case (Inl f)
      then show ?thesis using run ok e by (auto simp: s window_OnKeyEvent_def c_then_def c_simps)
    next
      case (Inr x)
      obtain handled e' where x: "x = (handled, e')" by (cases x)
      have k: "desk_ok (change_edit name c (\<lambda>_. e') dt)"
        using desk_typed [OF _ e _ forms_distinct] Inr x ok s by (metis fst_conv)
      then show ?thesis
        using run e Inr x keepsD [OF K, of "(change_edit name c (\<lambda>_. e') dt, w)"]
        by (auto simp: s window_OnKeyEvent_def c_then_def c_simps on_desk_def split: if_splits)
    qed
  qed
qed

lemma keeps_App [keeps]: "keeps (App_Exec n Own C mem)"
proof (induction n)
  case (Suc n)
  have "keeps (App_step Own C mem)"
  proof (rule keepsI)
    fix s r s' assume ok: "desk_ok (fst s)" and "App_step Own C mem s = Some (r, s')"
    then obtain key cs where "window_OnKeyEvent Own C mem (fst (dt_current (fst s))) (snd (dt_current (fst s))) key
        ((fst s)\<lparr>dt_input := cs\<rparr>, snd s) = Some (r, s')"
      by (cases s) (auto simp: App_step_def split: option.splits)
    from keepsD [OF keeps_window _ this] show "desk_ok (fst s')" using ok by simp
  qed
  then show ?case using Suc by (auto intro!: keeps)
qed (simp add: keeps)

lemma form_ok_new: "form_ok (FormManager_forms name) (FormManager_forms name)"
proof -
  have "field_ok (JEdit_new width V)" for width V
    using field_ok_empty [of "JEdit_new width V"] by (simp add: SetText_def JEdit_new_def)
  then have "widget_ok w w" if "(c, w) \<in> set (FormManager_forms name)" for c w
    using that
    by (cases name) (auto simp: MainMenuForm_new_def LoginForm_new_def OpenAccountForm_new_def
      DepositForm_new_def WithdrawalForm_new_def TransferForm_new_def BalanceInquiryForm_new_def
      ChangePasswordForm_new_def CloseAccountForm_new_def QueryDayBillForm_new_def QueryHistoryBillForm_new_def
      QueryAccountHistoryBillForm_new_def DetailStatementForm_new_def receipt_new_def)
  then show ?thesis by (auto simp: form_ok_def list_all2_same)
qed

lemma desk_main: "Client_main Own mem input w = (Inr dt, w1) \<Longrightarrow> desk_ok dt"
proof -
  have "desk_ok \<lparr>dt_input = input, dt_forms = FormManager_forms, dt_current = (MainMenuForm, Whole),
      dt_receipts = FormManager_receipts, dt_report = rp, dt_boxes = [], dt_session = s, dt_exited = False\<rparr>" for rp s
    by (simp add: desk_ok_def form_ok_new)
  then show "Client_main Own mem input w = (Inr dt, w1) \<Longrightarrow> desk_ok dt"
    by (auto simp: Client_main_def intro: desk_show_form split: sum.splits prod.splits)
qed


subsection \<open>A request and its receipt\<close>

lemma ask_answered:
  assumes "Client_DoAction C (fold (\<lambda>(k, v). SetAttribute k v) attrs (s\<lparr>cs_cmd := cmd\<rparr>), w) = Some (Inr b, (s', w'))"
  shows "cs_errorCode s' = 0 \<Longrightarrow> rd (s', w') = Some (Inr x, t) \<Longrightarrow> ask C cmd attrs rd (s, w) = Some (Inr (Inr x), t)"
    and "cs_errorCode s' \<noteq> 0 \<Longrightarrow> ask C cmd attrs rd (s, w) = Some (Inr (Inl (cs_errorMsg s')), (s', w'))"
  using assms by (simp_all add: ask_def c_then_def c_simps)

fun source_text :: "'d client_session \<Rightarrow> source \<Rightarrow> bytes" where
  "source_text s (Response k) = (case cs_response s k of Some v \<Rightarrow> v | None \<Rightarrow> [])"
| "source_text s (Attribute k) = (case cs_request s k of Some v \<Rightarrow> v | None \<Rightarrow> [])"
| "source_text s (Text v) = v"

fun present :: "'d client_session \<Rightarrow> source \<Rightarrow> bool" where
  "present s (Response k) \<longleftrightarrow> cs_response s k \<noteq> None"
| "present s (Attribute k) \<longleftrightarrow> cs_request s k \<noteq> None"
| "present s (Text v) \<longleftrightarrow> True"

lemma read_sources_ok:
  "\<forall>(n, src)\<in>set items. present s src \<Longrightarrow>
    read_sources items (s, w) = Some (Inr (map (\<lambda>(n, src). (n, source_text s src)) items), (s, w))"
proof (induction items)
  case (Cons a items)
  obtain n src where a: "a = (n, src)" by (cases a)
  have "read_source src (s, w) = Some (Inr (source_text s src), (s, w))"
    using Cons.prems a by (cases src) (auto simp: GetResponse_def GetAttribute_def c_simps)
  then show ?case using Cons a by (simp add: c_then_def c_simps)
qed (simp add: c_simps)

lemma set_items_ok:
  "fst ` set items \<subseteq> dom (rf_items r) \<Longrightarrow> distinct (map fst items) \<Longrightarrow>
    \<exists>r'. set_items items r = Inr r' \<and> rf_type r' = rf_type r \<and> rf_title r' = rf_title r \<and>
      (\<forall>(k, s)\<in>set items. rf_items r' k = Some (k @ lit '':  '' @ s)) \<and>
      (\<forall>k. k \<notin> fst ` set items \<longrightarrow> rf_items r' k = rf_items r k)"
proof (induction items arbitrary: r)
  case (Cons a items)
  obtain k s where a: "a = (k, s)" by (cases a)
  define r1 where "r1 = r\<lparr>rf_items := (rf_items r)(k \<mapsto> k @ lit '':  '' @ s)\<rparr>"
  have "SetItemText k s r = Inr r1" using Cons.prems a by (auto simp: SetItemText_def r1_def)
  moreover have "fst ` set items \<subseteq> dom (rf_items r1)" using Cons.prems(1) by (auto simp: r1_def)
  moreover have d: "distinct (map fst items)" "k \<notin> fst ` set items" using Cons.prems(2) a by auto
  ultimately obtain r' where r': "set_items items r1 = Inr r'" "rf_type r' = rf_type r1" "rf_title r' = rf_title r1"
      "\<forall>(k, s)\<in>set items. rf_items r' k = Some (k @ lit '':  '' @ s)"
      "\<forall>k. k \<notin> fst ` set items \<longrightarrow> rf_items r' k = rf_items r1 k"
    using Cons.IH [of r1] by blast
  then show ?case using \<open>SetItemText k s r = Inr r1\<close> a d by (intro exI [of _ r']) (auto simp: r1_def)
qed simp

lemma error_box_run:
  "box_Exec 1 0 (dt_input dt) = Some (k, cs) \<Longrightarrow> error_box name s (dt, w) =
    Some (Inr (), (show_form name (dt\<lparr>dt_input := cs, dt_boxes := dt_boxes dt @ [(lit ''-ERROR-'', s)]\<rparr>), w))"
  by (simp add: error_box_def show_box_def JMessageBox_Show_def on_desk_def c_then_def c_simps)

lemma GetText_clear:
  "GetText name c (clear_edits name cs dt) = (if c \<in> set cs then [] else GetText name c dt)"
proof -
  have change: "GetText name c (change_edit name c' (SetText []) dt) = (if c = c' then [] else GetText name c dt)" for c' dt
  proof -
    have "map_of (map (\<lambda>(x, w). (x, if x = c' then set_edit (SetText []) w else w)) f) c =
        (if c = c' then map_option (set_edit (SetText [])) (map_of f c) else map_of f c)" for f
      by (induction f) auto
    moreover have "(case set_edit (SetText []) w of Edit e \<Rightarrow> ed_text e | _ \<Rightarrow> []) = []" for w
      by (cases w) (simp_all add: SetText_def)
    ultimately show ?thesis by (auto simp: GetText_def change_edit_def split: option.split)
  qed
  show ?thesis unfolding clear_edits_def by (induction cs arbitrary: dt) (auto simp: change)
qed

lemma clear_edits_fields [simp]:
  "dt_receipts (clear_edits name cs dt) = dt_receipts dt" "dt_boxes (clear_edits name cs dt) = dt_boxes dt"
  "dt_current (clear_edits name cs dt) = dt_current dt" "dt_input (clear_edits name cs dt) = dt_input dt"
  unfolding clear_edits_def by (induction cs arbitrary: dt) (auto simp: change_edit_def)

subsection \<open>The transfer form\<close>

lemma form_ok_edit:
  "form_ok f0 f \<Longrightarrow> map_of f0 c = Some (Edit e0) \<Longrightarrow> \<exists>e. map_of f c = Some (Edit e) \<and> field_ok e \<and> ed_valid e = ed_valid e0"
  unfolding form_ok_def
proof (induction rule: list_all2_induct)
  case (Cons w0 f0 w f)
  then show ?case by (cases w0; cases w) (auto split: if_splits)
qed simp

lemma transfer_fields:
  assumes "desk_ok dt"
  shows "typed_text 6 is_digit (GetText TransferForm EditAccountId dt)"
    "typed_text 6 is_digit (GetText TransferForm EditOtherAccountId dt)"
    "typed_text 8 (\<lambda>c. True) (GetText TransferForm EditPass dt)"
    "typed_text 11 (\<lambda>c. is_digit c \<or> c = 46) (GetText TransferForm EditMoney dt)"
proof -
  have f: "form_ok TransferForm_new (dt_forms dt TransferForm)"
    using assms unfolding desk_ok_def by (metis FormManager_forms.simps(6))
  show "typed_text 6 is_digit (GetText TransferForm EditAccountId dt)"
    using form_ok_edit [OF f, of EditAccountId "JEdit_new 21 ValidateAccountId"]
    by (auto simp: TransferForm_new_def JEdit_new_def GetText_def field_ok_def)
  show "typed_text 6 is_digit (GetText TransferForm EditOtherAccountId dt)"
    using form_ok_edit [OF f, of EditOtherAccountId "JEdit_new 21 ValidateAccountId"]
    by (auto simp: TransferForm_new_def JEdit_new_def GetText_def field_ok_def)
  show "typed_text 8 (\<lambda>c. True) (GetText TransferForm EditPass dt)"
    using form_ok_edit [OF f, of EditPass "JEdit_new 21 ValidatePass"]
    by (auto simp: TransferForm_new_def JEdit_new_def GetText_def field_ok_def)
  show "typed_text 11 (\<lambda>c. is_digit c \<or> c = 46) (GetText TransferForm EditMoney dt)"
    using form_ok_edit [OF f, of EditMoney "JEdit_new 21 ValidateMoney"]
    by (auto simp: TransferForm_new_def JEdit_new_def GetText_def field_ok_def)
qed

lemma typed_no_nul: "typed_text n P s \<Longrightarrow> 0 \<notin> set s"
  by (auto simp: typed_text_def printable_def)

definition transfer_items :: "(bytes \<times> source) list" where
  "transfer_items = [(lbl_trans_date, Response (lit ''trans_date'')), (lbl_owner, Response (lit ''name'')),
     (lbl_account, Attribute (lit ''account_id'')), (lbl_other, Attribute (lit ''other_account_id'')),
     (lbl_money, Attribute (lit ''money'')), (lbl_abstract, Text txt_transfer), (lbl_balance, Response (lit ''balance''))]"

definition transfer_receipt :: "('d, 'w) bank \<Rightarrow> bytes \<Rightarrow> bytes \<Rightarrow> bytes \<Rightarrow> 'd account \<Rightarrow> (bytes \<times> bytes) list" where
  "transfer_receipt B aid other money acc =
     [(lbl_trans_date, take 19 (acc_op_date acc)), (lbl_owner, acc_name acc), (lbl_account, aid), (lbl_other, other),
      (lbl_money, money), (lbl_abstract, txt_transfer), (lbl_balance, DoubleToString (b_arith B) (acc_balance acc))]"

text \<open>The request of the form in a new session.\<close>

lemma transfer_asked:
  assumes "idle w" and "length (cs_buffer s) = 2048" and "str_world E" and "cs_response s = Map.empty"
    and "account_id_text aid" "account_id_text other" "length pass < 16" "0 \<notin> set pass" "length money \<le> 2006"
    and "BankService_Transfer B (asked B aid pass money) other (wr_db w) = (Inr (code, acc), db')"
    and "(err, msg) = reply transfer_msgs code" and "err = 0 \<Longrightarrow> showable B acc"
  shows "\<exists>s' w'. ask (wire_client B E) 5
      [(lit ''account_id'', aid), (lit ''pass'', pass), (lit ''money'', money), (lit ''other_account_id'', other)]
      (c_then (GetResponse (lit ''account_id'')) (\<lambda>_. read_sources transfer_items)) (s, w) =
    Some (Inr (if err = 0 then Inr (transfer_receipt B aid other money acc) else Inl msg), (s', w')) \<and> idle w' \<and> wr_db w' = db'"
proof -
  let ?attrs = "[(lit ''account_id'', aid), (lit ''pass'', pass), (lit ''money'', money), (lit ''other_account_id'', other)]"
  define s1 where "s1 = fold (\<lambda>(k, v). SetAttribute k v) ?attrs (s\<lparr>cs_cmd := 5\<rparr>)"
  have s1: "cs_cmd s1 = 5" "length (cs_buffer s1) = 2048" "cs_response s1 = Map.empty"
    "cs_request s1 (lit ''account_id'') = Some aid" "cs_request s1 (lit ''pass'') = Some pass"
    "cs_request s1 (lit ''money'') = Some money" "cs_request s1 (lit ''other_account_id'') = Some other"
    using assms(2,4) by (simp_all add: s1_def SetAttribute_def lit_eq)
  obtain s' w' where run: "Client_DoAction (wire_client B E) (s1, w) = Some (Inr True, (s', w'))"
      "cs_errorCode s' = err" "cs_errorMsg s' = msg"
      "cs_response s' = (if err = 0 then shown B acc (cs_response s1) else cs_response s1)"
      "cs_request s' = cs_request s1" "idle w'" "wr_db w' = db'"
    using transfer_command [OF assms(1) s1(2) assms(3) s1(1,4-7) assms(5-12)] by blast
  note ans = ask_answered [OF run(1) [unfolded s1_def]]
  show ?thesis
  proof (cases "err = 0")
    case False
    then show ?thesis using ans(2) run by auto
  next
    case True
    define s2 where "s2 = s'\<lparr>cs_response := (cs_response s')(lit ''account_id'' \<mapsto> [])\<rparr>"
    have r2: "cs_response s2 = (shown B acc Map.empty)(lit ''account_id'' \<mapsto> [])" "cs_request s2 = cs_request s1"
      using True run(4,5) s1(3) by (simp_all add: s2_def)
    have get: "GetResponse (lit ''account_id'') (s', w') = Some (Inr [], (s2, w'))"
      using True run(4) s1(3) by (simp add: GetResponse_def shown_def lit_eq s2_def)
    have p: "\<forall>(n, src)\<in>set transfer_items. present s2 src"
      using r2 s1 by (simp add: transfer_items_def shown_def lit_eq)
    have "map (\<lambda>(n, src). (n, source_text s2 src)) transfer_items = transfer_receipt B aid other money acc"
      using r2 s1 by (simp add: transfer_items_def transfer_receipt_def shown_def lit_eq)
    then have "c_then (GetResponse (lit ''account_id'')) (\<lambda>_. read_sources transfer_items) (s', w') =
        Some (Inr (transfer_receipt B aid other money acc), (s2, w'))"
      using get read_sources_ok [OF p, of w'] by (simp add: c_then_def)
    from ans(1) [where rd = "c_then (GetResponse (lit ''account_id'')) (\<lambda>_. read_sources transfer_items)", OF _ this]
    show ?thesis using run(2,6,7) True by auto
  qed
qed

lemma transfer_labels:
  "distinct (map fst (transfer_receipt B aid other money acc))"
  "fst ` set (transfer_receipt B aid other money acc) = set items_transfer"
proof -
  have "map fst (transfer_receipt B aid other money acc) = items_transfer" by (simp add: transfer_receipt_def items_transfer_def)
  moreover have "distinct items_transfer"
    by (simp add: items_transfer_def lbl_trans_date_def lbl_owner_def lbl_account_def lbl_other_def lbl_money_def
        lbl_abstract_def lbl_balance_def)
  ultimately show "distinct (map fst (transfer_receipt B aid other money acc))"
    "fst ` set (transfer_receipt B aid other money acc) = set items_transfer" by (metis, metis list.set_map)
qed

text \<open>What the form shows of the answer.\<close>

lemma transfer_shown:
  assumes "desk_ok dt" and "fst (dt_current dt) = TransferForm"
  obtains dt' where "c_then (on_desk (clear_edits TransferForm [EditAccountId, EditPass, EditMoney, EditOtherAccountId])) (\<lambda>_.
        show_receipt TransferReceiptForm RFT_TRANSFER (Some transferred) (transfer_receipt B aid other money acc)) (dt, w) =
      Some (Inr (), (dt', w))"
    "dt_current dt' = (TransferReceiptForm, BtnReturn)" "dt_boxes dt' = dt_boxes dt"
    "\<forall>c\<in>{EditAccountId, EditPass, EditMoney, EditOtherAccountId}. GetText TransferForm c dt' = []"
    "\<forall>(k, s)\<in>set (transfer_receipt B aid other money acc). rf_items (dt_receipts dt' TransferReceiptForm) k = Some (k @ lit '':  '' @ s)"
proof -
  let ?cs = "[EditAccountId, EditPass, EditMoney, EditOtherAccountId]"
  let ?dt = "clear_edits TransferForm ?cs dt"
  let ?r = "SetTitle transferred (SetReceiptFormType RFT_TRANSFER (dt_receipts dt TransferReceiptForm))"
  have ok: "desk_ok ?dt" using assms(1) by (rule desk_clear_edits)
  have "dom (rf_items ?r) = set items_transfer"
    using assms(1) by (auto simp: desk_ok_def SetTitle_def SetReceiptFormType_def ReceiptForm_make_def dom_def)
  then obtain r' where r': "set_items (transfer_receipt B aid other money acc) ?r = Inr r'"
      "\<forall>(k, s)\<in>set (transfer_receipt B aid other money acc). rf_items r' k = Some (k @ lit '':  '' @ s)"
    using set_items_ok [of "transfer_receipt B aid other money acc" ?r] transfer_labels [of B aid other money acc] by auto
  let ?dt' = "show_form TransferReceiptForm (?dt\<lparr>dt_receipts := (dt_receipts ?dt)(TransferReceiptForm := r')\<rparr>)"
  have "FindFirst (dt_forms ?dt TransferReceiptForm) = FindFirst (FormManager_forms TransferReceiptForm)"
    using ok form_ok_focus(3) unfolding desk_ok_def by blast
  then have "FindFirst (dt_forms ?dt TransferReceiptForm) = Some BtnReturn"
    by (simp add: FindFirst_def receipt_new_def items_transfer_def can_focus_def)
  then show thesis
    using r' assms(2) by (intro that [of ?dt'])
      (auto simp: on_desk_def show_receipt_def c_then_def c_simps show_form_def GetText_clear [unfolded GetText_def] GetText_def)
qed

text \<open>A request that is answered, and pressing the submit button of the form.\<close>

lemma send_form_run:
  assumes "BankSession_open C mem w = (Inr s, w1)" and "ask C cmd attrs rd (s, w1) = Some (Inr x, (s', w2))"
    and "answered name k x (dt, w2) = Some (Inr u, (dt', w3))"
  shows "send_form C mem name cmd attrs rd k (dt, w) = Some (Inr u, (dt', cl_close C w3))"
  using assms by (simp add: send_form_def in_session_def c_catch_def)

lemma press_submit:
  assumes "desk_ok dt" and "dt_current dt = (TransferForm, BtnSubmit)" and "dt_input dt = KEY_ENTER # cs"
  shows "App_step Own C mem (dt, w) = TransferForm_Submit C mem (dt\<lparr>dt_input := cs\<rparr>, w)"
proof -
  have f: "form_ok TransferForm_new (dt_forms dt TransferForm)"
    using assms(1) unfolding desk_ok_def by (metis FormManager_forms.simps(6))
  have "(BtnSubmit, Button) \<in> set (dt_forms dt TransferForm)"
    using f unfolding form_ok_def TransferForm_new_def list_all2_Cons1 by auto
  moreover have "distinct (map fst (dt_forms dt TransferForm))"
    using form_ok_focus(1) [OF f] forms_distinct [of TransferForm] by simp
  ultimately have "map_of (dt_forms dt TransferForm) BtnSubmit = Some Button" by (simp add: map_of_is_SomeI)
  then show ?thesis
    using assms(2,3)
    by (simp add: App_step_def window_OnKeyEvent_def c_then_def c_simps TransferForm_OnKeyEvent_def entry_OnKeyEvent_def key_defs)
qed

text \<open>
  C2: a transfer from the keyboard to the books and back to the screen: when the teller presses the submit
  button of a form whose fields pass its checks, the bank is asked to move the typed amount from the one
  account to the other with the typed password; if it was made, the fields are cleared and the receipt
  shows the date, the owner, both accounts, the amount and the new balance; otherwise a box shows the
  bank's reason, and the fields stay.  The connection is closed, and the program goes on.
\<close>

theorem transfer_form_end_to_end:
  assumes "desk_ok dt" "dt_current dt = (TransferForm, BtnSubmit)" "dt_input dt = KEY_ENTER # cs"
    and "GetText TransferForm EditAccountId dt = aid" "GetText TransferForm EditPass dt = pass"
    and "GetText TransferForm EditMoney dt = money" "GetText TransferForm EditOtherAccountId dt = other"
    and "6 \<le> length aid" "6 \<le> length pass" "6 \<le> length other" "money \<noteq> []" "aid \<noteq> other"
    and "cl_connect E w = (True, w1)" "idle w1" "str_world E" "2048 \<le> length mem"
    and "BankService_Transfer B (asked B aid pass money) other (wr_db w1) = (Inr (code, acc), db')"
    and "(err, msg) = reply transfer_msgs code" "err = 0 \<Longrightarrow> showable B acc"
    and "err \<noteq> 0 \<Longrightarrow> box_Exec 1 0 cs = Some (button, cs')"
  shows "\<exists>dt' w'. App_step Own (wire_client B E) mem (dt, w) = Some (Inr (), (dt', cl_close E w')) \<and>
    idle w' \<and> wr_db w' = db' \<and>
    (if err = 0 then
       dt_current dt' = (TransferReceiptForm, BtnReturn) \<and> dt_boxes dt' = dt_boxes dt \<and>
       (\<forall>c\<in>{EditAccountId, EditPass, EditMoney, EditOtherAccountId}. GetText TransferForm c dt' = []) \<and>
       (\<forall>(k, s)\<in>set (transfer_receipt B aid other money acc).
          rf_items (dt_receipts dt' TransferReceiptForm) k = Some (k @ lit '':  '' @ s))
     else
       dt_current dt' = (TransferForm, BtnSubmit) \<and> dt_boxes dt' = dt_boxes dt @ [(lit ''-ERROR-'', msg)] \<and>
       dt_forms dt' = dt_forms dt)"
proof -
  let ?C = "wire_client B E" and ?dt = "dt\<lparr>dt_input := cs\<rparr>"
  note typed = transfer_fields [OF assms(1)]
  have texts: "account_id_text aid" "account_id_text other" "length pass < 16" "0 \<notin> set pass" "length money \<le> 2006"
    using typed typed_no_nul assms(4-10) by (auto simp: account_id_text_def typed_text_def)
  obtain s where s: "BankSession_open ?C mem w = (Inr s, w1)" "length (cs_buffer s) = 2048" "cs_response s = Map.empty"
    using assms(13,16) by (simp add: BankSession_open_def wire_client_def)
  obtain s' w' where a: "ask ?C 5
      [(lit ''account_id'', aid), (lit ''pass'', pass), (lit ''money'', money), (lit ''other_account_id'', other)]
      (c_then (GetResponse (lit ''account_id'')) (\<lambda>_. read_sources transfer_items)) (s, w1) =
    Some (Inr (if err = 0 then Inr (transfer_receipt B aid other money acc) else Inl msg), (s', w'))" "idle w'" "wr_db w' = db'"
    using transfer_asked [OF assms(14) s(2) assms(15) s(3) texts assms(17-19)] by blast
  have g: "map (\<lambda>c. GetText TransferForm c ?dt) [EditAccountId, EditPass, EditMoney, EditOtherAccountId] = [aid, pass, money, other]"
    using assms(4-7) by (simp add: GetText_def)
  let ?k = "\<lambda>items. c_then (on_desk (clear_edits TransferForm [EditAccountId, EditPass, EditMoney, EditOtherAccountId])) (\<lambda>_.
            show_receipt TransferReceiptForm RFT_TRANSFER (Some transferred) items)"
  let ?x = "if err = 0 then Inr (transfer_receipt B aid other money acc) else Inl msg"
  have run: "App_step Own ?C mem (dt, w) = Some (Inr (), (dt', cl_close E w'))"
    if "answered TransferForm ?k ?x (?dt, w') = Some (Inr (), (dt', w'))" for dt'
    using send_form_run [OF s(1) a(1) that] assms(8-12) g
    by (simp add: press_submit [OF assms(1-3)] TransferForm_Submit_def with_texts_def c_then_def c_simps transfer_items_def wire_client_def)
  show ?thesis
  proof (cases "err = 0")
    case True
    have "desk_ok ?dt" "fst (dt_current ?dt) = TransferForm" using assms(1,2) by simp_all
    from transfer_shown [OF this, of B aid other money acc w']
    obtain dt' where d: "?k (transfer_receipt B aid other money acc) (?dt, w') = Some (Inr (), (dt', w'))"
        "dt_current dt' = (TransferReceiptForm, BtnReturn)" "dt_boxes dt' = dt_boxes ?dt"
        "\<forall>c\<in>{EditAccountId, EditPass, EditMoney, EditOtherAccountId}. GetText TransferForm c dt' = []"
        "\<forall>(k, s)\<in>set (transfer_receipt B aid other money acc). rf_items (dt_receipts dt' TransferReceiptForm) k = Some (k @ lit '':  '' @ s)" .
    have "answered TransferForm ?k ?x (?dt, w') = Some (Inr (), (dt', w'))" using d(1) True by (simp add: answered_def)
    from run [OF this] show ?thesis using True a(2,3) assms(2) d(2-5) by auto
  next
    case False
    then have "box_Exec 1 0 (dt_input ?dt) = Some (button, cs')" using assms(20) by simp
    from error_box_run [OF this, of TransferForm msg w']
    have "answered TransferForm ?k ?x (?dt, w') = Some (Inr (), (show_form TransferForm
        (?dt\<lparr>dt_input := cs', dt_boxes := dt_boxes ?dt @ [(lit ''-ERROR-'', msg)]\<rparr>), w'))"
      using False by (simp add: answered_def)
    from run [OF this] show ?thesis using False a(2,3) assms(2) by (auto simp: show_form_def)
  qed
qed

text \<open>A filled-in form.\<close>

definition demo_edit :: "(bytes \<Rightarrow> byte \<Rightarrow> bool) \<Rightarrow> string \<Rightarrow> widget" where
  "demo_edit V s = Edit (SetText (lit s) (JEdit_new 21 V))"

definition demo_transfer_form :: form where
  "demo_transfer_form =
    [(Lbl 0, Label), (EditAccountId, demo_edit ValidateAccountId ''000003''), (Tip 0, Label), (Lbl 1, Label),
     (EditPass, demo_edit ValidatePass ''secret''), (Tip 1, Label), (Lbl 2, Label),
     (EditMoney, demo_edit ValidateMoney ''91''), (Tip 2, Label), (Lbl 3, Label),
     (EditOtherAccountId, demo_edit ValidateAccountId ''000012''), (Tip 3, Label), (BtnSubmit, Button),
     (BtnReset, Button), (BtnCancel, Button)]"

definition demo_desk :: "int list \<Rightarrow> form_name \<times> child \<Rightarrow> int desktop" where
  "demo_desk input current = \<lparr>dt_input = input, dt_forms = FormManager_forms(TransferForm := demo_transfer_form),
     dt_current = current, dt_receipts = FormManager_receipts, dt_report = ReportForm_new 0, dt_boxes = [],
     dt_session = demo_session 0 Map.empty, dt_exited = False\<rparr>"

lemma demo_desk_fields [simp]:
  "dt_input (demo_desk input current) = input" "dt_current (demo_desk input current) = current"
  "dt_boxes (demo_desk input current) = []" "dt_report (demo_desk input current) = ReportForm_new 0"
  by (simp_all add: demo_desk_def)

lemma demo_fields:
  "typed_text 6 is_digit (lit ''000003'')" "typed_text 6 is_digit (lit ''000012'')"
  "typed_text 8 (\<lambda>c. True) (lit ''secret'')" "typed_text 11 (\<lambda>c. is_digit c \<or> c = 46) (lit ''91'')"
  by code_simp+

lemma validators_differ:
  "ValidateAccountId \<noteq> ValidateName" "ValidateAccountId \<noteq> ValidatePass" "ValidateAccountId \<noteq> ValidateId"
  "ValidateAccountId \<noteq> ValidateMoney" "ValidateAccountId \<noteq> ValidateDate" "ValidatePass \<noteq> ValidateName"
  "ValidatePass \<noteq> ValidateId" "ValidatePass \<noteq> ValidateMoney" "ValidatePass \<noteq> ValidateDate"
  "ValidateMoney \<noteq> ValidateName" "ValidateMoney \<noteq> ValidateId" "ValidateMoney \<noteq> ValidateDate"
proof -
  have a: "ValidateAccountId (replicate 5 49) 49" "\<not> ValidateAccountId (replicate 6 49) 49" "\<not> ValidateAccountId [] 45"
    "ValidateName (replicate 6 49) 49" "\<not> ValidateName [] 45" "ValidatePass [] 45" "ValidateId (replicate 8 49) 49" "\<not> ValidateId [] 45"
    "ValidateMoney (replicate 6 49) 49" "ValidateMoney [] 46" "\<not> ValidateMoney [] 45" "ValidateDate [] 45"
    "ValidateDate (replicate 6 49) 49" "ValidateDate (replicate 8 49) 49" "\<not> ValidateMoney (replicate 8 49) 49" "\<not> ValidateName [] 46"
    "ValidateId (replicate 6 49) 49"
    by code_simp+
  then show "ValidateAccountId \<noteq> ValidateName" "ValidateAccountId \<noteq> ValidatePass" "ValidateAccountId \<noteq> ValidateId"
    "ValidateAccountId \<noteq> ValidateMoney" "ValidateAccountId \<noteq> ValidateDate" "ValidatePass \<noteq> ValidateName"
    "ValidatePass \<noteq> ValidateId" "ValidatePass \<noteq> ValidateMoney"
    "ValidateMoney \<noteq> ValidateName" "ValidateMoney \<noteq> ValidateId" "ValidateMoney \<noteq> ValidateDate" by metis+
  have "ValidatePass [] 65" "\<not> ValidateDate [] 65" by code_simp+
  then show "ValidatePass \<noteq> ValidateDate" by metis
qed

lemma demo_desk_ok: "focusable (fst current) (snd current) \<Longrightarrow> desk_ok (demo_desk input current)"
proof -
  have "field_ok (SetText (lit ''000003'') (JEdit_new 21 ValidateAccountId))"
    "field_ok (SetText (lit ''000012'') (JEdit_new 21 ValidateAccountId))"
    "field_ok (SetText (lit ''secret'') (JEdit_new 21 ValidatePass))"
    "field_ok (SetText (lit ''91'') (JEdit_new 21 ValidateMoney))"
    using demo_fields validators_differ validators_differ [symmetric]
    by (simp_all add: field_ok_def SetText_def JEdit_new_def edit_ok_def)
  then have "form_ok TransferForm_new demo_transfer_form"
    unfolding form_ok_def TransferForm_new_def demo_transfer_form_def demo_edit_def by simp
  then show "focusable (fst current) (snd current) \<Longrightarrow> desk_ok (demo_desk input current)"
    by (auto simp: desk_ok_def demo_desk_def form_ok_new)
qed

lemma box_enter: "box_Exec 1 0 [KEY_ENTER] = Some (0, [])"
  by code_simp

theorem transfer_form_end_to_end_witness:
  "\<exists>dt' w'. App_step demo_client (wire_client (demo_bank []) demo_client) (replicate 2048 0)
      (demo_desk [KEY_ENTER, KEY_ENTER] (TransferForm, BtnSubmit), demo_wire) = Some (Inr (), (dt', w')) \<and>
    dt_boxes dt' = [(lit ''-ERROR-'', poor)] \<and> idle w'"
proof -
  let ?acc = "asked (demo_bank []) (lit ''000003'') (lit ''secret'') (lit ''91'')"
  let ?dt = "demo_desk [KEY_ENTER, KEY_ENTER] (TransferForm, BtnSubmit)"
  have run: "BankService_Transfer (demo_bank []) ?acc (lit ''000012'') (wr_db demo_wire) = (Inr (4, ?acc), 3)"
    by (simp add: BankService_Transfer_def Transfer_body_def bank_run digits_90 digits_91 asked_def Account_new_def demo_wire_def)
  have reply: "(4, poor) = reply transfer_msgs 4" by (simp add: reply_def transfer_msgs_def)
  have "focusable TransferForm BtnSubmit"
    by (auto simp: focusable_def can_focus_def image_iff TransferForm_new_def)
  then have ok: "desk_ok ?dt" using demo_desk_ok by simp
  have texts: "GetText TransferForm EditAccountId ?dt = lit ''000003''" "GetText TransferForm EditPass ?dt = lit ''secret''"
    "GetText TransferForm EditMoney ?dt = lit ''91''" "GetText TransferForm EditOtherAccountId ?dt = lit ''000012''"
    by (simp_all add: GetText_def demo_desk_def demo_transfer_form_def demo_edit_def SetText_def)
  have nonempty: "lit ''91'' \<noteq> []" by (simp add: lit_def)
  have conn: "cl_connect demo_client demo_wire = (True, demo_wire)" "cl_close demo_client w = w" for w
    by (simp_all add: demo_client_def)
  from transfer_form_end_to_end [OF ok _ _ texts _ _ _ _ _ conn(1) idle_demo str_world_demo _ run reply _ box_enter,
      of "replicate 2048 0" demo_client]
  show ?thesis using nonempty by (auto simp: lit_eq conn)
qed



end
