(* ===== verification/Channel.thy ===== *)
theory Channel imports Prelude begin

text \<open>
  \<open>muduo/net/Channel\<close>: the events a descriptor is watched for, and the dispatch of the events the
  poller reports.  The functions that change \<open>events_\<close> and then call \<open>update()\<close> are the values to set
  here; the call itself is \<open>Update\<close> of \<open>Pollers\<close>.
\<close>

subsection \<open>Flags\<close>

text \<open>The constants of \<open>poll(2)\<close> on Linux.\<close>

type_synonym events = "32 word"

definition POLLIN :: events where "POLLIN = 1"
definition POLLPRI :: events where "POLLPRI = 2"
definition POLLOUT :: events where "POLLOUT = 4"
definition POLLERR :: events where "POLLERR = 8"
definition POLLHUP :: events where "POLLHUP = 0x10"
definition POLLNVAL :: events where "POLLNVAL = 0x20"
definition POLLRDHUP :: events where "POLLRDHUP = 0x2000"

definition kNoneEvent :: events where "kNoneEvent = 0"
definition kReadEvent :: events where "kReadEvent = POLLIN OR POLLPRI"
definition kWriteEvent :: events where "kWriteEvent = POLLOUT"

lemmas event_defs = POLLIN_def POLLPRI_def POLLOUT_def POLLERR_def POLLHUP_def POLLNVAL_def POLLRDHUP_def
  kNoneEvent_def kReadEvent_def kWriteEvent_def

record chan =
  ch_fd :: int
  ch_events :: events
  ch_revents :: events
  ch_index :: int
  ch_logHup :: bool
  ch_tied :: bool
  ch_eventHandling :: bool

definition Channel_new :: "int \<Rightarrow> chan" where
  "Channel_new fd = \<lparr>ch_fd = fd, ch_events = 0, ch_revents = 0, ch_index = - 1, ch_logHup = True,
     ch_tied = False, ch_eventHandling = False\<rparr>"

definition isNoneEvent :: "events \<Rightarrow> bool" where
  "isNoneEvent e \<longleftrightarrow> e = kNoneEvent"

definition enableReading :: "events \<Rightarrow> events" where
  "enableReading e = e OR kReadEvent"

definition enableWriting :: "events \<Rightarrow> events" where
  "enableWriting e = e OR kWriteEvent"

definition disableWriting :: "events \<Rightarrow> events" where
  "disableWriting e = e AND NOT kWriteEvent"

definition disableAll :: "events \<Rightarrow> events" where
  "disableAll e = kNoneEvent"

definition isWriting :: "events \<Rightarrow> bool" where
  "isWriting e \<longleftrightarrow> e AND kWriteEvent \<noteq> 0"

subsection \<open>Dispatch\<close>

text \<open>The callbacks of a channel; each may be unset.\<close>

record 's callbacks =
  closeCallback :: "('s \<Rightarrow> 's res) option"
  errorCallback :: "('s \<Rightarrow> 's res) option"
  readCallback :: "('s \<Rightarrow> 's res) option"
  writeCallback :: "('s \<Rightarrow> 's res) option"

definition call_if :: "bool \<Rightarrow> ('s \<Rightarrow> 's res) option \<Rightarrow> 's \<Rightarrow> 's res" where
  "call_if c cb s = (if c then (case cb of Some f \<Rightarrow> f s | None \<Rightarrow> Inr s) else Inr s)"

definition handleEventWithGuard :: "'s callbacks \<Rightarrow> events \<Rightarrow> 's \<Rightarrow> 's res" where
  "handleEventWithGuard cbs revents s =
     bind_res (call_if (revents AND POLLHUP \<noteq> 0 \<and> \<not> revents AND POLLIN \<noteq> 0) (closeCallback cbs) s) (\<lambda>s.
     bind_res (call_if (revents AND (POLLERR OR POLLNVAL) \<noteq> 0) (errorCallback cbs) s) (\<lambda>s.
     bind_res (call_if (revents AND (POLLIN OR POLLPRI OR POLLRDHUP) \<noteq> 0) (readCallback cbs) s) (\<lambda>s.
     call_if (revents AND POLLOUT \<noteq> 0) (writeCallback cbs) s)))"

text \<open>\<open>owner_alive\<close>: locking the weak pointer to the tied object succeeds.\<close>

definition handleEvent :: "bool \<Rightarrow> bool \<Rightarrow> 's callbacks \<Rightarrow> events \<Rightarrow> 's \<Rightarrow> 's res" where
  "handleEvent tied owner_alive cbs revents s =
     (if tied then (if owner_alive then handleEventWithGuard cbs revents s else Inr s)
      else handleEventWithGuard cbs revents s)"

subsection \<open>Lemmas\<close>

lemma events_cases:
  "isWriting (enableWriting e)" "\<not> isWriting (disableWriting e)" "\<not> isWriting (disableAll e)"
  "isNoneEvent (disableAll e)" "\<not> isNoneEvent (enableReading e)" "\<not> isNoneEvent (enableWriting e)"
proof -
  have bit2: "bit (kWriteEvent :: events) 2" and bit0: "bit (kReadEvent :: events) 0"
    and nz: "kWriteEvent \<noteq> 0"
    by (simp_all add: event_defs bit_iff_odd)
  have w: "(e AND kWriteEvent \<noteq> 0) = bit e 2" for e :: events
    using and_exp_eq_0_iff_not_bit [of e 2] by (simp add: event_defs)
  show "isWriting (enableWriting e)" "\<not> isWriting (disableWriting e)" "\<not> isWriting (disableAll e)"
    using bit2 nz by (simp_all add: isWriting_def w enableWriting_def disableWriting_def disableAll_def bit_simps kNoneEvent_def)
  show "isNoneEvent (disableAll e)" by (simp add: isNoneEvent_def disableAll_def)
  show "\<not> isNoneEvent (enableReading e)"
    using bit0 by (auto simp: isNoneEvent_def enableReading_def kNoneEvent_def bit_eq_iff bit_simps intro: exI [of _ 0])
  show "\<not> isNoneEvent (enableWriting e)"
    using bit2 by (auto simp: isNoneEvent_def enableWriting_def kNoneEvent_def bit_eq_iff bit_simps intro: exI [of _ 2])
qed

end
