(* ===== verification/Pollers.thy ===== *)
theory Pollers imports Channel begin

text \<open>
  \<open>muduo/net/Poller\<close> and its two implementations, \<open>EPollPoller\<close> and \<open>PollPoller\<close>.  What a channel
  may do with a poller is a small protocol (\<open>next_phase\<close>); the locale \<open>poller\<close> is the contract: within
  the protocol no assertion fails, and what is watched are exactly the channels that asked for it.
  The channels live on a heap, as each call changes its channel's \<open>events_\<close> and \<open>index_\<close>.
\<close>

subsection \<open>The protocol and the contract\<close>

type_synonym obj = nat

text \<open>\<open>Update ev\<close> sets the channel's events to \<open>ev\<close> and calls \<open>update()\<close>; \<open>Remove\<close> is \<open>remove()\<close>.\<close>

datatype poll_call = Update events | Remove

datatype phase = Fresh | Watched events | Ignored | Gone

fun next_phase :: "phase \<Rightarrow> poll_call \<Rightarrow> phase option" where
  "next_phase Fresh (Update ev) = (if ev \<noteq> 0 \<and> ev < 2 ^ 15 then Some (Watched ev) else None)"
| "next_phase (Watched e) (Update ev) =
     (if ev = 0 then Some Ignored else if ev < 2 ^ 15 then Some (Watched ev) else None)"
| "next_phase Ignored Remove = Some Gone"
| "next_phase p k = None"

definition fd_free :: "(obj \<Rightarrow> int) \<Rightarrow> (obj \<Rightarrow> phase) \<Rightarrow> obj \<Rightarrow> bool" where
  "fd_free fd ph c \<longleftrightarrow> (\<forall>d. fd d = fd c \<longrightarrow> ph d = Fresh \<or> ph d = Gone)"

text \<open>The calls of many channels, one after the other.\<close>

fun spec_calls :: "(obj \<Rightarrow> int) \<Rightarrow> (obj \<Rightarrow> phase) \<Rightarrow> (obj \<times> poll_call) list \<Rightarrow> (obj \<Rightarrow> phase) option" where
  "spec_calls fd ph [] = Some ph"
| "spec_calls fd ph ((c, k) # ks) =
     (if ph c = Fresh \<longrightarrow> fd_free fd ph c then
        case next_phase (ph c) k of Some p \<Rightarrow> spec_calls fd (ph(c := p)) ks | None \<Rightarrow> None
      else None)"

fun run_calls :: "(obj \<Rightarrow> poll_call \<Rightarrow> 's \<Rightarrow> 's res) \<Rightarrow> (obj \<times> poll_call) list \<Rightarrow> 's \<Rightarrow> 's res" where
  "run_calls call [] s = Inr s"
| "run_calls call ((c, k) # ks) s = bind_res (call c k s) (run_calls call ks)"

locale poller =
  fixes inv :: "'s \<Rightarrow> bool"
    and phase :: "'s \<Rightarrow> obj \<Rightarrow> phase"
    and fd_of :: "'s \<Rightarrow> obj \<Rightarrow> int"
    and call :: "obj \<Rightarrow> poll_call \<Rightarrow> 's \<Rightarrow> 's res"
    and interest :: "'s \<Rightarrow> int \<Rightarrow> (obj \<times> events) option"
    and room :: "'s \<Rightarrow> nat"
    and fill :: "(int \<times> events) list \<Rightarrow> 's \<Rightarrow> ((obj \<times> events) list \<times> 's) res"
  assumes call_ok: "inv s \<Longrightarrow> next_phase (phase s c) k = Some p \<Longrightarrow>
      (phase s c = Fresh \<longrightarrow> fd_free (fd_of s) (phase s) c) \<Longrightarrow>
      \<exists>s'. call c k s = Inr s' \<and> inv s' \<and> fd_of s' = fd_of s \<and>
        (phase s' c = p \<or> p = Gone \<and> phase s' c = Fresh) \<and> (\<forall>d. d \<noteq> c \<longrightarrow> phase s' d = phase s d)"
    and interest_iff: "inv s \<Longrightarrow> interest s n = Some (c, ev) \<longleftrightarrow> phase s c = Watched ev \<and> fd_of s c = n"
    and fill_ok: "inv s \<Longrightarrow> distinct (map fst R) \<Longrightarrow> length R \<le> room s \<Longrightarrow>
      (\<And>n r. (n, r) \<in> set R \<Longrightarrow> interest s n \<noteq> None \<and> 0 < r \<and> r < 2 ^ 15) \<Longrightarrow>
      \<exists>cs s'. fill R s = Inr (cs, s') \<and> inv s' \<and> phase s' = phase s \<and> fd_of s' = fd_of s \<and>
        distinct (map fst cs) \<and> set (map (\<lambda>(c, r). (fd_of s c, r)) cs) = set R"
begin

definition follows :: "'s \<Rightarrow> (obj \<Rightarrow> phase) \<Rightarrow> bool" where
  "follows s ph \<longleftrightarrow> inv s \<and> (\<forall>c. phase s c = ph c \<or> ph c = Gone \<and> phase s c = Fresh)"

lemma follows_refl: "inv s \<Longrightarrow> follows s (phase s)"
  by (simp add: follows_def)

lemma next_phase_Gone [simp]: "next_phase Gone k = None"
  by (cases k) simp_all

lemma calls_refine:
  "follows s ph \<Longrightarrow> spec_calls (fd_of s) ph ks = Some ph' \<Longrightarrow>
     \<exists>s'. run_calls call ks s = Inr s' \<and> follows s' ph' \<and> fd_of s' = fd_of s"
proof (induction ks arbitrary: s ph)
  case Nil
  then show ?case by simp
next
  case (Cons ck ks)
  obtain c k where ck: "ck = (c, k)" by fastforce
  obtain p where p: "next_phase (ph c) k = Some p" "spec_calls (fd_of s) (ph(c := p)) ks = Some ph'"
      "ph c = Fresh \<longrightarrow> fd_free (fd_of s) ph c"
    using Cons.prems(2) by (auto simp: ck split: if_splits option.splits)
  have inv: "inv s" and ph: "phase s d = ph d \<or> ph d = Gone \<and> phase s d = Fresh" for d
    using Cons.prems(1) by (auto simp: follows_def)
  have c: "phase s c = ph c" using ph [of c] p(1) by auto
  have free: "phase s c = Fresh \<longrightarrow> fd_free (fd_of s) (phase s) c"
  proof
    assume "phase s c = Fresh"
    then have "fd_free (fd_of s) ph c" using p(3) c by simp
    then show "fd_free (fd_of s) (phase s) c" unfolding fd_free_def using ph by metis
  qed
  obtain s1 where s1: "call c k s = Inr s1" "inv s1" "fd_of s1 = fd_of s"
      "phase s1 c = p \<or> p = Gone \<and> phase s1 c = Fresh" "\<forall>d. d \<noteq> c \<longrightarrow> phase s1 d = phase s d"
    using call_ok [OF inv _ free] p(1) c by auto
  have "follows s1 (ph(c := p))" using s1 ph by (auto simp: follows_def)
  from Cons.IH [OF this] p(2) s1(1,3) show ?case by (simp add: ck del: fun_upd_apply)
qed

lemma follows_interest:
  "follows s ph \<Longrightarrow> interest s n = Some (c, ev) \<longleftrightarrow> ph c = Watched ev \<and> fd_of s c = n"
proof -
  assume f: "follows s ph"
  then have "phase s c = ph c \<or> ph c = Gone \<and> phase s c = Fresh" "inv s" by (simp_all add: follows_def)
  then show ?thesis using interest_iff [of s n c ev] by auto
qed

text \<open>One watched channel per descriptor, and a removed channel makes room for a new one.\<close>

lemma watched_unique:
  assumes "inv s" and "phase s c = Watched ev" "phase s d = Watched ev'" and "fd_of s c = fd_of s d"
  shows "c = d"
proof -
  have "interest s (fd_of s c) = Some (c, ev)" "interest s (fd_of s c) = Some (d, ev')"
    using assms by (simp_all add: interest_iff)
  then show ?thesis by simp
qed

end

subsection \<open>\<open>EPollPoller\<close>\<close>

text \<open>The interest list of the kernel: descriptors with their events and \<open>data.ptr\<close>.\<close>

record epoller =
  ep_heap :: "obj \<Rightarrow> chan option"
  ep_channels :: "int \<Rightarrow> obj option"
  ep_kernel :: "int \<Rightarrow> (events \<times> obj) option"
  ep_events_size :: nat

definition kNew :: int where "kNew = - 1"
definition kAdded :: int where "kAdded = 1"
definition kDeleted :: int where "kDeleted = 2"
definition kInitEventListSize :: nat where "kInitEventListSize = 16"

definition EPollPoller_new :: "(obj \<Rightarrow> chan option) \<Rightarrow> epoller" where
  "EPollPoller_new heap = \<lparr>ep_heap = heap, ep_channels = Map.empty, ep_kernel = Map.empty,
     ep_events_size = kInitEventListSize\<rparr>"

datatype epoll_op = EPOLL_CTL_ADD | EPOLL_CTL_MOD | EPOLL_CTL_DEL

text \<open>\<open>epoll_ctl(2)\<close>: adding a descriptor that is there fails, as do changing and deleting one that is not.\<close>

definition epoll_ctl ::
  "epoll_op \<Rightarrow> int \<Rightarrow> events \<times> obj \<Rightarrow> (int \<Rightarrow> (events \<times> obj) option) \<Rightarrow> (int \<Rightarrow> (events \<times> obj) option) option" where
  "epoll_ctl op fd event m =
     (case op of
        EPOLL_CTL_ADD \<Rightarrow> if m fd = None then Some (m(fd \<mapsto> event)) else None
      | EPOLL_CTL_MOD \<Rightarrow> if m fd \<noteq> None then Some (m(fd \<mapsto> event)) else None
      | EPOLL_CTL_DEL \<Rightarrow> if m fd \<noteq> None then Some (m(fd := None)) else None)"

definition heap_at :: "(obj \<Rightarrow> chan option) \<Rightarrow> obj \<Rightarrow> chan res" where
  "heap_at h c = (case h c of Some ch \<Rightarrow> Inr ch | None \<Rightarrow> Inl OutOfBounds)"

definition ep_update :: "epoll_op \<Rightarrow> obj \<Rightarrow> epoller \<Rightarrow> epoller res" where
  "ep_update operation c s =
     bind_res (heap_at (ep_heap s) c) (\<lambda>channel.
     case epoll_ctl operation (ch_fd channel) (ch_events channel, c) (ep_kernel s) of
       Some m \<Rightarrow> Inr (s\<lparr>ep_kernel := m\<rparr>)
     | None \<Rightarrow> if operation = EPOLL_CTL_DEL then Inr s else Inl Abort)"

definition ep_set_index :: "obj \<Rightarrow> chan \<Rightarrow> int \<Rightarrow> epoller \<Rightarrow> epoller" where
  "ep_set_index c channel i s = s\<lparr>ep_heap := (ep_heap s)(c \<mapsto> channel\<lparr>ch_index := i\<rparr>)\<rparr>"

definition ep_updateChannel :: "obj \<Rightarrow> epoller \<Rightarrow> epoller res" where
  "ep_updateChannel c s =
     bind_res (heap_at (ep_heap s) c) (\<lambda>channel.
     let fd = ch_fd channel; index = ch_index channel in
     if index = kNew \<or> index = kDeleted then
       bind_res
         (if index = kNew then
            assert_res (ep_channels s fd = None) (Inr (s\<lparr>ep_channels := (ep_channels s)(fd \<mapsto> c)\<rparr>))
          else assert_res (ep_channels s fd \<noteq> None) (assert_res (ep_channels s fd = Some c) (Inr s)))
         (\<lambda>s. ep_update EPOLL_CTL_ADD c (ep_set_index c channel kAdded s))
     else
       assert_res (ep_channels s fd \<noteq> None) (assert_res (ep_channels s fd = Some c) (assert_res (index = kAdded)
         (if isNoneEvent (ch_events channel) then
            bind_res (ep_update EPOLL_CTL_DEL c s) (\<lambda>s. Inr (ep_set_index c channel kDeleted s))
          else ep_update EPOLL_CTL_MOD c s))))"

definition ep_removeChannel :: "obj \<Rightarrow> epoller \<Rightarrow> epoller res" where
  "ep_removeChannel c s =
     bind_res (heap_at (ep_heap s) c) (\<lambda>channel.
     let fd = ch_fd channel; index = ch_index channel in
     assert_res (ep_channels s fd \<noteq> None) (assert_res (ep_channels s fd = Some c)
     (assert_res (isNoneEvent (ch_events channel)) (assert_res (index = kAdded \<or> index = kDeleted)
     (let s = s\<lparr>ep_channels := (ep_channels s)(fd := None)\<rparr> in
      bind_res (if index = kAdded then ep_update EPOLL_CTL_DEL c s else Inr s) (\<lambda>s.
      Inr (ep_set_index c channel kNew s)))))))"

text \<open>\<open>Channel\<close>'s setters with \<open>update()\<close>, and \<open>Channel::remove\<close>.\<close>

definition ep_call :: "obj \<Rightarrow> poll_call \<Rightarrow> epoller \<Rightarrow> epoller res" where
  "ep_call c k s =
     bind_res (heap_at (ep_heap s) c) (\<lambda>channel.
     case k of
       Update ev \<Rightarrow> ep_updateChannel c (s\<lparr>ep_heap := (ep_heap s)(c \<mapsto> channel\<lparr>ch_events := ev\<rparr>)\<rparr>)
     | Remove \<Rightarrow> assert_res (isNoneEvent (ch_events channel)) (ep_removeChannel c s))"

text \<open>
  The events the kernel hands back carry the pointers it was given; \<open>R\<close> are the ready descriptors.
  Every channel gets its \<open>revents_\<close>.
\<close>

fun ep_fill :: "(obj \<times> events) list \<Rightarrow> epoller \<Rightarrow> ((obj \<times> events) list \<times> epoller) res" where
  "ep_fill [] s = Inr ([], s)"
| "ep_fill ((c, r) # es) s =
     bind_res (heap_at (ep_heap s) c) (\<lambda>channel.
     assert_res (ep_channels s (ch_fd channel) \<noteq> None) (assert_res (ep_channels s (ch_fd channel) = Some c)
     (bind_res (ep_fill es (s\<lparr>ep_heap := (ep_heap s)(c \<mapsto> channel\<lparr>ch_revents := r\<rparr>)\<rparr>)) (\<lambda>(cs, s).
      Inr ((c, r) # cs, s)))))"

definition ep_poll :: "(int \<times> events) list \<Rightarrow> epoller \<Rightarrow> ((obj \<times> events) list \<times> epoller) res" where
  "ep_poll R s =
     (let events = map (\<lambda>(n, r). (snd (the (ep_kernel s n)), r)) R;
          numEvents = length R
      in if numEvents > 0 then
           assert_res (numEvents \<le> ep_events_size s)
           (bind_res (ep_fill events s) (\<lambda>(cs, s).
            Inr (cs, if numEvents = ep_events_size s then s\<lparr>ep_events_size := ep_events_size s * 2\<rparr> else s)))
         else Inr ([], s))"

definition ep_phase :: "epoller \<Rightarrow> obj \<Rightarrow> phase" where
  "ep_phase s c = (case ep_heap s c of None \<Rightarrow> Gone
     | Some ch \<Rightarrow> if ch_index ch = kAdded then Watched (ch_events ch)
                  else if ch_index ch = kDeleted then Ignored else Fresh)"

definition ep_fd :: "epoller \<Rightarrow> obj \<Rightarrow> int" where
  "ep_fd s c = (case ep_heap s c of Some ch \<Rightarrow> ch_fd ch | None \<Rightarrow> - 1)"

definition ep_interest :: "epoller \<Rightarrow> int \<Rightarrow> (obj \<times> events) option" where
  "ep_interest s n = map_option (\<lambda>(ev, c). (c, ev)) (ep_kernel s n)"

definition ep_inv :: "epoller \<Rightarrow> bool" where
  "ep_inv s \<longleftrightarrow>
     (\<forall>c ch. ep_heap s c = Some ch \<longrightarrow> 0 \<le> ch_fd ch \<and> ch_index ch \<in> {kNew, kAdded, kDeleted} \<and>
        (ch_index ch = kAdded \<longrightarrow> ch_events ch \<noteq> 0) \<and> (ch_index ch = kDeleted \<longrightarrow> ch_events ch = 0)) \<and>
     (\<forall>n c. ep_channels s n = Some c \<longleftrightarrow> (\<exists>ch. ep_heap s c = Some ch \<and> ch_fd ch = n \<and> ch_index ch \<noteq> kNew)) \<and>
     (\<forall>n ev c. ep_kernel s n = Some (ev, c) \<longleftrightarrow>
        (\<exists>ch. ep_heap s c = Some ch \<and> ch_fd ch = n \<and> ch_index ch = kAdded \<and> ch_events ch = ev))"

lemmas index_defs = kNew_def kAdded_def kDeleted_def

lemma ep_invD:
  assumes "ep_inv s"
  shows "\<And>c ch. ep_heap s c = Some ch \<Longrightarrow> 0 \<le> ch_fd ch \<and> ch_index ch \<in> {kNew, kAdded, kDeleted} \<and>
        (ch_index ch = kAdded \<longrightarrow> ch_events ch \<noteq> 0) \<and> (ch_index ch = kDeleted \<longrightarrow> ch_events ch = 0)"
    "\<And>n c. ep_channels s n = Some c \<longleftrightarrow> (\<exists>ch. ep_heap s c = Some ch \<and> ch_fd ch = n \<and> ch_index ch \<noteq> kNew)"
    "\<And>n ev c. ep_kernel s n = Some (ev, c) \<longleftrightarrow>
        (\<exists>ch. ep_heap s c = Some ch \<and> ch_fd ch = n \<and> ch_index ch = kAdded \<and> ch_events ch = ev)"
  using assms unfolding ep_inv_def by blast+


text \<open>A channel's new events and index, with what the poller then has to know.\<close>

lemma ep_inv_change:
  assumes "ep_inv s" and "ep_heap s c = Some ch" and "ch_fd ch' = ch_fd ch"
    and "ch_index ch' \<in> {kNew, kAdded, kDeleted}" "ch_index ch' = kAdded \<longrightarrow> ch_events ch' \<noteq> 0"
      "ch_index ch' = kDeleted \<longrightarrow> ch_events ch' = 0"
    and free: "ch_index ch = kNew \<longrightarrow> ep_channels s (ch_fd ch) = None"
    and s': "ep_heap s' = (ep_heap s)(c \<mapsto> ch')"
      "ep_channels s' = (ep_channels s)(ch_fd ch := if ch_index ch' = kNew then None else Some c)"
      "ep_kernel s' = (ep_kernel s)(ch_fd ch := if ch_index ch' = kAdded then Some (ch_events ch', c) else None)"
  shows "ep_inv s'"
proof -
  note w = ep_invD [OF assms(1)]
  have mine: "d = c" if "ep_heap s d = Some ch1" "ch_fd ch1 = ch_fd ch" "ch_index ch1 \<noteq> kNew" for d ch1
  proof -
    have d: "ep_channels s (ch_fd ch) = Some d" unfolding w(2) using that by blast
    then have "ch_index ch \<noteq> kNew" using free by auto
    then have "ep_channels s (ch_fd ch) = Some c" unfolding w(2) using assms(2) by blast
    then show ?thesis using d by simp
  qed
  have n: "kAdded \<noteq> kNew" by (simp add: index_defs)
  show ?thesis
    unfolding ep_inv_def
  proof (intro conjI)
    show "\<forall>d ch. ep_heap s' d = Some ch \<longrightarrow> 0 \<le> ch_fd ch \<and> ch_index ch \<in> {kNew, kAdded, kDeleted} \<and>
        (ch_index ch = kAdded \<longrightarrow> ch_events ch \<noteq> 0) \<and> (ch_index ch = kDeleted \<longrightarrow> ch_events ch = 0)"
      using w(1) assms(2-6) by (auto simp: s'(1))
    show "\<forall>n d. (ep_channels s' n = Some d) = (\<exists>ch. ep_heap s' d = Some ch \<and> ch_fd ch = n \<and> ch_index ch \<noteq> kNew)"
    proof (intro allI)
      fix n d
      show "(ep_channels s' n = Some d) = (\<exists>ch. ep_heap s' d = Some ch \<and> ch_fd ch = n \<and> ch_index ch \<noteq> kNew)"
        using w(2) [of n d] mine assms(2,3) by (cases "n = ch_fd ch"; cases "d = c") (auto simp: s'(1,2))
    qed
    show "\<forall>n ev d. (ep_kernel s' n = Some (ev, d)) =
        (\<exists>ch. ep_heap s' d = Some ch \<and> ch_fd ch = n \<and> ch_index ch = kAdded \<and> ch_events ch = ev)"
    proof (intro allI)
      fix n ev d
      show "(ep_kernel s' n = Some (ev, d)) =
        (\<exists>ch. ep_heap s' d = Some ch \<and> ch_fd ch = n \<and> ch_index ch = kAdded \<and> ch_events ch = ev)"
        using w(3) [of n ev d] mine n assms(2,3) by (cases "n = ch_fd ch"; cases "d = c") (auto simp: s'(1,3))
    qed
  qed
qed

lemma ep_phase_heap: "ep_heap s c = ep_heap s' c \<Longrightarrow> ep_phase s c = ep_phase s' c"
  by (simp add: ep_phase_def)

lemma ep_call_ok:
  assumes inv: "ep_inv s" and p: "next_phase (ep_phase s c) k = Some p"
    and free: "ep_phase s c = Fresh \<longrightarrow> fd_free (ep_fd s) (ep_phase s) c"
  shows "\<exists>s'. ep_call c k s = Inr s' \<and> ep_inv s' \<and> ep_fd s' = ep_fd s \<and>
    (ep_phase s' c = p \<or> p = Gone \<and> ep_phase s' c = Fresh) \<and> (\<forall>d. d \<noteq> c \<longrightarrow> ep_phase s' d = ep_phase s d)"
proof -
  note w = ep_invD [OF inv]
  obtain ch where ch: "ep_heap s c = Some ch" using p by (cases "ep_heap s c") (auto simp: ep_phase_def)
  have idx: "ch_index ch \<in> {kNew, kAdded, kDeleted}" using w(1) [OF ch] by blast
  have fin: ?thesis
    if "ep_call c k s = Inr s'" "ep_heap s' = (ep_heap s)(c \<mapsto> ch')" "ch_fd ch' = ch_fd ch"
      "ch_index ch' \<in> {kNew, kAdded, kDeleted}" "ch_index ch' = kAdded \<longrightarrow> ch_events ch' \<noteq> 0"
      "ch_index ch' = kDeleted \<longrightarrow> ch_events ch' = 0" "ch_index ch = kNew \<longrightarrow> ep_channels s (ch_fd ch) = None"
      "ep_channels s' = (ep_channels s)(ch_fd ch := if ch_index ch' = kNew then None else Some c)"
      "ep_kernel s' = (ep_kernel s)(ch_fd ch := if ch_index ch' = kAdded then Some (ch_events ch', c) else None)"
      "ep_phase s' c = p \<or> p = Gone \<and> ep_phase s' c = Fresh"
    for s' ch'
  proof -
    have "ep_inv s'" by (rule ep_inv_change [OF inv ch that(3-7) that(2) that(8,9)])
    moreover have "ep_fd s' = ep_fd s" using that(2,3) ch by (auto simp: ep_fd_def fun_eq_iff)
    moreover have "\<forall>d. d \<noteq> c \<longrightarrow> ep_phase s' d = ep_phase s d" using that(2) by (auto intro: ep_phase_heap)
    ultimately show ?thesis using that(1,10) by blast
  qed
  consider (new) "ch_index ch = kNew" | (added) "ch_index ch = kAdded" | (deleted) "ch_index ch = kDeleted"
    using idx by blast
  then show ?thesis
  proof cases
    case new
    then have fresh: "ep_phase s c = Fresh" using ch by (simp add: ep_phase_def index_defs Let_def)
    then obtain ev where k: "k = Update ev" "ev \<noteq> 0" "p = Watched ev" using p by (cases k) (auto split: if_splits)
    have none: "ep_channels s (ch_fd ch) = None"
    proof (rule ccontr)
      assume "\<not> ?thesis"
      then obtain d where d: "ep_channels s (ch_fd ch) = Some d" by auto
      then obtain ch1 where ch1: "ep_heap s d = Some ch1" "ch_fd ch1 = ch_fd ch" "ch_index ch1 \<noteq> kNew"
        unfolding w(2) by blast
      then have "ep_phase s d \<noteq> Fresh" "ep_phase s d \<noteq> Gone" "ep_fd s d = ep_fd s c"
        using w(1) [OF ch1(1)] ch by (auto simp: ep_phase_def ep_fd_def)
      then show False using free fresh by (auto simp: fd_free_def)
    qed
    have "ep_kernel s (ch_fd ch) = None"
    proof (rule ccontr)
      assume "\<not> ?thesis"
      then obtain ev d where "ep_kernel s (ch_fd ch) = Some (ev, d)" by auto
      then have "ep_channels s (ch_fd ch) = Some d" unfolding w(2,3) by (auto simp: index_defs)
      then show False using none by simp
    qed
    then show ?thesis
      using ch new none k
      by (intro fin [of "s\<lparr>ep_heap := (ep_heap s)(c \<mapsto> ch\<lparr>ch_events := ev, ch_index := kAdded\<rparr>),
            ep_channels := (ep_channels s)(ch_fd ch \<mapsto> c), ep_kernel := (ep_kernel s)(ch_fd ch \<mapsto> (ev, c))\<rparr>"
            "ch\<lparr>ch_events := ev, ch_index := kAdded\<rparr>"])
        (simp_all add: ep_call_def heap_at_def ep_updateChannel_def ep_update_def ep_set_index_def epoll_ctl_def
          ep_phase_def index_defs Let_def)
  next
    case added
    then have watched: "ep_phase s c = Watched (ch_events ch)" using ch by (simp add: ep_phase_def)
    then obtain ev where k: "k = Update ev" "p = (if ev = 0 then Ignored else Watched ev)"
      using p by (cases k) (auto split: if_splits)
    have have_c: "ep_channels s (ch_fd ch) = Some c" unfolding w(2) using ch added by (auto simp: index_defs)
    have have_k: "ep_kernel s (ch_fd ch) = Some (ch_events ch, c)" unfolding w(3) using ch added by blast
    note defs = ep_call_def heap_at_def ep_updateChannel_def ep_update_def ep_set_index_def epoll_ctl_def
      ep_phase_def index_defs Let_def isNoneEvent_def kNoneEvent_def fun_upd_idem map_upd_triv
    show ?thesis
    proof (cases "ev = 0")
      case True
      then show ?thesis
        using ch added have_c have_k k
        by (intro fin [of "s\<lparr>ep_heap := (ep_heap s)(c \<mapsto> ch\<lparr>ch_events := 0, ch_index := kDeleted\<rparr>),
              ep_kernel := (ep_kernel s)(ch_fd ch := None)\<rparr>" "ch\<lparr>ch_events := 0, ch_index := kDeleted\<rparr>"])
          (simp_all add: defs)
    next
      case False
      then show ?thesis
        using ch added have_c have_k k
        by (intro fin [of "s\<lparr>ep_heap := (ep_heap s)(c \<mapsto> ch\<lparr>ch_events := ev\<rparr>),
              ep_kernel := (ep_kernel s)(ch_fd ch \<mapsto> (ev, c))\<rparr>" "ch\<lparr>ch_events := ev\<rparr>"])
          (simp_all add: defs)
    qed
  next
    case deleted
    then have ignored: "ep_phase s c = Ignored" using ch by (simp add: ep_phase_def index_defs Let_def)
    then have k: "k = Remove" "p = Gone" using p by (cases k; auto)+
    have have_c: "ep_channels s (ch_fd ch) = Some c" unfolding w(2) using ch deleted by (auto simp: index_defs)
    have none: "ch_events ch = 0" using w(1) [OF ch] deleted by blast
    have "ep_kernel s (ch_fd ch) = None"
    proof (rule ccontr)
      assume "\<not> ?thesis"
      then obtain ev d where d: "ep_kernel s (ch_fd ch) = Some (ev, d)" by auto
      then have "ep_channels s (ch_fd ch) = Some d" unfolding w(2,3) by (auto simp: index_defs)
      then show False using d have_c ch deleted unfolding w(3) by (auto simp: index_defs)
    qed
    then show ?thesis
      using ch deleted have_c none k
      by (intro fin [of "s\<lparr>ep_heap := (ep_heap s)(c \<mapsto> ch\<lparr>ch_index := kNew\<rparr>),
            ep_channels := (ep_channels s)(ch_fd ch := None)\<rparr>" "ch\<lparr>ch_index := kNew\<rparr>"])
        (simp_all add: ep_call_def heap_at_def ep_removeChannel_def ep_set_index_def
          ep_phase_def index_defs Let_def isNoneEvent_def kNoneEvent_def fun_upd_idem)
  qed
qed


text \<open>The reported channels get their events; nothing else changes.\<close>

lemma ep_fill_ok:
  "ep_inv s \<Longrightarrow> (\<And>c r. (c, r) \<in> set es \<Longrightarrow> \<exists>ev. ep_phase s c = Watched ev) \<Longrightarrow>
     \<exists>s'. ep_fill es s = Inr (es, s') \<and> ep_inv s' \<and> ep_phase s' = ep_phase s \<and> ep_fd s' = ep_fd s"
proof (induction es arbitrary: s)
  case Nil
  then show ?case by simp
next
  case (Cons e es)
  obtain c r where e: "e = (c, r)" by fastforce
  note w = ep_invD [OF Cons.prems(1)]
  obtain ev where ev: "ep_phase s c = Watched ev" using Cons.prems(2) [of c r] e by auto
  then obtain ch where ch: "ep_heap s c = Some ch" "ch_index ch = kAdded" "ch_events ch = ev"
    by (auto simp: ep_phase_def split: option.splits if_splits)
  have chan: "ep_channels s (ch_fd ch) = Some c" unfolding w(2) using ch(1,2) by (auto simp: index_defs)
  have kern: "ep_kernel s (ch_fd ch) = Some (ev, c)" unfolding w(3) using ch by blast
  let ?s = "s\<lparr>ep_heap := (ep_heap s)(c \<mapsto> ch\<lparr>ch_revents := r\<rparr>)\<rparr>"
  have s1: "ep_inv ?s"
    by (rule ep_inv_change [OF Cons.prems(1) ch(1), of "ch\<lparr>ch_revents := r\<rparr>"])
      (use w(1) [OF ch(1)] ch chan kern in \<open>auto simp: index_defs fun_upd_idem\<close>)
  have same: "ep_phase ?s = ep_phase s" "ep_fd ?s = ep_fd s"
    using ch(1) by (auto simp: ep_phase_def ep_fd_def fun_eq_iff)
  obtain s' where "ep_fill es ?s = Inr (es, s')" "ep_inv s'" "ep_phase s' = ep_phase ?s" "ep_fd s' = ep_fd ?s"
    using Cons.IH [OF s1] Cons.prems(2) same(1) by (metis list.set_intros(2))
  then show ?case using e ch(1) chan same by (simp add: heap_at_def)
qed

lemma ep_interest_iff:
  assumes "ep_inv s"
  shows "ep_interest s n = Some (c, ev) \<longleftrightarrow> ep_phase s c = Watched ev \<and> ep_fd s c = n"
proof -
  have "ep_interest s n = Some (c, ev) \<longleftrightarrow> ep_kernel s n = Some (ev, c)" by (auto simp: ep_interest_def)
  also have "\<dots> \<longleftrightarrow> ep_phase s c = Watched ev \<and> ep_fd s c = n"
    unfolding ep_invD(3) [OF assms] by (auto simp: ep_phase_def ep_fd_def split: option.splits if_splits)
  finally show ?thesis .
qed

lemma ep_poll_ok:
  assumes "ep_inv s" and "distinct (map fst R)" and "length R \<le> ep_events_size s"
    and rep: "\<And>n r. (n, r) \<in> set R \<Longrightarrow> ep_interest s n \<noteq> None \<and> 0 < r \<and> r < 2 ^ 15"
  shows "\<exists>cs s'. ep_poll R s = Inr (cs, s') \<and> ep_inv s' \<and> ep_phase s' = ep_phase s \<and> ep_fd s' = ep_fd s \<and>
    distinct (map fst cs) \<and> set (map (\<lambda>(c, r). (ep_fd s c, r)) cs) = set R"
proof -
  define es where "es = map (\<lambda>(n, r). (snd (the (ep_kernel s n)), r)) R"
  have ptr: "\<exists>ev. ep_phase s (snd (the (ep_kernel s n))) = Watched ev" "ep_fd s (snd (the (ep_kernel s n))) = n"
    if nr: "(n, r) \<in> set R" for n r
  proof -
    obtain c ev where i: "ep_interest s n = Some (c, ev)" using rep [OF nr] by auto
    then have "snd (the (ep_kernel s n)) = c" by (auto simp: ep_interest_def)
    then show "\<exists>ev. ep_phase s (snd (the (ep_kernel s n))) = Watched ev" "ep_fd s (snd (the (ep_kernel s n))) = n"
      using i ep_interest_iff [OF assms(1)] by auto
  qed
  have again: "map (\<lambda>(c, r). (ep_fd s c, r)) es = R"
    using ptr(2) by (auto simp: es_def intro!: map_idI)
  have "map fst es = map (\<lambda>n. snd (the (ep_kernel s n))) (map fst R)"
    by (auto simp: es_def)
  moreover have "inj_on (\<lambda>n. snd (the (ep_kernel s n))) (set (map fst R))"
    using ptr(2) by (intro inj_on_inverseI [of _ "ep_fd s"]) auto
  ultimately have d: "distinct (map fst es)" using assms(2) by (auto simp: distinct_map intro: comp_inj_on)
  have "\<exists>ev. ep_phase s c = Watched ev" if "(c, r) \<in> set es" for c r
    using that ptr(1) by (auto simp: es_def)
  then obtain s' where s': "ep_fill es s = Inr (es, s')" "ep_inv s'" "ep_phase s' = ep_phase s" "ep_fd s' = ep_fd s"
    using ep_fill_ok [OF assms(1)] by blast
  show ?thesis
  proof (cases "R = []")
    case True
    then show ?thesis using assms(1) by (simp add: ep_poll_def)
  next
    case False
    let ?t = "if length R = ep_events_size s' then s'\<lparr>ep_events_size := ep_events_size s' * 2\<rparr> else s'"
    have poll: "ep_poll R s = Inr (es, ?t)"
      using False s'(1) assms(3) by (simp add: ep_poll_def es_def [symmetric] Let_def)
    have "ep_inv ?t" using s'(2) by (simp add: ep_inv_def)
    moreover have "ep_phase ?t = ep_phase s" "ep_fd ?t = ep_fd s"
      using s'(3,4) by (auto simp: ep_phase_def ep_fd_def fun_eq_iff)
    moreover have "set (map (\<lambda>(c, r). (ep_fd s c, r)) es) = set R" by (simp only: again)
    ultimately show ?thesis using poll d by blast
  qed
qed

interpretation epoll: poller ep_inv ep_phase ep_fd ep_call ep_interest ep_events_size ep_poll
proof unfold_locales
  show "ep_inv s \<Longrightarrow> next_phase (ep_phase s c) k = Some p \<Longrightarrow>
      (ep_phase s c = Fresh \<longrightarrow> fd_free (ep_fd s) (ep_phase s) c) \<Longrightarrow>
      \<exists>s'. ep_call c k s = Inr s' \<and> ep_inv s' \<and> ep_fd s' = ep_fd s \<and>
        (ep_phase s' c = p \<or> p = Gone \<and> ep_phase s' c = Fresh) \<and> (\<forall>d. d \<noteq> c \<longrightarrow> ep_phase s' d = ep_phase s d)"
    for s c k p by (rule ep_call_ok)
  show "ep_inv s \<Longrightarrow> (ep_interest s n = Some (c, ev)) = (ep_phase s c = Watched ev \<and> ep_fd s c = n)"
    for s n c ev by (rule ep_interest_iff)
qed (rule ep_poll_ok)

subsection \<open>\<open>PollPoller\<close>\<close>

record pollfd =
  pf_fd :: int
  pf_events :: "16 word"
  pf_revents :: "16 word"

record ppoller =
  pp_heap :: "obj \<Rightarrow> chan option"
  pp_channels :: "int \<Rightarrow> obj option"
  pp_pollfds :: "pollfd list"

definition PollPoller_new :: "(obj \<Rightarrow> chan option) \<Rightarrow> ppoller" where
  "PollPoller_new heap = \<lparr>pp_heap = heap, pp_channels = Map.empty, pp_pollfds = []\<rparr>"

definition pp_updateChannel :: "obj \<Rightarrow> ppoller \<Rightarrow> ppoller res" where
  "pp_updateChannel c s =
     bind_res (heap_at (pp_heap s) c) (\<lambda>channel.
     if ch_index channel < 0 then
       assert_res (pp_channels s (ch_fd channel) = None)
       (let pfd = \<lparr>pf_fd = ch_fd channel, pf_events = ucast (ch_events channel), pf_revents = 0\<rparr>;
            pollfds = pp_pollfds s @ [pfd];
            idx = int (length pollfds) - 1
        in Inr (s\<lparr>pp_pollfds := pollfds, pp_heap := (pp_heap s)(c \<mapsto> channel\<lparr>ch_index := idx\<rparr>),
                  pp_channels := (pp_channels s)(pf_fd pfd \<mapsto> c)\<rparr>))
     else
       assert_res (pp_channels s (ch_fd channel) \<noteq> None) (assert_res (pp_channels s (ch_fd channel) = Some c)
       (let idx = ch_index channel in
        assert_res (0 \<le> idx \<and> idx < int (length (pp_pollfds s)))
        (let pfd = pp_pollfds s ! nat idx in
         assert_res (pf_fd pfd = ch_fd channel \<or> pf_fd pfd = - ch_fd channel - 1)
         (let pfd = pfd\<lparr>pf_events := ucast (ch_events channel), pf_revents := 0\<rparr>;
              pfd = (if isNoneEvent (ch_events channel) then pfd\<lparr>pf_fd := - ch_fd channel - 1\<rparr> else pfd)
          in Inr (s\<lparr>pp_pollfds := (pp_pollfds s)[nat idx := pfd]\<rparr>))))))"

definition pp_removeChannel :: "obj \<Rightarrow> ppoller \<Rightarrow> ppoller res" where
  "pp_removeChannel c s =
     bind_res (heap_at (pp_heap s) c) (\<lambda>channel.
     assert_res (pp_channels s (ch_fd channel) \<noteq> None) (assert_res (pp_channels s (ch_fd channel) = Some c)
     (assert_res (isNoneEvent (ch_events channel))
     (let idx = ch_index channel in
      assert_res (0 \<le> idx \<and> idx < int (length (pp_pollfds s)))
      (let pfd = pp_pollfds s ! nat idx in
       assert_res (pf_fd pfd = - ch_fd channel - 1 \<and> pf_events pfd = ucast (ch_events channel))
       (let s = s\<lparr>pp_channels := (pp_channels s)(ch_fd channel := None)\<rparr> in
        if nat idx = length (pp_pollfds s) - 1 then Inr (s\<lparr>pp_pollfds := butlast (pp_pollfds s)\<rparr>)
        else
          let channelAtEnd = pf_fd (last (pp_pollfds s));
              pollfds = (pp_pollfds s)[nat idx := last (pp_pollfds s), length (pp_pollfds s) - 1 := pfd];
              channelAtEnd = (if channelAtEnd < 0 then - channelAtEnd - 1 else channelAtEnd)
          in case pp_channels s channelAtEnd of
               None \<Rightarrow> Inl OutOfBounds
             | Some e \<Rightarrow>
                 bind_res (heap_at (pp_heap s) e) (\<lambda>ch.
                 Inr (s\<lparr>pp_heap := (pp_heap s)(e \<mapsto> ch\<lparr>ch_index := idx\<rparr>),
                        pp_pollfds := butlast pollfds\<rparr>))))))))"

definition pp_call :: "obj \<Rightarrow> poll_call \<Rightarrow> ppoller \<Rightarrow> ppoller res" where
  "pp_call c k s =
     bind_res (heap_at (pp_heap s) c) (\<lambda>channel.
     case k of
       Update ev \<Rightarrow> pp_updateChannel c (s\<lparr>pp_heap := (pp_heap s)(c \<mapsto> channel\<lparr>ch_events := ev\<rparr>)\<rparr>)
     | Remove \<Rightarrow> assert_res (isNoneEvent (ch_events channel)) (pp_removeChannel c s))"

text \<open>\<open>poll(2)\<close> writes every \<open>revents\<close>: zero for the entries with a negative descriptor.\<close>

definition sys_poll :: "(int \<times> events) list \<Rightarrow> pollfd list \<Rightarrow> pollfd list" where
  "sys_poll R fds = map (\<lambda>p. p\<lparr>pf_revents :=
     (if 0 \<le> pf_fd p then case map_of R (pf_fd p) of Some r \<Rightarrow> ucast r | None \<Rightarrow> 0 else 0)\<rparr>) fds"

fun pp_fill :: "pollfd list \<Rightarrow> nat \<Rightarrow> ppoller \<Rightarrow> ((obj \<times> events) list \<times> ppoller) res" where
  "pp_fill [] numEvents s = Inr ([], s)"
| "pp_fill (pfd # pfds) numEvents s =
     (if numEvents > 0 then
        if 0 <s pf_revents pfd then
          (case pp_channels s (pf_fd pfd) of
             None \<Rightarrow> Inl Abort
           | Some c \<Rightarrow>
               bind_res (heap_at (pp_heap s) c) (\<lambda>channel.
               assert_res (ch_fd channel = pf_fd pfd)
               (bind_res (pp_fill pfds (numEvents - 1)
                   (s\<lparr>pp_heap := (pp_heap s)(c \<mapsto> channel\<lparr>ch_revents := scast (pf_revents pfd)\<rparr>)\<rparr>))
                 (\<lambda>(cs, s). Inr ((c, scast (pf_revents pfd)) # cs, s)))))
        else pp_fill pfds numEvents s
      else Inr ([], s))"

definition pp_poll :: "(int \<times> events) list \<Rightarrow> ppoller \<Rightarrow> ((obj \<times> events) list \<times> ppoller) res" where
  "pp_poll R s =
     (let pollfds = sys_poll R (pp_pollfds s);
          numEvents = length (filter (\<lambda>p. pf_revents p \<noteq> 0) pollfds);
          s = s\<lparr>pp_pollfds := pollfds\<rparr>
      in if numEvents > 0 then pp_fill pollfds numEvents s else Inr ([], s))"

definition pp_phase :: "ppoller \<Rightarrow> obj \<Rightarrow> phase" where
  "pp_phase s c = (case pp_heap s c of None \<Rightarrow> Gone
     | Some ch \<Rightarrow> if ch_index ch < 0 then Fresh
                  else if pp_channels s (ch_fd ch) = Some c
                  then if ch_events ch = 0 then Ignored else Watched (ch_events ch) else Gone)"

definition pp_fd :: "ppoller \<Rightarrow> obj \<Rightarrow> int" where
  "pp_fd s c = (case pp_heap s c of Some ch \<Rightarrow> ch_fd ch | None \<Rightarrow> - 1)"

text \<open>What \<open>poll\<close> watches: the entries with a descriptor that is not negative.\<close>

definition pp_interest :: "ppoller \<Rightarrow> int \<Rightarrow> (obj \<times> events) option" where
  "pp_interest s n =
     (case find (\<lambda>p. pf_fd p = n \<and> 0 \<le> n) (pp_pollfds s) of
        Some p \<Rightarrow> (case pp_channels s n of Some c \<Rightarrow> Some (c, ucast (pf_events p)) | None \<Rightarrow> None)
      | None \<Rightarrow> None)"

definition pf_real :: "pollfd \<Rightarrow> int" where
  "pf_real p = (if pf_fd p < 0 then - pf_fd p - 1 else pf_fd p)"

definition pf_for :: "chan \<Rightarrow> pollfd \<Rightarrow> bool" where
  "pf_for ch p \<longleftrightarrow> pf_fd p = (if ch_events ch = 0 then - ch_fd ch - 1 else ch_fd ch) \<and>
     pf_events p = ucast (ch_events ch)"

definition pp_inv :: "ppoller \<Rightarrow> bool" where
  "pp_inv s \<longleftrightarrow>
     (\<forall>c ch. pp_heap s c = Some ch \<longrightarrow> 0 \<le> ch_fd ch \<and> ch_events ch < 2 ^ 15) \<and>
     (\<forall>n c. pp_channels s n = Some c \<longrightarrow> (\<exists>ch i. pp_heap s c = Some ch \<and> ch_fd ch = n \<and> ch_index ch = int i \<and>
        i < length (pp_pollfds s) \<and> pf_for ch (pp_pollfds s ! i))) \<and>
     (\<forall>i < length (pp_pollfds s). \<exists>c ch. pp_channels s (pf_real (pp_pollfds s ! i)) = Some c \<and>
        pp_heap s c = Some ch \<and> ch_index ch = int i)"

lemma pp_invD:
  assumes "pp_inv s"
  shows "\<And>c ch. pp_heap s c = Some ch \<Longrightarrow> 0 \<le> ch_fd ch \<and> ch_events ch < 2 ^ 15"
    "\<And>n c. pp_channels s n = Some c \<Longrightarrow> \<exists>ch i. pp_heap s c = Some ch \<and> ch_fd ch = n \<and> ch_index ch = int i \<and>
        i < length (pp_pollfds s) \<and> pf_for ch (pp_pollfds s ! i)"
    "\<And>i. i < length (pp_pollfds s) \<Longrightarrow> \<exists>c ch. pp_channels s (pf_real (pp_pollfds s ! i)) = Some c \<and>
        pp_heap s c = Some ch \<and> ch_index ch = int i"
  using assms unfolding pp_inv_def by blast+

lemma pf_for_real: "pf_for ch p \<Longrightarrow> 0 \<le> ch_fd ch \<Longrightarrow> pf_real p = ch_fd ch"
  by (auto simp: pf_for_def pf_real_def split: if_splits)

text \<open>A new channel goes to the end.\<close>

lemma pp_inv_add:
  assumes "pp_inv s" and "pp_heap s c = Some ch" "ch_index ch < 0" and "pp_channels s (ch_fd ch) = None"
    and "ev \<noteq> 0" "ev < 2 ^ 15"
    and s': "s' = s\<lparr>pp_pollfds := pp_pollfds s @ [\<lparr>pf_fd = ch_fd ch, pf_events = ucast ev, pf_revents = 0\<rparr>],
      pp_heap := (pp_heap s)(c \<mapsto> ch\<lparr>ch_events := ev, ch_index := int (length (pp_pollfds s))\<rparr>),
      pp_channels := (pp_channels s)(ch_fd ch \<mapsto> c)\<rparr>"
  shows "pp_inv s'"
proof -
  note w = pp_invD [OF assms(1)]
  have nc: "d \<noteq> c" if "pp_channels s n = Some d" for n d
    using w(2) [OF that] assms(2,3) by auto
  have real: "pf_real \<lparr>pf_fd = ch_fd ch, pf_events = ucast ev, pf_revents = 0\<rparr> = ch_fd ch"
    using w(1) [OF assms(2)] by (simp add: pf_real_def)
  show ?thesis
    unfolding pp_inv_def
  proof (intro conjI allI impI)
    fix d ch1 assume "pp_heap s' d = Some ch1"
    then show "0 \<le> ch_fd ch1" "ch_events ch1 < 2 ^ 15"
      using w(1) assms(2,6) by (auto simp: s' split: if_splits)
  next
    fix n d assume d: "pp_channels s' n = Some d"
    show "\<exists>ch i. pp_heap s' d = Some ch \<and> ch_fd ch = n \<and> ch_index ch = int i \<and> i < length (pp_pollfds s') \<and>
      pf_for ch (pp_pollfds s' ! i)"
    proof (cases "n = ch_fd ch")
      case True
      then show ?thesis using d assms(5) by (auto simp: s' pf_for_def)
    next
      case False
      then have d: "pp_channels s n = Some d" using d by (simp add: s')
      show ?thesis using w(2) [OF d] nc [OF d] by (fastforce simp: s' nth_append)
    qed
  next
    fix i assume i: "i < length (pp_pollfds s')"
    show "\<exists>d ch1. pp_channels s' (pf_real (pp_pollfds s' ! i)) = Some d \<and> pp_heap s' d = Some ch1 \<and> ch_index ch1 = int i"
    proof (cases "i < length (pp_pollfds s)")
      case True
      obtain d ch1 where d: "pp_channels s (pf_real (pp_pollfds s ! i)) = Some d" "pp_heap s d = Some ch1" "ch_index ch1 = int i"
        using w(3) [OF True] by blast
      have "pf_real (pp_pollfds s ! i) \<noteq> ch_fd ch" using d(1) assms(4) by auto
      then show ?thesis using d nc [OF d(1)] True by (simp add: s' nth_append)
    next
      case False
      then have "i = length (pp_pollfds s)" using i by (simp add: s')
      then show ?thesis using real by (simp add: s')
    qed
  qed
qed

text \<open>A place in the array belongs to one channel.\<close>

lemma pp_index_unique:
  assumes "pp_inv s" and "pp_channels s n = Some c" "pp_heap s c = Some ch" "ch_index ch = int i"
    and "pp_channels s m = Some d" "pp_heap s d = Some ch'" "ch_index ch' = int i"
  shows "d = c"
proof -
  note w = pp_invD [OF assms(1)]
  have c: "ch_fd ch = n" "pf_for ch (pp_pollfds s ! i)" using w(2) [OF assms(2)] assms(3,4) by auto
  have d: "ch_fd ch' = m" "pf_for ch' (pp_pollfds s ! i)" using w(2) [OF assms(5)] assms(6,7) by auto
  have "n = m" using pf_for_real [OF c(2)] pf_for_real [OF d(2)] w(1) assms(3,6) c(1) d(1) by auto
  then show ?thesis using assms(2,5) by simp
qed

lemma pp_inv_set:
  assumes "pp_inv s" and "pp_channels s (ch_fd ch) = Some c" and c: "pp_heap s c = Some ch" "ch_index ch = int i"
      "i < length (pp_pollfds s)"
    and "ch_fd ch' = ch_fd ch" "ch_index ch' = int i" "ch_events ch' < 2 ^ 15" and "pf_for ch' p"
    and s': "s' = s\<lparr>pp_heap := (pp_heap s)(c \<mapsto> ch'), pp_pollfds := (pp_pollfds s)[i := p]\<rparr>"
  shows "pp_inv s'"
proof -
  note w = pp_invD [OF assms(1)]
  show ?thesis
    unfolding pp_inv_def
  proof (intro conjI allI impI)
    fix d ch1 assume "pp_heap s' d = Some ch1"
    then show "0 \<le> ch_fd ch1" "ch_events ch1 < 2 ^ 15"
      using w(1) c(1) assms(6,8) by (auto simp: s' split: if_splits)
  next
    fix n d assume d: "pp_channels s' n = Some d"
    then have d': "pp_channels s n = Some d" by (simp add: s')
    obtain chd j where j: "pp_heap s d = Some chd" "ch_fd chd = n" "ch_index chd = int j" "j < length (pp_pollfds s)"
        "pf_for chd (pp_pollfds s ! j)"
      using w(2) [OF d'] by blast
    show "\<exists>ch i. pp_heap s' d = Some ch \<and> ch_fd ch = n \<and> ch_index ch = int i \<and> i < length (pp_pollfds s') \<and>
      pf_for ch (pp_pollfds s' ! i)"
    proof (cases "d = c")
      case True
      then show ?thesis using j c assms(6,7,9) by (auto simp: s')
    next
      case False
      then have "j \<noteq> i" using pp_index_unique [OF assms(1,2) c(1,2) d' j(1)] j(3) by blast
      then show ?thesis using j False by (auto simp: s')
    qed
  next
    fix j assume "j < length (pp_pollfds s')"
    then have j: "j < length (pp_pollfds s)" by (simp add: s')
    obtain d chd where d: "pp_channels s (pf_real (pp_pollfds s ! j)) = Some d" "pp_heap s d = Some chd" "ch_index chd = int j"
      using w(3) [OF j] by blast
    show "\<exists>d ch1. pp_channels s' (pf_real (pp_pollfds s' ! j)) = Some d \<and> pp_heap s' d = Some ch1 \<and> ch_index ch1 = int j"
    proof (cases "j = i")
      case True
      have "pf_real p = ch_fd ch" using pf_for_real [OF assms(9)] assms(6) w(1) [OF c(1)] by simp
      then show ?thesis using True j assms(2,7) by (simp add: s')
    next
      case False
      then have "d \<noteq> c" using d(2,3) c(1,2) by auto
      then show ?thesis using d False by (simp add: s')
    qed
  qed
qed

text \<open>Removal: the last entry moves to the place of the removed one.\<close>

lemma pp_inv_remove:
  assumes inv: "pp_inv s" and "pp_channels s (ch_fd ch) = Some c" and c: "pp_heap s c = Some ch" "ch_index ch = int i"
      "i < length (pp_pollfds s)"
    and e: "e = last (pp_pollfds s)" "pp_channels s (pf_real e) = Some d" "pp_heap s d = Some chd"
    and s': "s' = s\<lparr>pp_channels := (pp_channels s)(ch_fd ch := None),
        pp_heap := (pp_heap s)(d \<mapsto> chd\<lparr>ch_index := int i\<rparr>),
        pp_pollfds := butlast ((pp_pollfds s)[i := e])\<rparr>"
  shows "pp_inv s'"
proof -
  note w = pp_invD [OF inv]
  let ?fds = "pp_pollfds s" and ?l = "length (pp_pollfds s) - 1"
  have l: "?l < length ?fds" "e = ?fds ! ?l" using c(3) e(1) last_conv_nth [of ?fds] by force+
  have dl: "ch_index chd = int ?l" "pf_for chd e" "ch_fd chd = pf_real e"
    using w(2) [OF e(2)] w(3) [OF l(1)] e(2,3) l(2) by auto
  have cd: "c = d" if "i = ?l" using that pp_index_unique [OF inv assms(2) c(1,2) e(2,3)] dl(1) by simp
  have fds': "length (pp_pollfds s') = ?l" "\<And>j. j < ?l \<Longrightarrow> pp_pollfds s' ! j = (if j = i then e else ?fds ! j)"
    using c(3) by (auto simp: s' nth_butlast nth_list_update)
  show ?thesis
    unfolding pp_inv_def
  proof (intro conjI allI impI)
    fix b ch1 assume "pp_heap s' b = Some ch1"
    then show "0 \<le> ch_fd ch1" "ch_events ch1 < 2 ^ 15"
      using w(1) e(3) by (auto simp: s' split: if_splits)
  next
    fix n b assume b: "pp_channels s' n = Some b"
    then have n: "n \<noteq> ch_fd ch" and b': "pp_channels s n = Some b" by (auto simp: s' split: if_splits)
    obtain chb j where j: "pp_heap s b = Some chb" "ch_fd chb = n" "ch_index chb = int j" "j < length ?fds"
        "pf_for chb (?fds ! j)"
      using w(2) [OF b'] by blast
    have ji: "j \<noteq> i" using pp_index_unique [OF inv assms(2) c(1,2) b' j(1)] j(1,2,3) n c(1) by auto
    show "\<exists>ch i. pp_heap s' b = Some ch \<and> ch_fd ch = n \<and> ch_index ch = int i \<and> i < length (pp_pollfds s') \<and>
      pf_for ch (pp_pollfds s' ! i)"
    proof (cases "b = d")
      case True
      then have "j = ?l" using j(1,3) dl(1) e(3) by simp
      then have il: "i < ?l" using ji c(3) by simp
      have "pf_for (chd\<lparr>ch_index := int i\<rparr>) e" using dl(2) by (simp add: pf_for_def)
      then show ?thesis using True il j(1,2) e(3) fds' by (auto simp: s')
    next
      case False
      then have "j \<noteq> ?l" using pp_index_unique [OF inv e(2,3) dl(1) b' j(1)] j(3) by blast
      then have "j < ?l" using j(4) by simp
      then show ?thesis using False j ji fds' by (auto simp: s')
    qed
  next
    fix j assume "j < length (pp_pollfds s')"
    then have j: "j < ?l" "j < length ?fds" by (simp_all add: fds'(1))
    show "\<exists>b ch1. pp_channels s' (pf_real (pp_pollfds s' ! j)) = Some b \<and> pp_heap s' b = Some ch1 \<and> ch_index ch1 = int j"
    proof (cases "j = i")
      case True
      have "pf_real e \<noteq> ch_fd ch"
      proof
        assume "pf_real e = ch_fd ch"
        then have "d = c" using e(2) assms(2) by simp
        then show False using dl(1) c(1,2) e(3) j(1) True by simp
      qed
      then show ?thesis using True e(2) j(1) fds'(2) by (simp add: s')
    next
      case False
      obtain b chb where b: "pp_channels s (pf_real (?fds ! j)) = Some b" "pp_heap s b = Some chb" "ch_index chb = int j"
        using w(3) [OF j(2)] by blast
      have "pf_real (?fds ! j) \<noteq> ch_fd ch" using b c(1,2) assms(2) False by auto
      moreover have "b \<noteq> d" using b(2,3) e(3) dl(1) j(1) by auto
      ultimately show ?thesis using b False fds'(2) [OF j(1)] by (simp add: s')
    qed
  qed
qed

lemma ucast_events: "ev < 2 ^ 15 \<Longrightarrow> ucast (ucast (ev :: events) :: 16 word) = ev"
  by (simp add: word_less_nat_alt word_unat_eq_iff unsigned_ucast_eq unsigned_take_bit_eq take_bit_nat_eq_self)

lemma pp_phase_eq:
  assumes "pp_heap s' d = pp_heap s d" and "\<And>ch. pp_heap s d = Some ch \<Longrightarrow>
    pp_channels s' (ch_fd ch) = Some d \<longleftrightarrow> pp_channels s (ch_fd ch) = Some d"
  shows "pp_phase s' d = pp_phase s d"
  using assms by (auto simp: pp_phase_def split: option.split)

lemma pp_removeChannel_eq:
  assumes "pp_heap s c = Some ch" and "pp_channels s (ch_fd ch) = Some c" and "ch_index ch = int i"
    and "i < length (pp_pollfds s)" and "pf_for ch (pp_pollfds s ! i)" and "ch_events ch = 0"
  shows "pp_call c Remove s =
    (let s' = s\<lparr>pp_channels := (pp_channels s)(ch_fd ch := None)\<rparr>; e = last (pp_pollfds s) in
     if i = length (pp_pollfds s) - 1 then Inr (s'\<lparr>pp_pollfds := butlast (pp_pollfds s)\<rparr>)
     else case pp_channels s' (pf_real e) of None \<Rightarrow> Inl OutOfBounds
       | Some d \<Rightarrow> bind_res (heap_at (pp_heap s) d) (\<lambda>chd.
           Inr (s'\<lparr>pp_heap := (pp_heap s)(d \<mapsto> chd\<lparr>ch_index := int i\<rparr>),
                   pp_pollfds := butlast ((pp_pollfds s)[i := e, length (pp_pollfds s) - 1 := pp_pollfds s ! i])\<rparr>)))"
  using assms
  by (simp add: pp_call_def heap_at_def pp_removeChannel_def isNoneEvent_def kNoneEvent_def Let_def
      pf_for_def pf_real_def cong: option.case_cong split: option.split)

lemma pp_call_ok:
  assumes inv: "pp_inv s" and p: "next_phase (pp_phase s c) k = Some p"
    and free: "pp_phase s c = Fresh \<longrightarrow> fd_free (pp_fd s) (pp_phase s) c"
  shows "\<exists>s'. pp_call c k s = Inr s' \<and> pp_inv s' \<and> pp_fd s' = pp_fd s \<and>
    (pp_phase s' c = p \<or> p = Gone \<and> pp_phase s' c = Fresh) \<and> (\<forall>d. d \<noteq> c \<longrightarrow> pp_phase s' d = pp_phase s d)"
proof -
  note w = pp_invD [OF inv]
  obtain ch where ch: "pp_heap s c = Some ch" using p by (cases "pp_heap s c") (auto simp: pp_phase_def)
  have fd0: "0 \<le> ch_fd ch" using w(1) [OF ch] by simp
  show ?thesis
  proof (cases "ch_index ch < 0")
    case True
    then have fresh: "pp_phase s c = Fresh" using ch by (simp add: pp_phase_def)
    then obtain ev where k: "k = Update ev" "ev \<noteq> 0" "ev < 2 ^ 15" "p = Watched ev"
      using p by (cases k) (auto split: if_splits)
    have none: "pp_channels s (ch_fd ch) = None"
    proof (rule ccontr)
      assume "\<not> ?thesis"
      then obtain d where d: "pp_channels s (ch_fd ch) = Some d" by auto
      then obtain ch1 i where ch1: "pp_heap s d = Some ch1" "ch_fd ch1 = ch_fd ch" "ch_index ch1 = int i"
        using w(2) by blast
      then have "pp_phase s d \<noteq> Fresh" "pp_phase s d \<noteq> Gone" "pp_fd s d = pp_fd s c"
        using d ch by (auto simp: pp_phase_def pp_fd_def)
      then show False using free fresh by (auto simp: fd_free_def)
    qed
    let ?s = "s\<lparr>pp_pollfds := pp_pollfds s @ [\<lparr>pf_fd = ch_fd ch, pf_events = ucast ev, pf_revents = 0\<rparr>],
      pp_heap := (pp_heap s)(c \<mapsto> ch\<lparr>ch_events := ev, ch_index := int (length (pp_pollfds s))\<rparr>),
      pp_channels := (pp_channels s)(ch_fd ch \<mapsto> c)\<rparr>"
    have "pp_inv ?s" using pp_inv_add [OF inv ch True none k(2,3) refl] .
    moreover have "pp_call c k s = Inr ?s"
      using ch True none k(1) by (simp add: pp_call_def heap_at_def pp_updateChannel_def Let_def)
    moreover have "pp_phase ?s d = pp_phase s d" if "d \<noteq> c" for d
      using that none by (intro pp_phase_eq) auto
    moreover have "pp_fd ?s = pp_fd s" "pp_phase ?s c = Watched ev"
      using ch k(2) by (auto simp: pp_fd_def pp_phase_def fun_eq_iff)
    ultimately show ?thesis using k(4) by blast
  next
    case False
    then have chan: "pp_channels s (ch_fd ch) = Some c" using p ch by (auto simp: pp_phase_def split: if_splits)
    then obtain i where i: "ch_index ch = int i" "i < length (pp_pollfds s)" "pf_for ch (pp_pollfds s ! i)"
      using w(2) ch by force
    show ?thesis
    proof (cases "ch_events ch = 0")
      case False
      then have "pp_phase s c = Watched (ch_events ch)" using ch chan i(1) by (simp add: pp_phase_def)
      then obtain ev where k: "k = Update ev" "ev < 2 ^ 15" "p = (if ev = 0 then Ignored else Watched ev)"
        using p by (cases k) (auto split: if_splits)
      let ?p = "(pp_pollfds s ! i)\<lparr>pf_events := ucast ev, pf_revents := 0,
        pf_fd := (if ev = 0 then - ch_fd ch - 1 else ch_fd ch)\<rparr>"
      let ?s = "s\<lparr>pp_heap := (pp_heap s)(c \<mapsto> ch\<lparr>ch_events := ev\<rparr>), pp_pollfds := (pp_pollfds s)[i := ?p]\<rparr>"
      have pf: "pf_fd (pp_pollfds s ! i) = ch_fd ch" using i(3) False by (simp add: pf_for_def)
      have same: "(pp_pollfds s ! i)\<lparr>pf_events := a, pf_revents := b, pf_fd := ch_fd ch\<rparr>
          = (pp_pollfds s ! i)\<lparr>pf_events := a, pf_revents := b\<rparr>" for a b
        using pf by (cases "pp_pollfds s ! i") simp
      have "pp_inv ?s"
        by (rule pp_inv_set [OF inv chan ch i(1,2), of "ch\<lparr>ch_events := ev\<rparr>" ?p])
          (use i(1) k(2) in \<open>simp_all add: pf_for_def\<close>)
      moreover have "pp_call c k s = Inr ?s"
        using ch chan i pf k(1)
        by (simp add: pp_call_def heap_at_def pp_updateChannel_def isNoneEvent_def kNoneEvent_def Let_def same)
      moreover have "pp_phase ?s d = pp_phase s d" if "d \<noteq> c" for d
        using that by (intro pp_phase_eq) auto
      moreover have "pp_fd ?s = pp_fd s" "pp_phase ?s c = p"
        using ch chan i(1) k(3) by (auto simp: pp_fd_def pp_phase_def fun_eq_iff)
      ultimately show ?thesis by blast
    next
      case True
      then have "pp_phase s c = Ignored" using ch chan i(1) by (simp add: pp_phase_def)
      then have k: "k = Remove" "p = Gone" using p by (cases k; auto)+
      define e where "e = last (pp_pollfds s)"
      let ?l = "length (pp_pollfds s) - 1"
      have l: "?l < length (pp_pollfds s)" "e = pp_pollfds s ! ?l"
        using i(2) last_conv_nth [of "pp_pollfds s"] by (force simp: e_def)+
      obtain d chd where d: "pp_channels s (pf_real e) = Some d" "pp_heap s d = Some chd" "ch_index chd = int ?l"
        using w(3) [OF l(1)] l(2) by auto
      define s' where "s' = s\<lparr>pp_channels := (pp_channels s)(ch_fd ch := None),
          pp_heap := (pp_heap s)(d \<mapsto> chd\<lparr>ch_index := int i\<rparr>), pp_pollfds := butlast ((pp_pollfds s)[i := e])\<rparr>"
      have inv': "pp_inv s'"
        by (rule pp_inv_remove [OF inv chan ch i(1,2) e_def d(1,2) s'_def])
      have cd: "c = d" if "i = ?l" using pp_index_unique [OF inv chan ch i(1) d(1,2)] d(3) that by simp
      have call: "pp_call c k s = Inr s'"
      proof (cases "i = ?l")
        case last: True
        then have "chd = ch" "chd\<lparr>ch_index := int i\<rparr> = ch" using cd ch d(2) i(1) by auto
        then have "(pp_heap s)(d \<mapsto> chd\<lparr>ch_index := int i\<rparr>) = pp_heap s" using cd [OF last] ch by (simp add: fun_upd_idem)
        moreover have "(pp_pollfds s)[i := e] = pp_pollfds s" using l last by simp
        ultimately show ?thesis
          unfolding k(1) pp_removeChannel_eq [OF ch chan i True] Let_def if_P [OF last] by (simp add: s'_def)
      next
        case other: False
        have "d \<noteq> c" using other d(2,3) ch i(1) by auto
        then have real: "pf_real e \<noteq> ch_fd ch" using d(1) chan by auto
        have swap: "butlast ((pp_pollfds s)[i := e, ?l := pp_pollfds s ! i]) = butlast ((pp_pollfds s)[i := e])"
          by (simp add: butlast_list_update)
        show ?thesis
          using real d(1,2) swap
          unfolding k(1) pp_removeChannel_eq [OF ch chan i True] e_def [symmetric] Let_def if_not_P [OF other]
          by (simp add: s'_def heap_at_def)
      qed
      have "pp_fd s' = pp_fd s" using d(2) by (auto simp: s'_def pp_fd_def fun_eq_iff)
      moreover have "pp_phase s' c = Gone"
        using ch d(2) i(1) by (auto simp: s'_def pp_phase_def)
      moreover have "pp_phase s' b = pp_phase s b" if "b \<noteq> c" for b
      proof (cases "b = d")
        case True
        have "ch_fd chd \<noteq> ch_fd ch" using w(2) [OF d(1)] d(1,2) chan that True by auto
        then show ?thesis using True d(2,3) by (simp add: s'_def pp_phase_def)
      next
        case False
        then show ?thesis using that chan by (intro pp_phase_eq) (auto simp: s'_def)
      qed
      ultimately show ?thesis using call inv' k(2) by blast
    qed
  qed
qed

lemma pp_revents_inv:
  assumes "pp_inv s" and "length fds = length (pp_pollfds s)"
    and "\<And>i. i < length fds \<Longrightarrow> pf_fd (fds ! i) = pf_fd (pp_pollfds s ! i) \<and> pf_events (fds ! i) = pf_events (pp_pollfds s ! i)"
  shows "pp_inv (s\<lparr>pp_pollfds := fds\<rparr>)"
proof -
  have "pf_for ch (fds ! i) = pf_for ch (pp_pollfds s ! i)" "pf_real (fds ! i) = pf_real (pp_pollfds s ! i)"
    if "i < length fds" for ch i
    using assms(3) [OF that] by (simp_all add: pf_for_def pf_real_def)
  then show ?thesis using assms(1,2) by (simp add: pp_inv_def) metis
qed

lemma pp_ch_revents_inv:
  assumes "pp_inv s" and "pp_heap s c = Some ch"
  shows "pp_inv (s\<lparr>pp_heap := (pp_heap s)(c \<mapsto> ch\<lparr>ch_revents := r\<rparr>)\<rparr>)"
    and "pp_phase (s\<lparr>pp_heap := (pp_heap s)(c \<mapsto> ch\<lparr>ch_revents := r\<rparr>)\<rparr>) = pp_phase s"
    and "pp_fd (s\<lparr>pp_heap := (pp_heap s)(c \<mapsto> ch\<lparr>ch_revents := r\<rparr>)\<rparr>) = pp_fd s"
proof -
  let ?s = "s\<lparr>pp_heap := (pp_heap s)(c \<mapsto> ch\<lparr>ch_revents := r\<rparr>)\<rparr>"
  have pf: "pf_for (ch\<lparr>ch_revents := r\<rparr>) p = pf_for ch p" for p by (simp add: pf_for_def)
  note w = pp_invD [OF assms(1)]
  show "pp_inv ?s"
    unfolding pp_inv_def
  proof (intro conjI allI impI)
    fix d ch1 assume "pp_heap ?s d = Some ch1"
    then show "0 \<le> ch_fd ch1" "ch_events ch1 < 2 ^ 15" using w(1) assms(2) by (auto split: if_splits)
  next
    fix n d assume "pp_channels ?s n = Some d"
    then show "\<exists>ch i. pp_heap ?s d = Some ch \<and> ch_fd ch = n \<and> ch_index ch = int i \<and> i < length (pp_pollfds ?s) \<and>
      pf_for ch (pp_pollfds ?s ! i)"
      using w(2) [of n d] assms(2) by (cases "d = c") (auto simp: pf)
  next
    fix i assume "i < length (pp_pollfds ?s)"
    then obtain d ch1 where "pp_channels s (pf_real (pp_pollfds s ! i)) = Some d" "pp_heap s d = Some ch1" "ch_index ch1 = int i"
      using w(3) [of i] by auto
    then show "\<exists>c ch. pp_channels ?s (pf_real (pp_pollfds ?s ! i)) = Some c \<and> pp_heap ?s c = Some ch \<and> ch_index ch = int i"
      using assms(2) by (cases "d = c") auto
  qed
qed (use assms(2) in \<open>auto simp: pp_phase_def pp_fd_def fun_eq_iff split: option.split\<close>)

text \<open>The loop over the array finds the entries with events, as many as \<open>poll\<close> has counted.\<close>

lemma pp_fill_ok:
  assumes "pp_inv s" and "\<And>p. p \<in> set pfds \<Longrightarrow> pf_revents p \<noteq> 0 \<Longrightarrow>
      0 <s pf_revents p \<and> (\<exists>c. pp_channels s (pf_fd p) = Some c)"
    and "numEvents = length (filter (\<lambda>p. pf_revents p \<noteq> 0) pfds)"
  shows "\<exists>s'. pp_fill pfds numEvents s =
      Inr (map (\<lambda>p. (the (pp_channels s (pf_fd p)), scast (pf_revents p))) (filter (\<lambda>p. pf_revents p \<noteq> 0) pfds), s') \<and>
    pp_inv s' \<and> pp_phase s' = pp_phase s \<and> pp_fd s' = pp_fd s"
  using assms
proof (induction pfds arbitrary: s numEvents)
  case Nil
  then show ?case by simp
next
  case (Cons p pfds)
  show ?case
  proof (cases "pf_revents p = 0")
    case True
    then have "\<not> 0 <s pf_revents p" by simp
    moreover have none: "map f (filter (\<lambda>p. pf_revents p \<noteq> 0) pfds) = []" if "numEvents = 0" for f :: "pollfd \<Rightarrow> obj \<times> events"
      using that True Cons.prems(3) by simp
    moreover obtain s' where "pp_fill pfds numEvents s =
        Inr (map (\<lambda>p. (the (pp_channels s (pf_fd p)), scast (pf_revents p))) (filter (\<lambda>p. pf_revents p \<noteq> 0) pfds), s')"
        "pp_inv s'" "pp_phase s' = pp_phase s" "pp_fd s' = pp_fd s"
      using Cons.IH [OF Cons.prems(1), of numEvents] Cons.prems(2,3) True by auto
    ultimately show ?thesis using True Cons.prems(1) by (cases "numEvents = 0") auto
  next
    case False
    then obtain c where c: "0 <s pf_revents p" "pp_channels s (pf_fd p) = Some c" using Cons.prems(2) [of p] by auto
    obtain ch where ch: "pp_heap s c = Some ch" "ch_fd ch = pf_fd p" using pp_invD(2) [OF Cons.prems(1) c(2)] by blast
    let ?s = "s\<lparr>pp_heap := (pp_heap s)(c \<mapsto> ch\<lparr>ch_revents := scast (pf_revents p)\<rparr>)\<rparr>"
    note s1 = pp_ch_revents_inv [OF Cons.prems(1) ch(1), of "scast (pf_revents p)"]
    obtain s' where s': "pp_fill pfds (numEvents - 1) ?s =
        Inr (map (\<lambda>p. (the (pp_channels s (pf_fd p)), scast (pf_revents p))) (filter (\<lambda>p. pf_revents p \<noteq> 0) pfds), s')"
        "pp_inv s'" "pp_phase s' = pp_phase ?s" "pp_fd s' = pp_fd ?s"
      using Cons.IH [OF s1(1), of "numEvents - 1"] Cons.prems(2,3) False by auto
    have "numEvents > 0" using Cons.prems(3) False by simp
    then show ?thesis using s' s1(2,3) c ch False by (simp add: heap_at_def)
  qed
qed

text \<open>An entry with a descriptor is the entry of the watched channel of that descriptor.\<close>

lemma pp_entry:
  assumes "pp_inv s" and "p \<in> set (pp_pollfds s)" and "0 \<le> pf_fd p"
  shows "\<exists>c ch. pp_channels s (pf_fd p) = Some c \<and> pp_heap s c = Some ch \<and> ch_fd ch = pf_fd p \<and>
    pp_phase s c = Watched (ch_events ch) \<and> pf_events p = ucast (ch_events ch)"
proof -
  note w = pp_invD [OF assms(1)]
  obtain i where i: "i < length (pp_pollfds s)" "pp_pollfds s ! i = p" using assms(2) by (auto simp: in_set_conv_nth)
  have real: "pf_real p = pf_fd p" using assms(3) by (simp add: pf_real_def)
  obtain c ch where c: "pp_channels s (pf_fd p) = Some c" "pp_heap s c = Some ch" "ch_index ch = int i"
    using w(3) [OF i(1)] i(2) real by auto
  have "ch_fd ch = pf_fd p" "pf_for ch p" using w(2) [OF c(1)] c(2,3) i(2) by auto
  moreover have "ch_events ch \<noteq> 0"
  proof
    assume "ch_events ch = 0"
    then have "pf_fd p = - ch_fd ch - 1" using calculation(2) by (simp add: pf_for_def)
    then show False using assms(3) w(1) [OF c(2)] by simp
  qed
  ultimately show ?thesis using c by (auto simp: pf_for_def pp_phase_def)
qed

lemma pp_watched_entry:
  assumes "pp_inv s" and "pp_phase s c = Watched ev"
  shows "\<exists>p \<in> set (pp_pollfds s). pf_fd p = pp_fd s c \<and> 0 \<le> pp_fd s c"
proof -
  note w = pp_invD [OF assms(1)]
  obtain ch where ch: "pp_heap s c = Some ch" "pp_channels s (ch_fd ch) = Some c" "ch_events ch \<noteq> 0"
    using assms(2) by (auto simp: pp_phase_def split: option.splits if_splits)
  then obtain i where "i < length (pp_pollfds s)" "pf_for ch (pp_pollfds s ! i)" using w(2) [OF ch(2)] by auto
  then show ?thesis using ch w(1) [OF ch(1)] by (auto simp: pf_for_def pp_fd_def intro!: bexI [of _ "pp_pollfds s ! i"])
qed

lemma pp_interest_iff:
  assumes "pp_inv s"
  shows "pp_interest s n = Some (c, ev) \<longleftrightarrow> pp_phase s c = Watched ev \<and> pp_fd s c = n"
proof
  assume "pp_interest s n = Some (c, ev)"
  then obtain p where p: "find (\<lambda>p. pf_fd p = n \<and> 0 \<le> n) (pp_pollfds s) = Some p" "pp_channels s n = Some c" "ev = ucast (pf_events p)"
    by (auto simp: pp_interest_def split: option.splits)
  then have "p \<in> set (pp_pollfds s)" "pf_fd p = n" "0 \<le> n" by (auto simp: find_Some_iff)
  then obtain ch where ch: "pp_heap s c = Some ch" "ch_fd ch = n" "pp_phase s c = Watched (ch_events ch)"
      "pf_events p = ucast (ch_events ch)"
    using pp_entry [OF assms, of p] p(2) by auto
  moreover have "ch_events ch < 2 ^ 15" using pp_invD(1) [OF assms ch(1)] by simp
  ultimately show "pp_phase s c = Watched ev \<and> pp_fd s c = n" using p(3) by (simp add: ucast_events pp_fd_def)
next
  assume *: "pp_phase s c = Watched ev \<and> pp_fd s c = n"
  then obtain p0 where "p0 \<in> set (pp_pollfds s)" "pf_fd p0 = n" "0 \<le> n" using pp_watched_entry [OF assms] by blast
  then have "find (\<lambda>p. pf_fd p = n \<and> 0 \<le> n) (pp_pollfds s) \<noteq> None" by (auto simp: find_None_iff)
  then obtain p where p: "find (\<lambda>p. pf_fd p = n \<and> 0 \<le> n) (pp_pollfds s) = Some p" by blast
  then have p': "p \<in> set (pp_pollfds s)" "pf_fd p = n" "0 \<le> n" by (auto simp: find_Some_iff)
  obtain ch where ch: "pp_heap s c = Some ch" "ch_fd ch = n" "pp_channels s n = Some c" "ch_events ch = ev"
    using * by (auto simp: pp_phase_def pp_fd_def split: option.splits if_splits)
  then have "pf_events p = ucast ev" using pp_entry [OF assms p'(1)] p' by auto
  moreover have "ev < 2 ^ 15" using pp_invD(1) [OF assms ch(1)] ch(4) by simp
  ultimately show "pp_interest s n = Some (c, ev)" using p ch(3) by (simp add: pp_interest_def ucast_events)
qed

lemma pp_real_distinct:
  assumes "pp_inv s"
  shows "distinct (map pf_real (pp_pollfds s))"
proof -
  have "i = j" if "i < length (pp_pollfds s)" "j < length (pp_pollfds s)"
    "pf_real (pp_pollfds s ! i) = pf_real (pp_pollfds s ! j)" for i j
    using pp_invD(3) [OF assms that(1)] pp_invD(3) [OF assms that(2)] that(3) by auto
  then show ?thesis by (auto simp: distinct_conv_nth)
qed

lemma ucast_revents:
  assumes "0 < r" and "(r :: events) < 2 ^ 15"
  shows "0 <s (ucast r :: 16 word)" and "scast (ucast r :: 16 word) = r" and "(ucast r :: 16 word) \<noteq> 0"
proof -
  have u: "uint (ucast r :: 16 word) = uint r"
    using assms(2) by (simp add: unsigned_ucast_eq unsigned_take_bit_eq word_less_def take_bit_int_eq_self)
  have s: "sint (ucast r :: 16 word) = uint r"
  proof -
    have "uint r < 2 ^ 15" using assms(2) by (simp add: word_less_def)
    moreover have "- (2 ^ 15) \<le> uint r" by (rule order_trans [OF _ uint_ge_0]) simp
    ultimately have "signed_take_bit 15 (uint r) = uint r" by (intro signed_take_bit_int_eq_self)
    then show ?thesis using u by (simp add: sint_uint)
  qed
  have pos: "0 < uint r" using assms(1) by (simp add: word_less_def)
  show "0 <s (ucast r :: 16 word)" using s pos by (simp add: word_sless_alt)
  show "scast (ucast r :: 16 word) = r" using s by (simp add: scast_eq)
  show "(ucast r :: 16 word) \<noteq> 0" using s pos by auto
qed

lemma pp_poll_ok:
  assumes inv: "pp_inv s" and dist: "distinct (map fst R)"
    and rep: "\<And>n r. (n, r) \<in> set R \<Longrightarrow> pp_interest s n \<noteq> None \<and> 0 < r \<and> r < 2 ^ 15"
  shows "\<exists>cs s'. pp_poll R s = Inr (cs, s') \<and> pp_inv s' \<and> pp_phase s' = pp_phase s \<and> pp_fd s' = pp_fd s \<and>
    distinct (map fst cs) \<and> set (map (\<lambda>(c, r). (pp_fd s c, r)) cs) = set R"
proof -
  define fds where "fds = sys_poll R (pp_pollfds s)"
  define s1 where "s1 = s\<lparr>pp_pollfds := fds\<rparr>"
  define ready where "ready = filter (\<lambda>p. pf_revents p \<noteq> 0) fds"
  define cs where "cs = map (\<lambda>p. (the (pp_channels s (pf_fd p)), scast (pf_revents p) :: events)) ready"
  have inv1: "pp_inv s1"
    unfolding s1_def by (rule pp_revents_inv [OF inv]) (simp_all add: fds_def sys_poll_def)
  have same: "pp_phase s1 = pp_phase s" "pp_fd s1 = pp_fd s" "pp_channels s1 = pp_channels s" "pp_pollfds s1 = fds"
    by (auto simp: s1_def pp_phase_def pp_fd_def fun_eq_iff split: option.split)
  have report: "0 \<le> pf_fd p \<and> (\<exists>r. (pf_fd p, r) \<in> set R \<and> pf_revents p = ucast r)"
    if "p \<in> set fds" "pf_revents p \<noteq> 0" for p
    using that by (auto simp: fds_def sys_poll_def split: if_splits option.splits) (blast dest: map_of_SomeD)
  have at: "\<exists>c r. pp_channels s (pf_fd p) = Some c \<and> pp_fd s c = pf_fd p \<and> (pf_fd p, r) \<in> set R \<and>
      0 <s pf_revents p \<and> scast (pf_revents p) = r"
    if p: "p \<in> set fds" "pf_revents p \<noteq> 0" for p
  proof -
    obtain r where r: "0 \<le> pf_fd p" "(pf_fd p, r) \<in> set R" "pf_revents p = ucast r" using report [OF p] by blast
    obtain c ch where "pp_channels s (pf_fd p) = Some c" "pp_heap s c = Some ch" "ch_fd ch = pf_fd p"
      using pp_entry [OF inv1, of p] p(1) r(1) same by (auto simp: s1_def)
    then show ?thesis using r rep [OF r(2)] ucast_revents [of r] by (auto simp: pp_fd_def)
  qed
  have "0 <s pf_revents p \<and> (\<exists>c. pp_channels s1 (pf_fd p) = Some c)" if "p \<in> set fds" "pf_revents p \<noteq> 0" for p
    using at [OF that] same(3) by auto
  then obtain s' where s': "pp_fill fds (length ready) s1 = Inr (cs, s')" "pp_inv s'" "pp_phase s' = pp_phase s1" "pp_fd s' = pp_fd s1"
    using pp_fill_ok [OF inv1, of fds "length ready"] by (auto simp: ready_def cs_def same(3))
  have "set (map (\<lambda>(c, r). (pp_fd s c, r)) cs) = set R"
  proof (intro equalityI subsetI)
    fix x assume "x \<in> set (map (\<lambda>(c, r). (pp_fd s c, r)) cs)"
    then obtain p where p: "p \<in> set fds" "pf_revents p \<noteq> 0"
        "x = (pp_fd s (the (pp_channels s (pf_fd p))), scast (pf_revents p))"
      by (auto simp: cs_def ready_def)
    then show "x \<in> set R" using at [OF p(1,2)] by auto
  next
    fix x assume x: "x \<in> set R"
    obtain n r where nr: "x = (n, r)" by fastforce
    obtain c ev where "pp_interest s n = Some (c, ev)" using rep [of n r] x nr by auto
    then have "pp_phase s c = Watched ev" "pp_fd s c = n" using pp_interest_iff [OF inv] by auto
    then obtain p0 where p0: "p0 \<in> set (pp_pollfds s)" "pf_fd p0 = n" "0 \<le> n" using pp_watched_entry [OF inv] by blast
    let ?p = "p0\<lparr>pf_revents := ucast r\<rparr>"
    have "map_of R n = Some r" using dist x nr by simp
    then have "?p \<in> set fds" using p0 by (force simp: fds_def sys_poll_def image_iff)
    moreover have nz: "pf_revents ?p \<noteq> 0" "scast (ucast r :: 16 word) = r" using ucast_revents rep [of n r] x nr by auto
    ultimately have "(the (pp_channels s n), r) \<in> set cs" "pp_fd s (the (pp_channels s n)) = n"
      using at [of ?p] p0(2) by (force simp: cs_def ready_def image_iff)+
    then show "x \<in> set (map (\<lambda>(c, r). (pp_fd s c, r)) cs)" using nr by force
  qed
  moreover have "distinct (map fst cs)"
  proof -
    have real: "pf_real p = pf_fd p \<and> pp_fd s (the (pp_channels s (pf_fd p))) = pf_fd p" if "p \<in> set ready" for p
      using that report at by (fastforce simp: ready_def pf_real_def)
    have "distinct (map pf_real ready)"
      using pp_real_distinct [OF inv1] by (auto simp: same(4) ready_def intro: distinct_map_filter)
    then have "inj_on pf_real (set ready)" "distinct ready" by (simp_all add: distinct_map)
    then have "inj_on (\<lambda>p. the (pp_channels s (pf_fd p))) (set ready)"
      using real unfolding inj_on_def by metis
    then show ?thesis using \<open>distinct ready\<close> by (simp add: cs_def distinct_map comp_def)
  qed
  moreover have "pp_poll R s = Inr (cs, if ready = [] then s1 else s')"
    using s'(1) by (simp add: pp_poll_def fds_def [symmetric] s1_def [symmetric] ready_def [symmetric] Let_def)
      (simp add: cs_def)
  ultimately show ?thesis using s'(2-4) same inv1 by (intro exI [of _ cs] exI [of _ "if ready = [] then s1 else s'"]) auto
qed

interpretation pollp: poller pp_inv pp_phase pp_fd pp_call pp_interest "\<lambda>s. length (pp_pollfds s)" pp_poll
proof unfold_locales
  show "pp_inv s \<Longrightarrow> next_phase (pp_phase s c) k = Some p \<Longrightarrow>
      (pp_phase s c = Fresh \<longrightarrow> fd_free (pp_fd s) (pp_phase s) c) \<Longrightarrow>
      \<exists>s'. pp_call c k s = Inr s' \<and> pp_inv s' \<and> pp_fd s' = pp_fd s \<and>
        (pp_phase s' c = p \<or> p = Gone \<and> pp_phase s' c = Fresh) \<and> (\<forall>d. d \<noteq> c \<longrightarrow> pp_phase s' d = pp_phase s d)"
    for s c k p by (rule pp_call_ok)
  show "pp_inv s \<Longrightarrow> (pp_interest s n = Some (c, ev)) = (pp_phase s c = Watched ev \<and> pp_fd s c = n)"
    for s n c ev by (rule pp_interest_iff)
qed (rule pp_poll_ok)

subsection \<open>Both pollers\<close>

definition fresh_channels :: "(obj \<Rightarrow> chan option) \<Rightarrow> bool" where
  "fresh_channels h \<longleftrightarrow> (\<forall>c ch. h c = Some ch \<longrightarrow> 0 \<le> ch_fd ch \<and> ch_index ch = - 1 \<and> ch_events ch = 0)"

definition heap_fd :: "(obj \<Rightarrow> chan option) \<Rightarrow> obj \<Rightarrow> int" where
  "heap_fd h c = (case h c of Some ch \<Rightarrow> ch_fd ch | None \<Rightarrow> - 1)"

definition heap_phase :: "(obj \<Rightarrow> chan option) \<Rightarrow> obj \<Rightarrow> phase" where
  "heap_phase h c = (if h c = None then Gone else Fresh)"

lemma pollers_new:
  assumes "fresh_channels h"
  shows "epoll.follows (EPollPoller_new h) (heap_phase h)" "ep_fd (EPollPoller_new h) = heap_fd h"
    "pollp.follows (PollPoller_new h) (heap_phase h)" "pp_fd (PollPoller_new h) = heap_fd h"
  using assms
  by (auto simp: epoll.follows_def pollp.follows_def EPollPoller_new_def PollPoller_new_def ep_inv_def pp_inv_def
      fresh_channels_def heap_phase_def heap_fd_def ep_phase_def pp_phase_def ep_fd_def pp_fd_def index_defs
      fun_eq_iff split: option.split)

lemma same_interest:
  fixes i j :: "int \<Rightarrow> (obj \<times> events) option"
  assumes "\<And>n c ev. i n = Some (c, ev) \<longleftrightarrow> P n c ev" and "\<And>n c ev. j n = Some (c, ev) \<longleftrightarrow> P n c ev"
  shows "i = j"
proof
  fix n
  have "i n = Some x \<longleftrightarrow> j n = Some x" for x using assms by (cases x) simp
  then show "i n = j n" by (metis option.exhaust)
qed

lemma pollers_agree:
  assumes "fresh_channels h" and "spec_calls (heap_fd h) (heap_phase h) ks = Some ph"
  shows "\<exists>e p. run_calls ep_call ks (EPollPoller_new h) = Inr e \<and> run_calls pp_call ks (PollPoller_new h) = Inr p \<and>
    ep_interest e = pp_interest p \<and>
    (\<forall>n c ev. ep_interest e n = Some (c, ev) \<longleftrightarrow> ph c = Watched ev \<and> heap_fd h c = n)"
proof -
  note new = pollers_new [OF assms(1)]
  obtain e where e: "run_calls ep_call ks (EPollPoller_new h) = Inr e" "epoll.follows e ph" "ep_fd e = heap_fd h"
    using epoll.calls_refine [OF new(1), unfolded new(2), OF assms(2)] by blast
  obtain p where p: "run_calls pp_call ks (PollPoller_new h) = Inr p" "pollp.follows p ph" "pp_fd p = heap_fd h"
    using pollp.calls_refine [OF new(3), unfolded new(4), OF assms(2)] by blast
  have ei: "ep_interest e n = Some (c, ev) \<longleftrightarrow> ph c = Watched ev \<and> heap_fd h c = n" for n c ev
    using epoll.follows_interest [OF e(2)] e(3) by simp
  have pi: "pp_interest p n = Some (c, ev) \<longleftrightarrow> ph c = Watched ev \<and> heap_fd h c = n" for n c ev
    using pollp.follows_interest [OF p(2)] p(3) by simp
  have "ep_interest e = pp_interest p" by (rule same_interest [OF ei pi])
  then show ?thesis using e(1) p(1) ei by blast
qed

text \<open>
  C16: both pollers keep the channels' promises: when every channel follows the protocol (it is first
  given events to watch, on a descriptor no other registered channel has; then changed at will; then
  switched off, and then removed), no assertion of either poller fails, whatever the order of the
  calls of the different channels, and both watch exactly the channels that are switched on, each
  with its latest events.
\<close>

theorem pollers_watch_same:
  assumes "fresh_channels h" and "spec_calls (heap_fd h) (heap_phase h) ks = Some ph"
  shows "\<exists>e p. run_calls ep_call ks (EPollPoller_new h) = Inr e \<and> run_calls pp_call ks (PollPoller_new h) = Inr p \<and>
    ep_interest e = pp_interest p \<and>
    (\<forall>n c ev. ep_interest e n = Some (c, ev) \<longleftrightarrow> ph c = Watched ev \<and> heap_fd h c = n)"
  by (rule pollers_agree [OF assms])

text \<open>Descriptor 5 is closed by its first channel and then reused by another one.\<close>

definition demo_channels :: "obj \<Rightarrow> chan option" where
  "demo_channels = [0 \<mapsto> Channel_new 5, 1 \<mapsto> Channel_new 5, 2 \<mapsto> Channel_new 7]"

definition demo_calls :: "(obj \<times> poll_call) list" where
  "demo_calls = [(0, Update 3), (2, Update 3), (2, Update 7), (0, Update 0), (0, Remove), (1, Update 3)]"

lemma demo_channels_fresh: "fresh_channels demo_channels"
  by (auto simp: fresh_channels_def demo_channels_def Channel_new_def split: if_splits)

lemma demo_calls_legal:
  "spec_calls (heap_fd demo_channels) (heap_phase demo_channels) demo_calls
     = Some ((heap_phase demo_channels)(0 := Gone, 1 := Watched 3, 2 := Watched 7))"
proof -
  have f: "heap_fd demo_channels = (\<lambda>c. if c = 0 \<or> c = 1 then 5 else if c = 2 then 7 else - 1)"
    by (simp add: heap_fd_def demo_channels_def Channel_new_def fun_eq_iff)
  have five: "heap_fd demo_channels d = heap_fd demo_channels 0 \<longleftrightarrow> d = 0 \<or> d = 1"
      "heap_fd demo_channels d = heap_fd demo_channels 1 \<longleftrightarrow> d = 0 \<or> d = 1"
    and seven: "heap_fd demo_channels d = heap_fd demo_channels 2 \<longleftrightarrow> d = 2" for d
    by (simp_all add: f)
  have p: "heap_phase demo_channels c = (if c = 0 \<or> c = 1 \<or> c = 2 then Fresh else Gone)" for c
    by (simp add: heap_phase_def demo_channels_def)
  have free5: "fd_free (heap_fd demo_channels) ph 0 = (ph 0 \<in> {Fresh, Gone} \<and> ph 1 \<in> {Fresh, Gone})"
    "fd_free (heap_fd demo_channels) ph 1 = (ph 0 \<in> {Fresh, Gone} \<and> ph 1 \<in> {Fresh, Gone})"
    "fd_free (heap_fd demo_channels) ph 2 = (ph 2 \<in> {Fresh, Gone})" for ph
    unfolding fd_free_def five seven by auto
  show ?thesis by (simp add: demo_calls_def p free5 free5 [unfolded One_nat_def] fun_eq_iff)
qed

theorem pollers_watch_same_witness:
  "\<exists>e p. run_calls ep_call demo_calls (EPollPoller_new demo_channels) = Inr e \<and>
     run_calls pp_call demo_calls (PollPoller_new demo_channels) = Inr p \<and>
     ep_interest e 5 = Some (1, 3) \<and> pp_interest p 5 = Some (1, 3) \<and> pp_interest p 7 = Some (2, 7)"
proof -
  obtain e p where "run_calls ep_call demo_calls (EPollPoller_new demo_channels) = Inr e"
      "run_calls pp_call demo_calls (PollPoller_new demo_channels) = Inr p" "ep_interest e = pp_interest p"
      "\<forall>n c ev. ep_interest e n = Some (c, ev) \<longleftrightarrow>
         ((heap_phase demo_channels)(0 := Gone, 1 := Watched 3, 2 := Watched 7)) c = Watched ev \<and> heap_fd demo_channels c = n"
    using pollers_watch_same [OF demo_channels_fresh demo_calls_legal] by blast
  then show ?thesis by (auto simp: heap_fd_def demo_channels_def Channel_new_def)
qed

text \<open>
  When the kernel reports events, each poller returns every reported descriptor's channel exactly
  once with exactly its events, and nothing about what is watched changes.
\<close>

theorem poll_returns_ready:
  assumes "ep_inv e" and "pp_inv p" and "distinct (map fst R)" and "length R \<le> ep_events_size e"
    and "\<And>n r. (n, r) \<in> set R \<Longrightarrow> ep_interest e n \<noteq> None \<and> pp_interest p n \<noteq> None \<and> 0 < r \<and> r < 2 ^ 15"
  shows "(\<exists>cs e'. ep_poll R e = Inr (cs, e') \<and> distinct (map fst cs) \<and>
      set (map (\<lambda>(c, r). (ep_fd e c, r)) cs) = set R \<and> ep_interest e' = ep_interest e) \<and>
    (\<exists>cs p'. pp_poll R p = Inr (cs, p') \<and> distinct (map fst cs) \<and>
      set (map (\<lambda>(c, r). (pp_fd p c, r)) cs) = set R \<and> pp_interest p' = pp_interest p)"
proof
  obtain cs e' where e: "ep_poll R e = Inr (cs, e')" "ep_inv e'" "ep_phase e' = ep_phase e" "ep_fd e' = ep_fd e"
      "distinct (map fst cs)" "set (map (\<lambda>(c, r). (ep_fd e c, r)) cs) = set R"
    using ep_poll_ok [OF assms(1,3,4)] assms(5) by blast
  have "ep_interest e' = ep_interest e"
    by (rule same_interest) (use ep_interest_iff [OF assms(1)] ep_interest_iff [OF e(2)] e(3,4) in simp_all)
  then show "\<exists>cs e'. ep_poll R e = Inr (cs, e') \<and> distinct (map fst cs) \<and>
      set (map (\<lambda>(c, r). (ep_fd e c, r)) cs) = set R \<and> ep_interest e' = ep_interest e"
    using e by blast
  obtain cs p' where p: "pp_poll R p = Inr (cs, p')" "pp_inv p'" "pp_phase p' = pp_phase p" "pp_fd p' = pp_fd p"
      "distinct (map fst cs)" "set (map (\<lambda>(c, r). (pp_fd p c, r)) cs) = set R"
    using pp_poll_ok [OF assms(2,3)] assms(5) by blast
  have "pp_interest p' = pp_interest p"
    by (rule same_interest) (use pp_interest_iff [OF assms(2)] pp_interest_iff [OF p(2)] p(3,4) in simp_all)
  then show "\<exists>cs p'. pp_poll R p = Inr (cs, p') \<and> distinct (map fst cs) \<and>
      set (map (\<lambda>(c, r). (pp_fd p c, r)) cs) = set R \<and> pp_interest p' = pp_interest p"
    using p by blast
qed

definition demo_epoller :: epoller where
  "demo_epoller = \<lparr>ep_heap = [0 \<mapsto> (Channel_new 5)\<lparr>ch_events := 3, ch_index := 1\<rparr>], ep_channels = [5 \<mapsto> 0],
     ep_kernel = [5 \<mapsto> (3, 0)], ep_events_size = 16\<rparr>"

definition demo_ppoller :: ppoller where
  "demo_ppoller = \<lparr>pp_heap = [0 \<mapsto> (Channel_new 5)\<lparr>ch_events := 3, ch_index := 0\<rparr>], pp_channels = [5 \<mapsto> 0],
     pp_pollfds = [\<lparr>pf_fd = 5, pf_events = 3, pf_revents = 0\<rparr>]\<rparr>"

theorem poll_returns_ready_witness:
  "(\<exists>cs e'. ep_poll [(5, 1)] demo_epoller = Inr (cs, e') \<and> map fst cs = [0]) \<and>
   (\<exists>cs p'. pp_poll [(5, 1)] demo_ppoller = Inr (cs, p') \<and> map fst cs = [0])"
proof -
  have ei: "ep_inv demo_epoller"
    by (auto simp: ep_inv_def demo_epoller_def Channel_new_def index_defs split: if_splits)
  have pi: "pp_inv demo_ppoller"
    by (auto simp: pp_inv_def demo_ppoller_def Channel_new_def pf_for_def pf_real_def split: if_splits)
  have "ep_fd demo_epoller c = 5 \<Longrightarrow> c = 0" "pp_fd demo_ppoller c = 5 \<Longrightarrow> c = 0" for c
    by (auto simp: ep_fd_def pp_fd_def demo_epoller_def demo_ppoller_def Channel_new_def split: if_splits)
  then have zero: "f c = 5 \<Longrightarrow> c = 0" if "f = ep_fd demo_epoller \<or> f = pp_fd demo_ppoller" for f c
    using that by auto
  have one: "map fst cs = [0]"
    if d: "distinct (map fst cs)" and r: "set (map (\<lambda>(c, r). (f c, r)) cs) = {(5, 1)}"
      and f: "f = ep_fd demo_epoller \<or> f = pp_fd demo_ppoller"
    for cs :: "(obj \<times> events) list" and f
  proof -
    have "fst x = 0" if x: "x \<in> set cs" for x
    proof -
      have "(f (fst x), snd x) \<in> {(5, 1)}" unfolding r [symmetric] using x by force
      then show ?thesis using zero [OF f] by simp
    qed
    moreover have "cs \<noteq> []" using r by auto
    ultimately have s: "set (map fst cs) = {0}" by (cases cs) auto
    then have "length (map fst cs) = 1" using distinct_card [OF d] by simp
    then show ?thesis using s by (cases "map fst cs") auto
  qed
  have "(\<exists>cs e'. ep_poll [(5, 1)] demo_epoller = Inr (cs, e') \<and> distinct (map fst cs) \<and>
      set (map (\<lambda>(c, r). (ep_fd demo_epoller c, r)) cs) = set [(5, 1)] \<and> ep_interest e' = ep_interest demo_epoller) \<and>
    (\<exists>cs p'. pp_poll [(5, 1)] demo_ppoller = Inr (cs, p') \<and> distinct (map fst cs) \<and>
      set (map (\<lambda>(c, r). (pp_fd demo_ppoller c, r)) cs) = set [(5, 1)] \<and> pp_interest p' = pp_interest demo_ppoller)"
    by (rule poll_returns_ready [OF ei pi])
      (auto simp: demo_epoller_def demo_ppoller_def ep_interest_def pp_interest_def word_less_nat_alt)
  then show ?thesis using one by (metis list.simps(15) set_empty)
qed

text \<open>
  Outside the protocol the two differ: a channel that is switched off and then on again is
  watched again by \<open>EPollPoller\<close>, but \<open>PollPoller\<close> leaves its descriptor negative and never reports
  it again.
\<close>

theorem PollPoller_forgets:
  "\<exists>e p. run_calls ep_call [(0, Update 3), (0, Update 0), (0, Update 3)] (EPollPoller_new [0 \<mapsto> Channel_new 5]) = Inr e \<and>
     run_calls pp_call [(0, Update 3), (0, Update 0), (0, Update 3)] (PollPoller_new [0 \<mapsto> Channel_new 5]) = Inr p \<and>
     ep_interest e 5 = Some (0, 3) \<and> pp_interest p 5 = None"
  by (simp add: ep_call_def pp_call_def ep_updateChannel_def pp_updateChannel_def ep_update_def ep_set_index_def
      epoll_ctl_def heap_at_def EPollPoller_new_def PollPoller_new_def Channel_new_def index_defs isNoneEvent_def
      kNoneEvent_def ep_interest_def pp_interest_def Let_def)

end
