(* ===== verification/TcpConnection.thy ===== *)
theory TcpConnection imports Pollers Buffer "HOL-Library.Sublist" begin

text \<open>
  \<open>muduo/net/TcpConnection\<close>: one connection, as its loop's thread works on it.  The socket is what
  \<open>write\<close>, \<open>readv\<close> and \<open>shutdown\<close> answer: \<open>tc_wire\<close> are the bytes the kernel has taken, \<open>tc_fin\<close> the
  same at the moment of \<open>shutdown(SHUT_WR)\<close>.  \<open>tc_taken\<close> is what was sent through the connection, message
  after message, and \<open>tc_calls\<close> are the calls of its channel on the poller.

  What the user's callbacks do with the connection is free: each event and functor comes with the
  actions its callback takes.  Other threads may send and shut down; that only queues functors.
\<close>

subsection \<open>State\<close>

datatype tc_state_e = kDisconnected | kConnecting | kConnected | kDisconnecting

datatype tc_functor = SendInLoop bytes | ShutdownInLoop | ConnectDestroyed | WriteComplete | HighWaterMark nat

datatype user_call = ConnectionCb bool | MessageCb | CloseCb

datatype write_error = EWOULDBLOCK | EPIPE | OtherErrno

datatype write_answer = Wrote nat | WriteErr write_error

datatype user_act = Send bytes write_answer | Shutdown | Consume nat

record tcpconn =
  tc_state :: tc_state_e
  tc_events :: events
  tc_calls :: "poll_call list"
  tc_inputBuffer :: buffer
  tc_outputBuffer :: buffer
  tc_highWaterMark :: nat
  tc_highWaterMarkCallback :: bool
  tc_writeCompleteCallback :: bool
  tc_functors :: "tc_functor list"
  tc_called :: "user_call list"
  tc_removed :: bool
  tc_wire :: bytes
  tc_fin :: "bytes option"
  tc_taken :: bytes

definition TcpConnection_new :: "bool \<Rightarrow> bool \<Rightarrow> nat \<Rightarrow> tcpconn" where
  "TcpConnection_new hwm_cb wc_cb hwm = \<lparr>tc_state = kConnecting, tc_events = 0, tc_calls = [],
     tc_inputBuffer = Buffer_new, tc_outputBuffer = Buffer_new, tc_highWaterMark = hwm,
     tc_highWaterMarkCallback = hwm_cb, tc_writeCompleteCallback = wc_cb, tc_functors = [], tc_called = [],
     tc_removed = False, tc_wire = [], tc_fin = None, tc_taken = []\<rparr>"

definition default_highWaterMark :: nat where
  "default_highWaterMark = 64 * 1024 * 1024"

text \<open>The channel's setters with \<open>update()\<close>, and its \<open>remove()\<close>.\<close>

definition set_events :: "events \<Rightarrow> tcpconn \<Rightarrow> tcpconn" where
  "set_events ev s = s\<lparr>tc_events := ev, tc_calls := tc_calls s @ [Update ev]\<rparr>"

definition channel_remove :: "tcpconn \<Rightarrow> tcpconn res" where
  "channel_remove s = assert_res (isNoneEvent (tc_events s)) (Inr (s\<lparr>tc_calls := tc_calls s @ [Remove]\<rparr>))"

definition queue_functor :: "tc_functor \<Rightarrow> tcpconn \<Rightarrow> tcpconn" where
  "queue_functor f s = s\<lparr>tc_functors := tc_functors s @ [f]\<rparr>"

definition call_user :: "user_call \<Rightarrow> tcpconn \<Rightarrow> tcpconn" where
  "call_user u s = s\<lparr>tc_called := tc_called s @ [u]\<rparr>"

subsection \<open>Sending\<close>

text \<open>\<open>write(2)\<close> takes at most the bytes it is given.\<close>

definition sendInLoop :: "write_answer \<Rightarrow> bytes \<Rightarrow> tcpconn \<Rightarrow> tcpconn res" where
  "sendInLoop answer data s =
     (let len = length data in
      if tc_state s = kDisconnected then Inr s
      else
        case (if \<not> isWriting (tc_events s) \<and> readableBytes (tc_outputBuffer s) = 0 then
                (case answer of
                   Wrote n \<Rightarrow>
                     (let nwrote = min n len;
                          remaining = len - nwrote;
                          s = s\<lparr>tc_wire := tc_wire s @ take nwrote data\<rparr>
                      in (nwrote, remaining, False,
                          if remaining = 0 \<and> tc_writeCompleteCallback s then queue_functor WriteComplete s else s))
                 | WriteErr e \<Rightarrow> (0, len, e \<noteq> EWOULDBLOCK \<and> e = EPIPE, s))
              else (0, len, False, s)) of
          (nwrote, remaining, error, s) \<Rightarrow>
            assert_res (remaining \<le> len)
            (let s = (if error then s else s\<lparr>tc_taken := tc_taken s @ data\<rparr>) in
             if \<not> error \<and> remaining > 0 then
               let oldLen = readableBytes (tc_outputBuffer s);
                   s = (if oldLen + remaining \<ge> tc_highWaterMark s \<and> oldLen < tc_highWaterMark s \<and>
                           tc_highWaterMarkCallback s
                        then queue_functor (HighWaterMark (oldLen + remaining)) s else s)
               in bind_res (Buffer_append (tc_outputBuffer s) (drop nwrote data)) (\<lambda>b.
                  let s = s\<lparr>tc_outputBuffer := b\<rparr> in
                  Inr (if \<not> isWriting (tc_events s) then set_events (enableWriting (tc_events s)) s else s))
             else Inr s))"

definition shutdownInLoop :: "tcpconn \<Rightarrow> tcpconn" where
  "shutdownInLoop s =
     (if \<not> isWriting (tc_events s)
      then (if tc_fin s = None then s\<lparr>tc_fin := Some (tc_wire s)\<rparr> else s) else s)"

text \<open>\<open>runInLoop\<close>: at once in the loop's own thread, queued otherwise.\<close>

definition tc_send :: "bool \<Rightarrow> write_answer \<Rightarrow> bytes \<Rightarrow> tcpconn \<Rightarrow> tcpconn res" where
  "tc_send isInLoopThread answer data s =
     (if tc_state s = kConnected
      then (if isInLoopThread then sendInLoop answer data s else Inr (queue_functor (SendInLoop data) s))
      else Inr s)"

definition tc_send_buffer :: "bool \<Rightarrow> write_answer \<Rightarrow> buffer \<Rightarrow> tcpconn \<Rightarrow> (buffer \<times> tcpconn) res" where
  "tc_send_buffer isInLoopThread answer buf s =
     (if tc_state s = kConnected
      then (if isInLoopThread
            then bind_res (sendInLoop answer (range_of buf (peek buf) (beginWrite buf)) s) (\<lambda>s. Inr (retrieveAll buf, s))
            else bind_res (retrieveAllAsString buf) (\<lambda>(data, buf). Inr (buf, queue_functor (SendInLoop data) s)))
      else Inr (buf, s))"

definition tc_shutdown :: "bool \<Rightarrow> tcpconn \<Rightarrow> tcpconn" where
  "tc_shutdown isInLoopThread s =
     (if tc_state s = kConnected
      then let s = s\<lparr>tc_state := kDisconnecting\<rparr> in
           if isInLoopThread then shutdownInLoop s else queue_functor ShutdownInLoop s
      else s)"

subsection \<open>User callbacks\<close>

text \<open>A callback never takes more out of the input buffer than there is.\<close>

fun user_do :: "user_act \<Rightarrow> tcpconn \<Rightarrow> tcpconn res" where
  "user_do (Send data answer) s = tc_send True answer data s"
| "user_do Shutdown s = Inr (tc_shutdown True s)"
| "user_do (Consume n) s =
     bind_res (retrieve (tc_inputBuffer s) (min n (readableBytes (tc_inputBuffer s)))) (\<lambda>b.
     Inr (s\<lparr>tc_inputBuffer := b\<rparr>))"

fun user_run :: "user_act list \<Rightarrow> tcpconn \<Rightarrow> tcpconn res" where
  "user_run [] s = Inr s"
| "user_run (a # as) s = bind_res (user_do a s) (user_run as)"

subsection \<open>Events\<close>

definition connectEstablished :: "user_act list \<Rightarrow> tcpconn \<Rightarrow> tcpconn res" where
  "connectEstablished on_connection s =
     assert_res (tc_state s = kConnecting)
     (let s = s\<lparr>tc_state := kConnected\<rparr>;
          s = set_events (enableReading (tc_events s)) s
      in user_run on_connection (call_user (ConnectionCb True) s))"

definition connectDestroyed :: "user_act list \<Rightarrow> tcpconn \<Rightarrow> tcpconn res" where
  "connectDestroyed on_connection s =
     bind_res
       (if tc_state s = kConnected then
          let s = s\<lparr>tc_state := kDisconnected\<rparr>;
              s = set_events (disableAll (tc_events s)) s
          in user_run on_connection (call_user (ConnectionCb False) s)
        else Inr s)
       channel_remove"

definition handleClose :: "user_act list \<Rightarrow> tcpconn \<Rightarrow> tcpconn res" where
  "handleClose on_connection s =
     assert_res (tc_state s = kConnected \<or> tc_state s = kDisconnecting)
     (let s = s\<lparr>tc_state := kDisconnected\<rparr>;
          s = set_events (disableAll (tc_events s)) s
      in bind_res (user_run on_connection (call_user (ConnectionCb False) s)) (\<lambda>s.
         Inr (call_user CloseCb s)))"

text \<open>Only reads and logs the pending error of the socket.\<close>

definition handleError :: "tcpconn \<Rightarrow> tcpconn res" where
  "handleError s = Inr s"

definition tc_handleRead :: "readv_answer \<Rightarrow> user_act list \<Rightarrow> user_act list \<Rightarrow> tcpconn \<Rightarrow> tcpconn res" where
  "tc_handleRead answer on_message on_connection s =
     bind_res (readFd (tc_inputBuffer s) answer) (\<lambda>(n, savedErrno, b).
     let s = s\<lparr>tc_inputBuffer := b\<rparr> in
     if n > 0 then user_run on_message (call_user MessageCb s)
     else if n = 0 then handleClose on_connection s
     else handleError s)"

definition handleWrite :: "write_answer \<Rightarrow> tcpconn \<Rightarrow> tcpconn res" where
  "handleWrite answer s =
     (if isWriting (tc_events s) then
        let buf = tc_outputBuffer s;
            data = range_of buf (peek buf) (beginWrite buf);
            n = (case answer of Wrote n \<Rightarrow> int (min n (readableBytes buf)) | WriteErr e \<Rightarrow> - 1)
        in if n > 0 then
             let s = s\<lparr>tc_wire := tc_wire s @ take (nat n) data\<rparr> in
             bind_res (retrieve buf (nat n)) (\<lambda>b.
             let s = s\<lparr>tc_outputBuffer := b\<rparr> in
             if readableBytes b = 0 then
               let s = set_events (disableWriting (tc_events s)) s;
                   s = (if tc_writeCompleteCallback s then queue_functor WriteComplete s else s)
               in Inr (if tc_state s = kDisconnecting then shutdownInLoop s else s)
             else Inr s)
           else Inr s
      else Inr s)"

definition conn_callbacks ::
  "readv_answer \<Rightarrow> write_answer \<Rightarrow> user_act list \<Rightarrow> user_act list \<Rightarrow> tcpconn callbacks" where
  "conn_callbacks rd wr on_message on_connection =
     \<lparr>closeCallback = Some (handleClose on_connection), errorCallback = Some handleError,
      readCallback = Some (tc_handleRead rd on_message on_connection), writeCallback = Some (handleWrite wr)\<rparr>"

text \<open>The functors of this connection that the loop runs, in turn.\<close>

fun run_tc_functor :: "write_answer \<Rightarrow> user_act list \<Rightarrow> tc_functor \<Rightarrow> tcpconn \<Rightarrow> tcpconn res" where
  "run_tc_functor answer acts (SendInLoop data) s = sendInLoop answer data s"
| "run_tc_functor answer acts ShutdownInLoop s = Inr (shutdownInLoop s)"
| "run_tc_functor answer acts ConnectDestroyed s = connectDestroyed acts s"
| "run_tc_functor answer acts WriteComplete s = user_run acts s"
| "run_tc_functor answer acts (HighWaterMark n) s = user_run acts s"

datatype conn_op =
    Establish "user_act list"
  | Event events readv_answer write_answer "user_act list" "user_act list"
  | UserCode "user_act list"
  | OtherSend bytes
  | OtherShutdown
  | RunFunctor write_answer "user_act list"
  | ServerRemoves

text \<open>\<open>ServerRemoves\<close>: \<open>TcpServer::removeConnectionInLoop\<close>, which the close callback leads to.\<close>

fun conn_do :: "conn_op \<Rightarrow> tcpconn \<Rightarrow> tcpconn res" where
  "conn_do (Establish acts) s = connectEstablished acts s"
| "conn_do (Event revents rd wr on_message on_connection) s =
     handleEvent True True (conn_callbacks rd wr on_message on_connection) revents s"
| "conn_do (UserCode acts) s = user_run acts s"
| "conn_do (OtherSend data) s = tc_send False (Wrote 0) data s"
| "conn_do OtherShutdown s = Inr (tc_shutdown False s)"
| "conn_do (RunFunctor answer acts) s =
     (case tc_functors s of [] \<Rightarrow> Inr s
      | f # fs \<Rightarrow> run_tc_functor answer acts f (s\<lparr>tc_functors := fs\<rparr>))"
| "conn_do ServerRemoves s = Inr (queue_functor ConnectDestroyed (s\<lparr>tc_removed := True\<rparr>))"

text \<open>
  When each can happen.  A poller reports events of watched channels only, and only those asked for
  and the three that need no asking; \<open>POLLHUP\<close> and \<open>POLLPRI\<close> without \<open>POLLIN\<close> do not come together.
\<close>

definition revents_ok :: "events \<Rightarrow> events \<Rightarrow> bool" where
  "revents_ok ev r \<longleftrightarrow> ev \<noteq> 0 \<and> r AND NOT (ev OR POLLERR OR POLLHUP OR POLLNVAL) = 0 \<and>
     \<not> (r AND POLLHUP \<noteq> 0 \<and> r AND POLLIN = 0 \<and> r AND POLLPRI \<noteq> 0)"

fun can_happen :: "bool \<Rightarrow> conn_op \<Rightarrow> tcpconn \<Rightarrow> bool" where
  "can_happen others (Establish acts) s = (tc_state s = kConnecting)"
| "can_happen others (Event revents rd wr on_message on_connection) s =
     (revents_ok (tc_events s) revents \<and> readv_fits (tc_inputBuffer s) rd)"
| "can_happen others (OtherSend data) s = others"
| "can_happen others ServerRemoves s = (CloseCb \<in> set (tc_called s) \<and> \<not> tc_removed s)"
| "can_happen others op s = True"

inductive conn_reach :: "bool \<Rightarrow> tcpconn \<Rightarrow> bool" for others where
  conn_new: "conn_reach others (TcpConnection_new hwm_cb wc_cb hwm)"
| conn_step: "conn_reach others s \<Longrightarrow> can_happen others op s \<Longrightarrow> conn_do op s = Inr s' \<Longrightarrow> conn_reach others s'"


subsection \<open>The invariant\<close>

definition calls_phase :: "poll_call list \<Rightarrow> phase option" where
  "calls_phase ks = foldl (\<lambda>p k. Option.bind p (\<lambda>p. next_phase p k)) (Some Fresh) ks"

lemma calls_phase_simps [simp]:
  "calls_phase [] = Some Fresh"
  "calls_phase (ks @ [k]) = Option.bind (calls_phase ks) (\<lambda>p. next_phase p k)"
  by (simp_all add: calls_phase_def)

lemma calls_phase_start: "calls_phase [Update 3] = Some (Watched 3)"
  by (simp add: calls_phase_def word_less_nat_alt)

text \<open>The events of an open connection: always reading, and writing while bytes wait.\<close>

definition open_events :: "bytes \<Rightarrow> events" where
  "open_events out = (if out = [] then 3 else 7)"

lemma open_events_eval [simp]:
  "isWriting (open_events out) \<longleftrightarrow> out \<noteq> []" "enableReading 0 = 3" "enableWriting 3 = 7" "disableWriting 7 = 3"
  "disableAll e = 0" "open_events [] = 3" "out \<noteq> [] \<Longrightarrow> open_events out = 7" "open_events out \<noteq> 0"
  "\<not> isWriting 3" "isWriting 7" "\<not> isWriting 0" "isNoneEvent 0"
  "next_phase Fresh (Update 3) = Some (Watched 3)" "next_phase (Watched e) (Update 0) = Some Ignored"
  "next_phase (Watched e) (Update 3) = Some (Watched 3)" "next_phase (Watched e) (Update 7) = Some (Watched 7)"
  by (auto simp: open_events_def isWriting_def enableReading_def enableWriting_def disableWriting_def disableAll_def
      isNoneEvent_def event_defs word_less_nat_alt)

definition is_open :: "tcpconn \<Rightarrow> bool" where
  "is_open s \<longleftrightarrow> tc_state s = kConnected \<or> tc_state s = kDisconnecting"

definition core :: "tcpconn \<Rightarrow> bool" where
  "core s \<longleftrightarrow> Buffer_inv (tc_inputBuffer s) \<and> Buffer_inv (tc_outputBuffer s) \<and>
     tc_wire s @ content (tc_outputBuffer s) = tc_taken s \<and>
     (tc_state s = kConnecting \<longrightarrow> tc_events s = 0 \<and> tc_calls s = [] \<and> tc_taken s = [] \<and>
        tc_functors s = [] \<and> tc_fin s = None) \<and>
     (is_open s \<longrightarrow> tc_events s = open_events (content (tc_outputBuffer s)) \<and>
        calls_phase (tc_calls s) = Some (Watched (tc_events s))) \<and>
     (tc_state s = kConnected \<longrightarrow> tc_fin s = None \<and> ShutdownInLoop \<notin> set (tc_functors s)) \<and>
     (tc_state s = kDisconnecting \<longrightarrow>
        tc_fin s \<noteq> None \<or> content (tc_outputBuffer s) \<noteq> [] \<or> ShutdownInLoop \<in> set (tc_functors s)) \<and>
     (tc_state s = kDisconnected \<longrightarrow> tc_events s = 0 \<and>
        calls_phase (tc_calls s) = Some (if Remove \<in> set (tc_calls s) then Gone else Ignored)) \<and>
     (tc_state s \<noteq> kDisconnected \<longrightarrow> Remove \<notin> set (tc_calls s))"

text \<open>What the connection itself never touches: the server's part of the life of the connection.\<close>

definition destroys :: "tcpconn \<Rightarrow> nat" where
  "destroys s = count_list (tc_functors s) ConnectDestroyed"

definition same_life :: "tcpconn \<Rightarrow> tcpconn \<Rightarrow> bool" where
  "same_life s s' \<longleftrightarrow> (tc_state s' = tc_state s \<or> tc_state s = kConnected \<and> tc_state s' = kDisconnecting) \<and>
     tc_called s' = tc_called s \<and> tc_removed s' = tc_removed s \<and> destroys s' = destroys s \<and>
     (Remove \<in> set (tc_calls s') \<longleftrightarrow> Remove \<in> set (tc_calls s)) \<and> prefix (tc_taken s) (tc_taken s') \<and>
     (\<forall>d. SendInLoop d \<in> set (tc_functors s') \<longrightarrow> SendInLoop d \<in> set (tc_functors s))"

lemma same_life_refl [simp]: "same_life s s"
  by (simp add: same_life_def)

lemma same_life_trans: "same_life s s' \<Longrightarrow> same_life s' s'' \<Longrightarrow> same_life s s''"
  unfolding same_life_def by (metis prefix_order.trans tc_state_e.distinct)

lemma coreD:
  assumes "core s"
  shows "Buffer_inv (tc_inputBuffer s)" "Buffer_inv (tc_outputBuffer s)"
    "tc_wire s @ content (tc_outputBuffer s) = tc_taken s"
    "is_open s \<Longrightarrow> tc_events s = open_events (content (tc_outputBuffer s))"
    "is_open s \<Longrightarrow> calls_phase (tc_calls s) = Some (Watched (tc_events s))"
  using assms by (simp_all add: core_def)

text \<open>The functors that only tell the user something.\<close>

fun is_notice :: "tc_functor \<Rightarrow> bool" where
  "is_notice WriteComplete = True"
| "is_notice (HighWaterMark n) = True"
| "is_notice f = False"

lemma notice_Shutdown: "(\<And>f. f \<in> set fs \<Longrightarrow> is_notice f) \<Longrightarrow> ShutdownInLoop \<notin> set fs"
  by (meson is_notice.simps)

text \<open>The end of \<open>sendInLoop\<close>: the rest goes to the output buffer, and the channel asks for \<open>POLLOUT\<close>.\<close>

lemma core_buffer_rest:
  assumes "core s" and "is_open s" and rest: "rest \<noteq> []"
    and b: "Buffer_append (tc_outputBuffer s) rest = Inr b" "Buffer_inv b" "content b = content (tc_outputBuffer s) @ rest"
    and w: "w @ rest = data" and direct: "w \<noteq> [] \<Longrightarrow> content (tc_outputBuffer s) = []"
    and fs: "\<And>f. f \<in> set fs \<Longrightarrow> is_notice f"
    and s1: "s1 = s\<lparr>tc_wire := tc_wire s @ w, tc_taken := tc_taken s @ data, tc_functors := tc_functors s @ fs,
      tc_outputBuffer := b\<rparr>"
  shows "core (if \<not> isWriting (tc_events s) then set_events (enableWriting (tc_events s)) s1 else s1) \<and>
    same_life s (if \<not> isWriting (tc_events s) then set_events (enableWriting (tc_events s)) s1 else s1)"
proof -
  note c = coreD [OF assms(1)]
  have ev: "tc_events s = open_events (content (tc_outputBuffer s))" using c(4) assms(2) by simp
  have wire: "(tc_wire s @ w) @ content b = tc_taken s @ data"
    using b(3) w c(3) direct by (cases "w = []") auto
  have d: "destroys s1 = destroys s" using fs by (force simp: s1 destroys_def count_list_append intro!: count_notin)
  have snd: "SendInLoop d \<in> set (tc_functors s1) \<Longrightarrow> SendInLoop d \<in> set (tc_functors s)" for d
    using fs by (force simp: s1)
  show ?thesis
  proof (cases "content (tc_outputBuffer s) = []")
    case True
    then show ?thesis
      using assms(1,2) rest b(2,3) wire ev d snd notice_Shutdown [OF fs]
      by (simp add: core_def same_life_def set_events_def is_open_def s1 destroys_def)
        (auto simp: open_events_def)
  next
    case False
    then show ?thesis
      using assms(1,2) b(2,3) wire ev d snd notice_Shutdown [OF fs]
      by (auto simp: core_def same_life_def is_open_def s1 destroys_def)
  qed
qed

text \<open>Everything went out at once, or nothing was there to send.\<close>

lemma core_all_written:
  assumes "core s" and "is_open s" and "content (tc_outputBuffer s) = [] \<or> data = []"
    and fs: "\<And>f. f \<in> set fs \<Longrightarrow> is_notice f"
    and s1: "s1 = s\<lparr>tc_wire := tc_wire s @ data, tc_taken := tc_taken s @ data, tc_functors := tc_functors s @ fs\<rparr>"
  shows "core s1 \<and> same_life s s1"
proof -
  have d: "destroys s1 = destroys s" using fs by (force simp: s1 destroys_def count_list_append intro!: count_notin)
  have snd: "SendInLoop d \<in> set (tc_functors s1) \<Longrightarrow> SendInLoop d \<in> set (tc_functors s)" for d
    using fs by (force simp: s1)
  have "tc_wire s1 @ content (tc_outputBuffer s1) = tc_taken s1" using coreD(3) [OF assms(1)] assms(3) by (auto simp: s1)
  moreover have "tc_state s \<noteq> kConnecting" "tc_state s \<noteq> kDisconnected" using assms(2) by (auto simp: is_open_def)
  ultimately have "core s1"
    using assms(1,2) notice_Shutdown [OF fs] unfolding core_def is_open_def by (simp add: s1)
  moreover have "same_life s s1"
    using d snd by (auto simp: same_life_def s1 destroys_def)
  ultimately show ?thesis by blast
qed

text \<open>\<open>sendInLoop\<close> in one equation: \<open>n\<close> bytes written, the rest kept, \<open>fs\<close> queued.\<close>

lemma sendInLoop_form:
  assumes "core s" and "is_open s"
  shows "\<exists>n fs. (n \<noteq> 0 \<longrightarrow> content (tc_outputBuffer s) = []) \<and>
    (\<forall>f \<in> set fs. is_notice f) \<and>
    sendInLoop answer data s =
     (if content (tc_outputBuffer s) = [] \<and> answer = WriteErr EPIPE then Inr s
      else let s1 = s\<lparr>tc_wire := tc_wire s @ take n data, tc_taken := tc_taken s @ data,
                      tc_functors := tc_functors s @ fs\<rparr> in
        if drop n data = [] then Inr s1
        else bind_res (Buffer_append (tc_outputBuffer s) (drop n data)) (\<lambda>b. let s1 = s1\<lparr>tc_outputBuffer := b\<rparr> in
          Inr (if \<not> isWriting (tc_events s) then set_events (enableWriting (tc_events s)) s1 else s1)))"
proof -
  note c = coreD [OF assms(1)]
  have nd: "tc_state s \<noteq> kDisconnected" using assms(2) by (auto simp: is_open_def)
  have ev: "tc_events s = open_events (content (tc_outputBuffer s))" using c(4) assms(2) by simp
  have rd: "readableBytes (tc_outputBuffer s) = length (content (tc_outputBuffer s))" using c(2) by simp
  let ?out = "content (tc_outputBuffer s)" and ?len = "length data"
  define n where "n = (if ?out = [] then case answer of Wrote n \<Rightarrow> min n ?len | WriteErr e \<Rightarrow> 0 else 0)"
  define written where "written \<longleftrightarrow> ?out = [] \<and> (\<exists>n. answer = Wrote n) \<and> tc_writeCompleteCallback s"
  define fs where "fs = (if drop n data = [] then if written then [WriteComplete] else []
     else if tc_highWaterMark s \<le> length ?out + (?len - n) \<and> length ?out < tc_highWaterMark s \<and> tc_highWaterMarkCallback s
     then [HighWaterMark (length ?out + (?len - n))] else [])"
  have "sendInLoop answer data s =
     (if ?out = [] \<and> answer = WriteErr EPIPE then Inr s
      else let s1 = s\<lparr>tc_wire := tc_wire s @ take n data, tc_taken := tc_taken s @ data,
                      tc_functors := tc_functors s @ fs\<rparr> in
        if drop n data = [] then Inr s1
        else bind_res (Buffer_append (tc_outputBuffer s) (drop n data)) (\<lambda>b. let s1 = s1\<lparr>tc_outputBuffer := b\<rparr> in
          Inr (if \<not> isWriting (tc_events s) then set_events (enableWriting (tc_events s)) s1 else s1)))"
  proof (cases "?out = []")
    case True
    then show ?thesis
      using nd ev rd
      by (cases answer)
        (simp_all add: sendInLoop_def Let_def n_def fs_def written_def queue_functor_def set_events_def min_def
          not_less_eq_eq not_less)
  next
    case False
    then show ?thesis
      using nd ev rd
      by (simp add: sendInLoop_def Let_def n_def fs_def written_def queue_functor_def set_events_def)
  qed
  moreover have "\<forall>f \<in> set fs. is_notice f"
    by (auto simp: fs_def split: if_splits)
  moreover have "n \<noteq> 0 \<longrightarrow> ?out = []" by (simp add: n_def)
  ultimately show ?thesis by blast
qed

lemma sendInLoop_ok:
  assumes "core s" and "tc_state s \<noteq> kConnecting"
  shows "\<exists>s'. sendInLoop answer data s = Inr s' \<and> core s' \<and> same_life s s' \<and> tc_state s' = tc_state s \<and>
    tc_fin s' = tc_fin s \<and> tc_taken s' \<in> {tc_taken s, tc_taken s @ data} \<and>
    (answer \<noteq> WriteErr EPIPE \<longrightarrow> is_open s \<longrightarrow> tc_taken s' = tc_taken s @ data)"
proof (cases "is_open s")
  case False
  then have "tc_state s = kDisconnected" using assms(2) by (cases "tc_state s") (auto simp: is_open_def)
  then show ?thesis using assms(1) False by (simp add: sendInLoop_def Let_def)
next
  case True
  obtain n fs where n: "n \<noteq> 0 \<longrightarrow> content (tc_outputBuffer s) = []"
    and fs: "\<forall>f \<in> set fs. is_notice f"
    and form: "sendInLoop answer data s =
     (if content (tc_outputBuffer s) = [] \<and> answer = WriteErr EPIPE then Inr s
      else let s1 = s\<lparr>tc_wire := tc_wire s @ take n data, tc_taken := tc_taken s @ data,
                      tc_functors := tc_functors s @ fs\<rparr> in
        if drop n data = [] then Inr s1
        else bind_res (Buffer_append (tc_outputBuffer s) (drop n data)) (\<lambda>b. let s1 = s1\<lparr>tc_outputBuffer := b\<rparr> in
          Inr (if \<not> isWriting (tc_events s) then set_events (enableWriting (tc_events s)) s1 else s1)))"
    using sendInLoop_form [OF assms(1) True, of answer data] by blast
  show ?thesis
  proof (cases "content (tc_outputBuffer s) = [] \<and> answer = WriteErr EPIPE")
    case True
    then show ?thesis using form assms(1) by simp
  next
    case sent: False
    show ?thesis
    proof (cases "drop n data = []")
      case all: True
      define s1 where "s1 = s\<lparr>tc_wire := tc_wire s @ data, tc_taken := tc_taken s @ data, tc_functors := tc_functors s @ fs\<rparr>"
      have "core s1 \<and> same_life s s1"
        by (rule core_all_written [OF assms(1) True _ _ s1_def]) (use n all fs in \<open>cases "n = 0"; auto\<close>)+
      moreover have "sendInLoop answer data s = Inr s1" using form sent all by (simp add: Let_def s1_def)
      ultimately show ?thesis by (auto simp: s1_def)
    next
      case rest: False
      obtain b where b: "Buffer_append (tc_outputBuffer s) (drop n data) = Inr b" "Buffer_inv b"
          "content b = content (tc_outputBuffer s) @ drop n data"
        using Buffer_append_correct [OF coreD(2) [OF assms(1)]] by blast
      define s1 where "s1 = s\<lparr>tc_wire := tc_wire s @ take n data, tc_taken := tc_taken s @ data,
          tc_functors := tc_functors s @ fs, tc_outputBuffer := b\<rparr>"
      let ?s = "if \<not> isWriting (tc_events s) then set_events (enableWriting (tc_events s)) s1 else s1"
      have "core ?s \<and> same_life s ?s"
        by (rule core_buffer_rest [OF assms(1) True rest b _ _ _ s1_def]) (use n fs in \<open>cases "n = 0"; auto\<close>)+
      moreover have "sendInLoop answer data s = Inr ?s" using form sent rest b(1) by (simp add: Let_def s1_def)
      moreover have "tc_state ?s = tc_state s" "tc_fin ?s = tc_fin s" "tc_taken ?s = tc_taken s @ data"
        by (auto simp: s1_def set_events_def)
      ultimately show ?thesis by blast
    qed
  qed
qed

subsection \<open>Every operation keeps the invariant\<close>

text \<open>As long as the connection is not closed, the end of the stream comes after all that was sent.\<close>

definition fin_last :: "tcpconn \<Rightarrow> bool" where
  "fin_last s \<longleftrightarrow> (is_open s \<longrightarrow> (\<forall>w. tc_fin s = Some w \<longrightarrow> w = tc_taken s))"

lemma shutdownInLoop_ok:
  assumes "core s" and "tc_state s = kDisconnecting \<or> tc_state s = kDisconnected"
  shows "core (shutdownInLoop s) \<and> same_life s (shutdownInLoop s) \<and> tc_state (shutdownInLoop s) = tc_state s \<and>
    (fin_last s \<longrightarrow> fin_last (shutdownInLoop s)) \<and>
    (tc_state s = kDisconnecting \<longrightarrow> tc_fin (shutdownInLoop s) \<noteq> None \<or> content (tc_outputBuffer (shutdownInLoop s)) \<noteq> [])"
proof (cases "tc_state s = kDisconnecting")
  case True
  then have o: "is_open s" by (simp add: is_open_def)
  note c = coreD [OF assms(1)]
  have w: "isWriting (tc_events s) \<longleftrightarrow> content (tc_outputBuffer s) \<noteq> []" using c(4) [OF o] by simp
  show ?thesis
    using assms(1) True w c(3)
    by (auto simp: shutdownInLoop_def core_def same_life_def is_open_def destroys_def fin_last_def)
next
  case False
  then show ?thesis
    using assms by (simp add: shutdownInLoop_def core_def same_life_def is_open_def destroys_def fin_last_def)
qed

lemma tc_shutdown_ok:
  assumes "core s"
  shows "core (tc_shutdown own s) \<and> same_life s (tc_shutdown own s) \<and> (fin_last s \<longrightarrow> fin_last (tc_shutdown own s))"
proof (cases "tc_state s = kConnected")
  case True
  note c = coreD [OF assms(1)]
  have o: "is_open s" using True by (simp add: is_open_def)
  have w: "isWriting (tc_events s) \<longleftrightarrow> content (tc_outputBuffer s) \<noteq> []" using c(4) [OF o] by simp
  have fin: "tc_fin s = None" using assms True by (simp add: core_def)
  show ?thesis
    using assms True w fin c(3)
    by (auto simp: tc_shutdown_def shutdownInLoop_def queue_functor_def core_def same_life_def is_open_def destroys_def
        fin_last_def count_list_append Let_def)
next
  case False
  then show ?thesis using assms by (simp add: tc_shutdown_def)
qed

lemma user_do_ok:
  assumes "core s"
  shows "\<exists>s'. user_do a s = Inr s' \<and> core s' \<and> same_life s s' \<and> (fin_last s \<longrightarrow> fin_last s')"
proof (cases a)
  case (Send data answer)
  show ?thesis
  proof (cases "tc_state s = kConnected")
    case True
    then obtain s' where s': "sendInLoop answer data s = Inr s'" "core s'" "same_life s s'" "tc_fin s' = tc_fin s"
      using sendInLoop_ok [OF assms, of answer data] by auto
    moreover have "tc_fin s = None" using assms True by (simp add: core_def)
    ultimately show ?thesis using Send True by (simp add: tc_send_def fin_last_def)
  next
    case False
    then show ?thesis using Send assms by (simp add: tc_send_def)
  qed
next
  case Shutdown
  then show ?thesis using tc_shutdown_ok [OF assms, of True] by simp
next
  case (Consume n)
  let ?in = "tc_inputBuffer s"
  note c = coreD [OF assms]
  obtain b where b: "retrieve ?in (min n (readableBytes ?in)) = Inr b" "Buffer_inv b"
    using retrieve_correct [OF c(1), of "min n (readableBytes ?in)"] by auto
  have "core (s\<lparr>tc_inputBuffer := b\<rparr>)" using assms b(2) by (simp add: core_def is_open_def)
  then show ?thesis
    using Consume b(1) by (auto simp: same_life_def destroys_def fin_last_def is_open_def)
qed

lemma user_run_ok:
  "core s \<Longrightarrow> \<exists>s'. user_run as s = Inr s' \<and> core s' \<and> same_life s s' \<and> (fin_last s \<longrightarrow> fin_last s')"
proof (induction as arbitrary: s)
  case Nil
  then show ?case by simp
next
  case (Cons a as)
  obtain s1 where s1: "user_do a s = Inr s1" "core s1" "same_life s s1" "fin_last s \<longrightarrow> fin_last s1"
    using user_do_ok [OF Cons.prems] by blast
  obtain s2 where "user_run as s1 = Inr s2" "core s2" "same_life s1 s2" "fin_last s1 \<longrightarrow> fin_last s2"
    using Cons.IH [OF s1(2)] by blast
  then show ?case using s1 same_life_trans by auto
qed

lemma core_called [simp]: "core (s\<lparr>tc_called := us\<rparr>) \<longleftrightarrow> core s" "core (call_user u s) \<longleftrightarrow> core s" "fin_last (call_user u s) \<longleftrightarrow> fin_last s"
  by (simp_all add: core_def call_user_def is_open_def fin_last_def)

lemma handleClose_ok:
  assumes "core s" and "is_open s"
  shows "\<exists>s'. handleClose acts s = Inr s' \<and> core s' \<and> tc_state s' = kDisconnected \<and>
    tc_called s' = tc_called s @ [ConnectionCb False, CloseCb] \<and> tc_removed s' = tc_removed s \<and>
    destroys s' = destroys s \<and> Remove \<notin> set (tc_calls s') \<and> fin_last s' \<and> prefix (tc_taken s) (tc_taken s') \<and>
    (\<forall>d. SendInLoop d \<in> set (tc_functors s') \<longrightarrow> SendInLoop d \<in> set (tc_functors s))"
proof -
  let ?s = "set_events (disableAll (tc_events s)) (s\<lparr>tc_state := kDisconnected\<rparr>)"
  have r: "Remove \<notin> set (tc_calls s)" using assms by (auto simp: core_def is_open_def)
  have "core ?s"
    using assms(1) coreD(5) [OF assms] r by (simp add: core_def set_events_def is_open_def)
  then have "core (call_user (ConnectionCb False) ?s)" by simp
  then obtain s1 where s1: "user_run acts (call_user (ConnectionCb False) ?s) = Inr s1" "core s1"
      "same_life (call_user (ConnectionCb False) ?s) s1"
    using user_run_ok by blast
  have st: "tc_state s1 = kDisconnected" using s1(3) by (simp add: same_life_def call_user_def set_events_def)
  have "handleClose acts s = Inr (call_user CloseCb s1)"
    using assms(2) s1(1) by (simp add: handleClose_def is_open_def Let_def)
  then show ?thesis
    using s1(2,3) st r
    by (auto simp: same_life_def call_user_def set_events_def destroys_def fin_last_def is_open_def)
qed

lemma handleWrite_ok:
  assumes "core s"
  shows "\<exists>s'. handleWrite answer s = Inr s' \<and> core s' \<and> same_life s s' \<and> (fin_last s \<longrightarrow> fin_last s')"
proof (cases "isWriting (tc_events s)")
  case False
  then show ?thesis using assms by (simp add: handleWrite_def)
next
  case True
  note c = coreD [OF assms]
  let ?buf = "tc_outputBuffer s"
  define n where "n = (case answer of Wrote n \<Rightarrow> min n (readableBytes ?buf) | WriteErr e \<Rightarrow> 0)"
  have o: "is_open s" using True assms by (cases "tc_state s") (auto simp: is_open_def core_def)
  have ne: "content ?buf \<noteq> []" using True c(4) [OF o] by simp
  have data: "range_of ?buf (peek ?buf) (beginWrite ?buf) = content ?buf"
    by (simp add: content_def peek_def beginWrite_def)
  obtain b where b: "retrieve ?buf n = Inr b" "Buffer_inv b" "content b = drop n (content ?buf)"
  proof -
    have "n \<le> readableBytes ?buf" by (simp add: n_def split: write_answer.split)
    then show ?thesis using that retrieve_correct [OF c(2)] by blast
  qed
  have len: "readableBytes b = length (content b)" using b(2) by simp
  define s1 where "s1 = s\<lparr>tc_wire := tc_wire s @ take n (content ?buf), tc_outputBuffer := b\<rparr>"
  have wire: "tc_wire s1 @ content (tc_outputBuffer s1) = tc_taken s1" using c(3) b(3) by (simp add: s1_def)
  define s2 where "s2 = (set_events 3 s1)\<lparr>tc_functors := tc_functors s @ (if tc_writeCompleteCallback s then [WriteComplete] else [])\<rparr>"
  have ev: "tc_events s = 7" using c(4) [OF o] ne by simp
  have form: "handleWrite answer s = Inr (if n = 0 then s else if content b \<noteq> [] then s1
      else if tc_state s = kDisconnecting then shutdownInLoop s2 else s2)"
  proof (cases "n = 0")
    case zero: True
    then show ?thesis
      using True ne by (cases answer) (auto simp: handleWrite_def n_def Let_def min_def split: if_splits)
  next
    case False
    then obtain m where m: "answer = Wrote m" "n = min m (readableBytes ?buf)"
      by (cases answer) (simp_all add: n_def)
    have "min m (readableBytes ?buf) = n" "0 < n" using m(2) False by simp_all
    then show ?thesis
      using True b(1) len data ev m(1)
      by (simp add: handleWrite_def Let_def s1_def s2_def set_events_def queue_functor_def)
  qed
  have ph: "calls_phase (tc_calls s) = Some (Watched 7)" using c(5) [OF o] ev by simp
  consider "n = 0" | "n \<noteq> 0" "content b \<noteq> []" | "n \<noteq> 0" "content b = []" by blast
  then show ?thesis
  proof cases
    case 1
    then show ?thesis using assms form by simp
  next
    case 2
    have "core s1" using assms o b(2) 2(2) wire ev ne ph by (simp add: core_def s1_def is_open_def)
    moreover have "same_life s s1" "fin_last s \<longrightarrow> fin_last s1"
      by (simp_all add: same_life_def s1_def destroys_def fin_last_def is_open_def)
    ultimately show ?thesis using form 2 by simp
  next
    case 3
    let ?s = "if tc_state s = kDisconnecting then shutdownInLoop s2 else s2"
    have "core ?s"
      using assms o b(2) 3(2) wire ph
      by (auto simp: core_def s2_def s1_def is_open_def set_events_def shutdownInLoop_def)
    moreover have "same_life s ?s"
      by (auto simp: same_life_def s2_def s1_def set_events_def destroys_def shutdownInLoop_def count_list_append)
    moreover have "fin_last s \<longrightarrow> fin_last ?s"
      using wire 3(2) by (auto simp: fin_last_def s2_def s1_def set_events_def is_open_def shutdownInLoop_def)
    ultimately show ?thesis using form 3 by simp
  qed
qed

text \<open>The server's side of the connection's life.\<close>

definition life :: "tcpconn \<Rightarrow> bool" where
  "life s \<longleftrightarrow> (tc_state s = kDisconnected \<longleftrightarrow> CloseCb \<in> set (tc_called s)) \<and>
     (tc_removed s \<longrightarrow> CloseCb \<in> set (tc_called s)) \<and> (Remove \<in> set (tc_calls s) \<longrightarrow> tc_removed s) \<and>
     destroys s = (if tc_removed s \<and> Remove \<notin> set (tc_calls s) then 1 else 0)"

definition no_queued_send :: "tcpconn \<Rightarrow> bool" where
  "no_queued_send s \<longleftrightarrow> (\<forall>d. SendInLoop d \<notin> set (tc_functors s))"

definition conn_inv :: "bool \<Rightarrow> tcpconn \<Rightarrow> bool" where
  "conn_inv others s \<longleftrightarrow> core s \<and> life s \<and> (\<not> others \<longrightarrow> no_queued_send s \<and> fin_last s)"

lemma life_same: "life s \<Longrightarrow> same_life s s' \<Longrightarrow> life s'"
  by (auto simp: life_def same_life_def)

lemma conn_inv_same:
  assumes "conn_inv others s" and "core s'" "same_life s s'" "fin_last s \<longrightarrow> fin_last s'"
  shows "conn_inv others s'"
  using assms life_same [of s s'] by (auto simp: conn_inv_def no_queued_send_def same_life_def)

lemma handleClose_inv:
  assumes "conn_inv others s" and "is_open s"
  shows "\<exists>s'. handleClose acts s = Inr s' \<and> conn_inv others s' \<and> tc_state s' = kDisconnected \<and> prefix (tc_taken s) (tc_taken s')"
proof -
  obtain s' where s': "handleClose acts s = Inr s'" "core s'" "tc_state s' = kDisconnected"
    "tc_called s' = tc_called s @ [ConnectionCb False, CloseCb]" "tc_removed s' = tc_removed s"
    "destroys s' = destroys s" "Remove \<notin> set (tc_calls s')" "fin_last s'" "prefix (tc_taken s) (tc_taken s')"
    "\<forall>d. SendInLoop d \<in> set (tc_functors s') \<longrightarrow> SendInLoop d \<in> set (tc_functors s)"
    using handleClose_ok [of s acts] assms by (auto simp: conn_inv_def)
  have "Remove \<notin> set (tc_calls s)" using assms by (auto simp: conn_inv_def core_def is_open_def)
  then have "life s'"
    using assms s'(3-7) by (auto simp: conn_inv_def life_def is_open_def)
  then show ?thesis using s' assms(1) by (auto simp: conn_inv_def no_queued_send_def)
qed

lemma handleRead_inv:
  assumes "conn_inv others s" and "is_open s" and "readv_fits (tc_inputBuffer s) rd"
  shows "\<exists>s'. tc_handleRead rd on_message on_connection s = Inr s' \<and> conn_inv others s' \<and> prefix (tc_taken s) (tc_taken s')"
proof -
  note c = coreD [OF conjunct1 [OF assms(1) [unfolded conn_inv_def]]]
  have inp: "conn_inv others (s\<lparr>tc_inputBuffer := b\<rparr>)" if "Buffer_inv b" for b
    by (rule conn_inv_same [OF assms(1)])
      (use assms(1) that in \<open>auto simp: conn_inv_def core_def same_life_def destroys_def fin_last_def is_open_def\<close>)
  show ?thesis
  proof (cases rd)
    case (ReadErr e)
    then show ?thesis using assms(1) by (simp add: tc_handleRead_def readFd_def handleError_def Let_def)
  next
    case (ReadOk data)
    obtain b where b: "readFd (tc_inputBuffer s) rd = Inr (int (length data), None, b)" "Buffer_inv b"
      using readFd_correct [OF c(1), of data] ReadOk by auto
    let ?s = "s\<lparr>tc_inputBuffer := b\<rparr>"
    show ?thesis
    proof (cases "data = []")
      case True
      have "is_open ?s" using assms(2) by (simp add: is_open_def)
      then show ?thesis
        using handleClose_inv [OF inp [OF b(2)], of on_connection] b(1) True by (auto simp: tc_handleRead_def Let_def)
    next
      case False
      have inv: "conn_inv others (call_user MessageCb ?s)"
        using inp [OF b(2)] by (auto simp: conn_inv_def life_def call_user_def destroys_def no_queued_send_def fin_last_def is_open_def)
      then obtain s' where "user_run on_message (call_user MessageCb ?s) = Inr s'" "core s'"
          "same_life (call_user MessageCb ?s) s'" "fin_last (call_user MessageCb ?s) \<longrightarrow> fin_last s'"
        using user_run_ok [of "call_user MessageCb ?s" on_message] by (auto simp: conn_inv_def)
      moreover from this have "conn_inv others s'" using conn_inv_same [OF inv] by blast
      ultimately show ?thesis using b(1) False by (auto simp: tc_handleRead_def Let_def same_life_def call_user_def)
    qed
  qed
qed

lemma handleWrite_inv:
  "conn_inv others s \<Longrightarrow> \<exists>s'. handleWrite answer s = Inr s' \<and> conn_inv others s' \<and> prefix (tc_taken s) (tc_taken s')"
  using handleWrite_ok [of s answer] conn_inv_same [of others s] by (auto simp: conn_inv_def same_life_def)

text \<open>
  The dispatch: \<open>handleClose\<close> runs at most once, as after it neither reading nor writing goes on.
\<close>

lemma revents_closing:
  assumes "revents_ok (open_events out) r" and "r AND POLLHUP \<noteq> 0 \<and> \<not> r AND POLLIN \<noteq> 0"
  shows "r AND (POLLIN OR POLLPRI OR POLLRDHUP) = 0"
proof -
  have "r AND NOT (open_events out OR POLLERR OR POLLHUP OR POLLNVAL) = 0" "r AND POLLPRI = 0" "r AND POLLIN = 0"
    using assms by (auto simp: revents_ok_def)
  moreover have "POLLRDHUP AND (open_events out OR POLLERR OR POLLHUP OR POLLNVAL) = 0"
    by (simp add: open_events_def event_defs)
  moreover have "r AND POLLRDHUP = (r AND NOT (open_events out OR POLLERR OR POLLHUP OR POLLNVAL)) AND POLLRDHUP
      OR r AND (POLLRDHUP AND (open_events out OR POLLERR OR POLLHUP OR POLLNVAL))"
    by (rule bit_word_eqI) (auto simp: bit_simps)
  ultimately show ?thesis by (simp add: bit.conj_disj_distrib)
qed

lemma Event_inv:
  assumes "conn_inv others s" and "can_happen others (Event r rd wr on_message on_connection) s"
  shows "\<exists>s'. conn_do (Event r rd wr on_message on_connection) s = Inr s' \<and> conn_inv others s' \<and>
    prefix (tc_taken s) (tc_taken s')"
proof -
  let ?cbs = "conn_callbacks rd wr on_message on_connection"
  have ne: "tc_events s \<noteq> 0" using assms(2) by (auto simp: revents_ok_def)
  have o: "is_open s"
    using assms(1) ne by (cases "tc_state s") (auto simp: conn_inv_def core_def is_open_def)
  have ev: "tc_events s = open_events (content (tc_outputBuffer s))"
    using coreD(4) [of s] assms(1) o by (simp add: conn_inv_def)
  have w: "\<exists>s'. call_if c (writeCallback ?cbs) s1 = Inr s' \<and> conn_inv others s' \<and> prefix (tc_taken s1) (tc_taken s')"
    if "conn_inv others s1" for c s1
    using handleWrite_inv [OF that, of wr] that by (simp add: call_if_def conn_callbacks_def)
  show ?thesis
  proof (cases "r AND POLLHUP \<noteq> 0 \<and> \<not> r AND POLLIN \<noteq> 0")
    case True
    have noread: "r AND (POLLIN OR POLLPRI OR POLLRDHUP) = 0"
      by (rule revents_closing [OF _ True, of "content (tc_outputBuffer s)"]) (use assms(2) ev in simp)
    obtain s1 where s1: "handleClose on_connection s = Inr s1" "conn_inv others s1" "prefix (tc_taken s) (tc_taken s1)"
      using handleClose_inv [OF assms(1) o] by blast
    obtain s' where "call_if (r AND POLLOUT \<noteq> 0) (writeCallback ?cbs) s1 = Inr s'" "conn_inv others s'"
        "prefix (tc_taken s1) (tc_taken s')"
      using w [OF s1(2)] by blast
    then show ?thesis
      using s1 True noread prefix_order.trans [OF s1(3)]
      by (simp add: handleEvent_def handleEventWithGuard_def)
        (simp add: call_if_def conn_callbacks_def handleError_def)
  next
    case False
    have "\<exists>s1. call_if (r AND (POLLIN OR POLLPRI OR POLLRDHUP) \<noteq> 0) (readCallback ?cbs) s = Inr s1 \<and>
        conn_inv others s1 \<and> prefix (tc_taken s) (tc_taken s1)"
      using handleRead_inv [OF assms(1) o, of rd on_message on_connection] assms
      by (simp add: call_if_def conn_callbacks_def)
    then obtain s1 where s1: "call_if (r AND (POLLIN OR POLLPRI OR POLLRDHUP) \<noteq> 0) (readCallback ?cbs) s = Inr s1"
        "conn_inv others s1" "prefix (tc_taken s) (tc_taken s1)"
      by blast
    obtain s' where s': "call_if (r AND POLLOUT \<noteq> 0) (writeCallback ?cbs) s1 = Inr s'" "conn_inv others s'"
        "prefix (tc_taken s1) (tc_taken s')"
      using w [OF s1(2)] by blast
    have "call_if c (errorCallback ?cbs) s = Inr s" for c
      by (simp add: call_if_def conn_callbacks_def handleError_def)
    moreover have "call_if (r AND POLLHUP \<noteq> 0 \<and> \<not> r AND POLLIN \<noteq> 0) (closeCallback ?cbs) s = Inr s"
      using False by (auto simp: call_if_def)
    ultimately have "conn_do (Event r rd wr on_message on_connection) s = Inr s'"
      using s1(1) s'(1) by (simp add: handleEvent_def handleEventWithGuard_def)
    then show ?thesis using s'(2) prefix_order.trans [OF s1(3) s'(3)] by blast
  qed
qed

lemma connectEstablished_inv:
  assumes "conn_inv others s" and "tc_state s = kConnecting"
  shows "\<exists>s'. connectEstablished acts s = Inr s' \<and> conn_inv others s' \<and> prefix (tc_taken s) (tc_taken s')"
proof -
  let ?s = "set_events (enableReading (tc_events s)) (s\<lparr>tc_state := kConnected\<rparr>)"
  have inv: "conn_inv others (call_user (ConnectionCb True) ?s)"
    using assms
    by (auto simp: conn_inv_def core_def life_def set_events_def call_user_def is_open_def destroys_def
        no_queued_send_def fin_last_def calls_phase_start)
  then obtain s' where "user_run acts (call_user (ConnectionCb True) ?s) = Inr s'" "core s'"
      "same_life (call_user (ConnectionCb True) ?s) s'"
      "fin_last (call_user (ConnectionCb True) ?s) \<longrightarrow> fin_last s'"
    using user_run_ok [of "call_user (ConnectionCb True) ?s" acts] by (auto simp: conn_inv_def)
  moreover from this have "conn_inv others s'" using conn_inv_same [OF inv] by blast
  ultimately show ?thesis
    using assms(2) by (auto simp: connectEstablished_def Let_def same_life_def call_user_def set_events_def)
qed

lemma RunFunctor_inv:
  assumes "conn_inv others s"
  shows "\<exists>s'. conn_do (RunFunctor answer acts) s = Inr s' \<and> conn_inv others s' \<and> prefix (tc_taken s) (tc_taken s')"
proof (cases "tc_functors s")
  case Nil
  then show ?thesis using assms by simp
next
  case (Cons f fs)
  let ?s = "s\<lparr>tc_functors := fs\<rparr>"
  note c = assms [unfolded conn_inv_def core_def life_def]
  have st: "tc_state s \<noteq> kConnecting" using c Cons by auto
  have frame: "conn_inv others ?s" if "f \<noteq> ShutdownInLoop" "f \<noteq> ConnectDestroyed"
    using c Cons that
    by (auto simp: conn_inv_def core_def life_def is_open_def destroys_def no_queued_send_def fin_last_def)
  have by_user: "\<exists>s'. user_run acts ?s = Inr s' \<and> conn_inv others s' \<and> prefix (tc_taken s) (tc_taken s')"
    if "conn_inv others ?s"
    using user_run_ok [of ?s acts] that conn_inv_same [OF that] by (auto simp: conn_inv_def same_life_def)
  show ?thesis
  proof (cases f)
    case (SendInLoop data)
    have inv: "conn_inv others ?s" and o: others using frame SendInLoop c Cons by (auto simp: no_queued_send_def)
    obtain s' where s': "sendInLoop answer data ?s = Inr s'" "core s'" "same_life ?s s'"
      using sendInLoop_ok [of ?s answer data] inv st by (auto simp: conn_inv_def)
    then have "conn_inv others s'" using life_same [OF _ s'(3)] inv o by (auto simp: conn_inv_def)
    then show ?thesis using s' SendInLoop Cons by (auto simp: same_life_def)
  next
    case ShutdownInLoop
    have st: "tc_state s = kDisconnecting \<or> tc_state s = kDisconnected"
      using c Cons ShutdownInLoop by (cases "tc_state s") auto
    have "conn_inv others (shutdownInLoop ?s)"
      using c Cons ShutdownInLoop st
      by (auto simp: conn_inv_def core_def life_def is_open_def destroys_def no_queued_send_def fin_last_def shutdownInLoop_def)
    then show ?thesis using Cons ShutdownInLoop by (simp add: shutdownInLoop_def)
  next
    case ConnectDestroyed
    have d: "tc_removed s" "Remove \<notin> set (tc_calls s)" "tc_state s = kDisconnected"
      using c Cons ConnectDestroyed by (auto simp: destroys_def split: if_splits)
    have "tc_events s = 0" using c d(3) by blast
    then have "connectDestroyed acts ?s = Inr (?s\<lparr>tc_calls := tc_calls s @ [Remove]\<rparr>)"
      using d(3) by (simp add: connectDestroyed_def channel_remove_def)
    moreover have "conn_inv others (?s\<lparr>tc_calls := tc_calls s @ [Remove]\<rparr>)"
      using c Cons ConnectDestroyed d
      by (auto simp: conn_inv_def core_def life_def is_open_def destroys_def no_queued_send_def fin_last_def split: if_splits)
    ultimately show ?thesis using Cons ConnectDestroyed by simp
  next
    case WriteComplete
    then show ?thesis using by_user [OF frame] Cons by simp
  next
    case (HighWaterMark n)
    then show ?thesis using by_user [OF frame] Cons by simp
  qed
qed

lemma conn_do_ok:
  assumes "conn_inv others s" and "can_happen others op s"
  shows "\<exists>s'. conn_do op s = Inr s' \<and> conn_inv others s' \<and> prefix (tc_taken s) (tc_taken s')"
proof (cases op)
  case (Establish acts)
  then show ?thesis using connectEstablished_inv [OF assms(1)] assms(2) by simp
next
  case (Event r rd wr on_message on_connection)
  then show ?thesis using Event_inv assms by blast
next
  case (UserCode acts)
  then show ?thesis
    using user_run_ok [of s acts] assms(1) conn_inv_same [OF assms(1)] by (auto simp: conn_inv_def same_life_def)
next
  case (OtherSend data)
  have "conn_inv others (queue_functor (SendInLoop data) s)" if "tc_state s = kConnected"
    using assms OtherSend that
    by (auto simp: conn_inv_def core_def life_def is_open_def destroys_def queue_functor_def count_list_append)
  then show ?thesis using assms OtherSend by (simp add: tc_send_def queue_functor_def)
next
  case OtherShutdown
  then show ?thesis
    using tc_shutdown_ok [of s False] assms(1) conn_inv_same [OF assms(1)] by (auto simp: conn_inv_def same_life_def)
next
  case (RunFunctor answer acts)
  then show ?thesis using RunFunctor_inv [OF assms(1)] by blast
next
  case ServerRemoves
  have st: "tc_state s = kDisconnected" "\<not> tc_removed s" "CloseCb \<in> set (tc_called s)" "Remove \<notin> set (tc_calls s)"
    using assms ServerRemoves by (auto simp: conn_inv_def life_def)
  then have "conn_inv others (queue_functor ConnectDestroyed (s\<lparr>tc_removed := True\<rparr>))"
    using assms(1)
    by (auto simp: conn_inv_def core_def life_def is_open_def destroys_def queue_functor_def count_list_append
        no_queued_send_def fin_last_def)
  then show ?thesis using ServerRemoves by (simp add: queue_functor_def)
qed

lemma conn_new_inv: "conn_inv others (TcpConnection_new hwm_cb wc_cb hwm)"
  by (simp add: conn_inv_def core_def life_def is_open_def destroys_def no_queued_send_def fin_last_def
      TcpConnection_new_def Buffer_new_correct)

lemma conn_reach_inv: "conn_reach others s \<Longrightarrow> conn_inv others s"
proof (induction rule: conn_reach.induct)
  case (conn_new hwm_cb wc_cb hwm)
  then show ?case by (rule conn_new_inv)
next
  case (conn_step s op s')
  then show ?case using conn_do_ok [of others s op] by auto
qed

subsection \<open>The connection\<close>


text \<open>A connection that has been told to send \<open>hello\<close> of which the kernel took two bytes, and to shut down.\<close>

definition demo_conn :: tcpconn where
  "demo_conn = (TcpConnection_new False True 100)\<lparr>tc_state := kDisconnecting, tc_events := 7,
     tc_calls := [Update 3, Update 7], tc_called := [ConnectionCb True], tc_wire := [104, 101],
     tc_outputBuffer := \<lparr>buffer_vec = replicate 8 0 @ [108, 108, 111] @ replicate 1021 0, readerIndex = 8, writerIndex = 11\<rparr>,
     tc_taken := [104, 101, 108, 108, 111]\<rparr>"

lemma Buffer_append_new:
  "length d \<le> 1024 \<Longrightarrow> Buffer_append Buffer_new d = Inr \<lparr>buffer_vec = replicate 8 0 @ d @ replicate (1024 - length d) 0,
     readerIndex = 8, writerIndex = 8 + length d\<rparr>"
  by (simp add: Buffer_append_def Buffer_new_def ensureWritableBytes_def writableBytes_def kCheapPrepend_def
      kInitialSize_def mem_write_def beginWrite_def hasWritten_def assert_res_def Let_def)

lemma readable_new: "readableBytes Buffer_new = 0"
  by (simp add: readableBytes_def Buffer_new_def)

lemma demo_conn_reach: "conn_reach others demo_conn"
proof -
  let ?n = "TcpConnection_new False True 100"
  let ?op1 = "Establish [Send [104, 101, 108, 108, 111] (Wrote 2), Shutdown]"
  have "conn_do ?op1 ?n = Inr demo_conn"
    by (simp add: connectEstablished_def TcpConnection_new_def set_events_def call_user_def tc_send_def sendInLoop_def
        tc_shutdown_def shutdownInLoop_def demo_conn_def Let_def Buffer_append_new readable_new)
  then show ?thesis
    using conn_step [OF conn_new, of others ?op1 False True 100 demo_conn] by (simp add: TcpConnection_new_def)
qed




text \<open>
  What \<open>send\<close> adds to the stream in the loop's thread: the whole message, unless the connection is
  not open or the peer is gone.
\<close>

lemma send_taken:
  assumes "conn_reach others s" and "tc_state s = kConnected" and "answer \<noteq> WriteErr EPIPE"
  shows "\<exists>s'. tc_send True answer data s = Inr s' \<and> tc_taken s' = tc_taken s @ data"
  using conn_reach_inv [OF assms(1)] sendInLoop_ok [of s answer data] assms(2,3)
  by (auto simp: conn_inv_def tc_send_def is_open_def)

text \<open>
  C8: a graceful close loses nothing: if only the loop's own thread sends, then the end of the stream
  goes out after the last byte of the last message, and from \<open>shutdown()\<close> on it either has gone out, or
  bytes are still waiting, or the request is still queued.
\<close>

theorem shutdown_after_last_byte:
  assumes "conn_reach False s" and "tc_state s = kDisconnecting"
  shows "(\<forall>w. tc_fin s = Some w \<longrightarrow> w = tc_taken s) \<and>
    (tc_fin s = None \<longrightarrow> content (tc_outputBuffer s) \<noteq> [] \<or> ShutdownInLoop \<in> set (tc_functors s))"
  using conn_reach_inv [OF assms(1)] assms(2) by (auto simp: conn_inv_def core_def fin_last_def is_open_def)

lemma demo_fin_reach:
  "\<exists>s. conn_do (Event 4 (ReadErr 0) (Wrote 9) [] []) demo_conn = Inr s \<and> tc_state s = kDisconnecting \<and>
     tc_fin s = Some [104, 101, 108, 108, 111] \<and> conn_reach False s"
proof -
  obtain s where s: "conn_do (Event 4 (ReadErr 0) (Wrote 9) [] []) demo_conn = Inr s"
    "tc_state s = kDisconnecting" "tc_fin s = Some [104, 101, 108, 108, 111]"
    by (simp add: handleEvent_def handleEventWithGuard_def call_if_def conn_callbacks_def handleError_def handleWrite_def
        demo_conn_def TcpConnection_new_def readableBytes_def range_of_def peek_def beginWrite_def retrieve_def
        retrieveAll_def set_events_def queue_functor_def shutdownInLoop_def event_defs assert_res_def isWriting_def
        disableWriting_def Let_def)
  have "can_happen False (Event 4 (ReadErr 0) (Wrote 9) [] []) demo_conn"
    by (simp add: revents_ok_def demo_conn_def event_defs readv_fits_def)
  then show ?thesis using s conn_step [OF demo_conn_reach] by blast
qed

theorem shutdown_after_last_byte_witness:
  "\<exists>s. conn_do (Event 4 (ReadErr 0) (Wrote 9) [] []) demo_conn = Inr s \<and> tc_fin s = Some (tc_taken s)"
  using demo_fin_reach shutdown_after_last_byte by fastforce

text \<open>The calls of a single channel.\<close>

lemma spec_calls_single:
  assumes "\<And>d. fd d = fd c \<longleftrightarrow> d = c"
    and "foldl (\<lambda>p k. Option.bind p (\<lambda>p. next_phase p k)) (Some (ph c)) ks = Some q"
  shows "spec_calls fd ph (map (Pair c) ks) = Some (ph(c := q))"
  using assms(2)
proof (induction ks arbitrary: ph)
  case Nil
  then show ?case by auto
next
  case (Cons k ks)
  have none: "foldl (\<lambda>p k. Option.bind p (\<lambda>p. next_phase p k)) None ks = None" for ks :: "poll_call list"
    by (induction ks) simp_all
  obtain q1 where q1: "next_phase (ph c) k = Some q1"
    using Cons.prems by (cases "next_phase (ph c) k") (auto simp: none)
  then have "spec_calls fd (ph(c := q1)) (map (Pair c) ks) = Some ((ph(c := q1))(c := q))"
    using Cons.prems by (intro Cons.IH) simp
  then show ?case using q1 by (auto simp: fd_free_def assms(1) fun_eq_iff)
qed

text \<open>
  C17: a connection and its poller: the calls a connection makes on its channel fit the protocol of
  the pollers, so no assertion of \<open>EPollPoller\<close> or \<open>PollPoller\<close> fails on them; and both watch the
  descriptor exactly while the connection is open, for reading, and for writing exactly while bytes
  are waiting in the output buffer.
\<close>

theorem connection_watched:
  assumes "conn_reach others s" and "0 \<le> fd"
  shows "\<exists>e p. run_calls ep_call (map (Pair 0) (tc_calls s)) (EPollPoller_new [0 \<mapsto> Channel_new fd]) = Inr e \<and>
    run_calls pp_call (map (Pair 0) (tc_calls s)) (PollPoller_new [0 \<mapsto> Channel_new fd]) = Inr p \<and>
    ep_interest e fd = pp_interest p fd \<and>
    ep_interest e fd = (if tc_state s = kConnected \<or> tc_state s = kDisconnecting
      then Some (0, if content (tc_outputBuffer s) = [] then kReadEvent else kReadEvent OR kWriteEvent) else None)"
proof -
  let ?h = "[0 \<mapsto> Channel_new fd]"
  have c: "core s" using conn_reach_inv [OF assms(1)] by (simp add: conn_inv_def)
  have fresh: "fresh_channels ?h" using assms(2) by (auto simp: fresh_channels_def Channel_new_def split: if_splits)
  have fd: "heap_fd ?h = (\<lambda>c. if c = 0 then fd else - 1)" by (auto simp: heap_fd_def Channel_new_def fun_eq_iff)
  obtain p where p: "calls_phase (tc_calls s) = Some p"
    using c by (cases "tc_state s") (auto simp: core_def is_open_def)
  have "spec_calls (heap_fd ?h) (heap_phase ?h) (map (Pair 0) (tc_calls s)) = Some ((heap_phase ?h)(0 := p))"
    by (rule spec_calls_single) (use assms(2) p in \<open>simp_all add: calls_phase_def heap_phase_def fd\<close>)
  then obtain e q where eq: "run_calls ep_call (map (Pair 0) (tc_calls s)) (EPollPoller_new ?h) = Inr e"
      "run_calls pp_call (map (Pair 0) (tc_calls s)) (PollPoller_new ?h) = Inr q" "ep_interest e = pp_interest q"
      "\<forall>n c ev. ep_interest e n = Some (c, ev) \<longleftrightarrow> ((heap_phase ?h)(0 := p)) c = Watched ev \<and> heap_fd ?h c = n"
    using pollers_agree [OF fresh] by blast
  have i: "ep_interest e fd = Some (c, ev) \<longleftrightarrow> c = 0 \<and> p = Watched ev" for c ev
    using eq(4) by (auto simp: heap_phase_def fd split: if_splits)
  have "ep_interest e fd = (case p of Watched ev \<Rightarrow> Some (0, ev) | _ \<Rightarrow> None)"
    using i by (cases "ep_interest e fd"; cases p) auto
  moreover have "p = Watched (open_events (content (tc_outputBuffer s)))" if "is_open s"
    using c p that by (simp add: core_def)
  moreover have "p \<in> {Fresh, Ignored, Gone}" if "\<not> is_open s"
    using c p that by (cases "tc_state s") (auto simp: core_def is_open_def split: if_splits)
  ultimately have "ep_interest e fd = (if is_open s then Some (0, open_events (content (tc_outputBuffer s))) else None)"
    by auto
  then show ?thesis using eq(1-3) by (auto simp: is_open_def open_events_def event_defs)
qed

theorem connection_watched_witness:
  "\<exists>e. run_calls ep_call [(0, Update 3), (0, Update 7)] (EPollPoller_new [0 \<mapsto> Channel_new 5]) = Inr e \<and>
     ep_interest e 5 = Some (0, 7)"
  using connection_watched [OF demo_conn_reach, of 5]
  by (auto simp: demo_conn_def TcpConnection_new_def content_def range_of_def event_defs)

text \<open>
  A graceful close can lose what another thread has sent: \<open>send\<close> in another thread only queues
  the message, and when the loop's thread shuts the connection down before it runs, the end of the
  stream goes out first and the message is then refused by the kernel.
\<close>

theorem other_thread_send_lost:
  assumes "data \<noteq> []"
  shows "\<exists>s1 s2 s3 s4. conn_do (Establish []) (TcpConnection_new False False hwm) = Inr s1 \<and>
    conn_do (OtherSend data) s1 = Inr s2 \<and> tc_functors s2 = [SendInLoop data] \<and>
    conn_do (UserCode [Shutdown]) s2 = Inr s3 \<and> tc_fin s3 = Some [] \<and>
    conn_do (RunFunctor (WriteErr EPIPE) []) s3 = Inr s4 \<and> tc_functors s4 = [] \<and> tc_wire s4 = [] \<and>
    content (tc_outputBuffer s4) = []"
  using assms
  by (simp add: connectEstablished_def TcpConnection_new_def set_events_def call_user_def tc_send_def sendInLoop_def
      tc_shutdown_def shutdownInLoop_def queue_functor_def readable_new Let_def)

theorem other_thread_send_lost_witness:
  "\<exists>s1 s2. conn_do (Establish []) (TcpConnection_new False False 100) = Inr s1 \<and>
    conn_do (OtherSend [7]) s1 = Inr s2 \<and> tc_functors s2 = [SendInLoop [7]]"
  using other_thread_send_lost [of "[7]" 100] by blast

text \<open>
  Destroying a half-closed connection (\<open>TcpServer\<close>'s destructor does) fails the assertion of
  \<open>Channel::remove\<close>, as only \<open>kConnected\<close> switches the channel off.
\<close>

lemma connectDestroyed_half_closed:
  assumes "conn_reach others s" and "tc_state s = kDisconnecting"
  shows "connectDestroyed acts s = Inl Abort"
proof -
  have "tc_events s \<noteq> 0"
    using conn_reach_inv [OF assms(1)] assms(2) by (auto simp: conn_inv_def core_def is_open_def)
  then show ?thesis
    using assms(2) by (simp add: connectDestroyed_def channel_remove_def isNoneEvent_def kNoneEvent_def assert_res_def)
qed

text \<open>A hang-up that comes with urgent data but nothing to read closes the connection twice.\<close>

lemma hangup_with_urgent_data:
  assumes "core s" and "is_open s"
  shows "conn_do (Event (POLLHUP OR POLLPRI) (ReadOk []) wr [] []) s = Inl Abort"
proof -
  obtain s1 where s1: "handleClose [] s = Inr s1" "core s1" "tc_state s1 = kDisconnected"
    using handleClose_ok [OF assms, of "[]"] by blast
  obtain b n where b: "readFd (tc_inputBuffer s1) (ReadOk []) = Inr (0, n, b)"
    using readFd_correct [OF coreD(1) [OF s1(2)], of "[]"] by auto
  have "tc_handleRead (ReadOk []) [] [] s1 = Inl Abort"
    using b s1(3) by (simp add: tc_handleRead_def handleClose_def)
  then show ?thesis
    using s1(1)
    by (simp add: handleEvent_def handleEventWithGuard_def call_if_def conn_callbacks_def handleError_def event_defs)
qed

end
