(* ===== verification/BankConnection.thy ===== *)
theory BankConnection imports BankServer TcpConnection begin

text \<open>
  The bank server's \<open>onMessage\<close> as the message callback of a \<open>TcpConnection\<close>: from the bytes the kernel
  delivers to the bytes it takes.  This composes \<open>muduo/net/TcpConnection.cc\<close>, \<open>muduo/net/Buffer.h\<close> and
  \<open>bankserver/BankServer.cc\<close> in the loop's thread.

  The theorem shows that what goes out on the wire is, at any moment, an initial part of the answers to what
  came in, however the kernel cuts both streams into reads and writes.
\<close>

subsection \<open>The bank on a connection\<close>

text \<open>
  What the callback does to the connection: it sends every answer, \<open>answers\<close> being what \<open>write(2)\<close> says to
  each, and takes the served packets out of the input buffer.
\<close>

definition bank_acts :: "bytes list \<Rightarrow> write_answer list \<Rightarrow> nat \<Rightarrow> user_act list" where
  "bank_acts sent answers n = map2 Send sent answers @ [Consume n]"

text \<open>
  \<open>bank_conn R bs tc w\<close>: a connection in the state \<open>tc\<close> with the session \<open>bs\<close> that has received \<open>R\<close>, while
  the peer keeps its end open; \<open>w\<close> is the state of the world of the database.
\<close>

inductive bank_conn :: "('d, 'w) bank \<Rightarrow> bytes \<Rightarrow> 'w \<Rightarrow> bytes \<Rightarrow> bank_session \<Rightarrow> tcpconn \<Rightarrow> 'w \<Rightarrow> bool"
  for B mem w0 where
  bank_new: "connectEstablished [] (TcpConnection_new False False default_highWaterMark) = Inr tc \<Longrightarrow>
     onConnection True mem None = Some bs \<Longrightarrow> bank_conn B mem w0 [] bs tc w0"
| bank_read: "bank_conn B mem w0 R bs tc w \<Longrightarrow> c \<noteq> [] \<Longrightarrow>
     readFd (tc_inputBuffer tc) (ReadOk c) = Inr (n, e, buf) \<Longrightarrow>
     onMessage B bs buf [] w = (Inr (bs', buf', sent), w') \<Longrightarrow>
     length answers = length sent \<Longrightarrow> WriteErr EPIPE \<notin> set answers \<Longrightarrow>
     op = Event POLLIN (ReadOk c) (Wrote 0) (bank_acts sent answers (readableBytes buf - readableBytes buf')) [] \<Longrightarrow>
     can_happen False op tc \<Longrightarrow> conn_do op tc = Inr tc' \<Longrightarrow>
     bank_conn B mem w0 (R @ c) bs' tc' w'"
| bank_write: "bank_conn B mem w0 R bs tc w \<Longrightarrow> op = Event POLLOUT rd wr [] [] \<Longrightarrow>
     can_happen False op tc \<Longrightarrow> conn_do op tc = Inr tc' \<Longrightarrow> bank_conn B mem w0 R bs tc' w"

lemma pollin_event:
  "handleEvent True True (conn_callbacks rd wr on_message on_connection) POLLIN tc = tc_handleRead rd on_message on_connection tc"
  by (cases "tc_handleRead rd on_message on_connection tc")
    (simp_all add: handleEvent_def handleEventWithGuard_def conn_callbacks_def call_if_def event_defs)

lemma pollout_event:
  "handleEvent True True (conn_callbacks rd wr on_message on_connection) POLLOUT tc = handleWrite wr tc"
  by (simp add: handleEvent_def handleEventWithGuard_def conn_callbacks_def call_if_def event_defs)

lemma send_frame:
  "sendInLoop wr data s = Inr s' \<Longrightarrow> tc_inputBuffer s' = tc_inputBuffer s"
  by (auto simp: sendInLoop_def Let_def assert_res_Inr bind_res_Inr queue_functor_def set_events_def
      split: if_splits write_answer.splits prod.splits)

lemma write_frame:
  "handleWrite wr s = Inr s' \<Longrightarrow> tc_state s = kConnected \<Longrightarrow>
     tc_inputBuffer s' = tc_inputBuffer s \<and> tc_state s' = kConnected \<and> tc_taken s' = tc_taken s"
  by (auto simp: handleWrite_def Let_def bind_res_Inr queue_functor_def set_events_def split: if_splits)

lemma sends_taken:
  fixes s s' :: tcpconn
  assumes "core s" and "tc_state s = kConnected" and "length answers = length sent" and "WriteErr EPIPE \<notin> set answers"
    and "user_run (map2 Send sent answers @ acts) s = Inr s'"
  shows "\<exists>s1. user_run acts s1 = Inr s' \<and> core s1 \<and> tc_state s1 = kConnected \<and> tc_taken s1 = tc_taken s @ concat sent
           \<and> tc_inputBuffer s1 = tc_inputBuffer s"
  using assms
proof (induction sent arbitrary: answers s)
  case Nil
  then show ?case by (intro exI [of _ s]) simp
next
  case (Cons d ds)
  obtain a as where a: "answers = a # as" using Cons.prems(3) by (cases answers) auto
  obtain s2 where s2: "sendInLoop a d s = Inr s2" "core s2" "tc_state s2 = kConnected" "tc_taken s2 = tc_taken s @ d"
    using sendInLoop_ok [OF Cons.prems(1), of a d] Cons.prems(2,4) a by (auto simp: is_open_def)
  have "user_run (map2 Send ds as @ acts) s2 = Inr s'"
    using Cons.prems(2,5) a s2(1) by (simp add: tc_send_def)
  with Cons.IH [OF s2(2,3), of as] obtain s1 where "user_run acts s1 = Inr s'" "core s1" "tc_state s1 = kConnected"
      "tc_taken s1 = tc_taken s2 @ concat ds" "tc_inputBuffer s1 = tc_inputBuffer s2"
    using Cons.prems(3,4) a by auto
  then show ?case using s2(4) send_frame [OF s2(1)] by (intro exI [of _ s1]) simp
qed

text \<open>One read, from the input buffer to the answers.\<close>

lemma bank_turn:
  fixes tc tc' :: tcpconn
  assumes "core tc" and "tc_state tc = kConnected" and "c \<noteq> []" and "readv_fits (tc_inputBuffer tc) (ReadOk c)"
    and rd: "readFd (tc_inputBuffer tc) (ReadOk c) = Inr (n, e, buf)"
    and om: "onMessage B bs buf [] w = (Inr (bs', buf', sent), w')"
    and "length answers = length sent" "WriteErr EPIPE \<notin> set answers"
    and run: "tc_handleRead (ReadOk c) (bank_acts sent answers (readableBytes buf - readableBytes buf')) [] tc = Inr tc'"
  shows "serve B bs (content (tc_inputBuffer tc) @ c) w = (Inr (bs', content (tc_inputBuffer tc'), sent), w')
       \<and> tc_taken tc' = tc_taken tc @ concat sent \<and> tc_state tc' = kConnected"
proof -
  have inb: "Buffer_inv (tc_inputBuffer tc)" using assms(1) by (simp add: core_def)
  obtain b where b: "readFd (tc_inputBuffer tc) (ReadOk c) = Inr (int (length c), None, b)" "Buffer_inv b"
      "content b = content (tc_inputBuffer tc) @ c"
    using readFd_correct [OF inb] assms(4) by blast
  have buf: "n = int (length c)" "buf = b" using rd b(1) by simp_all
  have sv: "serve B bs (content buf) w = (Inr (bs', content buf', sent), w')" and buf': "Buffer_inv buf'"
    using onMessage_serve [OF b(2), of B bs "[]" w] om buf(2) by (simp_all add: run_view_def)
  obtain used where used: "content buf = used @ content buf'" using serve_rest [OF sv] by blast
  let ?s = "call_user MessageCb (tc\<lparr>tc_inputBuffer := buf\<rparr>)"
  have cs: "core ?s" using assms(1) b(2) buf(2) by (simp add: core_def call_user_def is_open_def)
  have st: "tc_state ?s = kConnected" using assms(2) by (simp add: call_user_def)
  have "user_run (bank_acts sent answers (readableBytes buf - readableBytes buf')) ?s = Inr tc'"
    using run rd buf(1) assms(3) by (simp add: tc_handleRead_def)
  then obtain s1 where s1: "user_run [Consume (readableBytes buf - readableBytes buf')] s1 = Inr tc'" "core s1"
      "tc_state s1 = kConnected" "tc_taken s1 = tc_taken ?s @ concat sent" "tc_inputBuffer s1 = tc_inputBuffer ?s"
    using sends_taken [OF cs st assms(7,8)] unfolding bank_acts_def by blast
  have len: "readableBytes buf = length (content buf)" "readableBytes buf' = length (content buf')"
    using b(2) buf(2) buf' by simp_all
  have n: "readableBytes buf - readableBytes buf' = length used" using used len by simp
  obtain b2 where b2: "retrieve buf (length used) = Inr b2" "content b2 = drop (length used) (content buf)"
    using retrieve_correct [of buf "length used"] b(2) buf(2) used len(1) by auto
  have "tc' = s1\<lparr>tc_inputBuffer := b2\<rparr>"
    using s1(1,5) b2(1) n used len(1) by (simp add: call_user_def min_def)
  moreover have "content b2 = content buf'" using b2(2) used by simp
  ultimately show ?thesis using sv b(3) buf(2) s1(3,4) by (simp add: call_user_def)
qed

subsection \<open>From wire to wire\<close>

lemma bank_conn_inv:
  assumes "bank_conn B mem w0 R bs tc w"
  shows "conn_reach False tc \<and> tc_state tc = kConnected \<and>
    (\<exists>out. serve B (BankSession_new mem) R w0 = (Inr (bs, content (tc_inputBuffer tc), out), w) \<and> tc_taken tc = concat out)"
  using assms
proof (induction rule: bank_conn.induct)
  case (bank_new tc bs)
  have "conn_reach False tc"
    by (rule conn_step [OF conn_new, of _ "Establish []"]) (use bank_new(1) in \<open>simp_all add: TcpConnection_new_def\<close>)
  moreover have "tc_state tc = kConnected" "tc_taken tc = []" "content (tc_inputBuffer tc) = []"
    using bank_new(1) by (auto simp: connectEstablished_def TcpConnection_new_def set_events_def call_user_def Let_def)
  ultimately show ?case using bank_new(2) by (simp add: onConnection_def serve.simps)
next
  case (bank_read R bs tc w c n e buf bs' buf' sent w' answers op tc')
  obtain out where inv: "conn_reach False tc" "tc_state tc = kConnected" "tc_taken tc = concat out"
      "serve B (BankSession_new mem) R w0 = (Inr (bs, content (tc_inputBuffer tc), out), w)"
    using bank_read.IH by blast
  have core: "core tc" using conn_reach_inv [OF inv(1)] by (simp add: conn_inv_def)
  have fits: "readv_fits (tc_inputBuffer tc) (ReadOk c)" using bank_read.hyps(7,8) by simp
  have run: "tc_handleRead (ReadOk c) (bank_acts sent answers (readableBytes buf - readableBytes buf')) [] tc = Inr tc'"
    using bank_read.hyps(7,9) by (simp add: pollin_event)
  note turn = bank_turn [OF core inv(2) bank_read.hyps(2) fits bank_read.hyps(3,4,5,6) run]
  have "serve B (BankSession_new mem) (R @ c) w0 = (Inr (bs', content (tc_inputBuffer tc'), out @ sent), w')"
    using turn inv(4) by (simp add: serve_append serve_then_def)
  moreover have "conn_reach False tc'" by (rule conn_step [OF inv(1) bank_read.hyps(8,9)])
  ultimately show ?case using turn inv(3) by (intro conjI exI [of _ "out @ sent"]) simp_all
next
  case (bank_write R bs tc w op rd wr tc')
  have "handleWrite wr tc = Inr tc'" using bank_write.hyps(2,4) by (simp add: pollout_event)
  moreover have "conn_reach False tc'" using bank_write conn_step by blast
  ultimately show ?case using bank_write.IH write_frame [of wr tc tc'] by auto
qed

text \<open>
  C5: The bank server from wire to wire: whatever the kernel delivers, in pieces of any size, and however
  little each \<open>write(2)\<close> takes, the bytes the client has received followed by those that wait in the
  output buffer are exactly the answers to the complete packets in the bytes it has sent, whole and in
  order, and what is left in the input buffer is the packet that is not complete yet.
\<close>

theorem bank_wire_to_wire:
  assumes "bank_conn B mem w0 R bs tc w"
  shows "\<exists>out. serve B (BankSession_new mem) R w0 = (Inr (bs, content (tc_inputBuffer tc), out), w)
           \<and> tc_wire tc @ content (tc_outputBuffer tc) = concat out
           \<and> (length (content (tc_inputBuffer tc)) < 4
                \<or> length (content (tc_inputBuffer tc)) < packet_length (content (tc_inputBuffer tc)))"
proof -
  obtain out where out: "conn_reach False tc" "tc_taken tc = concat out"
      "serve B (BankSession_new mem) R w0 = (Inr (bs, content (tc_inputBuffer tc), out), w)"
    using bank_conn_inv [OF assms] by blast
  have "core tc" using conn_reach_inv [OF out(1)] by (simp add: conn_inv_def)
  then have "tc_wire tc @ content (tc_outputBuffer tc) = concat out" using out(2) by (simp add: core_def)
  then show ?thesis using out(3) serve_rest [OF out(3)] by blast
qed

text \<open>A new connection on which the first three bytes of a packet have arrived.\<close>

lemma demo_bank_conn:
  fixes B :: "('d, 'w) bank"
  shows "\<exists>tc. bank_conn B mem w [0, 1, 0] (BankSession_new mem) tc w"
proof -
  let ?tc = "set_events 3 (call_user (ConnectionCb True) ((TcpConnection_new False False default_highWaterMark)\<lparr>tc_state := kConnected\<rparr>))"
  let ?bs = "BankSession_new mem" and ?c = "[0, 1, 0] :: bytes"
  have est: "connectEstablished [] (TcpConnection_new False False default_highWaterMark) = Inr ?tc"
    by (simp add: connectEstablished_def TcpConnection_new_def set_events_def call_user_def enableReading_def kReadEvent_def event_defs Let_def)
  have 0: "bank_conn B mem w [] ?bs ?tc w" by (rule bank_new [OF est]) (simp add: onConnection_def)
  have inb: "tc_inputBuffer ?tc = Buffer_new" by (simp add: TcpConnection_new_def set_events_def call_user_def)
  obtain buf where buf: "readFd (tc_inputBuffer ?tc) (ReadOk ?c) = Inr (3, None, buf)" "Buffer_inv buf" "content buf = ?c"
    using readFd_correct [of Buffer_new ?c] inb by auto
  have three: "readableBytes buf = 3" using arg_cong [OF buf(3), of length] buf(2) by simp
  have om: "onMessage B ?bs buf [] w = (Inr (?bs, buf, []), w)"
    using three by (subst onMessage.simps) (simp add: kHeaderLen_def)
  let ?op = "Event POLLIN (ReadOk ?c) (Wrote 0) (bank_acts [] [] (readableBytes buf - readableBytes buf)) []"
  have can: "can_happen False ?op ?tc"
    using inb by (simp add: revents_ok_def event_defs readv_fits_def extrabuf_size_def)
      (simp add: set_events_def call_user_def)
  have r: "conn_reach False ?tc" using bank_conn_inv [OF 0] by simp
  obtain tc' where tc': "conn_do ?op ?tc = Inr tc'" using conn_do_ok [OF conn_reach_inv [OF r] can] by blast
  have "bank_conn B mem w ([] @ ?c) ?bs tc' w"
    by (rule bank_read [OF 0 _ buf(1) om _ _ refl can tc']) simp_all
  then show ?thesis by (intro exI [of _ tc']) simp
qed

theorem bank_wire_to_wire_witness:
  "\<forall>(B :: ('d, 'w) bank) mem w. \<exists>tc :: tcpconn. tc_wire tc @ content (tc_outputBuffer tc) = []
     \<and> serve B (BankSession_new mem) [0, 1, 0] w = (Inr (BankSession_new mem, content (tc_inputBuffer tc), []), w)"
proof (intro allI)
  fix B :: "('d, 'w) bank" and mem :: bytes and w :: 'w
  obtain tc where tc: "bank_conn B mem w [0, 1, 0] (BankSession_new mem) tc w"
    using demo_bank_conn [of B mem w] by blast
  have "serve B (BankSession_new mem) [0, 1, 0] w = (Inr (BankSession_new mem, [0, 1, 0], []), w)"
    by (subst serve.simps) simp
  then show "\<exists>tc :: tcpconn. tc_wire tc @ content (tc_outputBuffer tc) = []
     \<and> serve B (BankSession_new mem) [0, 1, 0] w = (Inr (BankSession_new mem, content (tc_inputBuffer tc), []), w)"
    using bank_wire_to_wire [OF tc] by (intro exI [of _ tc]) simp
qed

end
