(* ===== verification/Timers.thy ===== *)
theory Timers imports Prelude "HOL-Library.Product_Lexorder" "HOL-Library.Extended_Nat"
  "HOL-Library.Signed_Division" begin

text \<open>
  \<open>muduo/base/Timestamp\<close>, \<open>muduo/net/Timer\<close> and \<open>muduo/net/TimerQueue\<close>: the timers of an event
  loop, as the loop's thread works on them.  \<open>Timer\<close> objects live on a heap; the two
  \<open>std::set\<close>s of the queue are sorted lists without duplicates.  \<open>operator new\<close> is the argument
  \<open>alloc\<close>, the actions of a callback on the queue are the argument \<open>does\<close>, and a use of a deleted
  object is \<open>OutOfBounds\<close>.

  Times are microseconds; \<open>double\<close> appears only as the length of an interval, of which the code
  uses the sign and the microseconds (\<open>durations\<close>).
\<close>

subsection \<open>Timestamps\<close>

definition kMicroSecondsPerSecond :: int where
  "kMicroSecondsPerSecond = 1000 * 1000"

definition Timestamp_invalid :: int where
  "Timestamp_invalid = 0"

definition Timestamp_valid :: "int \<Rightarrow> bool" where
  "Timestamp_valid t \<longleftrightarrow> t > 0"

record 'd durations =
  dur_positive :: "'d \<Rightarrow> bool"
  dur_us :: "'d \<Rightarrow> int"

definition addTime :: "'d durations \<Rightarrow> int \<Rightarrow> 'd \<Rightarrow> int" where
  "addTime D timestamp seconds = (let delta = dur_us D seconds in timestamp + delta)"

subsection \<open>Timers\<close>

record ('c, 'd) timer =
  tm_callback :: 'c
  tm_expiration :: int
  tm_interval :: 'd
  tm_repeat :: bool
  tm_sequence :: int

text \<open>\<open>numCreated\<close> is the value of the static counter; it is incremented first.\<close>

definition Timer_new :: "'d durations \<Rightarrow> int \<Rightarrow> 'c \<Rightarrow> int \<Rightarrow> 'd \<Rightarrow> ('c, 'd) timer" where
  "Timer_new D numCreated cb when interval =
     \<lparr>tm_callback = cb, tm_expiration = when, tm_interval = interval, tm_repeat = dur_positive D interval,
      tm_sequence = numCreated + 1\<rparr>"

definition Timer_restart :: "'d durations \<Rightarrow> int \<Rightarrow> ('c, 'd) timer \<Rightarrow> ('c, 'd) timer" where
  "Timer_restart D now timer =
     (if tm_repeat timer then timer\<lparr>tm_expiration := addTime D now (tm_interval timer)\<rparr>
      else timer\<lparr>tm_expiration := Timestamp_invalid\<rparr>)"

subsection \<open>The queue\<close>

type_synonym addr = nat

text \<open>
  \<open>tq_timerfd\<close> is the setting of the one-shot alarm: the time of the call of \<open>timerfd_settime\<close> and
  the relative time it got; none before the first call and after it went off.
\<close>

record ('c, 'd) timerq =
  tq_heap :: "addr \<Rightarrow> ('c, 'd) timer option"
  s_numCreated :: int
  tq_timers :: "(int \<times> addr) list"
  tq_active :: "(addr \<times> int) list"
  tq_calling :: bool
  tq_canceling :: "(addr \<times> int) list"
  tq_timerfd :: "(int \<times> int \<times> int) option"

definition TimerQueue_new :: "('c, 'd) timerq" where
  "TimerQueue_new = \<lparr>tq_heap = Map.empty, s_numCreated = 0, tq_timers = [], tq_active = [],
     tq_calling = False, tq_canceling = [], tq_timerfd = None\<rparr>"

text \<open>Seconds and nanoseconds; C++ division truncates.\<close>

definition howMuchTimeFromNow :: "int \<Rightarrow> int \<Rightarrow> int \<times> int" where
  "howMuchTimeFromNow now when =
     (let microseconds = when - now;
          microseconds = (if microseconds < 100 then 100 else microseconds)
      in (microseconds sdiv kMicroSecondsPerSecond, (microseconds smod kMicroSecondsPerSecond) * 1000))"

definition resetTimerfd :: "int \<Rightarrow> int \<Rightarrow> ('c, 'd) timerq \<Rightarrow> ('c, 'd) timerq" where
  "resetTimerfd now expiration q = q\<lparr>tq_timerfd := Some (now, howMuchTimeFromNow now expiration)\<rparr>"

definition deref :: "('c, 'd) timerq \<Rightarrow> addr \<Rightarrow> ('c, 'd) timer res" where
  "deref q a = (case tq_heap q a of Some timer \<Rightarrow> Inr timer | None \<Rightarrow> Inl OutOfBounds)"

definition same_size :: "('c, 'd) timerq \<Rightarrow> bool" where
  "same_size q \<longleftrightarrow> length (tq_timers q) = length (tq_active q)"

definition tq_insert :: "('c, 'd) timerq \<Rightarrow> addr \<Rightarrow> (bool \<times> ('c, 'd) timerq) res" where
  "tq_insert q a =
     assert_res (same_size q)
     (bind_res (deref q a) (\<lambda>timer.
      let when = tm_expiration timer;
          earliestChanged = (tq_timers q = [] \<or> when < fst (hd (tq_timers q)))
      in assert_res ((when, a) \<notin> set (tq_timers q))
         (let q = q\<lparr>tq_timers := insort (when, a) (tq_timers q)\<rparr> in
          assert_res ((a, tm_sequence timer) \<notin> set (tq_active q))
          (let q = q\<lparr>tq_active := insort (a, tm_sequence timer) (tq_active q)\<rparr> in
           assert_res (same_size q) (Inr (earliestChanged, q))))))"

definition addTimerInLoop :: "int \<Rightarrow> addr \<Rightarrow> ('c, 'd) timerq \<Rightarrow> ('c, 'd) timerq res" where
  "addTimerInLoop now a q =
     bind_res (tq_insert q a) (\<lambda>(earliestChanged, q).
     if earliestChanged
     then bind_res (deref q a) (\<lambda>timer. Inr (resetTimerfd now (tm_expiration timer) q))
     else Inr q)"

text \<open>\<open>new Timer\<close> and its insertion; the result is the \<open>TimerId\<close>.\<close>

definition addTimer ::
  "(('c, 'd) timerq \<Rightarrow> addr) \<Rightarrow> 'd durations \<Rightarrow> int \<Rightarrow> 'c \<Rightarrow> int \<Rightarrow> 'd \<Rightarrow> ('c, 'd) timerq
     \<Rightarrow> ((addr \<times> int) \<times> ('c, 'd) timerq) res" where
  "addTimer alloc D now cb when interval q =
     (let a = alloc q;
          timer = Timer_new D (s_numCreated q) cb when interval;
          q = q\<lparr>s_numCreated := s_numCreated q + 1, tq_heap := (tq_heap q)(a \<mapsto> timer)\<rparr>
      in bind_res (addTimerInLoop now a q) (\<lambda>q. Inr ((a, tm_sequence timer), q)))"

definition cancelInLoop :: "addr \<times> int \<Rightarrow> ('c, 'd) timerq \<Rightarrow> ('c, 'd) timerq res" where
  "cancelInLoop timer q =
     assert_res (same_size q)
     (bind_res
       (if timer \<in> set (tq_active q) then
          bind_res (deref q (fst timer)) (\<lambda>t.
          assert_res ((tm_expiration t, fst timer) \<in> set (tq_timers q))
          (Inr (q\<lparr>tq_timers := remove1 (tm_expiration t, fst timer) (tq_timers q),
                  tq_heap := (tq_heap q)(fst timer := None),
                  tq_active := remove1 timer (tq_active q)\<rparr>)))
        else if tq_calling q
        then Inr (q\<lparr>tq_canceling := insort_insert timer (tq_canceling q)\<rparr>)
        else Inr q)
       (\<lambda>q. assert_res (same_size q) (Inr q)))"

text \<open>\<open>*it < sentry\<close>, the sentry being the pair of \<open>now\<close> and the largest address.\<close>

definition before_sentry :: "int \<Rightarrow> int \<times> addr \<Rightarrow> bool" where
  "before_sentry now e \<longleftrightarrow> (fst e, enat (snd e)) < (now, \<infinity>)"

fun erase_active :: "(int \<times> addr) list \<Rightarrow> ('c, 'd) timerq \<Rightarrow> ('c, 'd) timerq res" where
  "erase_active [] q = Inr q"
| "erase_active (e # es) q =
     bind_res (deref q (snd e)) (\<lambda>timer.
     assert_res ((snd e, tm_sequence timer) \<in> set (tq_active q))
     (erase_active es (q\<lparr>tq_active := remove1 (snd e, tm_sequence timer) (tq_active q)\<rparr>)))"

definition getExpired :: "int \<Rightarrow> ('c, 'd) timerq \<Rightarrow> ((int \<times> addr) list \<times> ('c, 'd) timerq) res" where
  "getExpired now q =
     assert_res (same_size q)
     (let expired = takeWhile (before_sentry now) (tq_timers q);
          later = dropWhile (before_sentry now) (tq_timers q)
      in assert_res (later = [] \<or> now < fst (hd later))
         (bind_res (erase_active expired (q\<lparr>tq_timers := later\<rparr>)) (\<lambda>q.
          assert_res (same_size q) (Inr (expired, q)))))"

text \<open>What a callback can do to the queue of its loop; \<open>now\<close> is the clock at that moment.\<close>

datatype ('c, 'd) act = Add (act_now: int) 'c int 'd | Cancel "addr \<times> int"

fun run_act :: "(('c, 'd) timerq \<Rightarrow> addr) \<Rightarrow> 'd durations \<Rightarrow> ('c, 'd) act \<Rightarrow> ('c, 'd) timerq \<Rightarrow> ('c, 'd) timerq res" where
  "run_act alloc D (Add now cb when interval) q =
     bind_res (addTimer alloc D now cb when interval q) (\<lambda>(_, q). Inr q)"
| "run_act alloc D (Cancel timerId) q = cancelInLoop timerId q"

fun run_acts :: "(('c, 'd) timerq \<Rightarrow> addr) \<Rightarrow> 'd durations \<Rightarrow> ('c, 'd) act list \<Rightarrow> ('c, 'd) timerq \<Rightarrow> ('c, 'd) timerq res" where
  "run_acts alloc D [] q = Inr q"
| "run_acts alloc D (x # xs) q = bind_res (run_act alloc D x q) (run_acts alloc D xs)"

text \<open>The loop over the expired timers; it also returns which callbacks ran, with the timers' numbers.\<close>

fun run_expired ::
  "(('c, 'd) timerq \<Rightarrow> addr) \<Rightarrow> 'd durations \<Rightarrow> ('c \<Rightarrow> ('c, 'd) timerq \<Rightarrow> ('c, 'd) act list) \<Rightarrow> (int \<times> addr) list
     \<Rightarrow> ('c, 'd) timerq \<Rightarrow> (('c \<times> int) list \<times> ('c, 'd) timerq) res" where
  "run_expired alloc D does [] q = Inr ([], q)"
| "run_expired alloc D does (e # es) q =
     bind_res (deref q (snd e)) (\<lambda>timer.
     bind_res (run_acts alloc D (does (tm_callback timer) q) q) (\<lambda>q.
     bind_res (run_expired alloc D does es q) (\<lambda>(ran, q).
     Inr ((tm_callback timer, tm_sequence timer) # ran, q))))"

fun reset_loop :: "'d durations \<Rightarrow> (int \<times> addr) list \<Rightarrow> int \<Rightarrow> ('c, 'd) timerq \<Rightarrow> ('c, 'd) timerq res" where
  "reset_loop D [] now q = Inr q"
| "reset_loop D (e # es) now q =
     bind_res (deref q (snd e)) (\<lambda>timer.
     if tm_repeat timer \<and> (snd e, tm_sequence timer) \<notin> set (tq_canceling q)
     then bind_res (tq_insert (q\<lparr>tq_heap := (tq_heap q)(snd e \<mapsto> Timer_restart D now timer)\<rparr>) (snd e))
            (\<lambda>(_, q). reset_loop D es now q)
     else reset_loop D es now (q\<lparr>tq_heap := (tq_heap q)(snd e := None)\<rparr>))"

text \<open>\<open>now2\<close> is the clock when the alarm is set.\<close>

definition tq_reset ::
  "'d durations \<Rightarrow> (int \<times> addr) list \<Rightarrow> int \<Rightarrow> int \<Rightarrow> ('c, 'd) timerq \<Rightarrow> ('c, 'd) timerq res" where
  "tq_reset D expired now now2 q =
     bind_res (reset_loop D expired now q) (\<lambda>q.
     bind_res (if tq_timers q \<noteq> []
               then bind_res (deref q (snd (hd (tq_timers q)))) (\<lambda>timer. Inr (tm_expiration timer))
               else Inr Timestamp_invalid) (\<lambda>nextExpire.
     Inr (if Timestamp_valid nextExpire then resetTimerfd now2 nextExpire q else q)))"

definition handleRead ::
  "(('c, 'd) timerq \<Rightarrow> addr) \<Rightarrow> 'd durations \<Rightarrow> ('c \<Rightarrow> ('c, 'd) timerq \<Rightarrow> ('c, 'd) act list) \<Rightarrow> int \<Rightarrow> int
     \<Rightarrow> ('c, 'd) timerq \<Rightarrow> (('c \<times> int) list \<times> ('c, 'd) timerq) res" where
  "handleRead alloc D does now now2 q =
     (let q = q\<lparr>tq_timerfd := None\<rparr> in
      bind_res (getExpired now q) (\<lambda>(expired, q).
      let q = q\<lparr>tq_calling := True, tq_canceling := []\<rparr> in
      bind_res (run_expired alloc D does expired q) (\<lambda>(ran, q).
      let q = q\<lparr>tq_calling := False\<rparr> in
      bind_res (tq_reset D expired now now2 q) (\<lambda>q. Inr (ran, q)))))"

text \<open>The destructor deletes the timers of the first set.\<close>

fun TimerQueue_dtor :: "(int \<times> addr) list \<Rightarrow> ('c, 'd) timerq \<Rightarrow> ('c, 'd) timerq res" where
  "TimerQueue_dtor [] q = Inr q"
| "TimerQueue_dtor (e # es) q =
     bind_res (deref q (snd e)) (\<lambda>_. TimerQueue_dtor es (q\<lparr>tq_heap := (tq_heap q)(snd e := None)\<rparr>))"

subsection \<open>Well-formed queues\<close>

text \<open>
  \<open>E\<close> are the timers taken out of the queue while their callbacks run; every other object on the
  heap is in both sets.
\<close>

definition tq_wf :: "addr list \<Rightarrow> ('c, 'd) timerq \<Rightarrow> bool" where
  "tq_wf E q \<longleftrightarrow> finite (dom (tq_heap q)) \<and> sorted (tq_timers q) \<and> distinct (tq_timers q) \<and>
     sorted (tq_active q) \<and> distinct (tq_active q) \<and> distinct E \<and> set E \<subseteq> dom (tq_heap q) \<and>
     (\<forall>t a. (t, a) \<in> set (tq_timers q) \<longleftrightarrow> a \<notin> set E \<and> (\<exists>tm. tq_heap q a = Some tm \<and> tm_expiration tm = t)) \<and>
     (\<forall>a n. (a, n) \<in> set (tq_active q) \<longleftrightarrow> a \<notin> set E \<and> (\<exists>tm. tq_heap q a = Some tm \<and> tm_sequence tm = n)) \<and>
     (\<forall>a tm. tq_heap q a = Some tm \<longrightarrow> tm_sequence tm \<le> s_numCreated q) \<and>
     (\<forall>a b tm tm'. tq_heap q a = Some tm \<longrightarrow> tq_heap q b = Some tm' \<longrightarrow> tm_sequence tm = tm_sequence tm' \<longrightarrow> a = b)"

lemma tq_wfD:
  assumes "tq_wf E q"
  shows "finite (dom (tq_heap q))" "sorted (tq_timers q)" "distinct (tq_timers q)"
    "sorted (tq_active q)" "distinct (tq_active q)" "distinct E" "set E \<subseteq> dom (tq_heap q)"
    "\<And>t a. (t, a) \<in> set (tq_timers q) \<longleftrightarrow> a \<notin> set E \<and> (\<exists>tm. tq_heap q a = Some tm \<and> tm_expiration tm = t)"
    "\<And>a n. (a, n) \<in> set (tq_active q) \<longleftrightarrow> a \<notin> set E \<and> (\<exists>tm. tq_heap q a = Some tm \<and> tm_sequence tm = n)"
    "\<And>a tm. tq_heap q a = Some tm \<Longrightarrow> tm_sequence tm \<le> s_numCreated q"
    "\<And>a b tm tm'. tq_heap q a = Some tm \<Longrightarrow> tq_heap q b = Some tm' \<Longrightarrow> tm_sequence tm = tm_sequence tm' \<Longrightarrow> a = b"
  using assms unfolding tq_wf_def by blast+

lemma tq_wf_new: "tq_wf [] TimerQueue_new"
  by (simp add: tq_wf_def TimerQueue_new_def)

lemma tq_wf_sizes:
  assumes "tq_wf E q"
  shows "same_size q"
proof -
  note w = tq_wfD [OF assms]
  have "inj_on snd (set (tq_timers q))" "inj_on fst (set (tq_active q))"
    using w(8,9) by (auto simp: inj_on_def)
  moreover have "snd ` set (tq_timers q) = dom (tq_heap q) - set E"
    using w(8) by (force simp: image_iff)
  moreover have "fst ` set (tq_active q) = dom (tq_heap q) - set E"
    using w(9) by (force simp: image_iff)
  ultimately have "card (set (tq_timers q)) = card (set (tq_active q))"
    by (metis card_image)
  then show ?thesis
    using distinct_card [OF w(3)] distinct_card [OF w(5)] by (simp add: same_size_def)
qed

lemma tq_insert_ok:
  assumes "tq_wf (a # E) q"
  shows "\<exists>ec q'. tq_insert q a = Inr (ec, q') \<and> tq_wf E q' \<and> tq_heap q' = tq_heap q \<and>
    s_numCreated q' = s_numCreated q \<and> tq_calling q' = tq_calling q \<and> tq_canceling q' = tq_canceling q \<and>
    tq_timerfd q' = tq_timerfd q \<and>
    (\<exists>tm. tq_heap q a = Some tm \<and> tq_timers q' = insort (tm_expiration tm, a) (tq_timers q) \<and>
       (ec \<longleftrightarrow> tq_timers q = [] \<or> tm_expiration tm < fst (hd (tq_timers q))))"
proof -
  note w = tq_wfD [OF assms]
  obtain tm where tm: "tq_heap q a = Some tm" using w(7) by auto
  have n: "(tm_expiration tm, a) \<notin> set (tq_timers q)" "(a, tm_sequence tm) \<notin> set (tq_active q)"
    using w(8,9) by simp_all
  let ?q = "q\<lparr>tq_timers := insort (tm_expiration tm, a) (tq_timers q),
              tq_active := insort (a, tm_sequence tm) (tq_active q)\<rparr>"
  have wf: "tq_wf E ?q"
    unfolding tq_wf_def using w n tm by (auto simp: set_insort_key sorted_insort distinct_insort)
  have "tq_insert q a = Inr (tq_timers q = [] \<or> tm_expiration tm < fst (hd (tq_timers q)), ?q)"
    using tq_wf_sizes [OF assms] tq_wf_sizes [OF wf] tm n by (simp add: tq_insert_def deref_def Let_def)
  then show ?thesis using wf tm by auto
qed

definition fresh_alloc :: "(('c, 'd) timerq \<Rightarrow> addr) \<Rightarrow> bool" where
  "fresh_alloc alloc \<longleftrightarrow> (\<forall>q. finite (dom (tq_heap q)) \<longrightarrow> tq_heap q (alloc q) = None)"

text \<open>
  A timer that is gone for good: its number was given out, and no object has it.  \<open>kept\<close> is what
  the callbacks do not touch: the objects of the expired timers, and the requests to cancel them.
\<close>

definition gone :: "('c, 'd) timerq \<Rightarrow> int \<Rightarrow> bool" where
  "gone q n \<longleftrightarrow> n \<le> s_numCreated q \<and> (\<forall>a tm. tq_heap q a = Some tm \<longrightarrow> tm_sequence tm \<noteq> n)"

definition kept :: "addr list \<Rightarrow> ('c, 'd) timerq \<Rightarrow> ('c, 'd) timerq \<Rightarrow> bool" where
  "kept E q q' \<longleftrightarrow> (\<forall>a \<in> set E. tq_heap q' a = tq_heap q a) \<and> s_numCreated q \<le> s_numCreated q' \<and>
     tq_calling q' = tq_calling q \<and> set (tq_canceling q) \<subseteq> set (tq_canceling q') \<and> (\<forall>n. gone q n \<longrightarrow> gone q' n)"

lemma kept_refl: "kept E q q"
  by (simp add: kept_def)

lemma kept_trans: "kept E q q' \<Longrightarrow> kept E q' q'' \<Longrightarrow> kept E q q''"
  unfolding kept_def by (metis order_trans)

lemma kept_subset: "kept E q q' \<Longrightarrow> set F \<subseteq> set E \<Longrightarrow> kept F q q'"
  by (auto simp: kept_def)

lemma tq_wf_new_object:
  assumes "tq_wf E q" and "tq_heap q a = None" and "tm_sequence tm = s_numCreated q + 1"
  shows "tq_wf (a # E) (q\<lparr>s_numCreated := s_numCreated q + 1, tq_heap := (tq_heap q)(a \<mapsto> tm)\<rparr>)"
proof -
  note w = tq_wfD [OF assms(1)]
  have "a \<notin> set E" using w(7) assms(2) by auto
  moreover have "tm_sequence tm' \<noteq> s_numCreated q + 1" "tm_sequence tm' \<le> s_numCreated q + 1"
    if "tq_heap q b = Some tm'" for b tm'
    using w(10) [OF that] by simp_all
  ultimately show ?thesis
    unfolding tq_wf_def using w assms(2,3) by (auto; metis)
qed

lemma addTimer_ok:
  assumes "fresh_alloc alloc" and "tq_wf E q"
  shows "\<exists>q' a. addTimer alloc D now cb when interval q = Inr ((a, s_numCreated q + 1), q') \<and>
    tq_wf E q' \<and> kept E q q' \<and> tq_heap q a = None \<and>
    tq_heap q' = (tq_heap q)(a \<mapsto> Timer_new D (s_numCreated q) cb when interval) \<and>
    tq_timers q' = insort (when, a) (tq_timers q) \<and>
    tq_timerfd q' = (if tq_timers q = [] \<or> when < fst (hd (tq_timers q))
                     then Some (now, howMuchTimeFromNow now when) else tq_timerfd q)"
proof -
  note w = tq_wfD [OF assms(2)]
  let ?a = "alloc q" and ?tm = "Timer_new D (s_numCreated q) cb when interval"
  let ?q = "q\<lparr>s_numCreated := s_numCreated q + 1, tq_heap := (tq_heap q)(?a \<mapsto> ?tm)\<rparr>"
  have free: "tq_heap q ?a = None" using assms(1) w(1) by (auto simp: fresh_alloc_def)
  have "tq_wf (?a # E) ?q"
    by (rule tq_wf_new_object [OF assms(2) free]) (simp add: Timer_new_def)
  then obtain ec q' where q': "tq_insert ?q ?a = Inr (ec, q')" "tq_wf E q'" "tq_heap q' = tq_heap ?q"
      "s_numCreated q' = s_numCreated ?q" "tq_calling q' = tq_calling q" "tq_canceling q' = tq_canceling q"
      "tq_timerfd q' = tq_timerfd q" "tq_timers q' = insort (when, ?a) (tq_timers q)"
      "ec \<longleftrightarrow> tq_timers q = [] \<or> when < fst (hd (tq_timers q))"
    using tq_insert_ok by (fastforce simp: Timer_new_def)
  have E: "?a \<notin> set E" using w(7) free by auto
  have g: "gone q n \<Longrightarrow> gone q' n" for n
    using q'(3,4) by (auto simp: gone_def Timer_new_def)
  have k: "kept E q q'" using q' E g by (auto simp: kept_def)
  show ?thesis
  proof (cases ec)
    case True
    let ?r = "resetTimerfd now when q'"
    have "tq_wf E ?r" "kept E q ?r"
      using q'(2) k by (simp_all add: tq_wf_def kept_def gone_def resetTimerfd_def)
    then show ?thesis
      using q' True free
      by (auto simp: addTimer_def addTimerInLoop_def Let_def deref_def resetTimerfd_def Timer_new_def)
  next
    case False
    then show ?thesis
      using q' k free by (auto simp: addTimer_def addTimerInLoop_def Let_def Timer_new_def)
  qed
qed

lemma tq_wf_delete:
  assumes "tq_wf E q" and "tq_heap q a = Some tm" "tm_sequence tm = n" and "a \<notin> set E"
  shows "tq_wf E (q\<lparr>tq_timers := remove1 (tm_expiration tm, a) (tq_timers q), tq_heap := (tq_heap q)(a := None),
              tq_active := remove1 (a, n) (tq_active q)\<rparr>)"
proof -
  note w = tq_wfD [OF assms(1)]
  have t: "(t, b) \<in> set (remove1 (tm_expiration tm, a) (tq_timers q)) \<longleftrightarrow> (t, b) \<in> set (tq_timers q) \<and> b \<noteq> a" for t b
    using w(3) w(8)[of t b] assms(2) by (auto simp: set_remove1_eq)
  have n: "(b, m) \<in> set (remove1 (a, n) (tq_active q)) \<longleftrightarrow> (b, m) \<in> set (tq_active q) \<and> b \<noteq> a" for b m
    using w(5) w(9)[of b m] assms(2,3) by (auto simp: set_remove1_eq)
  let ?q = "q\<lparr>tq_timers := remove1 (tm_expiration tm, a) (tq_timers q), tq_heap := (tq_heap q)(a := None),
              tq_active := remove1 (a, n) (tq_active q)\<rparr>"
  have h: "tq_heap ?q b = Some tm' \<longleftrightarrow> b \<noteq> a \<and> tq_heap q b = Some tm'" for b tm'
    by simp
  have f: "tq_timers ?q = remove1 (tm_expiration tm, a) (tq_timers q)" "tq_active ?q = remove1 (a, n) (tq_active q)"
    "s_numCreated ?q = s_numCreated q" "dom (tq_heap ?q) = dom (tq_heap q) - {a}"
    by simp_all
  show ?thesis
    unfolding tq_wf_def h f t n
  proof (intro conjI)
    show "\<forall>t b. ((t, b) \<in> set (tq_timers q) \<and> b \<noteq> a) = (b \<notin> set E \<and> (\<exists>tm. (b \<noteq> a \<and> tq_heap q b = Some tm) \<and> tm_expiration tm = t))"
      using w(8) by blast
    show "\<forall>b m. ((b, m) \<in> set (tq_active q) \<and> b \<noteq> a) = (b \<notin> set E \<and> (\<exists>tm. (b \<noteq> a \<and> tq_heap q b = Some tm) \<and> tm_sequence tm = m))"
      using w(9) by blast
  qed (use w(1-7,10) assms(4) in \<open>auto simp: sorted_remove1\<close>, use w(11) in blast)
qed

text \<open>The cancelled timer: deleted if it is in the queue; noted if it may be one of the expired ones.\<close>

lemma cancelInLoop_ok:
  assumes "tq_wf E q"
  shows "\<exists>q'. cancelInLoop (a, n) q = Inr q' \<and> tq_wf E q' \<and> kept E q q' \<and> tq_timerfd q' = tq_timerfd q \<and>
    set (tq_timers q') \<subseteq> set (tq_timers q) \<and>
    ((a, n) \<in> set (tq_active q) \<longrightarrow> gone q' n) \<and>
    ((a, n) \<notin> set (tq_active q) \<longrightarrow> tq_heap q' = tq_heap q \<and> (tq_calling q \<longrightarrow> (a, n) \<in> set (tq_canceling q')))"
proof (cases "(a, n) \<in> set (tq_active q)")
  case True
  note w = tq_wfD [OF assms]
  obtain tm where tm: "tq_heap q a = Some tm" "tm_sequence tm = n" and E: "a \<notin> set E"
    using True unfolding w(9) by blast
  have t: "(tm_expiration tm, a) \<in> set (tq_timers q)" unfolding w(8) using tm E by blast
  let ?q = "q\<lparr>tq_timers := remove1 (tm_expiration tm, a) (tq_timers q), tq_heap := (tq_heap q)(a := None),
              tq_active := remove1 (a, n) (tq_active q)\<rparr>"
  have wf: "tq_wf E ?q" using assms tm E by (rule tq_wf_delete)
  have "n \<le> s_numCreated q" using w(10) [OF tm(1)] tm(2) by simp
  moreover have "tm_sequence tm' \<noteq> n" if "tq_heap q b = Some tm'" "b \<noteq> a" for b tm'
    using w(11) [OF that(1) tm(1)] tm(2) that(2) by auto
  ultimately have g: "gone ?q n" by (simp add: gone_def)
  have k: "kept E q ?q" using E by (simp add: kept_def gone_def)
  have "cancelInLoop (a, n) q = Inr ?q"
    using True tm t tq_wf_sizes [OF assms] tq_wf_sizes [OF wf] by (simp add: cancelInLoop_def deref_def)
  moreover have "set (tq_timers ?q) \<subseteq> set (tq_timers q)" by (simp add: set_remove1_subset)
  ultimately show ?thesis using wf g k True by (intro exI [of _ ?q]) simp
next
  case False
  let ?q = "if tq_calling q then q\<lparr>tq_canceling := insort_insert (a, n) (tq_canceling q)\<rparr> else q"
  have "tq_wf E ?q" using assms by (simp add: tq_wf_def)
  moreover have "cancelInLoop (a, n) q = Inr ?q"
    using False tq_wf_sizes [OF assms] by (simp add: cancelInLoop_def same_size_def)
  ultimately show ?thesis
    using False by (intro exI [of _ ?q]) (auto simp: kept_def gone_def set_insort_insert)
qed

subsection \<open>The expired timers\<close>

lemma before_sentry_iff: "before_sentry now e \<longleftrightarrow> fst e \<le> now"
  by (auto simp: before_sentry_def less_prod_def)

lemma split_sorted:
  assumes "sorted (xs :: (int \<times> addr) list)"
  shows "takeWhile (before_sentry now) xs = filter (\<lambda>e. fst e \<le> now) xs \<and>
    dropWhile (before_sentry now) xs = filter (\<lambda>e. now < fst e) xs"
  using assms
proof (induction xs)
  case Nil
  then show ?case by simp
next
  case (Cons x xs)
  have "now < fst y" if "now < fst x" "y \<in> set xs" for y
    using Cons.prems that by (auto simp: less_eq_prod_def)
  then have "filter (\<lambda>e. fst e \<le> now) xs = [] \<and> filter (\<lambda>e. now < fst e) xs = xs" if "now < fst x"
    using that by (auto simp: filter_empty_conv not_le intro!: filter_True)
  then show ?case using Cons by (auto simp: before_sentry_iff not_le)
qed

text \<open>Erasing the expired timers from the second set: each is there under the number of its object.\<close>

lemma erase_active_ok:
  assumes "\<And>a n. (a, n) \<in> set (tq_active q) \<Longrightarrow> \<exists>tm. tq_heap q a = Some tm \<and> tm_sequence tm = n"
    and "distinct (tq_active q)" "distinct (map snd es)"
    and "\<And>e. e \<in> set es \<Longrightarrow> \<exists>n. (snd e, n) \<in> set (tq_active q)"
  shows "erase_active es q = Inr (q\<lparr>tq_active := filter (\<lambda>(a, n). a \<notin> snd ` set es) (tq_active q)\<rparr>)"
  using assms
proof (induction es arbitrary: q)
  case Nil
  have "filter (\<lambda>(a, n). True) xs = xs" for xs :: "(addr \<times> int) list" by (induction xs) auto
  then show ?case by simp
next
  case (Cons e es)
  obtain n where n: "(snd e, n) \<in> set (tq_active q)" using Cons.prems(4) [of e] by auto
  then obtain tm where tm: "tq_heap q (snd e) = Some tm" "tm_sequence tm = n" using Cons.prems(1) by blast
  have rm: "remove1 (snd e, n) (tq_active q) = filter (\<lambda>(a, m). a \<noteq> snd e) (tq_active q)"
  proof -
    have "(snd e, n) \<noteq> x \<longleftrightarrow> (case x of (a, m) \<Rightarrow> a \<noteq> snd e)" if "x \<in> set (tq_active q)" for x
      using Cons.prems(1) [of "fst x" "snd x"] that tm by (cases x) auto
    then have "filter ((\<noteq>) (snd e, n)) (tq_active q) = filter (\<lambda>(a, m). a \<noteq> snd e) (tq_active q)"
      by (intro filter_cong) simp_all
    then show ?thesis
      using Cons.prems(2) by (simp add: distinct_remove1_removeAll removeAll_filter_not_eq)
  qed
  let ?q = "q\<lparr>tq_active := filter (\<lambda>(a, m). a \<noteq> snd e) (tq_active q)\<rparr>"
  have "snd x \<noteq> snd e" if "x \<in> set es" for x using Cons.prems(3) that by (metis distinct.simps(2) image_eqI list.map(2) list.set_map)
  then have "erase_active es ?q = Inr (?q\<lparr>tq_active := filter (\<lambda>(a, n). a \<notin> snd ` set es) (tq_active ?q)\<rparr>)"
    using Cons.prems by (intro Cons.IH) (fastforce simp: split_beta)+
  moreover have "filter (\<lambda>(a, n). a \<notin> snd ` set es) (tq_active ?q)
      = filter (\<lambda>(a, n). a \<notin> snd ` set (e # es)) (tq_active q)"
    by (auto intro!: filter_cong)
  ultimately show ?case using n tm rm by (simp add: deref_def)
qed

lemma getExpired_ok:
  assumes "tq_wf [] q"
    and expired: "expired = filter (\<lambda>e. fst e \<le> now) (tq_timers q)"
  shows "\<exists>q'. getExpired now q = Inr (expired, q') \<and> tq_wf (map snd expired) q' \<and>
    q' = q\<lparr>tq_timers := filter (\<lambda>e. now < fst e) (tq_timers q),
           tq_active := filter (\<lambda>(a, n). a \<notin> snd ` set expired) (tq_active q)\<rparr>"
proof -
  note w = tq_wfD [OF assms(1)]
  let ?later = "filter (\<lambda>e. now < fst e) (tq_timers q)"
  let ?q' = "q\<lparr>tq_timers := ?later, tq_active := filter (\<lambda>(a, n). a \<notin> snd ` set expired) (tq_active q)\<rparr>"
  have inj: "e = e'" if "e \<in> set (tq_timers q)" "e' \<in> set (tq_timers q)" "snd e = snd e'" for e e'
    using that w(8) by (metis option.inject prod.collapse)
  have d: "distinct (map snd expired)"
    using w(3) inj by (auto simp: distinct_map expired inj_on_def)
  have "\<exists>n. (snd e, n) \<in> set (tq_active q)" if "e \<in> set expired" for e
    using that w(8) [of "fst e" "snd e"] w(9) by (auto simp: expired)
  then have er: "erase_active expired (q\<lparr>tq_timers := ?later\<rparr>) = Inr ?q'"
    using w(5,9) d by (subst erase_active_ok) auto
  have x: "a \<in> snd ` set expired \<longleftrightarrow> (\<exists>tm. tq_heap q a = Some tm \<and> tm_expiration tm \<le> now)" for a
    using w(8) by (force simp: expired image_iff)
  have wf: "tq_wf (map snd expired) ?q'"
    unfolding tq_wf_def
  proof (intro conjI)
    show "\<forall>t a. ((t, a) \<in> set (tq_timers ?q')) = (a \<notin> set (map snd expired) \<and>
        (\<exists>tm. tq_heap ?q' a = Some tm \<and> tm_expiration tm = t))"
      using w(8) x by (simp add: not_le) (metis leD not_le option.inject)
    show "\<forall>a n. ((a, n) \<in> set (tq_active ?q')) = (a \<notin> set (map snd expired) \<and>
        (\<exists>tm. tq_heap ?q' a = Some tm \<and> tm_sequence tm = n))"
      using w(9) by auto
    show "set (map snd expired) \<subseteq> dom (tq_heap ?q')"
      using x by auto
  qed (use w(1-5,10) d in \<open>auto intro: sorted_wrt_filter\<close>, use w(11) in blast)
  have h: "fst (hd ?later) > now" if "?later \<noteq> []"
    using hd_in_set [OF that] by simp
  have "getExpired now q = Inr (expired, ?q')"
    using tq_wf_sizes [OF assms(1)] tq_wf_sizes [OF wf] er h split_sorted [OF w(2)]
    by (auto simp: getExpired_def Let_def expired assert_res_def)
  then show ?thesis using wf by blast
qed

subsection \<open>Callbacks\<close>

text \<open>A timer that a callback has cancelled: gone, or noted while it is among the expired ones.\<close>

definition doomed :: "addr list \<Rightarrow> addr \<Rightarrow> int \<Rightarrow> ('c, 'd) timerq \<Rightarrow> bool" where
  "doomed E a n q \<longleftrightarrow> gone q n \<or> a \<in> set E \<and> (a, n) \<in> set (tq_canceling q)"

lemma doomed_kept: "doomed E a n q \<Longrightarrow> kept E q q' \<Longrightarrow> doomed E a n q'"
  unfolding doomed_def kept_def by blast

lemma run_act_ok:
  assumes "fresh_alloc alloc" and "tq_wf E q"
  shows "\<exists>q'. run_act alloc D x q = Inr q' \<and> tq_wf E q' \<and> kept E q q'"
proof (cases x)
  case (Add now cb t interval)
  then show ?thesis using addTimer_ok [OF assms, of D now cb t interval] by auto
next
  case (Cancel i)
  then show ?thesis using cancelInLoop_ok [OF assms(2), of "fst i" "snd i"] by auto
qed

lemma run_acts_ok:
  "fresh_alloc alloc \<Longrightarrow> tq_wf E q \<Longrightarrow> \<exists>q'. run_acts alloc D xs q = Inr q' \<and> tq_wf E q' \<and> kept E q q'"
proof (induction xs arbitrary: q)
  case Nil
  then show ?case by (simp add: kept_refl)
next
  case (Cons x xs)
  obtain q1 where "run_act alloc D x q = Inr q1" "tq_wf E q1" "kept E q q1"
    using run_act_ok [OF Cons.prems] by blast
  moreover obtain q2 where "run_acts alloc D xs q1 = Inr q2" "tq_wf E q2" "kept E q1 q2"
    using Cons.IH [OF Cons.prems(1)] calculation(2) by blast
  ultimately show ?case by (auto dest: kept_trans)
qed

text \<open>
  A \<open>TimerId\<close> that \<open>addTimer\<close> has returned: the number belongs to the object at the address, or
  that timer is gone.
\<close>

definition genuine :: "addr \<times> int \<Rightarrow> ('c, 'd) timerq \<Rightarrow> bool" where
  "genuine i q \<longleftrightarrow> gone q (snd i) \<or> (\<exists>tm. tq_heap q (fst i) = Some tm \<and> tm_sequence tm = snd i)"

lemma cancelInLoop_heap:
  assumes "tq_wf E q" and "cancelInLoop (b, m) q = Inr q'" and "tq_heap q a = Some tm"
  shows "tq_heap q' a = Some tm \<or> gone q' (tm_sequence tm)"
proof (cases "(b, m) \<in> set (tq_active q)")
  case True
  note w = tq_wfD [OF assms(1)]
  have g: "gone q' m" using cancelInLoop_ok [OF assms(1), of b m] assms(2) True by auto
  show ?thesis
  proof (cases "a = b")
    case True
    then show ?thesis using g w(9) [of b m] \<open>(b, m) \<in> set (tq_active q)\<close> assms(3) by auto
  next
    case False
    then show ?thesis
      using assms(2,3) True by (auto simp: cancelInLoop_def assert_res_def deref_def split: if_splits option.splits)
  qed
next
  case False
  then show ?thesis using cancelInLoop_ok [OF assms(1), of b m] assms(2,3) by auto
qed

lemma genuine_run_act:
  assumes "fresh_alloc alloc" and "tq_wf E q" and "run_act alloc D x q = Inr q'" and "genuine i q"
  shows "genuine i q'"
proof (cases "gone q (snd i)")
  case True
  then show ?thesis using run_act_ok [OF assms(1,2), of D x] assms(3) by (auto simp: genuine_def kept_def)
next
  case False
  then obtain tm where tm: "tq_heap q (fst i) = Some tm" "tm_sequence tm = snd i"
    using assms(4) by (auto simp: genuine_def)
  show ?thesis
  proof (cases x)
    case (Add now cb t interval)
    then obtain b tm' where "tq_heap q b = None" "tq_heap q' = (tq_heap q)(b \<mapsto> tm')"
      using addTimer_ok [OF assms(1,2), of D now cb t interval] assms(3) by auto
    then show ?thesis using tm by (auto simp: genuine_def)
  next
    case (Cancel j)
    then show ?thesis
      using cancelInLoop_heap [OF assms(2) _ tm(1), of "fst j" "snd j"] assms(3) tm
      by (auto simp: genuine_def)
  qed
qed

lemma genuine_run_acts:
  "fresh_alloc alloc \<Longrightarrow> tq_wf E q \<Longrightarrow> run_acts alloc D xs q = Inr q' \<Longrightarrow> genuine i q \<Longrightarrow> genuine i q'"
proof (induction xs arbitrary: q)
  case Nil
  then show ?case by simp
next
  case (Cons x xs)
  obtain q1 where "run_act alloc D x q = Inr q1" "tq_wf E q1"
    using run_act_ok [OF Cons.prems(1,2)] by blast
  with Cons genuine_run_act [OF Cons.prems(1,2)] show ?case by auto
qed

lemma run_acts_Cancel:
  assumes "fresh_alloc alloc" and "tq_wf E q" and "tq_calling q"
    and "Cancel i \<in> set xs" and "genuine i q" and "run_acts alloc D xs q = Inr q'"
  shows "doomed E (fst i) (snd i) q'"
  using assms(2-6)
proof (induction xs arbitrary: q)
  case Nil
  then show ?case by simp
next
  case (Cons x xs)
  obtain q1 where q1: "run_act alloc D x q = Inr q1" "tq_wf E q1" "kept E q q1"
    using run_act_ok [OF assms(1) Cons.prems(1)] by blast
  have rest: "run_acts alloc D xs q1 = Inr q'" using Cons.prems(5) q1(1) by simp
  show ?case
  proof (cases "x = Cancel i")
    case True
    have "doomed E (fst i) (snd i) q1"
    proof (cases "gone q (snd i)")
      case True
      then show ?thesis using q1(3) by (simp add: doomed_def kept_def)
    next
      case False
      then obtain tm where "tq_heap q (fst i) = Some tm" "tm_sequence tm = snd i"
        using Cons.prems(4) by (auto simp: genuine_def)
      then show ?thesis
        using q1(1) True cancelInLoop_ok [OF Cons.prems(1), of "fst i" "snd i"] Cons.prems(2)
          tq_wfD(9) [OF Cons.prems(1), of "fst i" "snd i"]
        by (auto simp: doomed_def)
    qed
    moreover have "kept E q1 q'" using run_acts_ok [OF assms(1) q1(2), of D xs] rest by auto
    ultimately show ?thesis by (rule doomed_kept)
  next
    case False
    then show ?thesis
      using Cons.IH [OF q1(2) _ _ _ rest] Cons.prems q1 genuine_run_act [OF assms(1) Cons.prems(1) q1(1)]
      by (auto simp: kept_def)
  qed
qed

definition ran_of :: "('c, 'd) timerq \<Rightarrow> int \<times> addr \<Rightarrow> 'c \<times> int" where
  "ran_of q e = (let tm = the (tq_heap q (snd e)) in (tm_callback tm, tm_sequence tm))"

lemma run_expired_ok:
  assumes "fresh_alloc alloc" and "tq_wf E q" and "snd ` set es \<subseteq> set E"
  shows "\<exists>q'. run_expired alloc D does es q = Inr (map (ran_of q) es, q') \<and> tq_wf E q' \<and> kept E q q'"
  using assms(2,3)
proof (induction es arbitrary: q)
  case Nil
  then show ?case by (simp add: kept_refl)
next
  case (Cons e es)
  then obtain tm where tm: "tq_heap q (snd e) = Some tm" using tq_wfD(7) [OF Cons.prems(1)] by auto
  obtain q1 where q1: "run_acts alloc D (does (tm_callback tm) q) q = Inr q1" "tq_wf E q1" "kept E q q1"
    using run_acts_ok [OF assms(1) Cons.prems(1)] by blast
  obtain q2 where q2: "run_expired alloc D does es q1 = Inr (map (ran_of q1) es, q2)" "tq_wf E q2" "kept E q1 q2"
    using Cons.IH [OF q1(2)] Cons.prems(2) by auto
  have "map (ran_of q1) es = map (ran_of q) es"
    using q1(3) Cons.prems(2) by (auto simp: ran_of_def kept_def)
  then show ?case
    using tm q1 q2 by (auto simp: deref_def ran_of_def dest: kept_trans)
qed

lemma run_expired_Cancel:
  assumes "fresh_alloc alloc" and "tq_wf E q" and "snd ` set es \<subseteq> set E" and "tq_calling q"
    and "e \<in> set es" and "\<And>q'. Cancel i \<in> set (does (fst (ran_of q e)) q')" and "genuine i q"
    and "run_expired alloc D does es q = Inr (out, q')"
  shows "doomed E (fst i) (snd i) q'"
  using assms(2-8)
proof (induction es arbitrary: q out)
  case Nil
  then show ?case by simp
next
  case (Cons d es)
  obtain tm where tm: "tq_heap q (snd d) = Some tm" using tq_wfD(7) [OF Cons.prems(1)] Cons.prems(2) by auto
  let ?xs = "does (tm_callback tm) q"
  obtain q1 where q1: "run_acts alloc D ?xs q = Inr q1" "tq_wf E q1" "kept E q q1"
    using run_acts_ok [OF assms(1) Cons.prems(1)] by blast
  obtain q2 where q2: "run_expired alloc D does es q1 = Inr (map (ran_of q1) es, q2)" "kept E q1 q2"
    using run_expired_ok [OF assms(1) q1(2), of es D does] Cons.prems(2) by auto
  have q': "q' = q2" using Cons.prems(7) tm q1(1) q2(1) by (simp add: deref_def)
  show ?case
  proof (cases "e = d")
    case True
    then have "Cancel i \<in> set ?xs" using Cons.prems(5) [of q] tm by (simp add: ran_of_def)
    then have "doomed E (fst i) (snd i) q1"
      using run_acts_Cancel [OF assms(1) Cons.prems(1,3) _ Cons.prems(6) q1(1)] by blast
    then show ?thesis unfolding q' using q2(2) by (rule doomed_kept)
  next
    case False
    then have e: "e \<in> set es" using Cons.prems(4) by simp
    have "ran_of q1 e = ran_of q e" using q1(3) e Cons.prems(2) by (auto simp: ran_of_def kept_def)
    then show ?thesis
      using Cons.IH [OF q1(2) _ _ e _ genuine_run_acts [OF assms(1) Cons.prems(1) q1(1) Cons.prems(6)]]
        Cons.prems(2,3,5) q1(3) q2(1) q'
      by (auto simp: kept_def)
  qed
qed

subsection \<open>Restarting and deleting the expired timers\<close>

lemma tq_wf_free:
  assumes "tq_wf (a # E) q"
  shows "tq_wf E (q\<lparr>tq_heap := (tq_heap q)(a := None)\<rparr>)"
proof -
  note w = tq_wfD [OF assms]
  let ?q = "q\<lparr>tq_heap := (tq_heap q)(a := None)\<rparr>"
  have h: "tq_heap ?q b = Some tm \<longleftrightarrow> b \<noteq> a \<and> tq_heap q b = Some tm" for b tm by simp
  have f: "tq_timers ?q = tq_timers q" "tq_active ?q = tq_active q" "s_numCreated ?q = s_numCreated q"
    "dom (tq_heap ?q) = dom (tq_heap q) - {a}"
    by simp_all
  show ?thesis
    unfolding tq_wf_def h f
  proof (intro conjI)
    show "\<forall>t b. ((t, b) \<in> set (tq_timers q)) = (b \<notin> set E \<and> (\<exists>tm. (b \<noteq> a \<and> tq_heap q b = Some tm) \<and> tm_expiration tm = t))"
      using w(8) by auto
    show "\<forall>b m. ((b, m) \<in> set (tq_active q)) = (b \<notin> set E \<and> (\<exists>tm. (b \<noteq> a \<and> tq_heap q b = Some tm) \<and> tm_sequence tm = m))"
      using w(9) by auto
  qed (use w(1-7,10) in auto, use w(11) in blast)
qed

lemma tq_wf_change:
  assumes "tq_wf (a # E) q" and "tq_heap q a = Some tm" and "tm_sequence tm' = tm_sequence tm"
  shows "tq_wf (a # E) (q\<lparr>tq_heap := (tq_heap q)(a \<mapsto> tm')\<rparr>)"
proof -
  note w = tq_wfD [OF assms(1)]
  let ?q = "q\<lparr>tq_heap := (tq_heap q)(a \<mapsto> tm')\<rparr>"
  have f: "tq_timers ?q = tq_timers q" "tq_active ?q = tq_active q" "s_numCreated ?q = s_numCreated q"
    "dom (tq_heap ?q) = dom (tq_heap q)"
    using assms(2) by auto
  have h: "tq_heap ?q b = Some tm2 \<Longrightarrow> \<exists>tm1. tq_heap q b = Some tm1 \<and> tm_sequence tm1 = tm_sequence tm2" for b tm2
    using assms(2,3) by (auto split: if_splits)
  have o: "tq_heap ?q b = tq_heap q b" if "b \<noteq> a" for b using that by simp
  show ?thesis
    unfolding tq_wf_def f
  proof (intro conjI)
    show "\<forall>t b. ((t, b) \<in> set (tq_timers q)) = (b \<notin> set (a # E) \<and> (\<exists>tm. tq_heap ?q b = Some tm \<and> tm_expiration tm = t))"
      using w(8) o by auto
    show "\<forall>b m. ((b, m) \<in> set (tq_active q)) = (b \<notin> set (a # E) \<and> (\<exists>tm. tq_heap ?q b = Some tm \<and> tm_sequence tm = m))"
      using w(9) o by auto
    show "\<forall>b tm. tq_heap ?q b = Some tm \<longrightarrow> tm_sequence tm \<le> s_numCreated q"
      using h w(10) by fastforce
    show "\<forall>b c tm tm'. tq_heap ?q b = Some tm \<longrightarrow> tq_heap ?q c = Some tm' \<longrightarrow> tm_sequence tm = tm_sequence tm' \<longrightarrow> b = c"
      using h w(11) by metis
  qed (use w(1-7) in auto)
qed

definition restarted :: "'d durations \<Rightarrow> int \<Rightarrow> ('c, 'd) timerq \<Rightarrow> addr \<Rightarrow> ('c, 'd) timer option" where
  "restarted D now q a = (case tq_heap q a of None \<Rightarrow> None
     | Some tm \<Rightarrow> if tm_repeat tm \<and> (a, tm_sequence tm) \<notin> set (tq_canceling q)
                 then Some (Timer_restart D now tm) else None)"

lemma restarted_calling [simp]: "restarted D now (q\<lparr>tq_calling := b\<rparr>) = restarted D now q"
  by (simp add: restarted_def fun_eq_iff split: option.split)

lemma restarted_cong:
  "tq_heap q a = tq_heap q' a \<Longrightarrow> tq_canceling q = tq_canceling q' \<Longrightarrow> restarted D now q a = restarted D now q' a"
  by (simp add: restarted_def split: option.split)

lemma Timer_restart_sel [simp]:
  "tm_sequence (Timer_restart D now tm) = tm_sequence tm" "tm_repeat (Timer_restart D now tm) = tm_repeat tm"
  "tm_callback (Timer_restart D now tm) = tm_callback tm" "tm_interval (Timer_restart D now tm) = tm_interval tm"
  by (simp_all add: Timer_restart_def)

lemma reset_loop_ok:
  "tq_wf (map snd es) q \<Longrightarrow> \<exists>q'. reset_loop D es now q = Inr q' \<and> tq_wf [] q' \<and>
     s_numCreated q' = s_numCreated q \<and> tq_calling q' = tq_calling q \<and> tq_timerfd q' = tq_timerfd q \<and>
     (\<forall>a. tq_heap q' a = (if a \<in> snd ` set es then restarted D now q a else tq_heap q a))"
proof (induction es arbitrary: q)
  case Nil
  then show ?case by auto
next
  case (Cons e es)
  let ?a = "snd e"
  have wf: "tq_wf (?a # map snd es) q" using Cons.prems by simp
  note w = tq_wfD [OF wf]
  obtain tm where tm: "tq_heap q ?a = Some tm" using w(7) by auto
  have notin: "?a \<notin> snd ` set es" using w(6) by simp
  show ?case
  proof (cases "tm_repeat tm \<and> (?a, tm_sequence tm) \<notin> set (tq_canceling q)")
    case True
    let ?q = "q\<lparr>tq_heap := (tq_heap q)(?a \<mapsto> Timer_restart D now tm)\<rparr>"
    have "tq_wf (?a # map snd es) ?q" by (rule tq_wf_change [OF wf tm]) simp
    then obtain ec q1 where q1: "tq_insert ?q ?a = Inr (ec, q1)" "tq_wf (map snd es) q1" "tq_heap q1 = tq_heap ?q"
        "s_numCreated q1 = s_numCreated q" "tq_calling q1 = tq_calling q" "tq_canceling q1 = tq_canceling q"
        "tq_timerfd q1 = tq_timerfd q"
      by (auto dest!: tq_insert_ok)
    obtain q2 where q2: "reset_loop D es now q1 = Inr q2" "tq_wf [] q2" "s_numCreated q2 = s_numCreated q1"
        "tq_calling q2 = tq_calling q1" "tq_timerfd q2 = tq_timerfd q1"
        "\<forall>a. tq_heap q2 a = (if a \<in> snd ` set es then restarted D now q1 a else tq_heap q1 a)"
      using Cons.IH [OF q1(2)] by blast
    have "tq_heap q2 a = (if a \<in> snd ` set (e # es) then restarted D now q a else tq_heap q a)" for a
    proof (cases "a = ?a")
      case a: True
      then show ?thesis using q2(6) q1(3) notin tm True by (simp add: restarted_def)
    next
      case False
      then have "restarted D now q1 a = restarted D now q a" using q1(3,6) by (intro restarted_cong) simp_all
      then show ?thesis using q2(6) q1(3) False by simp
    qed
    then show ?thesis using True tm q1 q2 by (simp add: deref_def)
  next
    case False
    let ?q = "q\<lparr>tq_heap := (tq_heap q)(?a := None)\<rparr>"
    obtain q2 where q2: "reset_loop D es now ?q = Inr q2" "tq_wf [] q2" "s_numCreated q2 = s_numCreated ?q"
        "tq_calling q2 = tq_calling ?q" "tq_timerfd q2 = tq_timerfd ?q"
        "\<forall>a. tq_heap q2 a = (if a \<in> snd ` set es then restarted D now ?q a else tq_heap ?q a)"
      using Cons.IH [OF tq_wf_free [OF wf]] by blast
    have "tq_heap q2 a = (if a \<in> snd ` set (e # es) then restarted D now q a else tq_heap q a)" for a
    proof (cases "a = ?a")
      case a: True
      then show ?thesis using q2(6) notin tm False by (simp add: restarted_def)
    next
      case other: False
      then have "restarted D now ?q a = restarted D now q a" by (intro restarted_cong) simp_all
      then show ?thesis using q2(6) other by simp
    qed
    then show ?thesis using False tm q2 by (auto simp: deref_def)
  qed
qed

lemma tq_wf_timerfd: "tq_wf E (q\<lparr>tq_timerfd := x\<rparr>) \<longleftrightarrow> tq_wf E q"
  by (simp add: tq_wf_def)

lemma tq_wf_calling: "tq_wf E (q\<lparr>tq_calling := b, tq_canceling := c\<rparr>) \<longleftrightarrow> tq_wf E q"
  "tq_wf E (q\<lparr>tq_calling := b\<rparr>) \<longleftrightarrow> tq_wf E q"
  by (simp_all add: tq_wf_def)

text \<open>The earliest timer the queue knows, and the setting of the alarm for it.\<close>

lemma tq_reset_ok:
  assumes "tq_wf (map snd es) q"
  shows "\<exists>q'. tq_reset D es now now2 q = Inr q' \<and> tq_wf [] q' \<and>
     s_numCreated q' = s_numCreated q \<and> tq_calling q' = tq_calling q \<and>
     (\<forall>a. tq_heap q' a = (if a \<in> snd ` set es then restarted D now q a else tq_heap q a)) \<and>
     tq_timerfd q' = (if tq_timers q' \<noteq> [] \<and> Timestamp_valid (fst (hd (tq_timers q')))
                      then Some (now2, howMuchTimeFromNow now2 (fst (hd (tq_timers q')))) else tq_timerfd q)"
proof -
  obtain q1 where q1: "reset_loop D es now q = Inr q1" "tq_wf [] q1" "s_numCreated q1 = s_numCreated q"
      "tq_calling q1 = tq_calling q" "tq_timerfd q1 = tq_timerfd q"
      "\<forall>a. tq_heap q1 a = (if a \<in> snd ` set es then restarted D now q a else tq_heap q a)"
    using reset_loop_ok [OF assms] by blast
  have hd: "\<exists>tm. tq_heap q1 (snd (hd (tq_timers q1))) = Some tm \<and> tm_expiration tm = fst (hd (tq_timers q1))"
    if "tq_timers q1 \<noteq> []"
    using tq_wfD(8) [OF q1(2), of "fst (hd (tq_timers q1))" "snd (hd (tq_timers q1))"] hd_in_set [OF that] by simp
  have invalid: "\<not> Timestamp_valid Timestamp_invalid" by (simp add: Timestamp_valid_def Timestamp_invalid_def)
  show ?thesis
  proof (cases "tq_timers q1 = []")
    case True
    then show ?thesis using q1 invalid by (intro exI [of _ q1]) (simp add: tq_reset_def)
  next
    case False
    let ?next = "fst (hd (tq_timers q1))"
    have "tq_reset D es now now2 q = Inr (if Timestamp_valid ?next then resetTimerfd now2 ?next q1 else q1)"
      using q1(1) hd [OF False] False by (auto simp: tq_reset_def deref_def)
    then show ?thesis
      using q1 False by (intro exI [of _ "if Timestamp_valid ?next then resetTimerfd now2 ?next q1 else q1"])
        (simp add: resetTimerfd_def tq_wf_timerfd)
  qed
qed

text \<open>
  The whole of \<open>handleRead\<close>: \<open>q1\<close> is the queue after the callbacks.
\<close>

lemma handleRead_ok:
  assumes "fresh_alloc alloc" and "tq_wf [] q"
    and expired: "expired = filter (\<lambda>e. fst e \<le> now) (tq_timers q)"
  shows "\<exists>q0 q1 q'. handleRead alloc D does now now2 q = Inr (map (ran_of q) expired, q') \<and> tq_wf [] q' \<and>
     tq_wf (map snd expired) q0 \<and> tq_calling q0 \<and> tq_canceling q0 = [] \<and> tq_heap q0 = tq_heap q \<and> s_numCreated q0 = s_numCreated q \<and>
     run_expired alloc D does expired q0 = Inr (map (ran_of q) expired, q1) \<and>
     tq_wf (map snd expired) q1 \<and> kept (map snd expired) q0 q1 \<and> s_numCreated q' = s_numCreated q1 \<and>
     \<not> tq_calling q' \<and>
     (\<forall>a. tq_heap q' a = (if a \<in> snd ` set expired then restarted D now q1 a else tq_heap q1 a)) \<and>
     (tq_timers q' \<noteq> [] \<longrightarrow> Timestamp_valid (fst (hd (tq_timers q'))) \<longrightarrow>
        tq_timerfd q' = Some (now2, howMuchTimeFromNow now2 (fst (hd (tq_timers q')))))"
proof -
  let ?q = "q\<lparr>tq_timerfd := None\<rparr>"
  have "tq_wf [] ?q" using assms(2) by (simp add: tq_wf_timerfd)
  then obtain qe where qe: "getExpired now ?q = Inr (expired, qe)" "tq_wf (map snd expired) qe"
      "tq_heap qe = tq_heap q" "s_numCreated qe = s_numCreated q"
    using getExpired_ok [of ?q expired now] expired by auto
  let ?q0 = "qe\<lparr>tq_calling := True, tq_canceling := []\<rparr>"
  have q0: "tq_wf (map snd expired) ?q0" using qe(2) by (simp add: tq_wf_calling)
  have "map (ran_of ?q0) expired = map (ran_of q) expired" using qe(3) by (simp add: ran_of_def)
  then obtain q1 where q1: "run_expired alloc D does expired ?q0 = Inr (map (ran_of q) expired, q1)"
      "tq_wf (map snd expired) q1" "kept (map snd expired) ?q0 q1"
    using run_expired_ok [OF assms(1) q0, of expired D does] by auto
  let ?q1 = "q1\<lparr>tq_calling := False\<rparr>"
  have "tq_wf (map snd expired) ?q1" using q1(2) by (simp add: tq_wf_calling)
  then obtain q' where q': "tq_reset D expired now now2 ?q1 = Inr q'" "tq_wf [] q'"
      "s_numCreated q' = s_numCreated ?q1" "tq_calling q' = tq_calling ?q1"
      "\<forall>a. tq_heap q' a = (if a \<in> snd ` set expired then restarted D now ?q1 a else tq_heap ?q1 a)"
      "tq_timerfd q' = (if tq_timers q' \<noteq> [] \<and> Timestamp_valid (fst (hd (tq_timers q')))
                      then Some (now2, howMuchTimeFromNow now2 (fst (hd (tq_timers q')))) else tq_timerfd ?q1)"
    using tq_reset_ok by blast
  have "handleRead alloc D does now now2 q = Inr (map (ran_of q) expired, q')"
    using qe(1) q1(1) q'(1) by (simp add: handleRead_def Let_def)
  then show ?thesis
    using q0 q1 q' qe(3,4) by (intro exI [of _ ?q0] exI [of _ q1] exI [of _ q']) simp
qed

subsection \<open>Sequences of operations\<close>

text \<open>
  What the loop's thread does with the queue: additions and cancellations from outside the timers'
  callbacks, and alarms; it returns what ran.
\<close>

datatype ('c, 'd) tq_op = Do "('c, 'd) act" | Alarm int int

fun tq_exec ::
  "(('c, 'd) timerq \<Rightarrow> addr) \<Rightarrow> 'd durations \<Rightarrow> ('c \<Rightarrow> ('c, 'd) timerq \<Rightarrow> ('c, 'd) act list)
     \<Rightarrow> ('c, 'd) tq_op list \<Rightarrow> ('c, 'd) timerq \<Rightarrow> (('c \<times> int) list \<times> ('c, 'd) timerq) res" where
  "tq_exec alloc D does [] q = Inr ([], q)"
| "tq_exec alloc D does (Do x # ops) q =
     bind_res (run_act alloc D x q) (\<lambda>q. tq_exec alloc D does ops q)"
| "tq_exec alloc D does (Alarm now now2 # ops) q =
     bind_res (handleRead alloc D does now now2 q) (\<lambda>(out, q).
     bind_res (tq_exec alloc D does ops q) (\<lambda>(out', q). Inr (out @ out', q)))"

lemma gone_not_ran:
  assumes "tq_wf [] q" and "gone q n" and "e \<in> set (tq_timers q)"
  shows "snd (ran_of q e) \<noteq> n"
proof -
  obtain tm where "tq_heap q (snd e) = Some tm"
    using assms(3) tq_wfD(8) [OF assms(1), of "fst e" "snd e"] by auto
  then show ?thesis using assms(2) by (simp add: gone_def ran_of_def Let_def)
qed

lemma handleRead_gone:
  assumes "fresh_alloc alloc" and "tq_wf [] q" and "handleRead alloc D does now now2 q = Inr (out, q')" and "gone q n"
  shows "gone q' n \<and> n \<notin> snd ` set out"
proof -
  define expired where "expired = filter (\<lambda>e. fst e \<le> now) (tq_timers q)"
  obtain q0 q1 where *: "out = map (ran_of q) expired" "tq_wf (map snd expired) q0" "tq_heap q0 = tq_heap q"
      "s_numCreated q0 = s_numCreated q" "kept (map snd expired) q0 q1" "s_numCreated q' = s_numCreated q1"
      "\<forall>a. tq_heap q' a = (if a \<in> snd ` set expired then restarted D now q1 a else tq_heap q1 a)"
    using handleRead_ok [OF assms(1,2) expired_def, of D does now2] assms(3) by auto
  have "gone q0 n" using assms(4) *(3,4) by (simp add: gone_def)
  then have "gone q1 n" using *(5) by (simp add: kept_def)
  then have "gone q' n"
    using *(6,7) by (auto simp: gone_def restarted_def split: option.splits if_splits)
  moreover have "n \<notin> snd ` set out"
    using gone_not_ran [OF assms(2,4)] by (auto simp: *(1) expired_def) blast
  ultimately show ?thesis by blast
qed

lemma tq_exec_ok:
  assumes "fresh_alloc alloc"
  shows "tq_wf [] q \<Longrightarrow> \<exists>out q'. tq_exec alloc D does ops q = Inr (out, q') \<and> tq_wf [] q' \<and>
    (\<forall>n. gone q n \<longrightarrow> gone q' n \<and> n \<notin> snd ` set out)"
proof (induction ops arbitrary: q)
  case Nil
  then show ?case by simp
next
  case (Cons x ops)
  show ?case
  proof (cases x)
    case (Do a)
    obtain q1 where q1: "run_act alloc D a q = Inr q1" "tq_wf [] q1" "kept [] q q1"
      using run_act_ok [OF assms Cons.prems] by blast
    then show ?thesis using Cons.IH [OF q1(2)] Do by (auto simp: kept_def)
  next
    case (Alarm now now2)
    obtain out1 q1 where q1: "handleRead alloc D does now now2 q = Inr (out1, q1)" "tq_wf [] q1"
      using handleRead_ok [OF assms Cons.prems refl] by blast
    obtain out2 q2 where q2: "tq_exec alloc D does ops q1 = Inr (out2, q2)" "tq_wf [] q2"
        "\<forall>n. gone q1 n \<longrightarrow> gone q2 n \<and> n \<notin> snd ` set out2"
      using Cons.IH [OF q1(2)] by blast
    then show ?thesis using handleRead_gone [OF assms Cons.prems q1(1)] q1(1) Alarm by auto
  qed
qed

lemma tq_exec_wf:
  assumes "fresh_alloc alloc" and "tq_wf [] q" and "tq_exec alloc D does ops q = Inr (out, q')"
  shows "tq_wf [] q'"
  using tq_exec_ok [OF assms(1,2), of D does ops] assms(3) by auto

lemma tq_exec_gone:
  assumes "fresh_alloc alloc" and "tq_wf [] q" and "tq_exec alloc D does ops q = Inr (out, q')" and "gone q n"
  shows "n \<notin> snd ` set out"
  using tq_exec_ok [OF assms(1,2), of D does ops] assms(3,4) by auto

subsection \<open>The alarm\<close>

text \<open>
  The alarm is set and goes off no later than the earliest timer needs, or 100 microseconds after it
  was set.
\<close>

definition alarm_us :: "int \<times> int \<Rightarrow> int" where
  "alarm_us ts = fst ts * kMicroSecondsPerSecond + snd ts sdiv 1000"

definition alarm_set :: "('c, 'd) timerq \<Rightarrow> bool" where
  "alarm_set q \<longleftrightarrow> (tq_timers q \<noteq> [] \<longrightarrow> (\<exists>now ts. tq_timerfd q = Some (now, ts) \<and>
     now + alarm_us ts \<le> max (fst (hd (tq_timers q))) (now + 100)))"

lemma howMuchTime: "alarm_us (howMuchTimeFromNow now when) = max 100 (when - now)"
proof -
  have "x sdiv 1000000 * 1000000 + (x smod 1000000 * 1000) sdiv 1000 = x" if "0 \<le> x" for x :: int
  proof -
    have "0 \<le> x mod 1000000" by simp
    then show ?thesis
      using that by (cases "x = 0"; cases "x mod 1000000 = 0")
        (auto simp: signed_divide_int_def signed_modulo_int_def sgn_if abs_if)
  qed
  from this [of "max 100 (when - now)"] show ?thesis
    by (auto simp: alarm_us_def howMuchTimeFromNow_def kMicroSecondsPerSecond_def Let_def max_def)
qed

lemma hd_insort:
  "sorted xs \<Longrightarrow> hd (insort (x :: 'a :: linorder) xs) = (if xs = [] \<or> x \<le> hd xs then x else hd xs)"
  by (cases xs) auto

lemma alarm_set_run_act:
  assumes "fresh_alloc alloc" and "tq_wf [] q" and "alarm_set q" and "run_act alloc D x q = Inr q'"
  shows "alarm_set q'"
proof (cases x)
  case (Add now cb t interval)
  obtain a where a: "tq_timers q' = insort (t, a) (tq_timers q)"
      "tq_timerfd q' = (if tq_timers q = [] \<or> t < fst (hd (tq_timers q))
                        then Some (now, howMuchTimeFromNow now t) else tq_timerfd q)"
    using addTimer_ok [OF assms(1,2), of D now cb t interval] assms(4) Add by auto
  show ?thesis
  proof (cases "tq_timers q = [] \<or> t < fst (hd (tq_timers q))")
    case True
    then have "hd (tq_timers q') = (t, a)"
      using a(1) hd_insort [OF tq_wfD(2) [OF assms(2)], of "(t, a)"] by (auto simp: less_eq_prod_def)
    then show ?thesis using True a(2) by (auto simp: alarm_set_def howMuchTime)
  next
    case False
    then have "fst (hd (tq_timers q')) = fst (hd (tq_timers q))"
      using a(1) hd_insort [OF tq_wfD(2) [OF assms(2)], of "(t, a)"] by (auto simp: less_eq_prod_def)
    then show ?thesis using False a(2) assms(3) by (simp add: alarm_set_def)
  qed
next
  case (Cancel i)
  then have c: "tq_wf [] q'" "tq_timerfd q' = tq_timerfd q" "set (tq_timers q') \<subseteq> set (tq_timers q)"
    using cancelInLoop_ok [OF assms(2), of "fst i" "snd i"] assms(4) by auto
  show ?thesis
  proof (cases "tq_timers q' = []")
    case False
    then have "hd (tq_timers q') \<in> set (tq_timers q)" using c(3) hd_in_set by blast
    then have "hd (tq_timers q) \<le> hd (tq_timers q')" "tq_timers q \<noteq> []"
      using tq_wfD(2) [OF assms(2)] by (cases "tq_timers q"; auto)+
    then have "fst (hd (tq_timers q)) \<le> fst (hd (tq_timers q'))" by (auto simp: less_eq_prod_def)
    then show ?thesis using assms(3) \<open>tq_timers q \<noteq> []\<close> c(2) by (fastforce simp: alarm_set_def)
  qed (simp add: alarm_set_def)
qed

text \<open>Valid expirations: what the queue and its callbacks are given are times after the epoch.\<close>

definition valid_times :: "('c, 'd) timerq \<Rightarrow> bool" where
  "valid_times q \<longleftrightarrow> (\<forall>a tm. tq_heap q a = Some tm \<longrightarrow> 0 < tm_expiration tm)"

fun valid_act :: "('c, 'd) act \<Rightarrow> bool" where
  "valid_act (Add now cb t interval) = (0 < t)"
| "valid_act (Cancel i) = True"

fun valid_op :: "('c, 'd) tq_op \<Rightarrow> bool" where
  "valid_op (Do x) = valid_act x"
| "valid_op (Alarm now now2) = (0 < now)"

lemma valid_run_act:
  assumes "fresh_alloc alloc" and "tq_wf E q" and "valid_times q" and "valid_act x" and "run_act alloc D x q = Inr q'"
  shows "valid_times q'"
proof (cases x)
  case (Add now cb t interval)
  obtain a where "tq_heap q' = (tq_heap q)(a \<mapsto> Timer_new D (s_numCreated q) cb t interval)"
    using addTimer_ok [OF assms(1,2), of D now cb t interval] assms(5) Add by auto
  then show ?thesis using assms(3,4) Add by (auto simp: valid_times_def Timer_new_def)
next
  case (Cancel i)
  then have "tq_heap q' a = Some tm \<Longrightarrow> tq_heap q a = Some tm" for a tm
    using assms(5)
    by (auto simp: cancelInLoop_def assert_res_def deref_def bind_res_Inr split: if_splits option.splits)
  then show ?thesis using assms(3) by (auto simp: valid_times_def)
qed

lemma valid_run_acts:
  "fresh_alloc alloc \<Longrightarrow> tq_wf E q \<Longrightarrow> valid_times q \<Longrightarrow> list_all valid_act xs \<Longrightarrow>
     run_acts alloc D xs q = Inr q' \<Longrightarrow> valid_times q'"
proof (induction xs arbitrary: q)
  case Nil
  then show ?case by simp
next
  case (Cons x xs)
  obtain q1 where "run_act alloc D x q = Inr q1" "tq_wf E q1"
    using run_act_ok [OF Cons.prems(1,2)] by blast
  with Cons valid_run_act [OF Cons.prems(1-3)] show ?case by auto
qed

lemma valid_run_expired:
  assumes "fresh_alloc alloc" and "\<And>c q. list_all valid_act (does c q)"
  shows "tq_wf E q \<Longrightarrow> snd ` set es \<subseteq> set E \<Longrightarrow> valid_times q \<Longrightarrow>
     run_expired alloc D does es q = Inr (out, q') \<Longrightarrow> valid_times q'"
proof (induction es arbitrary: q out)
  case Nil
  then show ?case by simp
next
  case (Cons e es)
  obtain tm where tm: "tq_heap q (snd e) = Some tm" using tq_wfD(7) [OF Cons.prems(1)] Cons.prems(2) by auto
  obtain q1 where q1: "run_acts alloc D (does (tm_callback tm) q) q = Inr q1" "tq_wf E q1"
    using run_acts_ok [OF assms(1) Cons.prems(1)] by blast
  have "valid_times q1" using valid_run_acts [OF assms(1) Cons.prems(1,3) assms(2) q1(1)] .
  then show ?case
    using Cons.IH [OF q1(2)] Cons.prems(2,4) tm q1(1)
    by (auto simp: deref_def bind_res_Inr split: prod.splits)
qed

lemma alarm_set_handleRead:
  assumes "fresh_alloc alloc" and "tq_wf [] q" and "valid_times q" and "\<And>c q. list_all valid_act (does c q)"
    and "\<And>d. 0 \<le> dur_us D d" and "0 < now" and "handleRead alloc D does now now2 q = Inr (out, q')"
  shows "alarm_set q' \<and> valid_times q'"
proof -
  define expired where "expired = filter (\<lambda>e. fst e \<le> now) (tq_timers q)"
  obtain q0 q1 where *: "tq_wf (map snd expired) q0" "tq_heap q0 = tq_heap q" "tq_wf [] q'"
      "run_expired alloc D does expired q0 = Inr (out, q1)"
      "\<forall>a. tq_heap q' a = (if a \<in> snd ` set expired then restarted D now q1 a else tq_heap q1 a)"
      "tq_timers q' \<noteq> [] \<longrightarrow> Timestamp_valid (fst (hd (tq_timers q'))) \<longrightarrow>
        tq_timerfd q' = Some (now2, howMuchTimeFromNow now2 (fst (hd (tq_timers q'))))"
    using handleRead_ok [OF assms(1,2) expired_def, of D does now2] assms(7) by auto
  have "valid_times q0" using assms(3) *(2) by (simp add: valid_times_def)
  then have "valid_times q1"
    using valid_run_expired [OF assms(1,4) *(1) _ _ *(4)] by simp
  then have v: "valid_times q'"
    using *(5) assms(5,6)
    by (auto simp: valid_times_def restarted_def Timer_restart_def addTime_def add_pos_nonneg
        split: option.splits if_splits)
  have "Timestamp_valid (fst (hd (tq_timers q')))" if "tq_timers q' \<noteq> []"
  proof -
    have "(fst (hd (tq_timers q')), snd (hd (tq_timers q'))) \<in> set (tq_timers q')" using hd_in_set [OF that] by simp
    then show ?thesis using v unfolding tq_wfD(8) [OF *(3)] valid_times_def Timestamp_valid_def by metis
  qed
  then show ?thesis using *(6) v by (auto simp: alarm_set_def howMuchTime)
qed

lemma alarm_set_exec:
  assumes "fresh_alloc alloc" and "\<And>c q. list_all valid_act (does c q)" and "\<And>d. 0 \<le> dur_us D d"
  shows "tq_wf [] q \<Longrightarrow> valid_times q \<Longrightarrow> alarm_set q \<Longrightarrow> list_all valid_op ops \<Longrightarrow>
    tq_exec alloc D does ops q = Inr (out, q') \<Longrightarrow> alarm_set q'"
proof (induction ops arbitrary: q out)
  case Nil
  then show ?case by simp
next
  case (Cons x ops)
  show ?case
  proof (cases x)
    case (Do a)
    obtain q1 where q1: "run_act alloc D a q = Inr q1" "tq_wf [] q1"
      using run_act_ok [OF assms(1) Cons.prems(1)] by blast
    then show ?thesis
      using Cons.IH [OF q1(2)] Cons.prems Do valid_run_act [OF assms(1) Cons.prems(1,2) _ q1(1)]
        alarm_set_run_act [OF assms(1) Cons.prems(1,3) q1(1)]
      by auto
  next
    case (Alarm now now2)
    obtain out1 q1 where q1: "handleRead alloc D does now now2 q = Inr (out1, q1)" "tq_wf [] q1"
      using handleRead_ok [OF assms(1) Cons.prems(1) refl] by blast
    have "alarm_set q1 \<and> valid_times q1"
      using alarm_set_handleRead [OF assms(1) Cons.prems(1,2) assms(2,3) _ q1(1)] Cons.prems(4) Alarm by simp
    then show ?thesis
      using Cons.IH [OF q1(2)] Cons.prems(4,5) Alarm q1(1) by (auto simp: bind_res_Inr split: prod.splits)
  qed
qed

text \<open>Only what a callback cancels is noted as cancelled.\<close>

lemma tq_insert_canceling: "tq_insert q a = Inr (ec, q') \<Longrightarrow> tq_canceling q' = tq_canceling q"
  by (clarsimp simp: tq_insert_def Let_def bind_res_Inr assert_res_Inr)

lemma canceling_run_act:
  assumes "run_act alloc D x q = Inr q'"
  shows "set (tq_canceling q') \<subseteq> set (tq_canceling q) \<union> {i. x = Cancel i}"
proof (cases x)
  case (Add now cb t interval)
  then show ?thesis
    using assms
    by (auto simp: addTimer_def addTimerInLoop_def resetTimerfd_def Let_def bind_res_Inr
        dest!: tq_insert_canceling split: if_splits)
next
  case (Cancel i)
  then show ?thesis
    using assms
    by (auto simp: cancelInLoop_def bind_res_Inr assert_res_Inr set_insort_insert split: if_splits)
qed

lemma canceling_run_acts:
  "fresh_alloc alloc \<Longrightarrow> tq_wf E q \<Longrightarrow> run_acts alloc D xs q = Inr q' \<Longrightarrow>
     set (tq_canceling q') \<subseteq> set (tq_canceling q) \<union> {i. Cancel i \<in> set xs}"
proof (induction xs arbitrary: q)
  case Nil
  then show ?case by simp
next
  case (Cons x xs)
  obtain q1 where q1: "run_act alloc D x q = Inr q1" "tq_wf E q1"
    using run_act_ok [OF Cons.prems(1,2)] by blast
  then show ?case
    using Cons.IH [OF Cons.prems(1) q1(2)] Cons.prems(3) canceling_run_act [OF q1(1)]
    by fastforce
qed

lemma canceling_run_expired:
  assumes "fresh_alloc alloc" and "\<And>c q. Cancel i \<notin> set (does c q)"
  shows "tq_wf E q \<Longrightarrow> snd ` set es \<subseteq> set E \<Longrightarrow> i \<notin> set (tq_canceling q) \<Longrightarrow>
     run_expired alloc D does es q = Inr (out, q') \<Longrightarrow> i \<notin> set (tq_canceling q')"
proof (induction es arbitrary: q out)
  case Nil
  then show ?case by simp
next
  case (Cons e es)
  obtain tm where tm: "tq_heap q (snd e) = Some tm" using tq_wfD(7) [OF Cons.prems(1)] Cons.prems(2) by auto
  obtain q1 where q1: "run_acts alloc D (does (tm_callback tm) q) q = Inr q1" "tq_wf E q1"
    using run_acts_ok [OF assms(1) Cons.prems(1)] by blast
  have "i \<notin> set (tq_canceling q1)"
    using canceling_run_acts [OF assms(1) Cons.prems(1) q1(1)] Cons.prems(3) assms(2) by blast
  then show ?case
    using Cons.IH [OF q1(2)] Cons.prems(2,4) tm q1(1)
    by (auto simp: deref_def bind_res_Inr split: prod.splits)
qed

subsection \<open>The timers of a loop\<close>

text \<open>
  C13: whatever the loop's thread and the callbacks do with the timers of a loop - additions,
  cancellations of any identifier, alarms at any time, in any order, callbacks that add and cancel
  timers themselves - no deleted object is used and no assertion of the queue fails, and the two sets
  always hold exactly the live timers, by expiration and by identity.
\<close>

theorem timers_safe:
  fixes does :: "'c \<Rightarrow> ('c, 'd) timerq \<Rightarrow> ('c, 'd) act list"
  assumes "fresh_alloc alloc"
  shows "\<exists>out q. tq_exec alloc D does ops TimerQueue_new = Inr (out, q) \<and> tq_wf [] q"
  using tq_exec_ok [OF assms tq_wf_new] by blast

definition least_free :: "('c, 'd) timerq \<Rightarrow> addr" where
  "least_free q = (LEAST a. tq_heap q a = None)"

lemma fresh_least_free: "fresh_alloc (least_free :: ('c, 'd) timerq \<Rightarrow> addr)"
proof -
  have "tq_heap q (least_free q) = None" if fin: "finite (dom (tq_heap q))" for q :: "('c, 'd) timerq"
  proof -
    obtain a where "a \<notin> dom (tq_heap q)" using ex_new_if_finite [OF infinite_UNIV_nat fin] by blast
    then have "tq_heap q a = None" by (simp add: dom_def)
    then show ?thesis unfolding least_free_def by (rule LeastI)
  qed
  then show ?thesis by (simp add: fresh_alloc_def)
qed

definition demo_durations :: "int durations" where
  "demo_durations = \<lparr>dur_positive = (\<lambda>d. 0 < d), dur_us = (\<lambda>d. \<bar>d\<bar> * 1000)\<rparr>"

text \<open>Three timers: one that runs once and cancels the second, a periodic one, and one not yet due.\<close>

definition demo_does :: "nat \<Rightarrow> (nat, int) timerq \<Rightarrow> (nat, int) act list" where
  "demo_does c q = (if c = 1 then [Cancel (6, 2), Add 30 4 40 0] else [])"

definition demo_timers :: "(nat, int) timerq" where
  "demo_timers = \<lparr>tq_heap = [5 \<mapsto> \<lparr>tm_callback = 1, tm_expiration = 10, tm_interval = 0, tm_repeat = False, tm_sequence = 1\<rparr>,
      6 \<mapsto> \<lparr>tm_callback = 2, tm_expiration = 20, tm_interval = 3, tm_repeat = True, tm_sequence = 2\<rparr>,
      7 \<mapsto> \<lparr>tm_callback = 3, tm_expiration = 15, tm_interval = 3, tm_repeat = True, tm_sequence = 3\<rparr>],
    s_numCreated = 3, tq_timers = [(10, 5), (15, 7), (20, 6)], tq_active = [(5, 1), (6, 2), (7, 3)],
    tq_calling = False, tq_canceling = [], tq_timerfd = Some (1, 0, 9000)\<rparr>"

lemma demo_timers_wf: "tq_wf [] demo_timers"
  by (auto simp: tq_wf_def demo_timers_def split: if_splits)

theorem timers_safe_witness:
  "\<exists>out q. tq_exec least_free demo_durations demo_does [Do (Add 1 1 10 0), Alarm 30 31, Do (Cancel (9, 9))] TimerQueue_new
     = Inr (out, q) \<and> tq_wf [] q"
  by (rule timers_safe [OF fresh_least_free])



text \<open>The destructor leaves no object behind.\<close>

lemma TimerQueue_dtor_heap:
  "distinct (map snd es) \<Longrightarrow> snd ` set es \<subseteq> dom (tq_heap q) \<Longrightarrow>
     TimerQueue_dtor es q = Inr (q\<lparr>tq_heap := (\<lambda>a. if a \<in> snd ` set es then None else tq_heap q a)\<rparr>)"
proof (induction es arbitrary: q)
  case Nil
  then show ?case by simp
next
  case (Cons e es)
  obtain tm where tm: "tq_heap q (snd e) = Some tm" using Cons.prems(2) by auto
  let ?q = "q\<lparr>tq_heap := (tq_heap q)(snd e := None)\<rparr>"
  have "TimerQueue_dtor es ?q = Inr (?q\<lparr>tq_heap := (\<lambda>a. if a \<in> snd ` set es then None else tq_heap ?q a)\<rparr>)"
    using Cons.prems by (intro Cons.IH) (simp, force simp: image_iff subset_iff dom_def)
  moreover have "(\<lambda>a. if a \<in> snd ` set es then None else tq_heap ?q a)
      = (\<lambda>a. if a \<in> snd ` set (e # es) then None else tq_heap q a)"
    by (auto simp: fun_eq_iff)
  ultimately show ?case using tm by (simp add: deref_def)
qed

lemma TimerQueue_dtor_frees:
  assumes "tq_wf [] q"
  shows "\<exists>q'. TimerQueue_dtor (tq_timers q) q = Inr q' \<and> tq_heap q' = Map.empty"
proof -
  note w = tq_wfD [OF assms]
  have heap: "snd ` set (tq_timers q) = dom (tq_heap q)" using w(8) by (force simp: image_iff)
  have "inj_on snd (set (tq_timers q))" using w(8) by (auto simp: inj_on_def)
  then have "distinct (map snd (tq_timers q))" using w(3) by (simp add: distinct_map)
  then show ?thesis using TimerQueue_dtor_heap [of "tq_timers q" q] heap by (auto simp: fun_eq_iff)
qed

text \<open>What \<open>addTimer\<close> returned stays genuine until the end.\<close>

lemma genuine_run_expired:
  assumes "fresh_alloc alloc"
  shows "tq_wf E q \<Longrightarrow> snd ` set es \<subseteq> set E \<Longrightarrow> genuine i q \<Longrightarrow>
     run_expired alloc D does es q = Inr (out, q') \<Longrightarrow> genuine i q'"
proof (induction es arbitrary: q out)
  case Nil
  then show ?case by simp
next
  case (Cons e es)
  obtain tm where tm: "tq_heap q (snd e) = Some tm" using tq_wfD(7) [OF Cons.prems(1)] Cons.prems(2) by auto
  obtain q1 where q1: "run_acts alloc D (does (tm_callback tm) q) q = Inr q1" "tq_wf E q1"
    using run_acts_ok [OF assms Cons.prems(1)] by blast
  have "genuine i q1" using genuine_run_acts [OF assms Cons.prems(1) q1(1) Cons.prems(3)] .
  then show ?case
    using Cons.IH [OF q1(2)] Cons.prems(2,4) tm q1(1)
    by (auto simp: deref_def bind_res_Inr split: prod.splits)
qed

text \<open>The end of \<open>handleRead\<close>: a deleted or never restarted timer is gone.\<close>

lemma restarted_gone:
  assumes "tq_wf E q1" and "s_numCreated q' = s_numCreated q1"
    and "\<forall>b. tq_heap q' b = (if b \<in> X then restarted D now q1 b else tq_heap q1 b)"
  shows "gone q1 n \<Longrightarrow> gone q' n"
    and "tq_heap q1 a = Some tm \<Longrightarrow> tq_heap q' a = None \<Longrightarrow> gone q' (tm_sequence tm)"
proof -
  have old: "\<exists>tm0. tq_heap q1 b = Some tm0 \<and> tm_sequence tm0 = tm_sequence tm1" if o: "tq_heap q' b = Some tm1" for b tm1
    using o assms(3) by (auto simp: restarted_def split: option.splits if_splits)
  show "gone q1 n \<Longrightarrow> gone q' n"
    using old assms(2) by (fastforce simp: gone_def)
  show "gone q' (tm_sequence tm)" if h1: "tq_heap q1 a = Some tm" and h2: "tq_heap q' a = None"
    unfolding gone_def
  proof (intro conjI allI impI)
    show "tm_sequence tm \<le> s_numCreated q'" using tq_wfD(10) [OF assms(1) h1] assms(2) by simp
    fix b tm1 assume "tq_heap q' b = Some tm1"
    then obtain tm0 where tm0: "tq_heap q1 b = Some tm0" "tm_sequence tm0 = tm_sequence tm1" "b \<noteq> a"
      using old h2 by (metis option.distinct(1))
    then show "tm_sequence tm1 \<noteq> tm_sequence tm" using tq_wfD(11) [OF assms(1) tm0(1) h1] by argo
  qed
qed

lemma genuine_handleRead:
  assumes "fresh_alloc alloc" and "tq_wf [] q" and "genuine i q" and "handleRead alloc D does now now2 q = Inr (out, q')"
  shows "genuine i q'"
proof -
  define expired where "expired = filter (\<lambda>e. fst e \<le> now) (tq_timers q)"
  obtain q0 q1 where *: "tq_wf (map snd expired) q0" "tq_heap q0 = tq_heap q" "s_numCreated q0 = s_numCreated q"
      "run_expired alloc D does expired q0 = Inr (out, q1)" "tq_wf (map snd expired) q1"
      "s_numCreated q' = s_numCreated q1"
      "\<forall>a. tq_heap q' a = (if a \<in> snd ` set expired then restarted D now q1 a else tq_heap q1 a)"
    using handleRead_ok [OF assms(1,2) expired_def, of D does now2] assms(4) by auto
  have "genuine i q0" using assms(3) *(2,3) by (simp add: genuine_def gone_def)
  then have "genuine i q1" using genuine_run_expired [OF assms(1) *(1) _ _ *(4)] by simp
  then consider "gone q1 (snd i)" | tm where "tq_heap q1 (fst i) = Some tm" "tm_sequence tm = snd i"
    by (auto simp: genuine_def)
  then show ?thesis
  proof cases
    case 1
    then show ?thesis using restarted_gone(1) [OF *(5-7)] by (simp add: genuine_def)
  next
    case 2
    then show ?thesis
      using restarted_gone(2) [OF *(5-7) 2(1)] *(7)
      by (auto simp: genuine_def restarted_def split: option.splits if_splits)
  qed
qed

lemma genuine_exec:
  assumes "fresh_alloc alloc"
  shows "tq_wf [] q \<Longrightarrow> genuine i q \<Longrightarrow> tq_exec alloc D does ops q = Inr (out, q') \<Longrightarrow> genuine i q'"
proof (induction ops arbitrary: q out)
  case Nil
  then show ?case by simp
next
  case (Cons x ops)
  show ?case
  proof (cases x)
    case (Do a)
    obtain q1 where q1: "run_act alloc D a q = Inr q1" "tq_wf [] q1"
      using run_act_ok [OF assms Cons.prems(1)] by blast
    then show ?thesis
      using Cons.IH [OF q1(2) genuine_run_act [OF assms Cons.prems(1) q1(1) Cons.prems(2)]] Cons.prems(3) Do by simp
  next
    case (Alarm now now2)
    obtain out1 q1 where q1: "handleRead alloc D does now now2 q = Inr (out1, q1)" "tq_wf [] q1"
      using handleRead_ok [OF assms Cons.prems(1) refl] by blast
    then show ?thesis
      using Cons.IH [OF q1(2) genuine_handleRead [OF assms Cons.prems(1,2) q1(1)]] Cons.prems(3) Alarm
      by (auto simp: bind_res_Inr split: prod.splits)
  qed
qed

lemma cancelInLoop_gone:
  assumes "tq_wf [] q" and "genuine i q" and "cancelInLoop i q = Inr q'"
  shows "gone q' (snd i)"
proof (cases "gone q (snd i)")
  case True
  then show ?thesis using cancelInLoop_ok [OF assms(1), of "fst i" "snd i"] assms(3) by (auto simp: kept_def)
next
  case False
  then have "(fst i, snd i) \<in> set (tq_active q)"
    using assms(2) unfolding tq_wfD(9) [OF assms(1)] by (simp add: genuine_def)
  then show ?thesis using cancelInLoop_ok [OF assms(1), of "fst i" "snd i"] assms(3) by auto
qed



text \<open>
  A callback that cancels a timer - a later one, one that expired in the same round and is still
  to run, or itself - stops it for good: after that round it never runs again.
\<close>

theorem cancelled_in_callback:
  assumes "fresh_alloc alloc" and "tq_wf [] q" and "genuine i q"
    and "e \<in> set (tq_timers q)" and "fst e \<le> now" and "\<And>q'. Cancel i \<in> set (does (fst (ran_of q e)) q')"
    and "handleRead alloc D does now now2 q = Inr (out, q')"
    and "tq_exec alloc D does ops q' = Inr (out', q'')"
  shows "snd i \<notin> snd ` set out'"
proof -
  define expired where "expired = filter (\<lambda>e. fst e \<le> now) (tq_timers q)"
  obtain q0 q1 where *: "tq_wf [] q'" "tq_wf (map snd expired) q0" "tq_calling q0" "tq_heap q0 = tq_heap q"
      "s_numCreated q0 = s_numCreated q" "run_expired alloc D does expired q0 = Inr (out, q1)"
      "tq_wf (map snd expired) q1" "s_numCreated q' = s_numCreated q1"
      "\<forall>a. tq_heap q' a = (if a \<in> snd ` set expired then restarted D now q1 a else tq_heap q1 a)"
    using handleRead_ok [OF assms(1,2) expired_def, of D does now2] assms(7) by auto
  have "ran_of q0 e = ran_of q e" "genuine i q0" "e \<in> set expired"
    using assms(3-5) *(4,5) by (simp_all add: ran_of_def genuine_def gone_def expired_def)
  then have "doomed (map snd expired) (fst i) (snd i) q1"
    using run_expired_Cancel [OF assms(1) *(2) _ *(3) _ _ _ *(6), of e i] assms(6) by simp
  then consider "gone q1 (snd i)" | "fst i \<in> snd ` set expired" "i \<in> set (tq_canceling q1)"
    by (auto simp: doomed_def)
  then have "gone q' (snd i)"
  proof cases
    case 1
    then show ?thesis using restarted_gone(1) [OF *(7-9)] by blast
  next
    case 2
    have g: "genuine i q1" using genuine_run_expired [OF assms(1) *(2) _ \<open>genuine i q0\<close> *(6)] by simp
    show ?thesis
    proof (cases "gone q1 (snd i)")
      case True
      then show ?thesis using restarted_gone(1) [OF *(7-9)] by blast
    next
      case False
      then obtain tm where tm: "tq_heap q1 (fst i) = Some tm" "tm_sequence tm = snd i"
        using g by (auto simp: genuine_def)
      have "tq_heap q' (fst i) = None" using 2 tm *(9) by (auto simp: restarted_def)
      then show ?thesis using restarted_gone(2) [OF *(7-9) tm(1)] tm(2) by simp
    qed
  qed
  then show ?thesis using tq_exec_gone [OF assms(1) *(1) assms(8)] by blast
qed

theorem cancelled_in_callback_witness:
  "\<exists>out q' out' q''. handleRead least_free demo_durations demo_does 20 21 demo_timers = Inr (out, q') \<and>
     tq_exec least_free demo_durations demo_does [Alarm 9000 9001] q' = Inr (out', q'') \<and> 2 \<notin> snd ` set out'"
proof -
  obtain out q' where 1: "handleRead least_free demo_durations demo_does 20 21 demo_timers = Inr (out, q')" "tq_wf [] q'"
    using handleRead_ok [OF fresh_least_free demo_timers_wf refl] by blast
  obtain out' q'' where 2: "tq_exec least_free demo_durations demo_does [Alarm 9000 9001] q' = Inr (out', q'')"
    using tq_exec_ok [OF fresh_least_free 1(2)] by blast
  have "snd (6 :: nat, 2 :: int) \<notin> snd ` set out'"
    by (rule cancelled_in_callback [OF fresh_least_free demo_timers_wf _ _ _ _ 1(1) 2, of "(6, 2)" "(10, 5)"])
      (simp_all add: genuine_def demo_timers_def ran_of_def demo_does_def)
  then show ?thesis using 1(1) 2 by auto
qed

text \<open>
  No timer is forgotten: as long as expirations are times after the epoch, at every moment
  between two operations of the loop, if there are timers then the alarm is set, and it goes off at
  the latest at the expiration of the earliest timer, or 100 microseconds after it was set.
\<close>

theorem alarm_not_late:
  assumes "fresh_alloc alloc" and "\<And>c q. list_all valid_act (does c q)" and "\<And>d. 0 \<le> dur_us D d"
    and "list_all valid_op ops" and "tq_exec alloc D does ops TimerQueue_new = Inr (out, q)"
    and "tq_timers q \<noteq> []"
  shows "\<exists>now sec nsec. tq_timerfd q = Some (now, sec, nsec) \<and>
     now + (sec * 1000000 + nsec sdiv 1000) \<le> max (fst (hd (tq_timers q))) (now + 100)"
proof -
  have "alarm_set q"
    by (rule alarm_set_exec [OF assms(1-3) tq_wf_new _ _ assms(4,5)])
      (simp_all add: valid_times_def alarm_set_def TimerQueue_new_def)
  then show ?thesis using assms(6) by (auto simp: alarm_set_def alarm_us_def kMicroSecondsPerSecond_def)
qed

theorem alarm_not_late_witness:
  "\<exists>out q. tq_exec least_free demo_durations demo_does [Do (Add 1 1 10 0), Do (Add 2 5 8 0)] TimerQueue_new = Inr (out, q) \<and>
     (\<exists>now sec nsec. tq_timerfd q = Some (now, sec, nsec) \<and>
        now + (sec * 1000000 + nsec sdiv 1000) \<le> max (fst (hd (tq_timers q))) (now + 100))"
proof -
  obtain a q1 where 1: "run_act least_free demo_durations (Add 1 1 10 0) (TimerQueue_new :: (nat, int) timerq) = Inr q1"
      "tq_wf [] q1"
    using run_act_ok [OF fresh_least_free tq_wf_new] by blast
  obtain b q where 2: "addTimer least_free demo_durations 2 5 8 0 q1 = Inr ((b, s_numCreated q1 + 1), q)"
      "tq_timers q = insort (8, b) (tq_timers q1)"
    using addTimer_ok [OF fresh_least_free 1(2), of demo_durations 2 5 8 0] by blast
  have ne: "tq_timers q \<noteq> []" by (simp add: 2(2))
  have ex: "tq_exec least_free demo_durations demo_does [Do (Add 1 1 10 0), Do (Add 2 5 8 0)] TimerQueue_new = Inr ([], q)"
    using 1(1) 2(1) by simp
  have "\<exists>now sec nsec. tq_timerfd q = Some (now, sec, nsec) \<and>
        now + (sec * 1000000 + nsec sdiv 1000) \<le> max (fst (hd (tq_timers q))) (now + 100)"
    by (rule alarm_not_late [OF fresh_least_free _ _ _ ex ne]) (simp_all add: demo_does_def demo_durations_def)
  then show ?thesis using ex by blast
qed

end
