(* ===== verification/EventLoop.thy ===== *)
theory EventLoop imports Prelude begin

text \<open>
  \<open>muduo/net/EventLoop\<close>: the loop's thread and any number of other threads.  The loop's thread is a
  control point (\<open>pc\<close>) of \<open>loop()\<close>; the others are the calls they make, each cut where another thread
  can come in between: \<open>el_waking\<close> counts the threads that are between the first half of
  \<open>queueInLoop\<close> or \<open>quit\<close> and their call of \<open>wakeup\<close>.  Callbacks and functors are free: while one
  runs, the loop's thread may make any of the calls.

  The functors are elements of an arbitrary type; \<open>el_queued\<close> and \<open>el_ran\<close> record the order in which
  they were queued and run.
\<close>

subsection \<open>State and operations\<close>

datatype channel = Wakeup | Chan nat

datatype 'f pc = Idle | Check | Polling | Handling "channel list" | Swap | Running "'f list"

record 'f evloop =
  el_looping :: bool
  el_quit :: bool
  el_eventHandling :: bool
  el_callingPendingFunctors :: bool
  el_wakeupFd :: nat
  el_activeChannels :: "channel list"
  el_currentActiveChannel :: "channel option"
  el_pendingFunctors :: "'f list"
  el_pc :: "'f pc"
  el_waking :: nat
  el_queued :: "'f list"
  el_ran :: "'f list"

definition EventLoop_new :: "'f evloop" where
  "EventLoop_new = \<lparr>el_looping = False, el_quit = False, el_eventHandling = False,
     el_callingPendingFunctors = False, el_wakeupFd = 0, el_activeChannels = [],
     el_currentActiveChannel = None, el_pendingFunctors = [], el_pc = Idle, el_waking = 0,
     el_queued = [], el_ran = []\<rparr>"

text \<open>An \<open>eventfd\<close> is a counter; a \<open>write\<close> that would take it past its maximum fails.\<close>

definition eventfd_max :: nat where
  "eventfd_max = 2 ^ 64 - 2"

definition el_wakeup :: "'f evloop \<Rightarrow> 'f evloop" where
  "el_wakeup s = (if el_wakeupFd s + 1 \<le> eventfd_max then s\<lparr>el_wakeupFd := el_wakeupFd s + 1\<rparr> else s)"

definition el_handleRead :: "'f evloop \<Rightarrow> 'f evloop" where
  "el_handleRead s = s\<lparr>el_wakeupFd := 0\<rparr>"

definition push_functor :: "'f \<Rightarrow> 'f evloop \<Rightarrow> 'f evloop" where
  "push_functor cb s = s\<lparr>el_pendingFunctors := el_pendingFunctors s @ [cb], el_queued := el_queued s @ [cb]\<rparr>"

definition queueInLoop :: "bool \<Rightarrow> 'f \<Rightarrow> 'f evloop \<Rightarrow> 'f evloop" where
  "queueInLoop isInLoopThread cb s =
     (let s = push_functor cb s in
      if \<not> isInLoopThread \<or> el_callingPendingFunctors s then el_wakeup s else s)"

definition runInLoop :: "bool \<Rightarrow> ('f evloop \<Rightarrow> 'f evloop) \<Rightarrow> 'f \<Rightarrow> 'f evloop \<Rightarrow> 'f evloop" where
  "runInLoop isInLoopThread call cb s = (if isInLoopThread then call s else queueInLoop isInLoopThread cb s)"

definition quit_loop :: "bool \<Rightarrow> 'f evloop \<Rightarrow> 'f evloop" where
  "quit_loop isInLoopThread s =
     (let s = s\<lparr>el_quit := True\<rparr> in if \<not> isInLoopThread then el_wakeup s else s)"

definition el_removeChannel :: "channel \<Rightarrow> 'f evloop \<Rightarrow> bool" where
  "el_removeChannel channel s \<longleftrightarrow>
     (el_eventHandling s \<longrightarrow> el_currentActiveChannel s = Some channel \<or> channel \<notin> set (el_activeChannels s))"

subsection \<open>The steps of the loop's thread\<close>

text \<open>
  What the poller returns is free, but for the wake-up channel: it is active only if its counter is
  not zero.  A timeout is an empty list.
\<close>

inductive core_step :: "'f evloop \<Rightarrow> 'f evloop \<Rightarrow> bool" where
  loop_enter: "el_pc s = Idle \<Longrightarrow> core_step s (s\<lparr>el_looping := True, el_quit := False, el_pc := Check\<rparr>)"
| loop_end: "el_pc s = Check \<Longrightarrow> el_quit s \<Longrightarrow> core_step s (s\<lparr>el_looping := False, el_pc := Idle\<rparr>)"
| loop_again: "el_pc s = Check \<Longrightarrow> \<not> el_quit s \<Longrightarrow>
    core_step s (s\<lparr>el_activeChannels := [], el_pc := Polling\<rparr>)"
| poll_returns: "el_pc s = Polling \<Longrightarrow> Wakeup \<in> set es \<longrightarrow> 0 < el_wakeupFd s \<Longrightarrow>
    core_step s (s\<lparr>el_activeChannels := es, el_eventHandling := True, el_pc := Handling es\<rparr>)"
| handle_wakeup: "el_pc s = Handling (Wakeup # es) \<Longrightarrow>
    core_step s (el_handleRead s\<lparr>el_currentActiveChannel := Some Wakeup, el_pc := Handling es\<rparr>)"
| handle_channel: "el_pc s = Handling (Chan c # es) \<Longrightarrow>
    core_step s (s\<lparr>el_currentActiveChannel := Some (Chan c), el_pc := Handling es\<rparr>)"
| handled: "el_pc s = Handling [] \<Longrightarrow>
    core_step s (s\<lparr>el_currentActiveChannel := None, el_eventHandling := False,
      el_callingPendingFunctors := True, el_pc := Swap\<rparr>)"
| swap: "el_pc s = Swap \<Longrightarrow>
    core_step s (s\<lparr>el_pendingFunctors := [], el_pc := Running (el_pendingFunctors s)\<rparr>)"
| run_functor: "el_pc s = Running (f # fs) \<Longrightarrow>
    core_step s (s\<lparr>el_ran := el_ran s @ [f], el_pc := Running fs\<rparr>)"
| functors_done: "el_pc s = Running [] \<Longrightarrow>
    core_step s (s\<lparr>el_callingPendingFunctors := False, el_pc := Check\<rparr>)"

definition in_callback :: "'f evloop \<Rightarrow> bool" where
  "in_callback s \<longleftrightarrow> (case el_pc s of Handling _ \<Rightarrow> True | Running _ \<Rightarrow> True | _ \<Rightarrow> False)"

text \<open>The loop's thread, and the others.\<close>

inductive own_step :: "'f evloop \<Rightarrow> 'f evloop \<Rightarrow> bool" where
  own_core: "core_step s s' \<Longrightarrow> own_step s s'"
| own_queue: "in_callback s \<Longrightarrow> own_step s (queueInLoop True f s)"
| own_quit: "in_callback s \<Longrightarrow> own_step s (quit_loop True s)"

inductive other_step :: "'f evloop \<Rightarrow> 'f evloop \<Rightarrow> bool" where
  other_push: "other_step s (push_functor f s\<lparr>el_waking := el_waking s + 1\<rparr>)"
| other_quit: "other_step s (s\<lparr>el_quit := True, el_waking := el_waking s + 1\<rparr>)"
| other_wakeup: "0 < el_waking s \<Longrightarrow> other_step s (el_wakeup s\<lparr>el_waking := el_waking s - 1\<rparr>)"

inductive loop_reach :: "'f evloop \<Rightarrow> bool" where
  reach_new: "loop_reach EventLoop_new"
| reach_own: "loop_reach s \<Longrightarrow> own_step s s' \<Longrightarrow> loop_reach s'"
| reach_other: "loop_reach s \<Longrightarrow> other_step s s' \<Longrightarrow> loop_reach s'"

inductive_cases core_stepE: "core_step s s'"
inductive_cases own_stepE: "own_step s s'"
inductive_cases other_stepE: "other_step s s'"

text \<open>The two halves of another thread's calls make the whole ones.\<close>

lemma other_calls:
  "el_wakeup (push_functor f s) = queueInLoop False f s"
  "el_wakeup (s\<lparr>el_quit := True\<rparr>) = quit_loop False s"
  by (simp_all add: queueInLoop_def quit_loop_def)

subsection \<open>The invariant\<close>

definition running :: "'f pc \<Rightarrow> 'f list" where
  "running p = (case p of Running fs \<Rightarrow> fs | _ \<Rightarrow> [])"

definition must_wake :: "'f evloop \<Rightarrow> bool" where
  "must_wake s \<longleftrightarrow> 0 < el_wakeupFd s \<or> 0 < el_waking s"

text \<open>From the swap to the next handling of events nothing empties the queue, and nothing reads the counter.\<close>

definition after_swap :: "'f pc \<Rightarrow> bool" where
  "after_swap p \<longleftrightarrow> (case p of Handling _ \<Rightarrow> False | Swap \<Rightarrow> False | _ \<Rightarrow> True)"

definition loop_inv :: "'f evloop \<Rightarrow> bool" where
  "loop_inv s \<longleftrightarrow>
     (after_swap (el_pc s) \<and> el_pendingFunctors s \<noteq> [] \<longrightarrow> must_wake s) \<and>
     (el_pc s = Polling \<and> el_quit s \<longrightarrow> must_wake s) \<and>
     (el_looping s \<longleftrightarrow> el_pc s \<noteq> Idle) \<and>
     (el_eventHandling s \<longleftrightarrow> (\<exists>es. el_pc s = Handling es)) \<and>
     (el_callingPendingFunctors s \<longleftrightarrow> el_pc s = Swap \<or> (\<exists>fs. el_pc s = Running fs)) \<and>
     el_wakeupFd s \<le> eventfd_max \<and>
     el_queued s = el_ran s @ running (el_pc s) @ el_pendingFunctors s"

lemmas loop_simps = loop_inv_def after_swap_def must_wake_def running_def in_callback_def
  queueInLoop_def quit_loop_def push_functor_def el_handleRead_def Let_def

lemma el_wakeup_simps [simp]:
  "0 < el_wakeupFd (el_wakeup s)"
  "el_wakeupFd s \<le> eventfd_max \<Longrightarrow> el_wakeupFd (el_wakeup s) \<le> eventfd_max"
  "el_looping (el_wakeup s) = el_looping s" "el_quit (el_wakeup s) = el_quit s"
  "el_eventHandling (el_wakeup s) = el_eventHandling s"
  "el_callingPendingFunctors (el_wakeup s) = el_callingPendingFunctors s"
  "el_pendingFunctors (el_wakeup s) = el_pendingFunctors s" "el_pc (el_wakeup s) = el_pc s"
  "el_waking (el_wakeup s) = el_waking s" "el_queued (el_wakeup s) = el_queued s"
  "el_ran (el_wakeup s) = el_ran s"
  by (simp_all add: el_wakeup_def eventfd_max_def)

lemma core_step_inv:
  assumes "core_step s s'" and "loop_inv s"
  shows "loop_inv s'"
  using assms(1)
  by cases (use assms(2) in \<open>simp_all only:, simp_all add: loop_simps\<close>)

lemma own_step_inv:
  assumes "own_step s s'" and "loop_inv s"
  shows "loop_inv s'"
  using assms(1)
proof cases
  case own_core
  then show ?thesis using assms(2) by (rule core_step_inv)
next
  case (own_queue f)
  show ?thesis
    unfolding own_queue(1) using own_queue(2) assms(2) by (cases "el_pc s"; simp add: loop_simps)
next
  case own_quit
  show ?thesis
    unfolding own_quit(1) using own_quit(2) assms(2) by (cases "el_pc s"; simp add: loop_simps)
qed

lemma other_step_inv:
  assumes "other_step s s'" and "loop_inv s"
  shows "loop_inv s'"
  using assms(1)
proof cases
  case (other_push f)
  show ?thesis unfolding other_push using assms(2) by (cases "el_pc s"; simp add: loop_simps)
next
  case other_quit
  show ?thesis unfolding other_quit using assms(2) by (cases "el_pc s"; simp add: loop_simps)
next
  case other_wakeup
  show ?thesis unfolding other_wakeup(1) using assms(2) by (cases "el_pc s"; simp add: loop_simps)
qed

lemma loop_reach_inv: "loop_reach s \<Longrightarrow> loop_inv s"
proof (induction rule: loop_reach.induct)
  case reach_new
  then show ?case by (simp add: EventLoop_new_def loop_simps)
qed (auto intro: own_step_inv other_step_inv)


subsection \<open>One turn of the loop\<close>

text \<open>The body of the \<open>while\<close>, without calls from callbacks and from other threads.\<close>

fun handleEvents :: "channel list \<Rightarrow> 'f evloop \<Rightarrow> 'f evloop" where
  "handleEvents [] s = s\<lparr>el_currentActiveChannel := None, el_eventHandling := False,
     el_callingPendingFunctors := True, el_pc := Swap\<rparr>"
| "handleEvents (Wakeup # es) s =
     handleEvents es (el_handleRead s\<lparr>el_currentActiveChannel := Some Wakeup, el_pc := Handling es\<rparr>)"
| "handleEvents (Chan c # es) s =
     handleEvents es (s\<lparr>el_currentActiveChannel := Some (Chan c), el_pc := Handling es\<rparr>)"

fun run_functors :: "'f list \<Rightarrow> 'f evloop \<Rightarrow> 'f evloop" where
  "run_functors [] s = s\<lparr>el_callingPendingFunctors := False, el_pc := Check\<rparr>"
| "run_functors (f # fs) s = run_functors fs (s\<lparr>el_ran := el_ran s @ [f], el_pc := Running fs\<rparr>)"

definition doPendingFunctors :: "'f evloop \<Rightarrow> 'f evloop" where
  "doPendingFunctors s =
     (let functors = el_pendingFunctors s
      in run_functors functors (s\<lparr>el_pendingFunctors := [], el_pc := Running functors\<rparr>))"

definition loop_body :: "channel list \<Rightarrow> 'f evloop \<Rightarrow> 'f evloop" where
  "loop_body es s =
     doPendingFunctors (handleEvents es
       (s\<lparr>el_activeChannels := es, el_eventHandling := True, el_pc := Handling es\<rparr>))"

lemma handleEvents_steps:
  "el_pc s = Handling es \<Longrightarrow> rtranclp core_step s (handleEvents es s)"
proof (induction es s rule: handleEvents.induct)
  case (1 s)
  then show ?case by (simp add: handled r_into_rtranclp)
next
  case (2 es s)
  show ?case
    using 2 by (auto intro: converse_rtranclp_into_rtranclp [of core_step, OF handle_wakeup])
next
  case (3 c es s)
  show ?case
    using 3 by (auto intro: converse_rtranclp_into_rtranclp [of core_step, OF handle_channel])
qed

lemma run_functors_steps:
  "el_pc s = Running fs \<Longrightarrow> rtranclp core_step s (run_functors fs s)"
proof (induction fs s rule: run_functors.induct)
  case (1 s)
  then show ?case by (simp add: functors_done r_into_rtranclp)
next
  case (2 f fs s)
  show ?case
    using 2 by (auto intro: converse_rtranclp_into_rtranclp [of core_step, OF run_functor])
qed

lemma handleEvents_sel:
  "el_pc (handleEvents es s) = Swap" "el_pendingFunctors (handleEvents es s) = el_pendingFunctors s"
  "el_ran (handleEvents es s) = el_ran s" "el_queued (handleEvents es s) = el_queued s"
  "el_quit (handleEvents es s) = el_quit s"
  by (induction es s rule: handleEvents.induct) (simp_all add: el_handleRead_def)

lemma run_functors_sel:
  "el_pc (run_functors fs s) = Check" "el_pendingFunctors (run_functors fs s) = el_pendingFunctors s"
  "el_ran (run_functors fs s) = el_ran s @ fs" "el_queued (run_functors fs s) = el_queued s"
  "el_quit (run_functors fs s) = el_quit s"
  by (induction fs s rule: run_functors.induct) simp_all

lemma loop_body_steps:
  assumes "el_pc s = Polling" and "Wakeup \<in> set es \<longrightarrow> 0 < el_wakeupFd s"
  shows "rtranclp core_step s (loop_body es s)"
proof -
  let ?s1 = "s\<lparr>el_activeChannels := es, el_eventHandling := True, el_pc := Handling es\<rparr>"
  let ?s2 = "handleEvents es ?s1"
  let ?s3 = "?s2\<lparr>el_pendingFunctors := [], el_pc := Running (el_pendingFunctors ?s2)\<rparr>"
  have "core_step s ?s1" using assms by (rule poll_returns)
  moreover have "rtranclp core_step ?s1 ?s2" by (rule handleEvents_steps) simp
  moreover have "core_step ?s2 ?s3" by (rule swap) (rule handleEvents_sel)
  moreover have "rtranclp core_step ?s3 (run_functors (el_pendingFunctors ?s2) ?s3)"
    by (rule run_functors_steps) simp
  ultimately show ?thesis
    unfolding loop_body_def doPendingFunctors_def Let_def
    by (meson converse_rtranclp_into_rtranclp rtranclp_trans)
qed

subsection \<open>The promises of the loop\<close>


text \<open>A loop that waits while another thread queues a functor.\<close>

definition demo_waiting :: "nat evloop" where
  "demo_waiting = EventLoop_new\<lparr>el_looping := True, el_pc := Polling\<rparr>"

lemma demo_waiting_reach: "loop_reach demo_waiting"
proof -
  let ?s = "EventLoop_new\<lparr>el_looping := True, el_pc := Check\<rparr> :: nat evloop"
  have "core_step EventLoop_new ?s"
    using loop_enter [of "EventLoop_new :: nat evloop"] by (simp add: EventLoop_new_def)
  then have s: "loop_reach ?s" using reach_own [OF reach_new own_core] by blast
  have "core_step ?s demo_waiting"
    using loop_again [of ?s] by (simp add: EventLoop_new_def demo_waiting_def)
  then show ?thesis using reach_own [OF s own_core] by blast
qed

lemmas demo_eval = queueInLoop_def push_functor_def el_wakeup_def demo_waiting_def EventLoop_new_def Let_def
  eventfd_max_def

lemma demo_queued_reach: "loop_reach (queueInLoop False 7 demo_waiting)"
proof -
  let ?s = "push_functor 7 demo_waiting\<lparr>el_waking := el_waking demo_waiting + 1\<rparr>"
  have "loop_reach ?s" using reach_other [OF demo_waiting_reach other_push] .
  then have "loop_reach (el_wakeup ?s\<lparr>el_waking := el_waking ?s - 1\<rparr>)"
    by (rule reach_other) (rule other_wakeup, simp)
  then show ?thesis
    by (simp add: demo_eval)
qed


text \<open>
  C12: functors run once each and in the order in which they were queued, whichever threads queued
  them: at every moment, the functors queued so far are the ones that ran, then the rest of the batch
  that is running, then the queue.
\<close>

theorem functors_run_in_order:
  assumes "loop_reach s"
  shows "el_queued s = el_ran s @ (case el_pc s of Running fs \<Rightarrow> fs | _ \<Rightarrow> []) @ el_pendingFunctors s"
  using loop_reach_inv [OF assms] by (simp add: loop_inv_def running_def)

theorem functors_run_in_order_witness:
  "el_queued (queueInLoop False 7 demo_waiting) = [7]"
  using functors_run_in_order [OF demo_queued_reach]
  by (simp add: demo_eval)

text \<open>
  One turn of the loop runs everything that is queued: from any reachable state in which the loop
  waits, the loop's own steps take it through the body of the loop, after which no queued functor is
  left to run, and if somebody has asked to quit the loop then ends.
\<close>

theorem loop_turn:
  assumes "loop_reach s" and "el_pc s = Polling" and "Wakeup \<in> set es \<longrightarrow> 0 < el_wakeupFd s"
  shows "rtranclp core_step s (loop_body es s) \<and>
    el_ran (loop_body es s) = el_queued s \<and> el_pendingFunctors (loop_body es s) = [] \<and>
    (el_quit s \<longrightarrow> (\<exists>t. core_step (loop_body es s) t \<and> el_pc t = Idle \<and> \<not> el_looping t))"
proof -
  have q: "el_queued s = el_ran s @ el_pendingFunctors s"
    using loop_reach_inv [OF assms(1)] assms(2) by (simp add: loop_inv_def running_def)
  have sel: "el_ran (loop_body es s) = el_ran s @ el_pendingFunctors s" "el_pendingFunctors (loop_body es s) = []"
    "el_pc (loop_body es s) = Check" "el_quit (loop_body es s) = el_quit s"
    by (simp_all add: loop_body_def doPendingFunctors_def Let_def run_functors_sel handleEvents_sel)
  have "\<exists>t. core_step (loop_body es s) t \<and> el_pc t = Idle \<and> \<not> el_looping t" if "el_quit s"
    using loop_end [OF sel(3)] sel(4) that by (intro exI conjI) auto
  then show ?thesis using loop_body_steps [OF assms(2,3)] q sel(1,2) by simp
qed

theorem loop_turn_witness:
  "el_ran (loop_body [Wakeup, Chan 3] (queueInLoop False 7 demo_waiting)) = [7]"
  using loop_turn [OF demo_queued_reach, of "[Wakeup, Chan 3]"]
  by (simp add: demo_eval)

text \<open>The assertion of \<open>removeChannel\<close> cannot fail in a functor: that is why connections are destroyed in one.\<close>

lemma removeChannel_in_functor:
  assumes "loop_reach s" and "el_pc s = Running fs"
  shows "el_removeChannel c s"
  using loop_reach_inv [OF assms(1)] assms(2) by (simp add: loop_inv_def el_removeChannel_def)

text \<open>
  The one call that is not woken up for: when the loop's own thread queues a functor before it
  enters \<open>loop()\<close>, the loop goes to wait with that functor in its queue and an unreadable wake-up
  descriptor.
\<close>

theorem queueInLoop_before_loop_waits:
  "\<exists>s. rtranclp core_step (queueInLoop True f EventLoop_new) s \<and> el_pc s = Polling \<and>
     el_pendingFunctors s = [f] \<and> el_wakeupFd s = 0 \<and> el_waking s = 0"
proof -
  let ?s0 = "queueInLoop True f EventLoop_new"
  let ?s1 = "?s0\<lparr>el_looping := True, el_quit := False, el_pc := Check\<rparr>"
  let ?s2 = "?s1\<lparr>el_activeChannels := [], el_pc := Polling\<rparr>"
  have f: "el_pc ?s0 = Idle" "el_pendingFunctors ?s0 = [f]" "el_wakeupFd ?s0 = 0" "el_waking ?s0 = 0"
    by (simp_all add: queueInLoop_def push_functor_def EventLoop_new_def Let_def)
  have "core_step ?s0 ?s1" using f(1) by (rule loop_enter)
  moreover have "core_step ?s1 ?s2" by (rule loop_again) simp_all
  ultimately have "rtranclp core_step ?s0 ?s2" by (meson converse_rtranclp_into_rtranclp r_into_rtranclp)
  then show ?thesis using f by (intro exI [of _ ?s2]) simp
qed

text \<open>A request to quit that comes before the loop starts is forgotten.\<close>

lemma quit_before_loop_lost:
  assumes "core_step (quit_loop True EventLoop_new) s"
  shows "el_pc s = Check \<and> \<not> el_quit s"
  using assms by cases (simp_all add: quit_loop_def EventLoop_new_def)

end
