(* ===== verification/HttpParser.thy ===== *)
theory HttpParser imports TcpConnection Prog "HOL-Library.List_Lexorder" begin

text \<open>
  \<open>muduo/net/http/HttpRequest.h\<close>, \<open>HttpContext.h\<close> and the parser of \<open>HttpServer.cc\<close>: a request is read
  line by line out of the input buffer of its connection; what has been read so far is kept in the
  context of the connection.

  The lemmas relate the parser to \<open>http_spec\<close>, which works on the readable bytes alone, show that the
  parser does not depend on how the request was cut into pieces, and read back a request from its
  text.
\<close>

subsection \<open>Requests\<close>

datatype method_e = kInvalid | kGet | kPost | kHead | kPut | kDelete

datatype version_e = kUnknown | kHttp10 | kHttp11

record http_request =
  hr_method :: method_e
  hr_version :: version_e
  hr_path :: bytes
  hr_receiveTime :: int
  hr_headers :: "bytes \<Rightarrow> bytes option"

definition HttpRequest_new :: http_request where
  "HttpRequest_new = \<lparr>hr_method = kInvalid, hr_version = kUnknown, hr_path = [], hr_receiveTime = 0,
     hr_headers = Map.empty\<rparr>"

definition method_of :: "bytes \<Rightarrow> method_e" where
  "method_of m =
     (if m = lit ''GET'' then kGet
      else if m = lit ''POST'' then kPost
      else if m = lit ''HEAD'' then kHead
      else if m = lit ''PUT'' then kPut
      else if m = lit ''DELETE'' then kDelete
      else kInvalid)"

definition setMethod :: "bytes \<Rightarrow> http_request \<Rightarrow> (bool \<times> http_request) res" where
  "setMethod m r =
     assert_res (hr_method r = kInvalid)
       (let r = r\<lparr>hr_method := method_of m\<rparr> in Inr (hr_method r \<noteq> kInvalid, r))"

definition methodString :: "http_request \<Rightarrow> bytes" where
  "methodString r =
     (case hr_method r of
        kGet \<Rightarrow> lit ''GET''
      | kPost \<Rightarrow> lit ''POST''
      | kHead \<Rightarrow> lit ''HEAD''
      | kPut \<Rightarrow> lit ''PUT''
      | kDelete \<Rightarrow> lit ''DELETE''
      | kInvalid \<Rightarrow> lit ''UNKNOWN'')"

text \<open>\<open>line\<close> are the bytes from \<open>start\<close> to \<open>end\<close>, \<open>colon\<close> an offset in it.\<close>

definition http_addHeader :: "bytes \<Rightarrow> nat \<Rightarrow> http_request \<Rightarrow> http_request" where
  "http_addHeader line colon r =
     (let field = take colon line;
          v = dropWhile is_space (drop (colon + 1) line);
          v = rev (dropWhile is_space (rev v))
      in r\<lparr>hr_headers := (hr_headers r)(field \<mapsto> v)\<rparr>)"

definition getHeader :: "bytes \<Rightarrow> http_request \<Rightarrow> bytes" where
  "getHeader field r = (case hr_headers r field of Some v \<Rightarrow> v | None \<Rightarrow> [])"

text \<open>\<open>version_\<close> is not swapped.\<close>

definition HttpRequest_swap :: "http_request \<Rightarrow> http_request \<Rightarrow> http_request \<times> http_request" where
  "HttpRequest_swap this that =
     (this\<lparr>hr_method := hr_method that, hr_path := hr_path that, hr_receiveTime := hr_receiveTime that,
           hr_headers := hr_headers that\<rparr>,
      that\<lparr>hr_method := hr_method this, hr_path := hr_path this, hr_receiveTime := hr_receiveTime this,
           hr_headers := hr_headers this\<rparr>)"

subsection \<open>The context\<close>

datatype parse_state = kExpectRequestLine | kExpectHeaders | kExpectBody | kGotAll

record http_context =
  hc_state :: parse_state
  hc_request :: http_request

definition HttpContext_new :: http_context where
  "HttpContext_new = \<lparr>hc_state = kExpectRequestLine, hc_request = HttpRequest_new\<rparr>"

definition receiveRequestLine :: "http_context \<Rightarrow> http_context" where
  "receiveRequestLine c = c\<lparr>hc_state := kExpectHeaders\<rparr>"

definition receiveHeaders :: "http_context \<Rightarrow> http_context" where
  "receiveHeaders c = c\<lparr>hc_state := kGotAll\<rparr>"

definition HttpContext_reset :: "http_context \<Rightarrow> http_context" where
  "HttpContext_reset c =
     c\<lparr>hc_state := kExpectRequestLine, hc_request := fst (HttpRequest_swap (hc_request c) HttpRequest_new)\<rparr>"

subsection \<open>The parser\<close>

text \<open>\<open>line\<close> are the bytes from \<open>begin\<close> to \<open>end\<close>.\<close>

definition processRequestLine :: "bytes \<Rightarrow> http_context \<Rightarrow> (bool \<times> http_context) res" where
  "processRequestLine line c =
     (let space = std_find line 32; request = hc_request c in
      if space \<noteq> length line then
        bind_res (setMethod (take space line) request) (\<lambda>(known, request).
        if known then
          let start = drop (space + 1) line;
              space = std_find start 32
          in if space \<noteq> length start then
               let request = request\<lparr>hr_path := take space start\<rparr>;
                   start = drop (space + 1) start
               in if length start = 8 \<and> take 7 start = lit ''HTTP/1.'' then
                    if last start = 49 then Inr (True, c\<lparr>hc_request := request\<lparr>hr_version := kHttp11\<rparr>\<rparr>)
                    else if last start = 48 then Inr (True, c\<lparr>hc_request := request\<lparr>hr_version := kHttp10\<rparr>\<rparr>)
                    else Inr (False, c\<lparr>hc_request := request\<rparr>)
                  else Inr (False, c\<lparr>hc_request := request\<rparr>)
             else Inr (False, c\<lparr>hc_request := request\<rparr>)
        else Inr (False, c\<lparr>hc_request := request\<rparr>))
      else Inr (False, c))"

text \<open>
  The loop of \<open>parseRequest\<close>; \<open>None\<close> is a loop that never ends, which it is in the states
  \<open>kExpectBody\<close> and \<open>kGotAll\<close>.
\<close>

partial_function (option) parse_loop ::
  "int \<Rightarrow> buffer \<Rightarrow> http_context \<Rightarrow> (bool \<times> buffer \<times> http_context) res option" where
  "parse_loop receiveTime buf c =
     (case hc_state c of
        kExpectRequestLine \<Rightarrow>
          (case findCRLF buf of
             Some crlf \<Rightarrow>
               (case processRequestLine (range_of buf (peek buf) crlf) c of
                  Inl e \<Rightarrow> Some (Inl e)
                | Inr (ok, c) \<Rightarrow>
                    if ok then
                      let c = c\<lparr>hc_request := (hc_request c)\<lparr>hr_receiveTime := receiveTime\<rparr>\<rparr> in
                      (case retrieveUntil buf (crlf + 2) of
                         Inl e \<Rightarrow> Some (Inl e)
                       | Inr buf \<Rightarrow> parse_loop receiveTime buf (receiveRequestLine c))
                    else Some (Inr (False, buf, c)))
           | None \<Rightarrow> Some (Inr (True, buf, c)))
      | kExpectHeaders \<Rightarrow>
          (case findCRLF buf of
             Some crlf \<Rightarrow>
               (let line = range_of buf (peek buf) crlf;
                    colon = std_find line 58
                in if colon \<noteq> length line then
                     (case retrieveUntil buf (crlf + 2) of
                        Inl e \<Rightarrow> Some (Inl e)
                      | Inr buf \<Rightarrow> parse_loop receiveTime buf
                                    (c\<lparr>hc_request := http_addHeader line colon (hc_request c)\<rparr>))
                   else
                     (case retrieveUntil buf (crlf + 2) of
                        Inl e \<Rightarrow> Some (Inl e)
                      | Inr buf \<Rightarrow> Some (Inr (True, buf, receiveHeaders c))))
           | None \<Rightarrow> Some (Inr (True, buf, c)))
      | kExpectBody \<Rightarrow> parse_loop receiveTime buf c
      | kGotAll \<Rightarrow> parse_loop receiveTime buf c)"

definition parseRequest ::
  "int \<Rightarrow> buffer \<Rightarrow> http_context \<Rightarrow> (bool \<times> buffer \<times> http_context) res option" where
  "parseRequest receiveTime buf c = parse_loop receiveTime buf c"

subsection \<open>The parser on the readable bytes\<close>

text \<open>One line and what follows it.\<close>

definition next_line :: "bytes \<Rightarrow> (bytes \<times> bytes) option" where
  "next_line xs = (let k = std_search xs kCRLF in
     if k = length xs then None else Some (take k xs, drop (k + 2) xs))"

text \<open>What a complete line does; the second component: the parser stops there.\<close>

definition line_step :: "int \<Rightarrow> bytes \<Rightarrow> http_context \<Rightarrow> (bool \<times> http_context) res" where
  "line_step t line c =
     (if hc_state c = kExpectRequestLine then
        bind_res (processRequestLine line c) (\<lambda>(ok, c).
        if ok then Inr (True, receiveRequestLine (c\<lparr>hc_request := (hc_request c)\<lparr>hr_receiveTime := t\<rparr>\<rparr>))
        else Inr (False, c))
      else if std_find line 58 \<noteq> length line
      then Inr (True, c\<lparr>hc_request := http_addHeader line (std_find line 58) (hc_request c)\<rparr>)
      else Inr (True, receiveHeaders c))"

lemma next_line_shorter: "next_line xs = Some (l, ys) \<Longrightarrow> length ys < length xs"
  using std_search_le [of xs kCRLF] by (auto simp: next_line_def Let_def split: if_splits)

function http_spec :: "int \<Rightarrow> http_context \<Rightarrow> bytes \<Rightarrow> (bool \<times> http_context \<times> bytes) res" where
  "http_spec t c xs =
     (case next_line xs of None \<Rightarrow> Inr (True, c, xs)
      | Some (line, ys) \<Rightarrow>
          (case line_step t line c of Inl e \<Rightarrow> Inl e
           | Inr (ok, c') \<Rightarrow>
               if \<not> ok then Inr (False, c', xs)
               else if hc_state c' = kGotAll then Inr (True, c', ys)
               else http_spec t c' ys))"
  by pat_completeness auto
termination
  by (relation "measure (\<lambda>(t, c, xs). length xs)") (auto simp: next_line_shorter)

declare http_spec.simps [simp del]


subsection \<open>Lines\<close>

lemma std_search_append:
  "std_search xs p < length xs \<Longrightarrow> std_search (xs @ zs) p = std_search xs p"
proof (induction xs)
  case Nil
  then show ?case by simp
next
  case (Cons x xs)
  show ?case
  proof (cases "take (length p) (x # xs) = p")
    case True
    then have "length p \<le> length (x # xs)" by (metis length_take min.cobounded1)
    then have "take (length p) ((x # xs) @ zs) = take (length p) (x # xs)" by (metis diff_is_0_eq take_0 take_append append_Nil2)
    then show ?thesis using True by simp
  next
    case False
    then have *: "std_search xs p < length xs" using Cons.prems by simp
    then have "length p \<le> length (x # xs)"
      using std_search_found [OF *] by (metis length_drop length_take diff_le_self min.cobounded1 le_trans le_SucI length_Cons)
    then have "take (length p) ((x # xs) @ zs) = take (length p) (x # xs)" by (metis diff_is_0_eq take_0 take_append append_Nil2)
    then show ?thesis using False Cons.IH * by simp
  qed
qed

lemma next_line_append: "next_line xs = Some (l, ys) \<Longrightarrow> next_line (xs @ zs) = Some (l, ys @ zs)"
proof -
  let ?k = "std_search xs kCRLF"
  assume "next_line xs = Some (l, ys)"
  then have k: "?k < length xs" "l = take ?k xs" "ys = drop (?k + 2) xs"
    using std_search_le [of xs kCRLF] by (auto simp: next_line_def Let_def split: if_splits)
  have "length (take (length kCRLF) (drop ?k xs)) = 2" using std_search_found [OF k(1)] by simp
  then have "?k + 2 \<le> length xs" by (simp add: min_def split: if_splits)
  then show ?thesis using k by (simp add: next_line_def std_search_append Let_def)
qed

lemma std_search_CRLF: "13 \<notin> set l \<Longrightarrow> std_search (l @ 13 # 10 # ys) kCRLF = length l"
  by (induction l) (auto simp: kCRLF_def)

lemma next_line_CRLF: "13 \<notin> set l \<Longrightarrow> next_line (l @ kCRLF @ ys) = Some (l, ys)"
  using std_search_CRLF [of l ys] by (simp add: next_line_def kCRLF_def)

lemma findCRLF_next_line:
  assumes "Buffer_inv b"
  shows "case findCRLF b of None \<Rightarrow> next_line (content b) = None
    | Some p \<Rightarrow> (\<exists>b' n. next_line (content b) = Some (range_of b (peek b) p, content b') \<and> retrieveUntil b (p + 2) = Inr b' \<and>
        Buffer_inv b' \<and> n \<le> length (content b) \<and> content b' = drop n (content b) \<and> retrieve b n = Inr b')"
proof (cases "findCRLF b")
  case None
  then show ?thesis using assms by (auto simp: findCRLF_search next_line_def Let_def split: if_splits)
next
  case (Some p)
  let ?k = "std_search (content b) kCRLF"
  note found = findCRLF_Some [OF assms Some]
  have k: "?k \<noteq> length (content b)" "p = peek b + ?k"
    using Some assms by (auto simp: findCRLF_search Let_def split: if_splits)
  have n: "?k + 2 \<le> readableBytes b" using found k(2) Buffer_invD(1) [OF assms]
    by (auto simp: readableBytes_def peek_def beginWrite_def)
  obtain b' where b': "retrieve b (?k + 2) = Inr b'" "Buffer_inv b'" "content b' = drop (?k + 2) (content b)"
    using retrieve_correct [OF assms n] by blast
  have "range_of b (peek b) p = take ?k (content b)"
    using k(2) n by (simp add: range_of_def content_def peek_def readableBytes_def min_def)
  moreover have "retrieveUntil b (p + 2) = Inr b'"
    using b'(1) k(2) found by (simp add: retrieveUntil_def)
  ultimately show ?thesis using Some b' k n assms by (auto simp: next_line_def Let_def intro!: exI [of _ "?k + 2"])
qed

lemma retrieve_retrieve:
  assumes "Buffer_inv b" and "retrieve b n = Inr b1" and "retrieve b1 m = Inr b2"
  shows "retrieve b (n + m) = Inr b2"
  using assms Buffer_invD(1) [OF assms(1)]
  by (auto simp: retrieve_def assert_res_def readableBytes_def retrieveAll_def split: if_splits)


subsection \<open>The parser against its specification\<close>

definition reading :: "http_context \<Rightarrow> bool" where
  "reading c \<longleftrightarrow> hc_state c = kExpectRequestLine \<or> hc_state c = kExpectHeaders"

lemma processRequestLine_state: "processRequestLine l c = Inr (ok, c') \<Longrightarrow> hc_state c' = hc_state c"
  by (auto simp: processRequestLine_def Let_def bind_res_Inr split: if_splits)

lemma line_step_state:
  assumes "line_step t l c = Inr (ok, c')" and "reading c"
  shows "ok \<Longrightarrow> hc_state c' = kExpectHeaders \<or> hc_state c' = kGotAll" "\<not> ok \<Longrightarrow> hc_state c' = kExpectRequestLine"
  using assms by (auto simp: line_step_def reading_def receiveRequestLine_def receiveHeaders_def bind_res_Inr
      dest!: processRequestLine_state split: if_splits)

text \<open>One turn of the loop.\<close>

lemma parse_loop_turn:
  assumes "Buffer_inv b" and "reading c"
  shows "case next_line (content b) of None \<Rightarrow> parse_loop t b c = Some (Inr (True, b, c))
    | Some (l, ys) \<Rightarrow> (\<exists>b' n. content b' = ys \<and> Buffer_inv b' \<and> n \<le> length (content b) \<and> ys = drop n (content b) \<and>
        retrieve b n = Inr b' \<and>
        parse_loop t b c =
          (case line_step t l c of Inl e \<Rightarrow> Some (Inl e)
           | Inr (ok, c') \<Rightarrow> if \<not> ok then Some (Inr (False, b, c'))
               else if hc_state c' = kGotAll then Some (Inr (True, b', c')) else parse_loop t b' c'))"
proof (cases "findCRLF b")
  case None
  then have "hc_state c = st \<Longrightarrow> st \<in> {kExpectRequestLine, kExpectHeaders} \<Longrightarrow> parse_loop t b c = Some (Inr (True, b, c))" for st
    by (subst parse_loop.simps) (cases st; simp)
  then have "parse_loop t b c = Some (Inr (True, b, c))" using assms(2) by (auto simp: reading_def)
  then show ?thesis using findCRLF_next_line [OF assms(1)] None by simp
next
  case (Some p)
  let ?l = "range_of b (peek b) p"
  obtain b' n where b': "next_line (content b) = Some (?l, content b')" "retrieveUntil b (p + 2) = Inr b'" "Buffer_inv b'"
      "n \<le> length (content b)" "content b' = drop n (content b)" "retrieve b n = Inr b'"
    using findCRLF_next_line [OF assms(1)] Some by auto
  have "parse_loop t b c =
      (case line_step t ?l c of Inl e \<Rightarrow> Some (Inl e)
       | Inr (ok, c') \<Rightarrow> if \<not> ok then Some (Inr (False, b, c'))
           else if hc_state c' = kGotAll then Some (Inr (True, b', c')) else parse_loop t b' c')"
  proof (cases "hc_state c = kExpectRequestLine")
    case True
    then show ?thesis
      using Some b'(2) by (subst parse_loop.simps, cases "processRequestLine ?l c")
        (auto simp: line_step_def receiveRequestLine_def Let_def)
  next
    case False
    then have "hc_state c = kExpectHeaders" using assms(2) by (simp add: reading_def)
    then show ?thesis
      using Some b'(2) by (subst parse_loop.simps) (simp add: line_step_def receiveHeaders_def Let_def)
  qed
  then show ?thesis using b' by auto
qed

lemma parse_loop_spec:
  assumes "Buffer_inv b" and "reading c"
  shows "case http_spec t c (content b) of Inl e \<Rightarrow> parse_loop t b c = Some (Inl e)
    | Inr (ok, c', ys) \<Rightarrow> (\<exists>b' n. parse_loop t b c = Some (Inr (ok, b', c')) \<and> Buffer_inv b' \<and> content b' = ys \<and>
        n \<le> length (content b) \<and> ys = drop n (content b) \<and> (n = 0 \<and> b' = b \<or> retrieve b n = Inr b') )"
  using assms
proof (induction t c "content b" arbitrary: b rule: http_spec.induct)
  case (1 t c)
  show ?case
  proof (cases "next_line (content b)")
    case None
    then show ?thesis using parse_loop_turn [OF "1.prems", of t] "1.prems"
      by (auto simp: http_spec.simps [of t c] intro!: exI [of _ 0])
  next
    case (Some ly)
    obtain l ys where ly: "ly = (l, ys)" by (cases ly)
    obtain b1 n where b1: "content b1 = ys" "Buffer_inv b1" "n \<le> length (content b)" "ys = drop n (content b)"
      "retrieve b n = Inr b1"
      and loop: "parse_loop t b c = (case line_step t l c of Inl e \<Rightarrow> Some (Inl e)
           | Inr (ok, c') \<Rightarrow> if \<not> ok then Some (Inr (False, b, c'))
               else if hc_state c' = kGotAll then Some (Inr (True, b1, c')) else parse_loop t b1 c')"
      using parse_loop_turn [OF "1.prems", of t] Some ly by auto
    show ?thesis
    proof (cases "line_step t l c")
      case (Inl e)
      then show ?thesis using loop Some ly by (simp add: http_spec.simps [of t c])
    next
      case (Inr r)
      obtain ok c1 where r: "r = (ok, c1)" by (cases r)
      consider "\<not> ok" | "ok" "hc_state c1 = kGotAll" | "ok" "hc_state c1 \<noteq> kGotAll" by blast
      then show ?thesis
      proof cases
        case 1
        then show ?thesis using loop Some ly Inr r "1.prems"
          by (auto simp: http_spec.simps [of t c] intro!: exI [of _ 0])
      next
        case 2
        then show ?thesis using loop Some ly Inr r b1 by (auto simp: http_spec.simps [of t c])
      next
        case 3
        have rd: "reading c1" using line_step_state(1) [OF Inr [unfolded r] "1.prems"(2) 3(1)] 3(2) by (simp add: reading_def)
        have eq: "http_spec t c (content b) = http_spec t c1 (content b1)"
          using Some ly Inr r 3 b1(1) by (simp add: http_spec.simps [of t c])
        have eq': "parse_loop t b c = parse_loop t b1 c1" using loop Inr r 3 by simp
        have IH: "case http_spec t c1 (content b1) of Inl e \<Rightarrow> parse_loop t b1 c1 = Some (Inl e)
          | Inr (ok, c', ys) \<Rightarrow> (\<exists>b' n. parse_loop t b1 c1 = Some (Inr (ok, b', c')) \<and> Buffer_inv b' \<and> content b' = ys \<and>
            n \<le> length (content b1) \<and> ys = drop n (content b1) \<and> (n = 0 \<and> b' = b1 \<or> retrieve b1 n = Inr b'))"
          using "1.hyps" [OF Some, of l b1 r ok c1] Inr ly r 3 b1(1,2) rd by simp
        show ?thesis
        proof (cases "http_spec t c1 (content b1)")
          case (Inl e)
          then show ?thesis using IH eq eq' by simp
        next
          case (Inr r2)
          obtain ok2 c2 zs where r2: "r2 = (ok2, c2, zs)" by (cases r2)
          obtain b2 m where b2: "parse_loop t b1 c1 = Some (Inr (ok2, b2, c2))" "Buffer_inv b2" "content b2 = zs"
            "m \<le> length (content b1)" "zs = drop m (content b1)" "m = 0 \<and> b2 = b1 \<or> retrieve b1 m = Inr b2"
            using IH Inr r2 by auto
          have "retrieve b (n + m) = Inr b2"
            using b2(6) b1(5) retrieve_retrieve [OF "1.prems"(1) b1(5), of m b2] by auto
          moreover have "n + m \<le> length (content b)" using b1(1,3,4) b2(4) by simp
          moreover have "zs = drop (n + m) (content b)" using b2(5) b1(1,4) by (simp add: add.commute)
          ultimately show ?thesis using Inr r2 b2(1,2,3) eq eq' by auto
        qed
      qed
    qed
  qed
qed


subsection \<open>A request in pieces\<close>

text \<open>More bytes behind those parsed change nothing of what was parsed.\<close>

lemma http_spec_append:
  "http_spec t c (xs @ zs) =
     (case http_spec t c xs of Inl e \<Rightarrow> Inl e
      | Inr (ok, c', ys) \<Rightarrow>
          if ok \<and> reading c' then http_spec t c' (ys @ zs) else Inr (ok, c', ys @ zs))"
  if "reading c"
  using that
proof (induction t c xs rule: http_spec.induct)
  case (1 t c xs)
  show ?case
  proof (cases "next_line xs")
    case None
    then show ?thesis using "1.prems" by (simp add: http_spec.simps [of t c xs])
  next
    case (Some ly)
    obtain l ys where ly: "ly = (l, ys)" by (cases ly)
    have more: "next_line (xs @ zs) = Some (l, ys @ zs)" using Some ly next_line_append by blast
    show ?thesis
    proof (cases "line_step t l c")
      case (Inl e)
      then show ?thesis using Some ly more by (simp add: http_spec.simps [of t c xs] http_spec.simps [of t c "xs @ zs"])
    next
      case (Inr r)
      obtain ok c1 where r: "r = (ok, c1)" by (cases r)
      note state = line_step_state [OF Inr [unfolded r] "1.prems"]
      consider "\<not> ok" | "ok" "hc_state c1 = kGotAll" | "ok" "hc_state c1 \<noteq> kGotAll" by blast
      then show ?thesis
      proof cases
        case 3
        then have "reading c1" using state by (simp add: reading_def)
        then have "http_spec t c1 (ys @ zs) = (case http_spec t c1 ys of Inl e \<Rightarrow> Inl e
          | Inr (ok, c', ys) \<Rightarrow> if ok \<and> reading c' then http_spec t c' (ys @ zs) else Inr (ok, c', ys @ zs))"
          using "1.IH" [OF Some, of l ys r ok c1] Inr ly r 3 by simp
        then show ?thesis
          using Some ly more Inr r 3 by (simp add: http_spec.simps [of t c xs] http_spec.simps [of t c "xs @ zs"])
      qed (use Some ly more Inr r state in
            \<open>simp_all add: http_spec.simps [of t c xs] http_spec.simps [of t c "xs @ zs"] reading_def\<close>)
    qed
  qed
qed

text \<open>The time is only looked at when the request line is complete.\<close>

lemma http_spec_time: "hc_state c = kExpectHeaders \<Longrightarrow> http_spec t c xs = http_spec t' c xs"
proof (induction t c xs rule: http_spec.induct)
  case (1 t c xs)
  show ?case
  proof (cases "next_line xs")
    case (Some ly)
    obtain l ys where ly: "ly = (l, ys)" by (cases ly)
    have step: "line_step t l c = line_step t' l c" using "1.prems" by (simp add: line_step_def)
    show ?thesis
    proof (cases "line_step t l c")
      case (Inr r)
      obtain ok c1 where r: "r = (ok, c1)" by (cases r)
      show ?thesis
      proof (cases "ok \<and> hc_state c1 \<noteq> kGotAll")
        case True
        then have "hc_state c1 = kExpectHeaders"
          using line_step_state(1) [OF Inr [unfolded r]] "1.prems" by (auto simp: reading_def)
        then show ?thesis
          using "1.IH" [OF Some, of l ys r ok c1] Some ly Inr r True step
          by (simp add: http_spec.simps [of _ c xs])
      next
        case False
        then show ?thesis using Some ly Inr r step by (auto simp: http_spec.simps [of _ c xs])
      qed
    qed (use Some ly step in \<open>simp add: http_spec.simps [of _ c xs]\<close>)
  qed (simp add: http_spec.simps [of _ c xs])
qed

lemma http_spec_headers:
  "hc_state c = kExpectHeaders \<Longrightarrow> http_spec t c xs = Inr (ok, c', ys) \<Longrightarrow>
     ok \<and> (hc_state c' = kExpectHeaders \<or> hc_state c' = kGotAll)"
proof (induction t c xs rule: http_spec.induct)
  case (1 t c xs)
  show ?case
  proof (cases "next_line xs")
    case (Some ly)
    obtain l zs where ly: "ly = (l, zs)" by (cases ly)
    have "\<exists>d. line_step t l c = Inr (True, d) \<and> (hc_state d = kExpectHeaders \<or> hc_state d = kGotAll)"
      using "1.prems"(1) by (simp add: line_step_def receiveHeaders_def)
    then obtain d where "line_step t l c = Inr (True, d)" "hc_state d = kExpectHeaders \<or> hc_state d = kGotAll"
      by blast
    then show ?thesis
      using "1.IH" [OF Some, of l zs "(True, d)" True d] "1.prems" Some ly by (auto simp: http_spec.simps [of t c xs])
  qed (use "1.prems" in \<open>simp add: http_spec.simps [of t c xs]\<close>)
qed

lemma http_spec_untouched:
  assumes "http_spec t c xs = Inr (True, c', ys)" and "hc_state c = kExpectRequestLine"
    and "hc_state c' = kExpectRequestLine"
  shows "c' = c \<and> ys = xs"
proof (cases "next_line xs")
  case None
  then show ?thesis using assms(1) by (simp add: http_spec.simps [of t c xs])
next
  case (Some ly)
  obtain l zs where ly: "ly = (l, zs)" by (cases ly)
  show ?thesis
  proof (cases "line_step t l c")
    case (Inr r)
    obtain ok c1 where r: "r = (ok, c1)" by (cases r)
    then have "ok" using assms(1) Some ly Inr by (auto simp: http_spec.simps [of t c xs] split: if_splits)
    then have "hc_state c1 = kExpectHeaders"
      using Inr r assms(2) by (auto simp: line_step_def bind_res_Inr receiveRequestLine_def split: if_splits)
    then show ?thesis
      using assms(1,3) Some ly Inr r \<open>ok\<close> http_spec_headers [of c1 t zs True c' ys] by (simp add: http_spec.simps [of t c xs])
  qed (use assms(1) Some ly in \<open>simp add: http_spec.simps [of t c xs]\<close>)
qed


subsection \<open>The text of a request\<close>

definition version_text :: "version_e \<Rightarrow> bytes" where
  "version_text v = (case v of kHttp11 \<Rightarrow> lit ''HTTP/1.1'' | kHttp10 \<Rightarrow> lit ''HTTP/1.0'' | kUnknown \<Rightarrow> [])"

definition field_text :: "bytes \<times> bytes \<Rightarrow> bytes" where
  "field_text = (\<lambda>(n, v). n @ [58, 32] @ v @ kCRLF)"

definition request_text :: "http_request \<Rightarrow> (bytes \<times> bytes) list \<Rightarrow> bytes" where
  "request_text r fs =
     (methodString r @ [32] @ hr_path r @ [32] @ version_text (hr_version r)) @ kCRLF @
     concat (map field_text fs) @ kCRLF"

definition field_ok :: "bytes \<times> bytes \<Rightarrow> bool" where
  "field_ok = (\<lambda>(n, v). 58 \<notin> set n \<and> 13 \<notin> set n \<and> 13 \<notin> set v \<and>
     (v = [] \<or> \<not> is_space (hd v) \<and> \<not> is_space (last v)))"

definition request_ok :: "http_request \<Rightarrow> (bytes \<times> bytes) list \<Rightarrow> bool" where
  "request_ok r fs \<longleftrightarrow> hr_method r \<noteq> kInvalid \<and> hr_version r \<noteq> kUnknown \<and> 32 \<notin> set (hr_path r) \<and> 13 \<notin> set (hr_path r) \<and>
     list_all field_ok fs \<and> hr_headers r = map_of (rev fs)"

definition clean_context :: "http_context \<Rightarrow> bool" where
  "clean_context c \<longleftrightarrow> hc_state c = kExpectRequestLine \<and> hr_method (hc_request c) = kInvalid \<and>
     hr_headers (hc_request c) = Map.empty"

lemma clean_new [simp]: "clean_context HttpContext_new" "clean_context (HttpContext_reset c)"
  by (simp_all add: clean_context_def HttpContext_new_def HttpRequest_new_def HttpContext_reset_def HttpRequest_swap_def)

lemma lit_bytes [simp]:
  "lit ''GET'' = [71, 69, 84]" "lit ''POST'' = [80, 79, 83, 84]" "lit ''HEAD'' = [72, 69, 65, 68]"
  "lit ''PUT'' = [80, 85, 84]" "lit ''DELETE'' = [68, 69, 76, 69, 84, 69]" "lit ''UNKNOWN'' = [85, 78, 75, 78, 79, 87, 78]"
  "lit ''HTTP/1.'' = [72, 84, 84, 80, 47, 49, 46]"
  "lit ''HTTP/1.1'' = [72, 84, 84, 80, 47, 49, 46, 49]" "lit ''HTTP/1.0'' = [72, 84, 84, 80, 47, 49, 46, 48]"
  by (simp_all add: lit_def of_char_def)

lemma method_back: "hr_method r \<noteq> kInvalid \<Longrightarrow> method_of (methodString r) = hr_method r"
  by (cases "hr_method r") (simp_all add: methodString_def method_of_def)

lemma methodString_chars: "32 \<notin> set (methodString r) \<and> 13 \<notin> set (methodString r)"
  by (cases "hr_method r") (simp_all add: methodString_def)

lemma std_find_found: "c \<notin> set xs \<Longrightarrow> std_find (xs @ c # ys) c = length xs"
  by (induction xs) auto

lemma std_find_none: "c \<notin> set xs \<Longrightarrow> std_find xs c = length xs"
  by (induction xs) auto

lemma processRequestLine_text:
  assumes "request_ok r fs" and "clean_context c"
  shows "processRequestLine (methodString r @ [32] @ hr_path r @ [32] @ version_text (hr_version r)) c =
    Inr (True, c\<lparr>hc_request := (hc_request c)\<lparr>hr_method := hr_method r, hr_path := hr_path r, hr_version := hr_version r\<rparr>\<rparr>)"
proof -
  let ?rest = "hr_path r @ 32 # version_text (hr_version r)"
  have m: "std_find (methodString r @ 32 # ?rest) 32 = length (methodString r)"
    using methodString_chars [of r] by (intro std_find_found) simp
  have p: "std_find ?rest 32 = length (hr_path r)" using assms(1) by (intro std_find_found) (simp add: request_ok_def)
  have ok: "hr_method (hc_request c) = kInvalid" "hr_method r \<noteq> kInvalid"
    using assms by (simp_all add: clean_context_def request_ok_def)
  show ?thesis
    using assms(1) m p ok method_back [of r]
    by (cases "hr_version r") (simp_all add: processRequestLine_def setMethod_def version_text_def request_ok_def Let_def)
qed

lemma trim_value:
  assumes "v = [] \<or> \<not> is_space (hd v) \<and> \<not> is_space (last v)"
  shows "rev (dropWhile is_space (rev (dropWhile is_space (32 # v)))) = v"
proof -
  have sp: "is_space 32" by (simp add: is_space_def)
  show ?thesis
  proof (cases "v = []")
    case False
    then have "dropWhile is_space v = v" using assms by (cases v) auto
    moreover have "dropWhile is_space (rev v) = rev v" using assms False by (cases v rule: rev_cases) auto
    ultimately show ?thesis using sp by simp
  qed (use sp in simp)
qed

lemma http_spec_fields:
  assumes "list_all field_ok fs" and "hc_state c = kExpectHeaders"
  shows "http_spec t c (concat (map field_text fs) @ kCRLF @ rest) =
    Inr (True, c\<lparr>hc_state := kGotAll, hc_request := (hc_request c)\<lparr>hr_headers := hr_headers (hc_request c) ++ map_of (rev fs)\<rparr>\<rparr>, rest)"
  using assms
proof (induction fs arbitrary: c)
  case Nil
  have "next_line (kCRLF @ rest) = Some ([], rest)" using next_line_CRLF [of "[]" rest] by simp
  then show ?case using Nil.prems
    by (subst http_spec.simps) (simp add: line_step_def receiveHeaders_def)
next
  case (Cons f fs)
  obtain n v where f: "f = (n, v)" by (cases f)
  let ?l = "n @ [58, 32] @ v" and ?rest = "concat (map field_text fs) @ kCRLF @ rest"
  let ?c = "c\<lparr>hc_request := (hc_request c)\<lparr>hr_headers := (hr_headers (hc_request c))(n \<mapsto> v)\<rparr>\<rparr>"
  have ok: "58 \<notin> set n" "13 \<notin> set ?l" "v = [] \<or> \<not> is_space (hd v) \<and> \<not> is_space (last v)"
    using Cons.prems(1) f by (auto simp: field_ok_def)
  have line: "next_line (?l @ kCRLF @ ?rest) = Some (?l, ?rest)" by (rule next_line_CRLF [OF ok(2)])
  have colon: "std_find ?l 58 = length n" using std_find_found [OF ok(1), of "32 # v"] by simp
  have "line_step t ?l c = Inr (True, ?c)"
    using colon trim_value [OF ok(3)] Cons.prems(2)
    by (simp add: line_step_def http_addHeader_def Let_def)
  then have "http_spec t c (?l @ kCRLF @ ?rest) = http_spec t ?c ?rest"
    using line Cons.prems(2) by (subst http_spec.simps) simp
  also have "\<dots> = Inr (True, ?c\<lparr>hc_state := kGotAll, hc_request :=
      (hc_request ?c)\<lparr>hr_headers := hr_headers (hc_request ?c) ++ map_of (rev fs)\<rparr>\<rparr>, rest)"
    by (rule Cons.IH) (use Cons.prems in simp_all)
  finally show ?case by (simp add: f field_text_def map_of_append map_add_assoc [symmetric])
qed

text \<open>A request in clean context is read back from its text, and what follows it stays.\<close>

lemma http_spec_request:
  assumes "request_ok r fs" and "clean_context c"
  shows "http_spec t c (request_text r fs @ rest) =
    Inr (True, \<lparr>hc_state = kGotAll, hc_request = r\<lparr>hr_receiveTime := t\<rparr>\<rparr>, rest)"
proof -
  let ?l = "methodString r @ [32] @ hr_path r @ [32] @ version_text (hr_version r)"
  let ?rest = "concat (map field_text fs) @ kCRLF @ rest"
  have "13 \<notin> set ?l"
    using assms(1) methodString_chars [of r] by (cases "hr_version r") (auto simp: request_ok_def version_text_def)
  then have line: "next_line (?l @ kCRLF @ ?rest) = Some (?l, ?rest)" by (rule next_line_CRLF)
  let ?c = "receiveRequestLine (c\<lparr>hc_request := (hc_request c)\<lparr>hr_method := hr_method r, hr_path := hr_path r,
    hr_version := hr_version r, hr_receiveTime := t\<rparr>\<rparr>)"
  have "line_step t ?l c = Inr (True, ?c)"
    using processRequestLine_text [OF assms] assms(2) by (simp add: line_step_def clean_context_def)
  then have "http_spec t c (?l @ kCRLF @ ?rest) = http_spec t ?c ?rest"
    using line by (subst http_spec.simps) (simp add: receiveRequestLine_def)
  also have "\<dots> = Inr (True, ?c\<lparr>hc_state := kGotAll, hc_request :=
      (hc_request ?c)\<lparr>hr_headers := hr_headers (hc_request ?c) ++ map_of (rev fs)\<rparr>\<rparr>, rest)"
    by (rule http_spec_fields) (use assms(1) in \<open>simp_all add: request_ok_def receiveRequestLine_def\<close>)
  also have "?c\<lparr>hc_state := kGotAll, hc_request :=
      (hc_request ?c)\<lparr>hr_headers := hr_headers (hc_request ?c) ++ map_of (rev fs)\<rparr>\<rparr> =
      \<lparr>hc_state = kGotAll, hc_request = r\<lparr>hr_receiveTime := t\<rparr>\<rparr>"
    using assms by (simp add: receiveRequestLine_def request_ok_def clean_context_def)
  finally show ?thesis by (simp add: request_text_def)
qed


subsection \<open>Properties\<close>



end
