(* ===== verification/HttpServer.thy ===== *)
theory HttpServer imports HttpParser begin

text \<open>
  \<open>muduo/net/http/HttpResponse\<close> and \<open>HttpServer\<close>: what the server does with the requests that its
  connections read.  The user's \<open>httpCallback_\<close> is a parameter.  The lemmas run the server on the
  connections of theory \<open>TcpConnection\<close>: everything it does to a connection is one of the actions a
  message callback may take, so what holds for connections holds for those of an HTTP server.
\<close>

subsection \<open>Responses\<close>

datatype http_status = kUnknownStatus | k200Ok | k301MovedPermanently | k400BadRequest | k404NotFound

fun status_value :: "http_status \<Rightarrow> nat" where
  "status_value kUnknownStatus = 0"
| "status_value k200Ok = 200"
| "status_value k301MovedPermanently = 301"
| "status_value k400BadRequest = 400"
| "status_value k404NotFound = 404"

text \<open>\<open>headers_\<close> is ordered by its keys, as a \<open>std::map\<close> is.\<close>

record http_response =
  rs_headers :: "(bytes \<times> bytes) list"
  rs_statusCode :: http_status
  rs_statusMessage :: bytes
  rs_closeConnection :: bool
  rs_body :: bytes

definition HttpResponse_new :: "bool \<Rightarrow> http_response" where
  "HttpResponse_new close = \<lparr>rs_headers = [], rs_statusCode = kUnknownStatus, rs_statusMessage = [],
     rs_closeConnection = close, rs_body = []\<rparr>"

fun map_set :: "'k::linorder \<Rightarrow> 'v \<Rightarrow> ('k \<times> 'v) list \<Rightarrow> ('k \<times> 'v) list" where
  "map_set k v [] = [(k, v)]"
| "map_set k v ((k', v') # m) =
     (if k < k' then (k, v) # (k', v') # m
      else if k = k' then (k, v) # m
      else (k', v') # map_set k v m)"

definition rs_addHeader :: "bytes \<Rightarrow> bytes \<Rightarrow> http_response \<Rightarrow> http_response" where
  "rs_addHeader key v rs = rs\<lparr>rs_headers := map_set key v (rs_headers rs)\<rparr>"

definition setContentType :: "bytes \<Rightarrow> http_response \<Rightarrow> http_response" where
  "setContentType contentType rs = rs_addHeader (lit ''Content-Type'') contentType rs"

text \<open>\<open>snprintf\<close> into \<open>char buf[32]\<close>.\<close>

definition snprintf32 :: "bytes \<Rightarrow> bytes" where
  "snprintf32 s = take 31 s"

fun append_headers :: "(bytes \<times> bytes) list \<Rightarrow> buffer \<Rightarrow> buffer res" where
  "append_headers [] output = Inr output"
| "append_headers ((k, v) # m) output =
     bind_res (Buffer_append output k) (\<lambda>output.
     bind_res (Buffer_append output (lit '': '')) (\<lambda>output.
     bind_res (Buffer_append output v) (\<lambda>output.
     bind_res (Buffer_append output kCRLF) (\<lambda>output.
     append_headers m output))))"

definition appendToBuffer :: "http_response \<Rightarrow> buffer \<Rightarrow> buffer res" where
  "appendToBuffer rs output =
     bind_res (Buffer_append output
       (snprintf32 (lit ''HTTP/1.1 '' @ dec_digits (status_value (rs_statusCode rs)) @ [32]))) (\<lambda>output.
     bind_res (Buffer_append output (rs_statusMessage rs)) (\<lambda>output.
     bind_res (Buffer_append output kCRLF) (\<lambda>output.
     bind_res
       (if rs_closeConnection rs then Buffer_append output (lit ''Connection: close'' @ kCRLF)
        else bind_res (Buffer_append output
               (snprintf32 (lit ''Content-Length: '' @ dec_digits (length (rs_body rs)) @ kCRLF))) (\<lambda>output.
             Buffer_append output (lit ''Connection: Keep-Alive'' @ kCRLF))) (\<lambda>output.
     bind_res (append_headers (rs_headers rs) output) (\<lambda>output.
     bind_res (Buffer_append output kCRLF) (\<lambda>output.
     Buffer_append output (rs_body rs)))))))"

subsection \<open>The server\<close>

type_synonym http_callback = "http_request \<Rightarrow> http_response \<Rightarrow> http_response"

definition defaultHttpCallback :: http_callback where
  "defaultHttpCallback req resp =
     resp\<lparr>rs_statusCode := k404NotFound, rs_statusMessage := lit ''Not Found'', rs_closeConnection := True\<rparr>"

definition asks_close :: "http_request \<Rightarrow> bool" where
  "asks_close req = (let connection = getHeader (lit ''Connection'') req in
     connection = lit ''close'' \<or> (hr_version req = kHttp10 \<and> connection \<noteq> lit ''Keep-Alive''))"

definition onRequest :: "http_callback \<Rightarrow> write_answer \<Rightarrow> http_request \<Rightarrow> tcpconn \<Rightarrow> tcpconn res" where
  "onRequest httpCallback answer req s =
     (let response = httpCallback req (HttpResponse_new (asks_close req)) in
      bind_res (appendToBuffer response Buffer_new) (\<lambda>buf.
      bind_res (tc_send_buffer True answer buf s) (\<lambda>(buf, s).
      Inr (if rs_closeConnection response then tc_shutdown True s else s))))"

definition http_onConnection :: "tcpconn \<Rightarrow> http_context option \<Rightarrow> http_context option" where
  "http_onConnection s c = (if tc_state s = kConnected then Some HttpContext_new else c)"

definition http_onMessage ::
  "http_callback \<Rightarrow> int \<Rightarrow> write_answer \<Rightarrow> tcpconn \<Rightarrow> http_context \<Rightarrow> (tcpconn \<times> http_context) res option" where
  "http_onMessage httpCallback receiveTime answer s c =
     (case parseRequest receiveTime (tc_inputBuffer s) c of
        None \<Rightarrow> None
      | Some (Inl e) \<Rightarrow> Some (Inl e)
      | Some (Inr (ok, buf, c)) \<Rightarrow>
          (let s = s\<lparr>tc_inputBuffer := buf\<rparr> in
           Some
             (bind_res
                (if \<not> ok then
                   bind_res (tc_send True answer (lit ''HTTP/1.1 400 Bad Request'' @ kCRLF @ kCRLF) s) (\<lambda>s.
                   Inr (tc_shutdown True s))
                 else Inr s) (\<lambda>s.
              if hc_state c = kGotAll then
                bind_res (onRequest httpCallback answer (hc_request c) s) (\<lambda>s. Inr (s, HttpContext_reset c))
              else Inr (s, c)))))"

text \<open>A readable event of a connection of the server: bytes \<open>d\<close> at time \<open>t\<close>.\<close>

definition http_event ::
  "http_callback \<Rightarrow> int \<times> bytes \<times> write_answer \<Rightarrow> tcpconn \<times> http_context \<Rightarrow> (tcpconn \<times> http_context) res option" where
  "http_event httpCallback = (\<lambda>(t, d, answer) (s, c).
     (case readFd (tc_inputBuffer s) (ReadOk d) of
        Inl e \<Rightarrow> Some (Inl e)
      | Inr (n, savedErrno, b) \<Rightarrow>
          http_onMessage httpCallback t answer (call_user MessageCb (s\<lparr>tc_inputBuffer := b\<rparr>)) c))"

fun http_events ::
  "http_callback \<Rightarrow> (int \<times> bytes \<times> write_answer) list \<Rightarrow> tcpconn \<times> http_context \<Rightarrow> (tcpconn \<times> http_context) res option" where
  "http_events httpCallback [] sc = Some (Inr sc)"
| "http_events httpCallback (e # es) sc =
     (case http_event httpCallback e sc of
        None \<Rightarrow> None
      | Some (Inl f) \<Rightarrow> Some (Inl f)
      | Some (Inr sc) \<Rightarrow> http_events httpCallback es sc)"

subsection \<open>The text of a response\<close>

definition header_text :: "bytes \<times> bytes \<Rightarrow> bytes" where
  "header_text = (\<lambda>(k, v). k @ lit '': '' @ v @ kCRLF)"

definition response_text :: "http_response \<Rightarrow> bytes" where
  "response_text rs =
     snprintf32 (lit ''HTTP/1.1 '' @ dec_digits (status_value (rs_statusCode rs)) @ [32]) @
     rs_statusMessage rs @ kCRLF @
     (if rs_closeConnection rs then lit ''Connection: close'' @ kCRLF
      else snprintf32 (lit ''Content-Length: '' @ dec_digits (length (rs_body rs)) @ kCRLF) @
           lit ''Connection: Keep-Alive'' @ kCRLF) @
     concat (map header_text (rs_headers rs)) @ kCRLF @ rs_body rs"

text \<open>A step that appends \<open>d\<close> to any buffer.\<close>

definition appends :: "(buffer \<Rightarrow> buffer res) \<Rightarrow> bytes \<Rightarrow> bool" where
  "appends f d \<longleftrightarrow> (\<forall>b. Buffer_inv b \<longrightarrow> (\<exists>b'. f b = Inr b' \<and> Buffer_inv b' \<and> content b' = content b @ d))"

lemma appends_append: "appends (\<lambda>b. Buffer_append b d) d"
  by (simp add: appends_def Buffer_append_correct)

lemma appends_bind:
  assumes "appends f d" and "appends g e"
  shows "appends (\<lambda>b. bind_res (f b) g) (d @ e)"
  unfolding appends_def
proof (intro allI impI)
  fix b
  assume "Buffer_inv b"
  then obtain b1 where "f b = Inr b1" "Buffer_inv b1" "content b1 = content b @ d"
    using assms(1) by (auto simp: appends_def)
  moreover from this(2) obtain b2 where "g b1 = Inr b2" "Buffer_inv b2" "content b2 = content b1 @ e"
    using assms(2) by (auto simp: appends_def)
  ultimately show "\<exists>b'. bind_res (f b) g = Inr b' \<and> Buffer_inv b' \<and> content b' = content b @ d @ e" by simp
qed

lemma appends_if: "appends f d \<Longrightarrow> appends g e \<Longrightarrow> appends (\<lambda>b. if c then f b else g b) (if c then d else e)"
  by simp

lemma appends_headers: "appends (append_headers m) (concat (map header_text m))"
proof (induction m)
  case Nil
  then show ?case by (simp add: appends_def)
next
  case (Cons kv m)
  obtain k v where kv: "kv = (k, v)" by (cases kv)
  have "appends (\<lambda>b. append_headers ((k, v) # m) b) (k @ lit '': '' @ v @ kCRLF @ concat (map header_text m))"
    unfolding append_headers.simps by (intro appends_bind appends_append Cons.IH)
  then show ?case by (simp add: kv header_text_def)
qed

lemma appends_response: "appends (appendToBuffer rs) (response_text rs)"
  unfolding appendToBuffer_def response_text_def
  by (intro appends_bind appends_append appends_headers appends_if)

lemma response_in_buffer:
  "\<exists>b. appendToBuffer rs Buffer_new = Inr b \<and> Buffer_inv b \<and> content b = response_text rs"
  using appends_response [of rs] by (auto simp: appends_def dest: spec [of _ Buffer_new])

subsection \<open>The server on a connection\<close>

lemma send_buffer_send:
  assumes "Buffer_inv buf"
  shows "tc_send_buffer True answer buf s =
    bind_res (tc_send True answer (content buf) s) (\<lambda>s'. Inr (if tc_state s = kConnected then retrieveAll buf else buf, s'))"
proof -
  have "range_of buf (peek buf) (beginWrite buf) = content buf" by (simp add: content_def peek_def beginWrite_def)
  then show ?thesis by (simp add: tc_send_buffer_def tc_send_def)
qed

lemma onRequest_acts:
  "onRequest cb answer req s =
     (let rs = cb req (HttpResponse_new (asks_close req)) in
      user_run (Send (response_text rs) answer # (if rs_closeConnection rs then [Shutdown] else [])) s)"
proof -
  let ?rs = "cb req (HttpResponse_new (asks_close req))"
  obtain b where b: "appendToBuffer ?rs Buffer_new = Inr b" "Buffer_inv b" "content b = response_text ?rs"
    using response_in_buffer by blast
  show ?thesis
    using b by (cases "tc_send True answer (response_text ?rs) s") (simp_all add: onRequest_def send_buffer_send Let_def)
qed

text \<open>What the server does on a message, as actions of the message callback.\<close>

lemma onMessage_parsed:
  assumes "Buffer_inv (tc_inputBuffer s)" and "reading c"
    and "http_spec t c (content (tc_inputBuffer s)) = Inr (ok, c', ys)"
  shows "\<exists>b acts. content b = ys \<and> Buffer_inv b \<and> user_run acts s = Inr (s\<lparr>tc_inputBuffer := b\<rparr>) \<and>
    http_onMessage cb t answer s c =
      Some (bind_res (user_run
        ((if ok then [] else [Send (lit ''HTTP/1.1 400 Bad Request'' @ kCRLF @ kCRLF) answer, Shutdown]) @
         (if hc_state c' = kGotAll then
            let rs = cb (hc_request c') (HttpResponse_new (asks_close (hc_request c'))) in
            Send (response_text rs) answer # (if rs_closeConnection rs then [Shutdown] else [])
          else [])) (s\<lparr>tc_inputBuffer := b\<rparr>))
        (\<lambda>s. Inr (s, if hc_state c' = kGotAll then HttpContext_reset c' else c')))"
proof -
  let ?in = "tc_inputBuffer s"
  obtain b n where b: "parse_loop t ?in c = Some (Inr (ok, b, c'))" "Buffer_inv b" "content b = ys"
      "n \<le> length (content ?in)" "n = 0 \<and> b = ?in \<or> retrieve ?in n = Inr b"
    using parse_loop_spec [OF assms(1,2), of t] assms(3) by auto
  have "\<exists>acts. user_run acts s = Inr (s\<lparr>tc_inputBuffer := b\<rparr>)"
  proof (cases "n = 0 \<and> b = ?in")
    case True
    then have "user_run [] s = Inr (s\<lparr>tc_inputBuffer := b\<rparr>)" by simp
    then show ?thesis by blast
  next
    case False
    then have "user_run [Consume n] s = Inr (s\<lparr>tc_inputBuffer := b\<rparr>)"
      using b(4,5) assms(1) by (auto simp: min_def)
    then show ?thesis by blast
  qed
  then obtain acts where acts: "user_run acts s = Inr (s\<lparr>tc_inputBuffer := b\<rparr>)" by blast
  have append: "user_run (as @ bs) s = bind_res (user_run as s) (user_run bs)" for as bs s
  proof (induction as arbitrary: s)
    case (Cons a as)
    then show ?case by (cases "user_do a s") simp_all
  qed simp
  have two: "user_run [Send d answer, Shutdown] s1 = bind_res (tc_send True answer d s1) (\<lambda>s. Inr (tc_shutdown True s))" for d s1
    by (cases "tc_send True answer d s1") simp_all
  have bind2: "bind_res (bind_res r f) g = bind_res r (\<lambda>x. bind_res (f x) g)" for r :: "'x res" and f :: "'x \<Rightarrow> 'y res" and g :: "'y \<Rightarrow> 'z res"
    by (cases r) simp_all
  have "http_onMessage cb t answer s c =
      Some (bind_res (user_run
        ((if ok then [] else [Send (lit ''HTTP/1.1 400 Bad Request'' @ kCRLF @ kCRLF) answer, Shutdown]) @
         (if hc_state c' = kGotAll then
            let rs = cb (hc_request c') (HttpResponse_new (asks_close (hc_request c'))) in
            Send (response_text rs) answer # (if rs_closeConnection rs then [Shutdown] else [])
          else [])) (s\<lparr>tc_inputBuffer := b\<rparr>))
        (\<lambda>s. Inr (s, if hc_state c' = kGotAll then HttpContext_reset c' else c')))"
    using b(1) unfolding http_onMessage_def parseRequest_def append
    by (cases ok; cases "hc_state c' = kGotAll") (simp_all add: two onRequest_acts Let_def bind2 del: user_run.simps(2))
  then show ?thesis using b(2,3) acts by blast
qed


text \<open>Bytes arrive on an open connection.\<close>

lemma read_arrives:
  assumes "conn_reach others s" and "is_open s" and "d \<noteq> []" and "length d \<le> extrabuf_size"
  shows "\<exists>b. readFd (tc_inputBuffer s) (ReadOk d) = Inr (int (length d), None, b) \<and>
    content b = content (tc_inputBuffer s) @ d \<and> conn_reach others (call_user MessageCb (s\<lparr>tc_inputBuffer := b\<rparr>))"
proof -
  have core: "core s" using conn_reach_inv [OF assms(1)] by (simp add: conn_inv_def)
  obtain b where b: "readFd (tc_inputBuffer s) (ReadOk d) = Inr (int (length d), None, b)"
      "content b = content (tc_inputBuffer s) @ d"
    using readFd_correct [OF coreD(1) [OF core]] by blast
  have ev: "tc_events s = 3 \<or> tc_events s = 7"
    using coreD(4) [OF core assms(2)] by (auto simp: open_events_def)
  then have can: "can_happen others (Event 1 (ReadOk d) (Wrote 0) [] []) s"
    using assms(4) by (auto simp: revents_ok_def event_defs readv_fits_def)
  have "conn_do (Event 1 (ReadOk d) (Wrote 0) [] []) s = Inr (call_user MessageCb (s\<lparr>tc_inputBuffer := b\<rparr>))"
    using b(1) assms(3) by (simp add: handleEvent_def handleEventWithGuard_def call_if_def conn_callbacks_def
      tc_handleRead_def event_defs Let_def)
  then show ?thesis using b conn_step [OF assms(1) can] by blast
qed

lemma http_event_parsed:
  assumes "conn_reach others s" and "is_open s" and "reading c" and "d \<noteq> []" and "length d \<le> extrabuf_size"
    and "http_spec t c (content (tc_inputBuffer s) @ d) = Inr (ok, c', ys)"
  shows "\<exists>s1. conn_reach others s1 \<and> content (tc_inputBuffer s1) = ys \<and> tc_state s1 = tc_state s \<and> tc_taken s1 = tc_taken s \<and>
    http_event cb (t, d, answer) (s, c) =
      Some (bind_res (user_run
        ((if ok then [] else [Send (lit ''HTTP/1.1 400 Bad Request'' @ kCRLF @ kCRLF) answer, Shutdown]) @
         (if hc_state c' = kGotAll then
            let rs = cb (hc_request c') (HttpResponse_new (asks_close (hc_request c'))) in
            Send (response_text rs) answer # (if rs_closeConnection rs then [Shutdown] else [])
          else [])) s1)
        (\<lambda>s. Inr (s, if hc_state c' = kGotAll then HttpContext_reset c' else c')))"
proof -
  obtain b where b: "readFd (tc_inputBuffer s) (ReadOk d) = Inr (int (length d), None, b)"
    "content b = content (tc_inputBuffer s) @ d" "conn_reach others (call_user MessageCb (s\<lparr>tc_inputBuffer := b\<rparr>))"
    using read_arrives [OF assms(1,2,4,5)] by blast
  let ?s = "call_user MessageCb (s\<lparr>tc_inputBuffer := b\<rparr>)"
  have inv: "Buffer_inv (tc_inputBuffer ?s)" using conn_reach_inv [OF b(3)] coreD(1) by (simp add: conn_inv_def)
  obtain b1 acts where b1: "content b1 = ys" "user_run acts ?s = Inr (?s\<lparr>tc_inputBuffer := b1\<rparr>)"
    and msg: "http_onMessage cb t answer ?s c =
      Some (bind_res (user_run
        ((if ok then [] else [Send (lit ''HTTP/1.1 400 Bad Request'' @ kCRLF @ kCRLF) answer, Shutdown]) @
         (if hc_state c' = kGotAll then
            let rs = cb (hc_request c') (HttpResponse_new (asks_close (hc_request c'))) in
            Send (response_text rs) answer # (if rs_closeConnection rs then [Shutdown] else [])
          else [])) (?s\<lparr>tc_inputBuffer := b1\<rparr>))
        (\<lambda>s. Inr (s, if hc_state c' = kGotAll then HttpContext_reset c' else c')))"
    using onMessage_parsed [OF inv assms(3), of t ok c' ys cb answer] assms(6) b(2) by (auto simp: call_user_def)
  have "conn_reach others (?s\<lparr>tc_inputBuffer := b1\<rparr>)"
    by (rule conn_step [OF b(3), of "UserCode acts"]) (simp_all add: b1(2))
  then show ?thesis
    using b1(1) msg b(1) by (intro exI [of _ "?s\<lparr>tc_inputBuffer := b1\<rparr>"]) (simp add: http_event_def call_user_def)
qed

text \<open>The answer to a request that is complete.\<close>

lemma http_answer:
  assumes "conn_reach others s" and "tc_state s = kConnected" and "answer \<noteq> WriteErr EPIPE"
  shows "\<exists>s'. user_run (Send d answer # (if close then [Shutdown] else [])) s = Inr s' \<and> conn_reach others s' \<and>
    tc_taken s' = tc_taken s @ d \<and> content (tc_inputBuffer s') = content (tc_inputBuffer s) \<and>
    tc_state s' = (if close then kDisconnecting else kConnected)"
proof -
  obtain s1 where s1: "tc_send True answer d s = Inr s1" "tc_taken s1 = tc_taken s @ d"
    using send_taken [OF assms] by blast
  have same: "tc_inputBuffer s1 = tc_inputBuffer s \<and> tc_state s1 = tc_state s"
    using s1(1) assms(2)
    by (auto simp: tc_send_def sendInLoop_def Let_def assert_res_Inr bind_res_Inr queue_functor_def set_events_def
        split: if_splits write_answer.splits prod.splits)
  let ?s = "if close then tc_shutdown True s1 else s1"
  have run: "user_run (Send d answer # (if close then [Shutdown] else [])) s = Inr ?s" using s1(1) by simp
  moreover have "conn_reach others ?s"
    by (rule conn_step [OF assms(1), of "UserCode (Send d answer # (if close then [Shutdown] else []))"]) (simp_all add: run s1(1))
  moreover have "tc_taken ?s = tc_taken s1" "tc_inputBuffer ?s = tc_inputBuffer s1"
    "tc_state ?s = (if close then kDisconnecting else kConnected)"
    using same assms(2) by (simp_all add: tc_shutdown_def shutdownInLoop_def Let_def)
  ultimately show ?thesis using s1(2) same by auto
qed


subsection \<open>Requests in pieces\<close>

text \<open>What has been parsed of the bytes \<open>xs\<close> that arrived at the times \<open>T\<close>.\<close>

definition progress :: "http_context \<Rightarrow> int set \<Rightarrow> bytes \<Rightarrow> http_context \<Rightarrow> bytes \<Rightarrow> bool" where
  "progress c0 T xs c ys \<longleftrightarrow> (\<exists>t\<in>T. http_spec t c0 xs = Inr (True, c, ys)) \<and> reading c"

lemma progress_more:
  assumes "progress c0 T xs c ys" and "hc_state c0 = kExpectRequestLine"
  shows "\<exists>t' \<in> insert t T. http_spec t c (ys @ d) = http_spec t' c0 (xs @ d)"
proof -
  obtain u where u: "u \<in> T" "http_spec u c0 xs = Inr (True, c, ys)" "reading c"
    using assms(1) by (auto simp: progress_def)
  show ?thesis
  proof (cases "hc_state c = kExpectRequestLine")
    case True
    then have "c = c0 \<and> ys = xs" using http_spec_untouched [OF u(2) assms(2)] by simp
    then show ?thesis by simp
  next
    case False
    then have "hc_state c = kExpectHeaders" using u(3) by (simp add: reading_def)
    moreover have "http_spec u c0 (xs @ d) = http_spec u c (ys @ d)"
      using http_spec_append [of c0 u xs d] u(2,3) assms(2) by (simp add: reading_def)
    ultimately have "http_spec t c (ys @ d) = http_spec u c0 (xs @ d)" using http_spec_time [of c t "ys @ d" u] by simp
    then show ?thesis using u(1) by blast
  qed
qed

text \<open>A proper part of a request is never a whole one.\<close>

lemma request_prefix:
  assumes "request_ok r fs" and "clean_context c" and "xs @ zs = request_text r fs" and "zs \<noteq> []"
  shows "\<exists>c' ys. http_spec t c xs = Inr (True, c', ys) \<and> reading c'"
proof -
  have "http_spec t c (xs @ zs) = Inr (True, \<lparr>hc_state = kGotAll, hc_request = r\<lparr>hr_receiveTime := t\<rparr>\<rparr>, [])"
    using http_spec_request [OF assms(1,2), of t "[]"] assms(3) by simp
  then show ?thesis
    using http_spec_append [of c t xs zs] assms(2,4)
    by (auto simp: reading_def clean_context_def split: sum.splits prod.splits if_splits)
qed

lemma http_served_pieces:
  assumes "request_ok r fs" and "clean_context c0" and "xs @ concat (map (\<lambda>(t, d, a). d) es) = request_text r fs"
    and "es \<noteq> []" and "\<forall>(t, d, a) \<in> set es. d \<noteq> [] \<and> length d \<le> extrabuf_size \<and> a \<noteq> WriteErr EPIPE"
    and "conn_reach others s" and "tc_state s = kConnected" and "content (tc_inputBuffer s) = ys"
    and "xs = [] \<and> ys = [] \<and> c = c0 \<or> progress c0 T xs c ys"
  shows "\<exists>s' c' t. http_events cb es (s, c) = Some (Inr (s', c')) \<and> t \<in> T \<union> set (map fst es) \<and> clean_context c' \<and>
    conn_reach others s' \<and> content (tc_inputBuffer s') = [] \<and>
    (let rs = cb (r\<lparr>hr_receiveTime := t\<rparr>) (HttpResponse_new (asks_close r)) in
     tc_taken s' = tc_taken s @ response_text rs \<and>
     tc_state s' = (if rs_closeConnection rs then kDisconnecting else kConnected))"
  using assms(3-)
proof (induction es arbitrary: xs s c ys T)
  case Nil
  then show ?case by simp
next
  case (Cons e es)
  obtain t d a where e: "e = (t, d, a)" by (cases e)
  have d: "d \<noteq> []" "length d \<le> extrabuf_size" "a \<noteq> WriteErr EPIPE" using Cons.prems(3) e by auto
  have rl: "hc_state c0 = kExpectRequestLine" using assms(2) by (simp add: clean_context_def)
  have rd: "reading c" using Cons.prems(7) rl by (auto simp: progress_def reading_def)
  have "\<exists>t' \<in> insert t T. http_spec t c (ys @ d) = http_spec t' c0 (xs @ d)"
    using Cons.prems(7)
  proof
    assume "xs = [] \<and> ys = [] \<and> c = c0"
    then show ?thesis by simp
  next
    assume "progress c0 T xs c ys"
    then show ?thesis by (rule progress_more [OF _ rl])
  qed
  then obtain t' where t': "t' \<in> insert t T" "http_spec t c (ys @ d) = http_spec t' c0 (xs @ d)" by blast
  have op: "is_open s" using Cons.prems(5) by (simp add: is_open_def)
  have split: "(xs @ d) @ concat (map (\<lambda>(t, d, a). d) es) = request_text r fs" using Cons.prems(1) e by simp
  show ?case
  proof (cases "es = []")
    case True
    let ?r = "r\<lparr>hr_receiveTime := t'\<rparr>" and ?cc = "\<lparr>hc_state = kGotAll, hc_request = r\<lparr>hr_receiveTime := t'\<rparr>\<rparr>"
    let ?rs = "cb ?r (HttpResponse_new (asks_close ?r))"
    have "http_spec t' c0 (xs @ d) = Inr (True, ?cc, [])"
      using http_spec_request [OF assms(1,2), of t' "[]"] split True by simp
    then obtain s1 where s1: "conn_reach others s1" "content (tc_inputBuffer s1) = []" "tc_state s1 = kConnected"
      "tc_taken s1 = tc_taken s"
      "http_event cb (t, d, a) (s, c) = Some (bind_res
        (user_run (Send (response_text ?rs) a # (if rs_closeConnection ?rs then [Shutdown] else [])) s1)
        (\<lambda>s. Inr (s, HttpContext_reset ?cc)))"
      using http_event_parsed [OF Cons.prems(4) op rd d(1,2), of t True ?cc "[]" cb a] Cons.prems(5,6) t'(2)
      by (auto simp: Let_def)
    obtain s2 where s2: "user_run (Send (response_text ?rs) a # (if rs_closeConnection ?rs then [Shutdown] else [])) s1 = Inr s2"
      "conn_reach others s2" "tc_taken s2 = tc_taken s1 @ response_text ?rs"
      "content (tc_inputBuffer s2) = content (tc_inputBuffer s1)"
      "tc_state s2 = (if rs_closeConnection ?rs then kDisconnecting else kConnected)"
      using http_answer [OF s1(1,3) d(3), of "response_text ?rs" "rs_closeConnection ?rs"] by blast
    have "http_events cb (e # es) (s, c) = Some (Inr (s2, HttpContext_reset ?cc))" using s1(5) s2(1) e True by simp
    moreover have "asks_close ?r = asks_close r" by (simp add: asks_close_def getHeader_def)
    moreover have "t' \<in> T \<union> set (map fst (e # es))" using t'(1) e by auto
    ultimately show ?thesis using s1(2,4) s2(2-5) clean_new(2) [of ?cc] by (auto simp: Let_def intro!: exI [of _ t'])
  next
    case False
    have nonempty: "concat (map (\<lambda>(t, d, a). d) es) \<noteq> []"
      using False Cons.prems(3) by (cases es) auto
    obtain c1 ys1 where c1: "http_spec t' c0 (xs @ d) = Inr (True, c1, ys1)" "reading c1"
      using request_prefix [OF assms(1,2) split nonempty] by blast
    obtain s1 where s1: "conn_reach others s1" "content (tc_inputBuffer s1) = ys1" "tc_state s1 = kConnected"
      "tc_taken s1 = tc_taken s" "http_event cb (t, d, a) (s, c) = Some (Inr (s1, c1))"
      using http_event_parsed [OF Cons.prems(4) op rd d(1,2), of t True c1 ys1 cb a] Cons.prems(5,6) t'(2) c1
      by (auto simp: reading_def)
    have "progress c0 (insert t T) (xs @ d) c1 ys1" using c1 t'(1) by (auto simp: progress_def)
    then obtain s' c' u where "http_events cb es (s1, c1) = Some (Inr (s', c'))" "u \<in> insert t T \<union> set (map fst es)"
      "clean_context c'" "conn_reach others s'" "content (tc_inputBuffer s') = []"
      "let rs = cb (r\<lparr>hr_receiveTime := u\<rparr>) (HttpResponse_new (asks_close r)) in
       tc_taken s' = tc_taken s1 @ response_text rs \<and>
       tc_state s' = (if rs_closeConnection rs then kDisconnecting else kConnected)"
      using Cons.IH [OF split False _ s1(1,3,2), of c1 "insert t T"] Cons.prems(3) by auto
    then show ?thesis using s1(4,5) e by (auto simp: Let_def intro!: exI [of _ u])
  qed
qed


subsection \<open>Properties\<close>

text \<open>
  C33: an HTTP request is served whatever pieces it arrives in: once the last piece is there, and not
  before, the response that the user's callback made for exactly this request goes out, whole; the
  connection is shut down if the response says so and otherwise is ready for the next request.
\<close>

theorem http_request_served:
  assumes "conn_reach others s" and "tc_state s = kConnected" and "content (tc_inputBuffer s) = []"
    and "clean_context c" and "request_ok r fs"
    and "concat (map (\<lambda>(t, d, a). d) es) = request_text r fs"
    and "\<forall>(t, d, a) \<in> set es. d \<noteq> [] \<and> length d \<le> extrabuf_size \<and> a \<noteq> WriteErr EPIPE"
  shows "\<exists>s' c' t. http_events cb es (s, c) = Some (Inr (s', c')) \<and> t \<in> set (map fst es) \<and> clean_context c' \<and>
    conn_reach others s' \<and> content (tc_inputBuffer s') = [] \<and>
    (let rs = cb (r\<lparr>hr_receiveTime := t\<rparr>) (HttpResponse_new (asks_close r)) in
     tc_taken s' = tc_taken s @ response_text rs \<and>
     tc_state s' = (if rs_closeConnection rs then kDisconnecting else kConnected))"
proof -
  have "es \<noteq> []" using assms(6) by (auto simp: request_text_def kCRLF_def)
  then show ?thesis
    using http_served_pieces [OF assms(5,4), of "[]" es others s "[]" c "{}" cb] assms by simp
qed

text \<open>A connection that has just been established, and a request of a browser in three pieces.\<close>

definition demo_http_conn :: tcpconn where
  "demo_http_conn = (TcpConnection_new False False default_highWaterMark)\<lparr>tc_state := kConnected, tc_events := 3,
     tc_calls := [Update 3], tc_called := [ConnectionCb True]\<rparr>"

lemma demo_http_conn_reach: "conn_reach others demo_http_conn"
proof -
  let ?n = "TcpConnection_new False False default_highWaterMark"
  have "conn_do (Establish []) ?n = Inr demo_http_conn"
    by (simp add: connectEstablished_def TcpConnection_new_def set_events_def call_user_def demo_http_conn_def Let_def)
  then show ?thesis
    using conn_step [OF conn_new, of others "Establish []" False False default_highWaterMark demo_http_conn]
    by (simp add: TcpConnection_new_def)
qed

lemma demo_http_conn_simps [simp]:
  "tc_state demo_http_conn = kConnected" "content (tc_inputBuffer demo_http_conn) = []" "tc_taken demo_http_conn = []"
  "tc_events demo_http_conn = 3"
  by (simp_all add: demo_http_conn_def TcpConnection_new_def)

definition demo_request :: http_request where
  "demo_request = \<lparr>hr_method = kGet, hr_version = kHttp11, hr_path = [47], hr_receiveTime = 0,
     hr_headers = [[72] \<mapsto> [120]]\<rparr>"

theorem http_request_served_witness:
  "\<exists>s' c'. http_events defaultHttpCallback
     [(7, [71, 69], Wrote 0), (8, [84, 32, 47, 32, 72, 84, 84, 80, 47, 49, 46, 49, 13], Wrote 0),
      (9, [10, 72, 58, 32, 120, 13, 10, 13, 10], Wrote 40)] (demo_http_conn, HttpContext_new) = Some (Inr (s', c')) \<and>
     take 12 (tc_taken s') = lit ''HTTP/1.1 404'' \<and> tc_state s' = kDisconnecting"
proof -
  have req: "request_ok demo_request [([72], [120])]"
    by (simp add: request_ok_def demo_request_def field_ok_def is_space_def word_le_nat_alt)
  have pieces: "request_text demo_request [([72], [120])] = concat (map (\<lambda>(t, d, a). d)
     [(7 :: int, [71, 69], Wrote 0), (8, [84, 32, 47, 32, 72, 84, 84, 80, 47, 49, 46, 49, 13], Wrote 0),
      (9, [10, 72, 58, 32, 120, 13, 10, 13, 10], Wrote 40)])"
    by (simp add: request_text_def demo_request_def methodString_def version_text_def field_text_def kCRLF_def)
  have digits: "dec_digits 404 = [52, 48, 52]" by (simp add: dec_digits.simps)
  show ?thesis
    using http_request_served [OF demo_http_conn_reach [of True] _ _ _ req pieces [symmetric], of HttpContext_new defaultHttpCallback]
    by (auto simp: Let_def defaultHttpCallback_def HttpResponse_new_def response_text_def snprintf32_def digits
        extrabuf_size_def lit_def of_char_def)
qed

text \<open>
  C34: a request line with a known method and nothing else right leaves \<open>method_\<close> set: the client is
  answered \<open>400 Bad Request\<close> and the connection half closed, but it is still read from, and any
  further byte of the client fails the assertion in \<open>HttpRequest::setMethod\<close>, which ends the server.
\<close>

theorem http_bad_request_aborts:
  assumes "conn_reach others s" and "tc_state s = kConnected" and "content (tc_inputBuffer s) = []" and "clean_context c"
    and "13 \<notin> set p" and "32 \<notin> set p" and "length p < 1000" and "a \<noteq> WriteErr EPIPE"
    and "d \<noteq> []" and "length d \<le> extrabuf_size"
  shows "\<exists>s' c'. http_event cb (t, lit ''GET '' @ p @ kCRLF, a) (s, c) = Some (Inr (s', c')) \<and>
    tc_taken s' = tc_taken s @ lit ''HTTP/1.1 400 Bad Request'' @ kCRLF @ kCRLF \<and> tc_state s' = kDisconnecting \<and>
    can_happen others (Event 1 (ReadOk d) w [] []) s' \<and>
    http_event cb (t', d, a') (s', c') = Some (Inl Abort)"
proof -
  let ?l = "71 # 69 # 84 # 32 # p" and ?bad = "lit ''HTTP/1.1 400 Bad Request'' @ kCRLF @ kCRLF"
  let ?c = "c\<lparr>hc_request := (hc_request c)\<lparr>hr_method := kGet\<rparr>\<rparr>"
  have get: "lit ''GET '' = [71, 69, 84, 32]" by (simp add: lit_def of_char_def)
  have rd: "reading c" "hc_state c = kExpectRequestLine" "hr_method (hc_request c) = kInvalid"
    using assms(4) by (simp_all add: clean_context_def reading_def)
  have nospace: "std_find p 32 = length p"
    by (rule std_find_none [OF assms(6)])
  have line: "next_line (?l @ kCRLF @ zs) = Some (?l, zs)" for zs
    by (rule next_line_CRLF) (use assms(5) in simp)
  have step: "line_step t ?l c = Inr (False, ?c)"
    using rd nospace by (simp add: line_step_def processRequestLine_def setMethod_def method_of_def Let_def)
  have first: "http_spec t c (?l @ kCRLF) = Inr (False, ?c, ?l @ kCRLF)"
    using line [of "[]"] step by (subst http_spec.simps) simp
  have size: "length (?l @ kCRLF) \<le> extrabuf_size" using assms(7) by (simp add: extrabuf_size_def)
  obtain s1 where s1: "conn_reach others s1" "content (tc_inputBuffer s1) = ?l @ kCRLF" "tc_state s1 = kConnected"
    "tc_taken s1 = tc_taken s"
    "http_event cb (t, ?l @ kCRLF, a) (s, c) = Some (bind_res (user_run (Send ?bad a # (if True then [Shutdown] else [])) s1)
        (\<lambda>s. Inr (s, ?c)))"
    using http_event_parsed [OF assms(1) _ rd(1) _ size, of t False ?c "?l @ kCRLF" cb a] assms(2,3) first rd(2)
    by (auto simp: is_open_def)
  obtain s2 where s2: "user_run (Send ?bad a # (if True then [Shutdown] else [])) s1 = Inr s2"
      "conn_reach others s2" "tc_taken s2 = tc_taken s1 @ ?bad" "content (tc_inputBuffer s2) = content (tc_inputBuffer s1)"
      "tc_state s2 = (if True then kDisconnecting else kConnected)"
    using http_answer [OF s1(1,3) assms(8), of ?bad True] by blast
  have op: "is_open s2" using s2(5) by (simp add: is_open_def)
  have core: "core s2" using conn_reach_inv [OF s2(2)] by (simp add: conn_inv_def)
  have ev: "tc_events s2 = 3 \<or> tc_events s2 = 7" using coreD(4) [OF core op] by (auto simp: open_events_def)
  then have can: "can_happen others (Event 1 (ReadOk d) w [] []) s2"
    using assms(10) by (auto simp: revents_ok_def event_defs readv_fits_def)
  have "line_step t' ?l ?c = Inl Abort"
    using rd(2) by (simp add: line_step_def processRequestLine_def setMethod_def Let_def)
  then have "http_spec t' ?c ((?l @ kCRLF) @ d) = Inl Abort"
    using line [of d] by (subst http_spec.simps) simp
  moreover obtain b where b: "readFd (tc_inputBuffer s2) (ReadOk d) = Inr (int (length d), None, b)"
    "content b = content (tc_inputBuffer s2) @ d" "Buffer_inv b"
    using readFd_correct [OF coreD(1) [OF core], of d] by blast
  moreover have "reading ?c" using rd(1) by (simp add: reading_def)
  ultimately have "parse_loop t' b ?c = Some (Inl Abort)"
    using parse_loop_spec [of b ?c t'] s1(2) s2(4) by simp
  then have "http_event cb (t', d, a') (s2, ?c) = Some (Inl Abort)"
    using b(1) by (simp add: http_event_def http_onMessage_def parseRequest_def call_user_def)
  then show ?thesis using s1(4,5) s2(1,3,5) can by (auto simp: get)
qed

theorem http_bad_request_aborts_witness:
  "\<exists>s' c'. http_event defaultHttpCallback (7, lit ''GET '' @ [47] @ kCRLF, Wrote 9) (demo_http_conn, HttpContext_new) =
     Some (Inr (s', c')) \<and> http_event defaultHttpCallback (8, [13], Wrote 9) (s', c') = Some (Inl Abort)"
  using http_bad_request_aborts [OF demo_http_conn_reach [of True], of HttpContext_new "[47]" "Wrote 9" "[13]"
      defaultHttpCallback 7 "Wrote 0" 8 "Wrote 9"]
  by (auto simp: extrabuf_size_def)

text \<open>
  A second request that arrives in the same piece as the first is not looked at: one message gives
  one response, and the second request stays in the buffer until something else arrives.
\<close>

lemma pipelined_request_waits:
  assumes "conn_reach others s" and "tc_state s = kConnected" and "content (tc_inputBuffer s) = []"
    and "clean_context c" and "request_ok r fs" and "length (request_text r fs @ rest) \<le> extrabuf_size" and "a \<noteq> WriteErr EPIPE"
  shows "\<exists>s' c'. http_event cb (t, request_text r fs @ rest, a) (s, c) = Some (Inr (s', c')) \<and> content (tc_inputBuffer s') = rest \<and>
    tc_taken s' = tc_taken s @ response_text (cb (r\<lparr>hr_receiveTime := t\<rparr>) (HttpResponse_new (asks_close r)))"
proof -
  let ?r = "r\<lparr>hr_receiveTime := t\<rparr>" and ?cc = "\<lparr>hc_state = kGotAll, hc_request = r\<lparr>hr_receiveTime := t\<rparr>\<rparr>"
  let ?rs = "cb ?r (HttpResponse_new (asks_close ?r))"
  have rd: "reading c" using assms(4) by (simp add: clean_context_def reading_def)
  have "request_text r fs \<noteq> []" by (simp add: request_text_def kCRLF_def)
  then obtain s1 where s1: "conn_reach others s1" "content (tc_inputBuffer s1) = rest" "tc_state s1 = kConnected"
      "tc_taken s1 = tc_taken s"
      "http_event cb (t, request_text r fs @ rest, a) (s, c) = Some (bind_res
        (user_run (Send (response_text ?rs) a # (if rs_closeConnection ?rs then [Shutdown] else [])) s1)
        (\<lambda>s. Inr (s, HttpContext_reset ?cc)))"
    using http_event_parsed [OF assms(1) _ rd _ assms(6), of t True ?cc rest cb a] http_spec_request [OF assms(5,4), of t rest]
      assms(2,3) by (auto simp: Let_def is_open_def)
  moreover have "asks_close ?r = asks_close r" by (simp add: asks_close_def getHeader_def)
  ultimately show ?thesis
    using http_answer [OF s1(1,3) assms(7), of "response_text ?rs" "rs_closeConnection ?rs"] by fastforce
qed

end
