(* ===== verification/TcpServer.thy ===== *)
theory TcpServer imports TcpConnection Prog begin

text \<open>
  \<open>muduo/net/Acceptor\<close>, \<open>EventLoopThreadPool\<close> and \<open>TcpServer\<close>: accepting connections, spreading them
  over the loops of the pool, and removing them when they are closed.  Loop 0 is the base loop; a
  connection is worked on by its own loop, and its removal goes from there to the base loop and back.

  The connections are those of theory \<open>TcpConnection\<close>: the server is shown to keep to what that theory
  assumes of it (a connection is removed once, after it was closed).
\<close>

subsection \<open>The acceptor\<close>

text \<open>
  The kernel: the descriptors of the process, how many it may have, and the connections that wait to
  be accepted.  \<open>accept\<close> and \<open>open\<close> give a new descriptor, or \<open>EMFILE\<close> when there are too many.
\<close>

record kern =
  k_limit :: nat
  k_open :: "int set"
  k_backlog :: nat

definition k_new :: "int \<Rightarrow> kern \<Rightarrow> (int \<times> kern) option" where
  "k_new fd k = (if card (k_open k) < k_limit k then Some (fd, k\<lparr>k_open := insert fd (k_open k)\<rparr>) else None)"

text \<open>The peer of an accepted connection that the process closes sees it closed.\<close>

definition k_accept :: "int \<Rightarrow> kern \<Rightarrow> (int \<times> kern) option" where
  "k_accept fd k = (if k_backlog k = 0 then None
     else map_option (\<lambda>(fd, k). (fd, k\<lparr>k_backlog := k_backlog k - 1\<rparr>)) (k_new fd k))"

definition k_close :: "int \<Rightarrow> kern \<Rightarrow> kern" where
  "k_close fd k = k\<lparr>k_open := k_open k - {fd}\<rparr>"

text \<open>\<open>fd\<close>, \<open>fd2\<close>, \<open>fd3\<close>: the descriptors the kernel picks; all are free ones.\<close>

record acceptor =
  ac_listenning :: bool
  ac_events :: events
  ac_idleFd :: int
  ac_kern :: kern
  ac_callback :: bool
  ac_handed :: "int list"

definition Acceptor_new :: "int \<Rightarrow> kern \<Rightarrow> acceptor res" where
  "Acceptor_new fd k =
     (case k_new fd k of
        None \<Rightarrow> Inl Abort
      | Some (idleFd, k) \<Rightarrow> Inr \<lparr>ac_listenning = False, ac_events = 0, ac_idleFd = idleFd, ac_kern = k,
                                ac_callback = False, ac_handed = []\<rparr>)"

definition ac_listen :: "acceptor \<Rightarrow> acceptor" where
  "ac_listen a = a\<lparr>ac_listenning := True, ac_events := enableReading (ac_events a)\<rparr>"

text \<open>\<open>-1\<close> is what a failed call returns.\<close>

definition ac_handleRead :: "int \<Rightarrow> int \<Rightarrow> int \<Rightarrow> acceptor \<Rightarrow> acceptor" where
  "ac_handleRead fd fd2 fd3 a =
     (case k_accept fd (ac_kern a) of
        Some (connfd, k) \<Rightarrow>
          if ac_callback a then a\<lparr>ac_kern := k, ac_handed := ac_handed a @ [connfd]\<rparr>
          else a\<lparr>ac_kern := k_close connfd k\<rparr>
      | None \<Rightarrow>
          if k_backlog (ac_kern a) = 0 then a
          else
            let k = k_close (ac_idleFd a) (ac_kern a);
                (idle, k) = (case k_accept fd2 k of Some r \<Rightarrow> r | None \<Rightarrow> (- 1, k));
                k = k_close idle k;
                (idle, k) = (case k_new fd3 k of Some r \<Rightarrow> r | None \<Rightarrow> (- 1, k))
            in a\<lparr>ac_kern := k, ac_idleFd := idle\<rparr>)"

subsection \<open>The pool of loops\<close>

record loop_pool =
  tp_started :: bool
  tp_numThreads :: nat
  tp_next :: nat
  tp_loops :: "nat list"

definition ThreadPool_new :: loop_pool where
  "ThreadPool_new = \<lparr>tp_started = False, tp_numThreads = 0, tp_next = 0, tp_loops = []\<rparr>"

text \<open>Each thread's loop gets the next number.\<close>

definition tp_start :: "loop_pool \<Rightarrow> loop_pool res" where
  "tp_start p = assert_res (\<not> tp_started p)
     (Inr (p\<lparr>tp_started := True, tp_loops := tp_loops p @ map Suc [0..<tp_numThreads p]\<rparr>))"

definition getNextLoop :: "loop_pool \<Rightarrow> (nat \<times> loop_pool) res" where
  "getNextLoop p =
     (if tp_loops p \<noteq> [] then
        if tp_next p < length (tp_loops p) then
          let loop = tp_loops p ! tp_next p;
              p = p\<lparr>tp_next := tp_next p + 1\<rparr>
          in Inr (loop, if tp_next p \<ge> length (tp_loops p) then p\<lparr>tp_next := 0\<rparr> else p)
        else Inl OutOfBounds
      else Inr (0, p))"

subsection \<open>The server\<close>

text \<open>
  A connection of the server: its name, its loop, itself, and whether \<open>connectEstablished\<close> still
  waits in the queue of its loop.
\<close>

record server_conn =
  sc_name :: bytes
  sc_loop :: nat
  sc_tc :: tcpconn
  sc_pending :: bool

text \<open>
  \<open>ts_conns\<close> are all connections ever made, a \<open>TcpConnectionPtr\<close> is an index into it; \<open>ts_removals\<close>
  are the calls of \<open>removeConnectionInLoop\<close> in the queue of the base loop.
\<close>

record tcpserver =
  ts_hostport :: bytes
  ts_name :: bytes
  ts_pool :: loop_pool
  ts_started :: bool
  ts_listenning :: bool
  ts_writeCompleteCallback :: bool
  ts_nextConnId :: nat
  ts_connections :: "bytes \<Rightarrow> nat option"
  ts_conns :: "server_conn list"
  ts_removals :: "nat list"

definition TcpServer_new :: "bytes \<Rightarrow> bytes \<Rightarrow> bool \<Rightarrow> tcpserver" where
  "TcpServer_new hostport nm wc = \<lparr>ts_hostport = hostport, ts_name = nm, ts_pool = ThreadPool_new,
     ts_started = False, ts_listenning = False, ts_writeCompleteCallback = wc, ts_nextConnId = 1,
     ts_connections = Map.empty, ts_conns = [], ts_removals = []\<rparr>"

definition setThreadNum :: "nat \<Rightarrow> tcpserver \<Rightarrow> tcpserver" where
  "setThreadNum n s = s\<lparr>ts_pool := (ts_pool s)\<lparr>tp_numThreads := n\<rparr>\<rparr>"

definition ts_start :: "tcpserver \<Rightarrow> tcpserver res" where
  "ts_start s =
     bind_res
       (if \<not> ts_started s then
          bind_res (tp_start (ts_pool s)) (\<lambda>p. Inr (s\<lparr>ts_started := True, ts_pool := p\<rparr>))
        else Inr s) (\<lambda>s.
     Inr (if \<not> ts_listenning s then s\<lparr>ts_listenning := True\<rparr> else s))"

text \<open>\<open>snprintf(buf, 32, ":%s#%d", \<dots>)\<close>.\<close>

definition conn_suffix :: "bytes \<Rightarrow> nat \<Rightarrow> bytes" where
  "conn_suffix hostport n = take 31 ([58] @ hostport @ [35] @ dec_digits n)"

definition newConnection :: "user_act list \<Rightarrow> tcpserver \<Rightarrow> tcpserver res" where
  "newConnection on_connection s =
     bind_res (getNextLoop (ts_pool s)) (\<lambda>(ioLoop, p).
     let connName = ts_name s @ conn_suffix (ts_hostport s) (ts_nextConnId s);
         tc = TcpConnection_new False (ts_writeCompleteCallback s) default_highWaterMark;
         i = length (ts_conns s);
         s = s\<lparr>ts_pool := p, ts_nextConnId := ts_nextConnId s + 1, ts_connections := (ts_connections s)(connName \<mapsto> i)\<rparr>
     in if ioLoop = 0 then
          bind_res (connectEstablished on_connection tc) (\<lambda>tc.
          Inr (s\<lparr>ts_conns := ts_conns s @ [\<lparr>sc_name = connName, sc_loop = ioLoop, sc_tc = tc, sc_pending = False\<rparr>]\<rparr>))
        else
          Inr (s\<lparr>ts_conns := ts_conns s @ [\<lparr>sc_name = connName, sc_loop = ioLoop, sc_tc = tc, sc_pending = True\<rparr>]\<rparr>))"

text \<open>Does something to the connection \<open>i\<close>.\<close>

definition on_conn :: "nat \<Rightarrow> (tcpconn \<Rightarrow> tcpconn) \<Rightarrow> tcpserver \<Rightarrow> tcpserver" where
  "on_conn i f s = s\<lparr>ts_conns := (ts_conns s)[i := (ts_conns s ! i)\<lparr>sc_tc := f (sc_tc (ts_conns s ! i))\<rparr>]\<rparr>"

definition removeConnectionInLoop :: "nat \<Rightarrow> tcpserver \<Rightarrow> tcpserver res" where
  "removeConnectionInLoop i s =
     (let nm = sc_name (ts_conns s ! i);
          n = (if ts_connections s nm = None then 0 else 1 :: nat);
          s = s\<lparr>ts_connections := (ts_connections s)(nm := None)\<rparr>
      in assert_res (n = 1)
           (Inr (on_conn i (\<lambda>tc. queue_functor ConnectDestroyed (tc\<lparr>tc_removed := True\<rparr>)) s)))"

definition removeConnection :: "nat \<Rightarrow> tcpserver \<Rightarrow> tcpserver res" where
  "removeConnection i s =
     (if sc_loop (ts_conns s ! i) = 0 then removeConnectionInLoop i s
      else Inr (s\<lparr>ts_removals := ts_removals s @ [i]\<rparr>))"

text \<open>\<open>~TcpServer\<close>: \<open>connectDestroyed\<close> runs at once for the connections of the base loop.\<close>

definition TcpServer_dtor :: "user_act list \<Rightarrow> tcpserver \<Rightarrow> tcpserver res" where
  "TcpServer_dtor on_connection s =
     foldl (\<lambda>r i. bind_res r (\<lambda>s.
         if i \<in> ran (ts_connections s) then
           if sc_loop (ts_conns s ! i) = 0
           then bind_res (connectDestroyed on_connection (sc_tc (ts_conns s ! i))) (\<lambda>tc. Inr (on_conn i (\<lambda>_. tc) s))
           else Inr (on_conn i (queue_functor ConnectDestroyed) s)
         else Inr s))
       (Inr s) [0..<length (ts_conns s)]"

subsection \<open>Steps of the server's threads\<close>

text \<open>
  \<open>Accepted\<close>: the acceptor hands over a connection.  \<open>RunEstablished i\<close>: the loop of connection \<open>i\<close>
  runs the queued \<open>connectEstablished\<close>.  \<open>ConnDo i op\<close>: an event, a functor or user code of the
  connection in its loop, or a call of another thread.  \<open>RunRemoval\<close>: the base loop runs the next
  \<open>removeConnectionInLoop\<close> of its queue.
\<close>

datatype server_op =
    Accepted "user_act list"
  | RunEstablished nat "user_act list"
  | ConnDo nat conn_op
  | RunRemoval

fun own_op :: "conn_op \<Rightarrow> bool" where
  "own_op (Establish acts) = False"
| "own_op ServerRemoves = False"
| "own_op op = True"

text \<open>How often the close callback, which is \<open>removeConnection\<close>, is called in a step.\<close>

definition closes :: "tcpconn \<Rightarrow> tcpconn \<Rightarrow> nat" where
  "closes tc tc' = count_list (tc_called tc') CloseCb - count_list (tc_called tc) CloseCb"

fun times_res :: "nat \<Rightarrow> ('a \<Rightarrow> 'a res) \<Rightarrow> 'a \<Rightarrow> 'a res" where
  "times_res 0 f x = Inr x"
| "times_res (Suc n) f x = bind_res (f x) (times_res n f)"

fun server_do :: "server_op \<Rightarrow> tcpserver \<Rightarrow> tcpserver res" where
  "server_do (Accepted acts) s = newConnection acts s"
| "server_do (RunEstablished i acts) s =
     bind_res (connectEstablished acts (sc_tc (ts_conns s ! i))) (\<lambda>tc.
     Inr (s\<lparr>ts_conns := (ts_conns s)[i := (ts_conns s ! i)\<lparr>sc_tc := tc, sc_pending := False\<rparr>]\<rparr>))"
| "server_do (ConnDo i op) s =
     (let tc = sc_tc (ts_conns s ! i) in
      bind_res (conn_do op tc) (\<lambda>tc'.
      times_res (closes tc tc') (removeConnection i) (on_conn i (\<lambda>_. tc') s)))"
| "server_do RunRemoval s =
     (case ts_removals s of [] \<Rightarrow> Inr s
      | i # is \<Rightarrow> removeConnectionInLoop i (s\<lparr>ts_removals := is\<rparr>))"

fun server_can :: "bool \<Rightarrow> server_op \<Rightarrow> tcpserver \<Rightarrow> bool" where
  "server_can others (Accepted acts) s = (ts_started s \<and> ts_listenning s)"
| "server_can others (RunEstablished i acts) s = (i < length (ts_conns s) \<and> sc_pending (ts_conns s ! i))"
| "server_can others (ConnDo i op) s =
     (i < length (ts_conns s) \<and> own_op op \<and> can_happen others op (sc_tc (ts_conns s ! i)))"
| "server_can others RunRemoval s = True"

inductive server_reach :: "bool \<Rightarrow> tcpserver \<Rightarrow> bool" for others where
  server_started: "ts_start (setThreadNum n (TcpServer_new hostport nm wc)) = Inr s \<Longrightarrow> server_reach others s"
| server_step: "server_reach others s \<Longrightarrow> server_can others op s \<Longrightarrow> server_do op s = Inr s' \<Longrightarrow> server_reach others s'"


subsection \<open>Names\<close>

lemma dec_digits_bound: "n < 10 ^ length (dec_digits n)"
proof (induction n rule: dec_digits.induct)
  case (1 n)
  show ?case
  proof (cases "n < 10")
    case True
    then show ?thesis by (simp add: dec_digits.simps [of n])
  next
    case False
    then have "n div 10 < 10 ^ length (dec_digits (n div 10))" using 1 by blast
    then have "n < 10 ^ Suc (length (dec_digits (n div 10)))" by (simp add: div_less_iff_less_mult mult.commute)
    then show ?thesis using False by (simp add: dec_digits.simps [of n])
  qed
qed

lemma conn_suffix_inj:
  assumes "length hostport \<le> 21" and "m < 10 ^ 8" and "n < 10 ^ 8" and "conn_suffix hostport m = conn_suffix hostport n"
  shows "m = n"
proof -
  have "length (dec_digits m) \<le> 8" "length (dec_digits n) \<le> 8"
    using dec_digits_length [of m 7] dec_digits_length [of n 7] assms(2,3) by simp_all
  then have "dec_digits m = dec_digits n" using assms(1,4) by (simp add: conn_suffix_def)
  then show ?thesis by (metis digits_value_dec)
qed

subsection \<open>The life of a connection, step by step\<close>

definition close_calls :: "tcpconn \<Rightarrow> nat" where
  "close_calls s = count_list (tc_called s) CloseCb"

text \<open>
  A calm step leaves the connection open, or closed; a live step may also close it, and then calls the
  close callback once.
\<close>

definition calm_step :: "tcpconn \<Rightarrow> tcpconn \<Rightarrow> bool" where
  "calm_step s s' \<longleftrightarrow> tc_removed s' = tc_removed s \<and> (tc_state s = kConnecting \<longrightarrow> tc_state s' = kConnecting) \<and>
     close_calls s' = close_calls s \<and> (tc_state s' = kDisconnected \<longleftrightarrow> tc_state s = kDisconnected)"

definition live_step :: "tcpconn \<Rightarrow> tcpconn \<Rightarrow> bool" where
  "live_step s s' \<longleftrightarrow> calm_step s s' \<or>
     tc_removed s' = tc_removed s \<and> close_calls s' = Suc (close_calls s) \<and> is_open s \<and> tc_state s' = kDisconnected"

lemma calm_refl [simp]: "calm_step s s"
  by (simp add: calm_step_def)

lemma calm_trans: "calm_step s s' \<Longrightarrow> calm_step s' s'' \<Longrightarrow> calm_step s s''"
  by (simp add: calm_step_def)

lemma calm_live: "calm_step s s' \<Longrightarrow> live_step s s'"
  by (simp add: live_step_def)

lemma live_refl [simp]: "live_step s s"
  by (simp add: live_step_def)

lemma live_trans: "live_step s s' \<Longrightarrow> live_step s' s'' \<Longrightarrow> live_step s s''"
  by (cases "tc_state s"; cases "tc_state s'"; simp add: live_step_def calm_step_def is_open_def; elim conjE disjE; simp)

lemma calm_input [simp]: "calm_step s (s\<lparr>tc_inputBuffer := b\<rparr>)"
  by (simp add: calm_step_def close_calls_def)

lemma calm_message [simp]: "calm_step s (call_user MessageCb s)"
  by (simp add: calm_step_def close_calls_def call_user_def count_list_append)

lemma calm_sendInLoop: "sendInLoop answer data s = Inr s' \<Longrightarrow> calm_step s s'"
  by (auto simp: sendInLoop_def Let_def assert_res_Inr bind_res_Inr queue_functor_def set_events_def calm_step_def
      close_calls_def split: if_splits write_answer.splits prod.splits)

lemma calm_tc_send: "tc_send here answer data s = Inr s' \<Longrightarrow> calm_step s s'"
  by (auto simp: tc_send_def queue_functor_def calm_sendInLoop split: if_splits)
    (auto simp: calm_step_def close_calls_def)

lemma calm_shutdownInLoop: "calm_step s (shutdownInLoop s)"
  by (simp add: shutdownInLoop_def calm_step_def close_calls_def)

lemma calm_tc_shutdown: "calm_step s (tc_shutdown here s)"
  by (simp add: tc_shutdown_def shutdownInLoop_def queue_functor_def calm_step_def close_calls_def Let_def)

lemma calm_user_do: "user_do a s = Inr s' \<Longrightarrow> calm_step s s'"
  by (cases a) (auto simp: calm_tc_send calm_tc_shutdown bind_res_Inr)

lemma calm_user_run: "user_run as s = Inr s' \<Longrightarrow> calm_step s s'"
proof (induction as arbitrary: s)
  case Nil
  then show ?case by simp
next
  case (Cons a as)
  then obtain s1 where "user_do a s = Inr s1" "user_run as s1 = Inr s'" by (auto simp: bind_res_Inr)
  then show ?case using calm_user_do Cons.IH calm_trans by blast
qed

lemma live_handleClose: "handleClose acts s = Inr s' \<Longrightarrow> live_step s s'"
proof -
  assume "handleClose acts s = Inr s'"
  then obtain s1 where o: "is_open s" and
    s1: "user_run acts (call_user (ConnectionCb False) (set_events (disableAll (tc_events s)) (s\<lparr>tc_state := kDisconnected\<rparr>))) = Inr s1"
    and s': "s' = call_user CloseCb s1"
    by (auto simp: handleClose_def assert_res_Inr bind_res_Inr Let_def is_open_def set_events_def)
  from calm_user_run [OF s1] o s' show ?thesis
    by (auto simp: live_step_def calm_step_def close_calls_def call_user_def set_events_def count_list_append is_open_def)
qed

lemma live_handleRead:
  assumes "tc_handleRead rd on_message on_connection s = Inr s'"
  shows "live_step s s'"
proof -
  obtain n e b where b: "readFd (tc_inputBuffer s) rd = Inr (n, e, b)"
    using assms by (auto simp: tc_handleRead_def bind_res_Inr)
  let ?s = "s\<lparr>tc_inputBuffer := b\<rparr>"
  consider "user_run on_message (call_user MessageCb ?s) = Inr s'" | "handleClose on_connection ?s = Inr s'" | "s' = ?s"
    using assms b by (auto simp: tc_handleRead_def handleError_def Let_def split: if_splits)
  then show ?thesis
  proof cases
    case 1
    show ?thesis by (rule calm_live [OF calm_trans [OF calm_input calm_trans [OF calm_message calm_user_run [OF 1]]]])
  next
    case 2
    show ?thesis by (rule live_trans [OF calm_live [OF calm_input] live_handleClose [OF 2]])
  qed (simp add: calm_live)
qed

lemma calm_handleWrite: "handleWrite answer s = Inr s' \<Longrightarrow> calm_step s s'"
  by (auto simp: handleWrite_def Let_def bind_res_Inr set_events_def queue_functor_def shutdownInLoop_def calm_step_def
      close_calls_def split: if_splits)

lemma live_bind:
  assumes "bind_res r f = Inr y" and "\<And>x. r = Inr x \<Longrightarrow> live_step s x" and "\<And>x. f x = Inr y \<Longrightarrow> live_step x y"
  shows "live_step s y"
proof -
  obtain x where x: "r = Inr x" "f x = Inr y" using assms(1) by (rule bind_res_InrE)
  show ?thesis by (rule live_trans [OF assms(2) [OF x(1)] assms(3) [OF x(2)]])
qed

lemma live_call_if:
  assumes "call_if c cb s = Inr s'" and "\<And>f s s'. cb = Some f \<Longrightarrow> f s = Inr s' \<Longrightarrow> live_step s s'"
  shows "live_step s s'"
  using assms by (auto simp: call_if_def split: if_splits option.splits)


lemma live_handleEvent:
  assumes "handleEvent True True (conn_callbacks rd wr on_message on_connection) r s = Inr s'"
  shows "live_step s s'"
proof -
  let ?cbs = "conn_callbacks rd wr on_message on_connection"
  have cb: "live_step x y" if "call_if c (cb ?cbs) x = Inr y" "cb \<in> {closeCallback, errorCallback, readCallback, writeCallback}" for c cb x y
    using that(2) by (intro live_call_if [OF that(1)])
      (auto simp: conn_callbacks_def handleError_def live_handleClose live_handleRead calm_live [OF calm_handleWrite])
  from assms show ?thesis
    unfolding handleEvent_def handleEventWithGuard_def if_True
    by (rule live_bind; elim live_bind cb) (simp_all add: cb)
qed

lemma calm_run_functor:
  assumes "conn_reach others s" and "conn_do (RunFunctor answer acts) s = Inr s'"
  shows "calm_step s s'"
proof (cases "tc_functors s")
  case (Cons f fs)
  let ?s = "s\<lparr>tc_functors := fs\<rparr>"
  have q: "calm_step s ?s" by (simp add: calm_step_def close_calls_def)
  have "calm_step ?s s'"
  proof (cases f)
    case ConnectDestroyed
    have "tc_state s = kDisconnected"
      using conn_reach_inv [OF assms(1)] Cons ConnectDestroyed
      by (auto simp: conn_inv_def life_def destroys_def split: if_splits)
    then show ?thesis
      using assms(2) Cons ConnectDestroyed
      by (auto simp: connectDestroyed_def channel_remove_def assert_res_Inr calm_step_def close_calls_def)
  qed (use assms(2) Cons in \<open>auto simp: calm_sendInLoop calm_shutdownInLoop calm_user_run\<close>)
  then show ?thesis by (rule calm_trans [OF q])
qed (use assms(2) in simp)

lemma live_conn_do:
  assumes "conn_reach others s" and "own_op op" and "conn_do op s = Inr s'" and "can_happen others op s"
  shows "live_step s s'"
proof (cases op)
  case (Event r rd wr on_message on_connection)
  then show ?thesis using assms(3) live_handleEvent by simp
next
  case (UserCode acts)
  then show ?thesis using assms(3) calm_live [OF calm_user_run] by simp
next
  case (OtherSend data)
  then show ?thesis using assms(3) calm_live [OF calm_tc_send] by simp
next
  case OtherShutdown
  then show ?thesis using assms(3) calm_live [OF calm_tc_shutdown] by auto
next
  case (RunFunctor answer acts)
  then show ?thesis using calm_live [OF calm_run_functor] assms(1,3) by blast
qed (use assms(2) in simp_all)

lemma establish_life:
  assumes "connectEstablished acts s = Inr s'"
  shows "tc_removed s' = tc_removed s \<and> close_calls s' = close_calls s"
proof -
  have "user_run acts (call_user (ConnectionCb True) (set_events (enableReading (tc_events s)) (s\<lparr>tc_state := kConnected\<rparr>))) = Inr s'"
    using assms by (auto simp: connectEstablished_def assert_res_Inr set_events_def)
  from calm_user_run [OF this] show ?thesis
    by (auto simp: live_step_def calm_step_def close_calls_def call_user_def set_events_def count_list_append is_open_def)
qed


subsection \<open>The invariant of the server\<close>

abbreviation tc_at :: "tcpserver \<Rightarrow> nat \<Rightarrow> tcpconn" where
  "tc_at s i \<equiv> sc_tc (ts_conns s ! i)"

text \<open>The names fit into \<open>buf\<close>: an address of at most 21 characters and fewer than \<open>10^8\<close> connections.\<close>

definition names_fit :: "tcpserver \<Rightarrow> bool" where
  "names_fit s \<longleftrightarrow> length (ts_hostport s) \<le> 21 \<and> ts_nextConnId s \<le> 10 ^ 8"

definition pool_inv :: "tcpserver \<Rightarrow> bool" where
  "pool_inv s \<longleftrightarrow> (let n = tp_numThreads (ts_pool s); k = length (ts_conns s) in
     ts_started s \<and> tp_loops (ts_pool s) = map Suc [0..<n] \<and> tp_next (ts_pool s) = (if n = 0 then 0 else k mod n) \<and>
     (\<forall>i < k. sc_loop (ts_conns s ! i) = (if n = 0 then 0 else Suc (i mod n))))"

definition names_inv :: "tcpserver \<Rightarrow> bool" where
  "names_inv s \<longleftrightarrow> ts_nextConnId s = Suc (length (ts_conns s)) \<and>
     (\<forall>i < length (ts_conns s). sc_name (ts_conns s ! i) = ts_name s @ conn_suffix (ts_hostport s) (Suc i))"

definition map_inv :: "tcpserver \<Rightarrow> bool" where
  "map_inv s \<longleftrightarrow> (\<forall>nm i. ts_connections s nm = Some i \<longleftrightarrow>
     i < length (ts_conns s) \<and> sc_name (ts_conns s ! i) = nm \<and> \<not> tc_removed (tc_at s i))"

definition conns_inv :: "bool \<Rightarrow> tcpserver \<Rightarrow> bool" where
  "conns_inv others s \<longleftrightarrow> (\<forall>i < length (ts_conns s). conn_reach others (tc_at s i) \<and> close_calls (tc_at s i) \<le> 1 \<and>
     (sc_pending (ts_conns s ! i) \<longrightarrow> tc_state (tc_at s i) = kConnecting))"

definition removals_inv :: "tcpserver \<Rightarrow> bool" where
  "removals_inv s \<longleftrightarrow> distinct (ts_removals s) \<and>
     (\<forall>i. i \<in> set (ts_removals s) \<longleftrightarrow> i < length (ts_conns s) \<and> 0 < close_calls (tc_at s i) \<and> \<not> tc_removed (tc_at s i))"

definition server_inv :: "bool \<Rightarrow> tcpserver \<Rightarrow> bool" where
  "server_inv others s \<longleftrightarrow> pool_inv s \<and> names_inv s \<and> map_inv s \<and> conns_inv others s \<and> removals_inv s"

lemma names_distinct:
  assumes "names_inv s" and "names_fit s" and "i < length (ts_conns s)" and "j < length (ts_conns s)"
    and "sc_name (ts_conns s ! i) = sc_name (ts_conns s ! j)"
  shows "i = j"
proof -
  have "conn_suffix (ts_hostport s) (Suc i) = conn_suffix (ts_hostport s) (Suc j)"
    using assms by (auto simp: names_inv_def)
  then have "Suc i = Suc j"
    by (rule conn_suffix_inj [rotated 3]) (use assms in \<open>auto simp: names_inv_def names_fit_def\<close>)
  then show ?thesis by simp
qed

text \<open>Replacing a connection by one with the same name and loop.\<close>

definition put_conn :: "nat \<Rightarrow> tcpconn \<Rightarrow> bool \<Rightarrow> tcpserver \<Rightarrow> tcpserver" where
  "put_conn i tc p s = s\<lparr>ts_conns := (ts_conns s)[i := (ts_conns s ! i)\<lparr>sc_tc := tc, sc_pending := p\<rparr>]\<rparr>"

lemma on_conn_put: "on_conn i f s = put_conn i (f (tc_at s i)) (sc_pending (ts_conns s ! i)) s"
  by (simp add: on_conn_def put_conn_def)

lemma put_conn_at:
  "j < length (ts_conns s) \<Longrightarrow> ts_conns (put_conn i tc p s) ! j =
     (if j = i then (ts_conns s ! j)\<lparr>sc_tc := tc, sc_pending := p\<rparr> else ts_conns s ! j)"
  by (cases "j = i") (simp_all add: put_conn_def)

lemma put_conn_simps [simp]:
  "length (ts_conns (put_conn i tc p s)) = length (ts_conns s)" "ts_removals (put_conn i tc p s) = ts_removals s"
  "ts_connections (put_conn i tc p s) = ts_connections s" "ts_pool (put_conn i tc p s) = ts_pool s"
  "ts_started (put_conn i tc p s) = ts_started s" "ts_nextConnId (put_conn i tc p s) = ts_nextConnId s"
  "ts_name (put_conn i tc p s) = ts_name s" "ts_hostport (put_conn i tc p s) = ts_hostport s"
  "j < length (ts_conns s) \<Longrightarrow> tc_at (put_conn i tc p s) j = (if j = i then tc else tc_at s j)"
  "j < length (ts_conns s) \<Longrightarrow> sc_name (ts_conns (put_conn i tc p s) ! j) = sc_name (ts_conns s ! j)"
  "j < length (ts_conns s) \<Longrightarrow> sc_loop (ts_conns (put_conn i tc p s) ! j) = sc_loop (ts_conns s ! j)"
  "j < length (ts_conns s) \<Longrightarrow> sc_pending (ts_conns (put_conn i tc p s) ! j) = (if j = i then p else sc_pending (ts_conns s ! j))"
  "names_fit (put_conn i tc p s) \<longleftrightarrow> names_fit s"
  by (simp_all add: put_conn_at names_fit_def) (simp_all add: put_conn_def)

lemma put_conn_frame [simp]:
  "pool_inv (put_conn i tc p s) \<longleftrightarrow> pool_inv s" "names_inv (put_conn i tc p s) \<longleftrightarrow> names_inv s"
  by (simp_all add: pool_inv_def names_inv_def)

lemma put_conn_map:
  assumes "tc_removed tc = tc_removed (tc_at s i)"
  shows "map_inv (put_conn i tc p s) \<longleftrightarrow> map_inv s"
proof -
  have "(j < length (ts_conns s) \<and> sc_name (ts_conns (put_conn i tc p s) ! j) = nm \<and> \<not> tc_removed (tc_at (put_conn i tc p s) j)) \<longleftrightarrow>
    (j < length (ts_conns s) \<and> sc_name (ts_conns s ! j) = nm \<and> \<not> tc_removed (tc_at s j))" for j nm
    using assms by (cases "j = i") (auto simp: put_conn_at)
  then show ?thesis by (simp add: map_inv_def)
qed

lemma put_conn_conns:
  assumes "conns_inv others s" and "conn_reach others tc" and "close_calls tc \<le> 1" and "p \<longrightarrow> tc_state tc = kConnecting"
  shows "conns_inv others (put_conn i tc p s)"
  using assms by (auto simp: conns_inv_def)

lemma put_conn_removals:
  assumes "removals_inv s" and "close_calls tc = close_calls (tc_at s i)" and "tc_removed tc = tc_removed (tc_at s i)"
  shows "removals_inv (put_conn i tc p s)"
proof -
  have "(j < length (ts_conns s) \<and> 0 < close_calls (tc_at (put_conn i tc p s) j) \<and> \<not> tc_removed (tc_at (put_conn i tc p s) j)) \<longleftrightarrow>
    (j < length (ts_conns s) \<and> 0 < close_calls (tc_at s j) \<and> \<not> tc_removed (tc_at s j))" for j
    using assms(2,3) by (cases "j = i") (auto simp: put_conn_at)
  then show ?thesis using assms(1) by (simp add: removals_inv_def)
qed

lemma tc_conn_inv: "conn_reach others tc \<Longrightarrow> life tc"
  using conn_reach_inv by (simp add: conn_inv_def)

lemma connection_step_ok: "conn_reach others tc \<Longrightarrow> can_happen others op tc \<Longrightarrow> \<exists>tc'. conn_do op tc = Inr tc'"
  using conn_do_ok conn_reach_inv by blast

lemma close_calls_pos: "0 < close_calls tc \<longleftrightarrow> CloseCb \<in> set (tc_called tc)"
  by (auto simp: close_calls_def count_list_0_iff neq0_conv [symmetric] simp del: neq0_conv)

text \<open>A connection that was closed is removed.\<close>

lemma removeInLoop_ok:
  assumes "pool_inv s" "names_inv s" "map_inv s" "conns_inv others s" and "names_fit s"
    and "i < length (ts_conns s)" and "\<not> tc_removed (tc_at s i)" and "0 < close_calls (tc_at s i)"
  shows "\<exists>s'. removeConnectionInLoop i s = Inr s' \<and> pool_inv s' \<and> names_inv s' \<and> map_inv s' \<and> conns_inv others s' \<and>
    ts_removals s' = ts_removals s \<and> ts_nextConnId s' = ts_nextConnId s \<and> ts_hostport s' = ts_hostport s \<and>
    length (ts_conns s') = length (ts_conns s) \<and>
    (\<forall>j < length (ts_conns s). close_calls (tc_at s' j) = close_calls (tc_at s j) \<and>
       (tc_removed (tc_at s' j) \<longleftrightarrow> j = i \<or> tc_removed (tc_at s j)))"
proof -
  let ?nm = "sc_name (ts_conns s ! i)" and ?tc = "queue_functor ConnectDestroyed ((tc_at s i)\<lparr>tc_removed := True\<rparr>)"
  let ?s = "s\<lparr>ts_connections := (ts_connections s)(?nm := None)\<rparr>"
  let ?s' = "put_conn i ?tc (sc_pending (ts_conns s ! i)) ?s"
  have found: "ts_connections s ?nm = Some i" using assms(3,6,7) by (simp add: map_inv_def)
  have run: "removeConnectionInLoop i s = Inr ?s'"
    using found by (simp add: removeConnectionInLoop_def on_conn_put Let_def)
  have c: "conn_reach others (tc_at s i)" "close_calls (tc_at s i) \<le> 1"
    "sc_pending (ts_conns s ! i) \<longrightarrow> tc_state (tc_at s i) = kConnecting"
    using assms(4,6) by (auto simp: conns_inv_def)
  have reach: "conn_reach others ?tc"
    by (rule conn_step [OF c(1), of ServerRemoves]) (use assms(7,8) in \<open>simp_all add: close_calls_pos\<close>)
  have "conns_inv others ?s" using assms(4) by (simp add: conns_inv_def)
  then have conns: "conns_inv others ?s'"
    by (rule put_conn_conns) (use reach c(2,3) in \<open>simp_all add: close_calls_def queue_functor_def\<close>)
  have rem: "tc_removed ?tc" "close_calls ?tc = close_calls (tc_at s i)" by (simp_all add: queue_functor_def close_calls_def)
  have "ts_connections ?s' nm = Some j \<longleftrightarrow> j < length (ts_conns ?s') \<and> sc_name (ts_conns ?s' ! j) = nm \<and> \<not> tc_removed (tc_at ?s' j)"
    for nm j
    using assms(3) rem(1) names_distinct [OF assms(2,5), of i j] assms(6) found by (auto simp: map_inv_def)
  then have "map_inv ?s'" unfolding map_inv_def by blast
  moreover have "pool_inv ?s \<longleftrightarrow> pool_inv s" "names_inv ?s \<longleftrightarrow> names_inv s" by (simp_all add: pool_inv_def names_inv_def)
  then have "pool_inv ?s'" "names_inv ?s'" using assms(1,2) by simp_all
  ultimately show ?thesis
    using run conns rem by (intro exI [of _ ?s']) simp
qed


text \<open>The loops of the pool take turns.\<close>

lemma getNextLoop_turn:
  assumes "tp_loops p = map Suc [0..<n]" and "tp_next p = (if n = 0 then 0 else k mod n)"
  shows "getNextLoop p = Inr (if n = 0 then 0 else Suc (k mod n), p\<lparr>tp_next := if n = 0 then 0 else Suc k mod n\<rparr>)"
proof (cases "n = 0")
  case True
  then have "p\<lparr>tp_next := 0\<rparr> = p" using assms by (cases p) simp
  then show ?thesis using True assms by (simp add: getNextLoop_def)
next
  case False
  then have "n \<le> Suc (k mod n) \<longleftrightarrow> Suc (k mod n) = n" using mod_less_divisor [of n k] by linarith
  then show ?thesis using False assms by (simp add: getNextLoop_def Let_def mod_Suc)
qed

text \<open>A new connection behind the others.\<close>

lemma add_conn_ok:
  assumes "server_inv others s" and "ts_nextConnId s < 10 ^ 8" and "length (ts_hostport s) \<le> 21"
    and "n = tp_numThreads (ts_pool s)" and "k = length (ts_conns s)"
    and nm: "nm = ts_name s @ conn_suffix (ts_hostport s) (ts_nextConnId s)"
    and tc: "conn_reach others tc" "close_calls tc = 0" "\<not> tc_removed tc" "p \<longrightarrow> tc_state tc = kConnecting"
    and s': "s' = s\<lparr>ts_pool := (ts_pool s)\<lparr>tp_next := if n = 0 then 0 else Suc k mod n\<rparr>, ts_nextConnId := ts_nextConnId s + 1,
      ts_connections := (ts_connections s)(nm \<mapsto> k),
      ts_conns := ts_conns s @ [\<lparr>sc_name = nm, sc_loop = if n = 0 then 0 else Suc (k mod n), sc_tc = tc, sc_pending = p\<rparr>]\<rparr>"
  shows "server_inv others s'"
proof -
  have inv: "pool_inv s" "names_inv s" "map_inv s" "conns_inv others s" "removals_inv s"
    using assms(1) by (simp_all add: server_inv_def)
  have len: "length (ts_conns s') = Suc k" using assms(5) by (simp add: s')
  have last: "ts_conns s' ! k = \<lparr>sc_name = nm, sc_loop = if n = 0 then 0 else Suc (k mod n), sc_tc = tc, sc_pending = p\<rparr>"
    using assms(5) by (simp add: s')
  have old: "ts_conns s' ! i = ts_conns s ! i" if "i < k" for i using that assms(5) by (simp add: s' nth_append)
  have "pool_inv s'"
    using inv(1) len last old assms(4,5) by (auto simp: pool_inv_def s' Let_def less_Suc_eq)
  moreover have names: "names_inv s'"
    using inv(2) len last old assms(5) nm by (auto simp: names_inv_def s' less_Suc_eq)
  have fit: "names_fit s'" using assms(2,3) by (simp add: names_fit_def s')
  have "map_inv s'"
    unfolding map_inv_def
  proof (intro allI)
    fix nm' i
    have "ts_connections s' nm' = (if nm' = nm then Some k else ts_connections s nm')" by (simp add: s')
    moreover have "sc_name (ts_conns s' ! k) = nm" using last by simp
    moreover have "sc_name (ts_conns s' ! i) \<noteq> nm" if "i < k"
      using names_distinct [OF names fit, of i k] that len last by auto
    ultimately show "ts_connections s' nm' = Some i \<longleftrightarrow>
      i < length (ts_conns s') \<and> sc_name (ts_conns s' ! i) = nm' \<and> \<not> tc_removed (tc_at s' i)"
      using inv(3) len last old tc(3) assms(5) by (auto simp: map_inv_def less_Suc_eq)
  qed
  moreover have "conns_inv others s'"
    using inv(4) len last old tc assms(5) by (auto simp: conns_inv_def less_Suc_eq)
  moreover have "removals_inv s'"
    using inv(5) len last old tc(2) assms(5) by (auto simp: removals_inv_def less_Suc_eq s')
  ultimately show ?thesis using names by (simp add: server_inv_def)
qed

lemma establish_ok:
  assumes "conn_reach others tc" and "tc_state tc = kConnecting"
  shows "\<exists>tc'. connectEstablished acts tc = Inr tc' \<and> conn_reach others tc' \<and> close_calls tc' = close_calls tc \<and>
    tc_removed tc' = tc_removed tc"
proof -
  have can: "can_happen others (Establish acts) tc" using assms(2) by simp
  obtain tc' where "conn_do (Establish acts) tc = Inr tc'" using conn_do_ok [OF conn_reach_inv [OF assms(1)] can] by blast
  then show ?thesis using conn_step [OF assms(1) can] establish_life by auto
qed

lemma newConnection_ok:
  assumes "server_inv others s" and "ts_nextConnId s < 10 ^ 8" and "length (ts_hostport s) \<le> 21"
  shows "\<exists>s'. newConnection acts s = Inr s' \<and> server_inv others s' \<and> ts_hostport s' = ts_hostport s"
proof -
  let ?n = "tp_numThreads (ts_pool s)" and ?k = "length (ts_conns s)"
  let ?tc = "TcpConnection_new False (ts_writeCompleteCallback s) default_highWaterMark"
  have "tp_loops (ts_pool s) = map Suc [0..<?n]" "tp_next (ts_pool s) = (if ?n = 0 then 0 else ?k mod ?n)"
    using assms(1) by (simp_all add: server_inv_def pool_inv_def Let_def)
  note next_loop = getNextLoop_turn [OF this]
  have new: "conn_reach others ?tc" "close_calls ?tc = 0" "\<not> tc_removed ?tc" "tc_state ?tc = kConnecting"
    using conn_new by (simp_all add: close_calls_def TcpConnection_new_def)
  obtain tc1 where tc1: "connectEstablished acts ?tc = Inr tc1" "conn_reach others tc1" "close_calls tc1 = 0" "\<not> tc_removed tc1"
    using establish_ok [OF new(1,4), of acts] new(2,3) by auto
  note add = add_conn_ok [OF assms refl refl refl]
  show ?thesis
  proof (cases "?n = 0")
    case True
    then show ?thesis
      using next_loop tc1(1) add [OF tc1(2-4), of False, OF _ refl] by (simp add: newConnection_def Let_def)
  next
    case False
    then show ?thesis
      using next_loop add [OF new(1-3), of True, OF _ refl] new(4) by (simp add: newConnection_def Let_def)
  qed
qed


lemma RunEstablished_ok:
  assumes "server_inv others s" and "i < length (ts_conns s)" and "sc_pending (ts_conns s ! i)"
  shows "\<exists>s'. server_do (RunEstablished i acts) s = Inr s' \<and> server_inv others s' \<and> ts_hostport s' = ts_hostport s \<and>
    ts_nextConnId s' = ts_nextConnId s"
proof -
  have inv: "pool_inv s" "names_inv s" "map_inv s" "conns_inv others s" "removals_inv s"
    using assms(1) by (simp_all add: server_inv_def)
  have c: "conn_reach others (tc_at s i)" "close_calls (tc_at s i) \<le> 1" "tc_state (tc_at s i) = kConnecting"
    using inv(4) assms(2,3) by (auto simp: conns_inv_def)
  obtain tc where tc: "connectEstablished acts (tc_at s i) = Inr tc" "conn_reach others tc"
      "close_calls tc = close_calls (tc_at s i)" "tc_removed tc = tc_removed (tc_at s i)"
    using establish_ok [OF c(1,3)] by blast
  have "server_do (RunEstablished i acts) s = Inr (put_conn i tc False s)" using tc(1) by (simp add: put_conn_def)
  moreover have "server_inv others (put_conn i tc False s)"
    using inv tc c(2) put_conn_map [of tc s i False] put_conn_conns [of others s tc False i] put_conn_removals [of s tc i False]
    by (simp add: server_inv_def)
  ultimately show ?thesis by simp
qed

lemma ConnDo_ok:
  assumes "server_inv others s" and "names_fit s" and "i < length (ts_conns s)" and "own_op op"
    and can: "can_happen others op (tc_at s i)"
  shows "\<exists>s'. server_do (ConnDo i op) s = Inr s' \<and> server_inv others s' \<and> ts_hostport s' = ts_hostport s \<and>
    ts_nextConnId s' = ts_nextConnId s"
proof -
  let ?tc = "tc_at s i" and ?p = "sc_pending (ts_conns s ! i)"
  have inv: "pool_inv s" "names_inv s" "map_inv s" "conns_inv others s" "removals_inv s"
    using assms(1) by (simp_all add: server_inv_def)
  have c: "conn_reach others ?tc" "close_calls ?tc \<le> 1" "?p \<longrightarrow> tc_state ?tc = kConnecting"
    using inv(4) assms(3) by (auto simp: conns_inv_def)
  obtain tc where tc: "conn_do op ?tc = Inr tc" using connection_step_ok [OF c(1) can] by blast
  have reach: "conn_reach others tc" by (rule conn_step [OF c(1) can tc])
  have step: "live_step ?tc tc" by (rule live_conn_do [OF c(1) assms(4) tc can])
  let ?s = "put_conn i tc ?p s"
  have closes: "closes ?tc tc = close_calls tc - close_calls ?tc" by (simp add: closes_def close_calls_def)
  have on: "on_conn i (\<lambda>_. tc) s = ?s" by (simp add: on_conn_put)
  show ?thesis
  proof (cases "calm_step ?tc tc")
    case True
    then have st: "close_calls tc = close_calls ?tc" "tc_removed tc = tc_removed ?tc" "?p \<longrightarrow> tc_state tc = kConnecting"
      using c(3) by (simp_all add: calm_step_def)
    have "server_inv others ?s"
      using inv reach c(2) st put_conn_map [of tc s i ?p] put_conn_conns [of others s tc ?p i] put_conn_removals [of s tc i ?p]
      by (simp add: server_inv_def)
    then show ?thesis using tc st(1) closes on by simp
  next
    case False
    then have cl: "tc_removed tc = tc_removed ?tc" "close_calls tc = Suc (close_calls ?tc)" "is_open ?tc"
      using step by (simp_all add: live_step_def)
    have life: "life ?tc" by (rule tc_conn_inv [OF c(1)])
    have zero: "close_calls ?tc = 0" "\<not> tc_removed ?tc"
      using life cl(3) close_calls_pos [of ?tc] by (auto simp: life_def is_open_def)
    have "\<not> ?p" using c(3) cl(3) by (auto simp: is_open_def)
    then have s: "pool_inv ?s" "names_inv ?s" "map_inv ?s" "conns_inv others ?s" "names_fit ?s"
      using inv reach cl(1,2) zero(1) assms(2) put_conn_map [of tc s i ?p] put_conn_conns [of others s tc ?p i] by simp_all
    have run: "server_do (ConnDo i op) s = removeConnection i ?s"
      using tc closes cl(2) on by (cases "removeConnection i ?s") simp_all
    have notin: "i \<notin> set (ts_removals s)" using inv(5) zero(1) by (simp add: removals_inv_def)
    show ?thesis
    proof (cases "sc_loop (ts_conns s ! i) = 0")
      case True
      obtain s' where s': "removeConnectionInLoop i ?s = Inr s'" "pool_inv s'" "names_inv s'" "map_inv s'" "conns_inv others s'"
        "ts_removals s' = ts_removals s" "ts_nextConnId s' = ts_nextConnId s" "ts_hostport s' = ts_hostport s"
        "length (ts_conns s') = length (ts_conns s)"
        "\<forall>j < length (ts_conns s). close_calls (tc_at s' j) = close_calls (tc_at ?s j) \<and>
           (tc_removed (tc_at s' j) \<longleftrightarrow> j = i \<or> tc_removed (tc_at ?s j))"
        using removeInLoop_ok [OF s, of i] assms(3) cl(1,2) zero by auto
      have "j \<in> set (ts_removals s) \<longleftrightarrow>
          j < length (ts_conns s) \<and> 0 < close_calls (tc_at s' j) \<and> \<not> tc_removed (tc_at s' j)" for j
        using inv(5) notin s'(10) by (cases "j = i"; simp add: removals_inv_def; cases "j < length (ts_conns s)"; simp)
      then have "removals_inv s'" using inv(5) s'(6,9) by (simp add: removals_inv_def)
      then show ?thesis using run True assms(3) s'(1-8) by (simp add: removeConnection_def server_inv_def)
    next
      case False
      let ?s' = "?s\<lparr>ts_removals := ts_removals s @ [i]\<rparr>"
      have "j \<in> set (ts_removals s @ [i]) \<longleftrightarrow>
          j < length (ts_conns s) \<and> 0 < close_calls (tc_at ?s j) \<and> \<not> tc_removed (tc_at ?s j)" for j
        using inv(5) assms(3) cl(1,2) zero by (cases "j = i"; simp add: removals_inv_def; cases "j < length (ts_conns s)"; simp)
      then have "removals_inv ?s'" using inv(5) notin by (simp add: removals_inv_def)
      moreover have "pool_inv ?s' \<longleftrightarrow> pool_inv ?s" "names_inv ?s' \<longleftrightarrow> names_inv ?s" "map_inv ?s' \<longleftrightarrow> map_inv ?s"
        "conns_inv others ?s' \<longleftrightarrow> conns_inv others ?s"
        by (simp_all add: pool_inv_def names_inv_def map_inv_def conns_inv_def)
      ultimately show ?thesis using run False assms(3) s by (simp add: removeConnection_def server_inv_def)
    qed
  qed
qed

lemma RunRemoval_ok:
  assumes "server_inv others s" and "names_fit s"
  shows "\<exists>s'. server_do RunRemoval s = Inr s' \<and> server_inv others s' \<and> ts_hostport s' = ts_hostport s \<and>
    ts_nextConnId s' = ts_nextConnId s"
proof (cases "ts_removals s")
  case Nil
  then show ?thesis using assms by simp
next
  case (Cons i js)
  let ?s = "s\<lparr>ts_removals := js\<rparr>"
  have inv: "pool_inv s" "names_inv s" "map_inv s" "conns_inv others s" "removals_inv s"
    using assms(1) by (simp_all add: server_inv_def)
  have i: "i < length (ts_conns s)" "0 < close_calls (tc_at s i)" "\<not> tc_removed (tc_at s i)" "i \<notin> set js" "distinct js"
    using inv(5) Cons by (auto simp: removals_inv_def)
  have s: "pool_inv ?s" "names_inv ?s" "map_inv ?s" "conns_inv others ?s" "names_fit ?s"
    using inv assms(2) by (simp_all add: pool_inv_def names_inv_def map_inv_def conns_inv_def names_fit_def)
  obtain s' where s': "removeConnectionInLoop i ?s = Inr s'" "pool_inv s'" "names_inv s'" "map_inv s'" "conns_inv others s'"
      "ts_removals s' = js" "ts_nextConnId s' = ts_nextConnId s" "ts_hostport s' = ts_hostport s"
      "length (ts_conns s') = length (ts_conns s)"
      "\<forall>j < length (ts_conns s). close_calls (tc_at s' j) = close_calls (tc_at s j) \<and>
           (tc_removed (tc_at s' j) \<longleftrightarrow> j = i \<or> tc_removed (tc_at s j))"
    using removeInLoop_ok [OF s, of i] i by auto
  have "j \<in> set js \<longleftrightarrow> j < length (ts_conns s) \<and> 0 < close_calls (tc_at s j) \<and> \<not> tc_removed (tc_at s j) \<and> j \<noteq> i" for j
    using inv(5) Cons i(4) by (auto simp: removals_inv_def)
  then have "removals_inv s'" using s'(6,9,10) i(5) by (auto simp: removals_inv_def)
  then show ?thesis using Cons s'(1-8) by (simp add: server_inv_def)
qed

text \<open>Every step the threads can take.\<close>

lemma server_do_ok:
  assumes "server_inv others s" and "names_fit s" and "server_can others op s"
    and "\<forall>acts. op = Accepted acts \<longrightarrow> ts_nextConnId s < 10 ^ 8"
  shows "\<exists>s'. server_do op s = Inr s' \<and> server_inv others s'"
proof (cases op)
  case (Accepted acts)
  then show ?thesis
    using newConnection_ok [OF assms(1), of acts] assms(2,4) by (auto simp: names_fit_def)
next
  case (RunEstablished i acts)
  then show ?thesis using RunEstablished_ok [OF assms(1), of i acts] assms(3) by fastforce
next
  case (ConnDo i op')
  then show ?thesis using ConnDo_ok [OF assms(1,2), of i op'] assms(3) by (simp del: server_do.simps) blast
next
  case RunRemoval
  then show ?thesis using RunRemoval_ok [OF assms(1,2)] by blast
qed


lemma removeInLoop_frame:
  "removeConnectionInLoop i s = Inr s' \<Longrightarrow> ts_hostport s' = ts_hostport s \<and> ts_nextConnId s' = ts_nextConnId s"
  by (auto simp: removeConnectionInLoop_def assert_res_Inr on_conn_def Let_def)

lemma remove_frame:
  "removeConnection i s = Inr s' \<Longrightarrow> ts_hostport s' = ts_hostport s \<and> ts_nextConnId s' = ts_nextConnId s"
  by (auto simp: removeConnection_def removeInLoop_frame split: if_splits)

lemma removes_frame:
  "times_res n (removeConnection i) s = Inr s' \<Longrightarrow> ts_hostport s' = ts_hostport s \<and> ts_nextConnId s' = ts_nextConnId s"
  by (induction n arbitrary: s) (auto simp: bind_res_Inr dest: remove_frame)

lemma server_do_frame:
  assumes "server_do op s = Inr s'"
  shows "ts_hostport s' = ts_hostport s \<and> ts_nextConnId s \<le> ts_nextConnId s' \<and>
    (\<forall>acts. op = Accepted acts \<longrightarrow> ts_nextConnId s' = Suc (ts_nextConnId s))"
proof (cases op)
  case (Accepted acts)
  then show ?thesis using assms by (auto simp: newConnection_def bind_res_Inr Let_def split: if_splits)
next
  case (ConnDo i op)
  then show ?thesis using assms removes_frame by (fastforce simp: bind_res_Inr Let_def on_conn_def)
next
  case RunRemoval
  then show ?thesis using assms removeInLoop_frame by (fastforce split: list.splits)
qed (use assms in \<open>auto simp: bind_res_Inr\<close>)

lemma server_start_inv:
  assumes "ts_start (setThreadNum n (TcpServer_new hostport nm wc)) = Inr s"
  shows "server_inv others s"
proof -
  have "s = (TcpServer_new hostport nm wc)\<lparr>ts_started := True, ts_listenning := True,
      ts_pool := ThreadPool_new\<lparr>tp_numThreads := n, tp_started := True, tp_loops := map Suc [0..<n]\<rparr>\<rparr>"
    using assms by (simp add: ts_start_def setThreadNum_def TcpServer_new_def tp_start_def ThreadPool_new_def)
  then show ?thesis
    by (simp add: server_inv_def pool_inv_def names_inv_def map_inv_def conns_inv_def removals_inv_def
        TcpServer_new_def ThreadPool_new_def)
qed

lemma server_reach_inv: "server_reach others s \<Longrightarrow> names_fit s \<Longrightarrow> server_inv others s"
proof (induction rule: server_reach.induct)
  case (server_started n hostport nm wc s)
  show ?case by (rule server_start_inv [OF server_started.hyps])
next
  case (server_step s op s')
  note frame = server_do_frame [OF server_step.hyps(3)]
  have fit: "names_fit s" "\<forall>acts. op = Accepted acts \<longrightarrow> ts_nextConnId s < 10 ^ 8"
    using server_step.prems frame by (auto simp: names_fit_def)
  then show ?case
    using server_do_ok [OF server_step.IH [OF fit(1)] fit(1) server_step.hyps(2) fit(2)] server_step.hyps(3) by simp
qed

subsection \<open>Properties\<close>


text \<open>A server with two loops and one connection in the first of them.\<close>

definition demo_server :: tcpserver where
  "demo_server = (TcpServer_new [49] [115] False)\<lparr>ts_started := True, ts_listenning := True, ts_nextConnId := 2,
     ts_pool := \<lparr>tp_started = True, tp_numThreads = 2, tp_next = 1, tp_loops = [1, 2]\<rparr>,
     ts_connections := [[115, 58, 49, 35, 49] \<mapsto> 0],
     ts_conns := [\<lparr>sc_name = [115, 58, 49, 35, 49], sc_loop = 1,
       sc_tc = TcpConnection_new False False default_highWaterMark, sc_pending = True\<rparr>]\<rparr>"

lemma demo_server_reach: "server_reach others demo_server"
proof -
  let ?s = "(TcpServer_new [49] [115] False)\<lparr>ts_started := True, ts_listenning := True,
      ts_pool := \<lparr>tp_started = True, tp_numThreads = 2, tp_next = 0, tp_loops = [1, 2]\<rparr>\<rparr>"
  have "ts_start (setThreadNum 2 (TcpServer_new [49] [115] False)) = Inr ?s"
    by (simp add: ts_start_def setThreadNum_def TcpServer_new_def tp_start_def ThreadPool_new_def upt_rec)
  then have "server_reach others ?s" by (rule server_started)
  moreover have "server_do (Accepted []) ?s = Inr demo_server"
    by (simp add: newConnection_def getNextLoop_def TcpServer_new_def demo_server_def conn_suffix_def dec_digits.simps
        Let_def)
  ultimately show ?thesis using server_step [of others ?s "Accepted []" demo_server] by simp
qed


text \<open>
  \<open>connections_\<close> holds exactly the connections that have not been removed, each under its own name,
  and a connection whose close callback was called is either removed or waits in the queue of the base
  loop.  Every connection is used as theory \<open>TcpConnection\<close> assumes, so what is shown there holds for it.
\<close>

theorem server_connections:
  assumes "server_reach others s" and "length (ts_hostport s) \<le> 21" and "ts_nextConnId s \<le> 10 ^ 8"
    and "i < length (ts_conns s)"
  shows "conn_reach others (tc_at s i) \<and>
    ts_connections s (sc_name (ts_conns s ! i)) = (if tc_removed (tc_at s i) then None else Some i) \<and>
    (CloseCb \<in> set (tc_called (tc_at s i)) \<longleftrightarrow> tc_removed (tc_at s i) \<or> i \<in> set (ts_removals s))"
proof -
  have fit: "names_fit s" using assms(2,3) by (simp add: names_fit_def)
  have inv: "names_inv s" "map_inv s" "conns_inv others s" "removals_inv s"
    using server_reach_inv [OF assms(1) fit] by (simp_all add: server_inv_def)
  let ?nm = "sc_name (ts_conns s ! i)"
  have reach: "conn_reach others (tc_at s i)" using inv(3) assms(4) by (simp add: conns_inv_def)
  have "ts_connections s ?nm = None" if "tc_removed (tc_at s i)"
  proof (cases "ts_connections s ?nm")
    case (Some j)
    then have "j < length (ts_conns s)" "sc_name (ts_conns s ! j) = ?nm" "\<not> tc_removed (tc_at s j)"
      using inv(2) by (auto simp: map_inv_def)
    then show ?thesis using names_distinct [OF inv(1) fit, of j i] assms(4) that by simp
  qed
  moreover have "ts_connections s ?nm = Some i" if "\<not> tc_removed (tc_at s i)"
    using inv(2) assms(4) that by (simp add: map_inv_def)
  moreover have "0 < close_calls (tc_at s i) \<longleftrightarrow> tc_removed (tc_at s i) \<or> i \<in> set (ts_removals s)"
    using inv(4) assms(4) tc_conn_inv [OF reach] by (auto simp: removals_inv_def life_def close_calls_pos)
  ultimately show ?thesis using reach by (simp add: close_calls_pos)
qed

theorem server_connections_witness:
  "ts_connections demo_server [115, 58, 49, 35, 49] = Some 0"
  using server_connections [OF demo_server_reach [of True], of 0]
  by (simp add: demo_server_def TcpServer_new_def TcpConnection_new_def)

text \<open>
  The loops of the pool take turns: with \<open>n\<close> threads the connections go to the loops 1, 2, up to
  \<open>n\<close> and again from 1; without threads all of them stay in the base loop.
\<close>

theorem loops_take_turns:
  assumes "server_reach others s" and "length (ts_hostport s) \<le> 21" and "ts_nextConnId s \<le> 10 ^ 8"
    and "i < length (ts_conns s)"
  shows "sc_loop (ts_conns s ! i) =
    (if tp_numThreads (ts_pool s) = 0 then 0 else Suc (i mod tp_numThreads (ts_pool s)))"
proof -
  have "pool_inv s" using server_reach_inv [OF assms(1)] assms(2,3) by (simp add: names_fit_def server_inv_def)
  then show ?thesis using assms(4) by (simp add: pool_inv_def Let_def)
qed

theorem loops_take_turns_witness: "sc_loop (ts_conns demo_server ! 0) = 1"
  using loops_take_turns [OF demo_server_reach [of True], of 0] by (simp add: demo_server_def TcpServer_new_def)

definition ac_inv :: "acceptor \<Rightarrow> bool" where
  "ac_inv a \<longleftrightarrow> finite (k_open (ac_kern a)) \<and> ac_idleFd a \<in> k_open (ac_kern a) \<and> card (k_open (ac_kern a)) \<le> k_limit (ac_kern a)"

text \<open>
  The acceptor never spins: whenever a connection waits, one turn of \<open>handleRead\<close> takes it, also
  when the process has no descriptor left; then the spare one is given up for it, the connection is
  closed at once, and the spare descriptor is there again.
\<close>

theorem acceptor_progress:
  assumes "ac_inv a" and "0 < k_backlog (ac_kern a)"
    and "fd \<notin> k_open (ac_kern a)" and "fd2 \<notin> k_open (ac_kern a)" and "fd3 \<notin> k_open (ac_kern a)"
  shows "ac_inv (ac_handleRead fd fd2 fd3 a) \<and>
    k_backlog (ac_kern (ac_handleRead fd fd2 fd3 a)) = k_backlog (ac_kern a) - 1 \<and>
    ac_handed (ac_handleRead fd fd2 fd3 a) =
      ac_handed a @ (if card (k_open (ac_kern a)) < k_limit (ac_kern a) \<and> ac_callback a then [fd] else [])"
proof (cases "card (k_open (ac_kern a)) < k_limit (ac_kern a)")
  case True
  then show ?thesis
    using assms by (auto simp: ac_handleRead_def k_accept_def k_new_def k_close_def ac_inv_def)
next
  case False
  let ?k = "ac_kern a"
  have inv: "finite (k_open ?k)" "ac_idleFd a \<in> k_open ?k" "card (k_open ?k) = k_limit ?k"
    using assms(1) False by (auto simp: ac_inv_def)
  have pos: "0 < card (k_open ?k)" using inv(1,2) by (auto simp: card_gt_0_iff)
  have card: "card (k_open ?k - {ac_idleFd a}) < k_limit ?k" using inv pos by simp
  have again: "insert fd2 (k_open ?k - {ac_idleFd a}) - {fd2} = k_open ?k - {ac_idleFd a}" using assms(4) by auto
  have "card (insert fd3 (k_open ?k - {ac_idleFd a})) = k_limit ?k" using inv pos assms(5) by simp
  then show ?thesis
    using assms(2) False inv card again by (simp add: ac_handleRead_def k_accept_def k_new_def k_close_def ac_inv_def Let_def)
qed

theorem acceptor_progress_witness:
  "k_backlog (ac_kern (ac_handleRead 9 3 3 \<lparr>ac_listenning = True, ac_events = 3, ac_idleFd = 4,
     ac_kern = \<lparr>k_limit = 3, k_open = {1, 2, 4}, k_backlog = 5\<rparr>, ac_callback = True, ac_handed = []\<rparr>)) = 4"
  using acceptor_progress [of "\<lparr>ac_listenning = True, ac_events = 3, ac_idleFd = 4,
     ac_kern = \<lparr>k_limit = 3, k_open = {1, 2, 4}, k_backlog = 5\<rparr>, ac_callback = True, ac_handed = []\<rparr>" 9 3 3]
  by (simp add: ac_inv_def)

text \<open>
  Outside the bound: with an address of 21 characters, ten connections in a row get the same name from
  number \<open>10^8\<close> on; and of two open connections with one name only one can be removed, the removal of
  the other one fails the assertion.
\<close>

lemma names_collide:
  assumes "length hostport = 21" and "10 ^ 8 \<le> m" and "m < 10 ^ 9" and "m div 10 = n div 10"
  shows "conn_suffix hostport m = conn_suffix hostport n"
proof -
  have len: "length (dec_digits (m div 10)) \<ge> 8"
  proof (rule ccontr)
    assume "\<not> ?thesis"
    then have "(10 :: nat) ^ length (dec_digits (m div 10)) \<le> 10 ^ 7" by (intro power_increasing) simp_all
    then have "m div 10 < 10 ^ 7" using dec_digits_bound [of "m div 10"] by linarith
    then show False using assms(2) by simp
  qed
  have form: "dec_digits k = dec_digits (k div 10) @ [of_nat (48 + k mod 10)]" if "10 \<le> k" for k
    using that by (subst dec_digits.simps) simp
  have "10 \<le> m" "n div 10 \<noteq> 0" using assms(2,4) by simp_all
  then have "dec_digits m = dec_digits (m div 10) @ [of_nat (48 + m mod 10)]"
    "dec_digits n = dec_digits (m div 10) @ [of_nat (48 + n mod 10)]"
    using form [of m] form [of n] assms(4) by (simp_all add: div_eq_0_iff)
  then show ?thesis using len assms(1) by (simp only: conn_suffix_def) simp
qed

lemma same_name_removals:
  assumes "sc_name (ts_conns s ! i) = sc_name (ts_conns s ! j)" and "i < length (ts_conns s)" "j < length (ts_conns s)"
    and "removeConnectionInLoop i s = Inr s'"
  shows "removeConnectionInLoop j s' = Inl Abort"
proof -
  have s': "s' = put_conn i (queue_functor ConnectDestroyed ((tc_at s i)\<lparr>tc_removed := True\<rparr>)) (sc_pending (ts_conns s ! i))
    (s\<lparr>ts_connections := (ts_connections s)(sc_name (ts_conns s ! i) := None)\<rparr>)"
    using assms(4) by (auto simp: removeConnectionInLoop_def assert_res_Inr on_conn_put Let_def)
  show ?thesis using assms(1,3) by (simp add: removeConnectionInLoop_def s' Let_def)
qed

text \<open>\<open>~TcpServer\<close> with a connection of the base loop that is half closed: its channel is still on.\<close>

lemma dtor_half_closed:
  assumes "tc_state tc = kDisconnecting" and "tc_events tc \<noteq> 0" and "ts_connections s nm = Some 0"
    and "ts_conns s = [\<lparr>sc_name = nm, sc_loop = 0, sc_tc = tc, sc_pending = p\<rparr>]"
  shows "TcpServer_dtor acts s = Inl Abort"
proof -
  have "0 \<in> ran (ts_connections s)" using assms(3) by (auto simp: ran_def)
  then show ?thesis
    using assms by (simp add: TcpServer_dtor_def connectDestroyed_def channel_remove_def isNoneEvent_def kNoneEvent_def)
qed

end
