(* ===== verification/Connector.thy ===== *)
theory Connector imports Channel "HOL-Library.Multiset" begin

text \<open>
  \<open>muduo/net/Connector\<close>: connecting with retries, in the loop's thread.  What \<open>connect\<close> and the
  socket's error say are parameters.  The file descriptors are followed: \<open>cn_created\<close>, \<open>cn_closed\<close>
  and \<open>cn_given\<close> are the sockets created, closed, and handed to the new-connection callback.
\<close>

subsection \<open>State\<close>

datatype cn_state_e = CnDisconnected | CnConnecting | CnConnected

datatype cn_functor = StartInLoop | StopInLoop | ResetChannel

text \<open>\<open>cn_channel\<close>: the descriptor of the channel, and whether the poller watches it.\<close>

record connector =
  cn_connect :: bool
  cn_state :: cn_state_e
  cn_channel :: "(int \<times> bool) option"
  cn_retryDelayMs :: int
  cn_timers :: "int list"
  cn_functors :: "cn_functor list"
  cn_created :: "int multiset"
  cn_closed :: "int multiset"
  cn_given :: "int multiset"

definition kMaxRetryDelayMs :: int where "kMaxRetryDelayMs = 30 * 1000"
definition kInitRetryDelayMs :: int where "kInitRetryDelayMs = 500"

definition Connector_new :: connector where
  "Connector_new = \<lparr>cn_connect = False, cn_state = CnDisconnected, cn_channel = None,
     cn_retryDelayMs = kInitRetryDelayMs, cn_timers = [], cn_functors = [], cn_created = {#}, cn_closed = {#},
     cn_given = {#}\<rparr>"

datatype connect_errno = Success | EINPROGRESS | EINTR | EISCONN | EAGAIN | EADDRINUSE | EADDRNOTAVAIL
  | ECONNREFUSED | ENETUNREACH | EACCES | EPERM | EAFNOSUPPORT | EALREADY | EBADF | EFAULT | ENOTSOCK
  | OtherConnectErrno

subsection \<open>Operations\<close>

definition sock_close :: "int \<Rightarrow> connector \<Rightarrow> connector" where
  "sock_close fd s = s\<lparr>cn_closed := add_mset fd (cn_closed s)\<rparr>"

text \<open>The timer runs \<open>startInLoop\<close> after \<open>retryDelayMs_\<close> milliseconds.\<close>

definition retry :: "int \<Rightarrow> connector \<Rightarrow> connector" where
  "retry sockfd s =
     (let s = sock_close sockfd s;
          s = s\<lparr>cn_state := CnDisconnected\<rparr>
      in if cn_connect s
         then s\<lparr>cn_timers := cn_timers s @ [cn_retryDelayMs s],
                cn_retryDelayMs := min (cn_retryDelayMs s * 2) kMaxRetryDelayMs\<rparr>
         else s)"

definition connecting :: "int \<Rightarrow> connector \<Rightarrow> connector res" where
  "connecting sockfd s =
     (let s = s\<lparr>cn_state := CnConnecting\<rparr> in
      assert_res (cn_channel s = None) (Inr (s\<lparr>cn_channel := Some (sockfd, True)\<rparr>)))"

text \<open>\<open>sockfd\<close> is the new socket, \<open>errno\<close> what \<open>connect\<close> left.\<close>

definition connect_socket :: "int \<times> connect_errno \<Rightarrow> connector \<Rightarrow> connector res" where
  "connect_socket a s =
     (case a of (sockfd, savedErrno) \<Rightarrow>
      let s = s\<lparr>cn_created := add_mset sockfd (cn_created s)\<rparr> in
      if savedErrno \<in> {Success, EINPROGRESS, EINTR, EISCONN} then connecting sockfd s
      else if savedErrno \<in> {EAGAIN, EADDRINUSE, EADDRNOTAVAIL, ECONNREFUSED, ENETUNREACH} then Inr (retry sockfd s)
      else Inr (sock_close sockfd s))"

definition startInLoop :: "int \<times> connect_errno \<Rightarrow> connector \<Rightarrow> connector res" where
  "startInLoop a s =
     assert_res (cn_state s = CnDisconnected) (if cn_connect s then connect_socket a s else Inr s)"

definition removeAndResetChannel :: "connector \<Rightarrow> (int \<times> connector) res" where
  "removeAndResetChannel s =
     (case cn_channel s of
        None \<Rightarrow> Inl OutOfBounds
      | Some (sockfd, watched) \<Rightarrow>
          Inr (sockfd, s\<lparr>cn_channel := Some (sockfd, False), cn_functors := cn_functors s @ [ResetChannel]\<rparr>))"

definition resetChannel :: "connector \<Rightarrow> connector" where
  "resetChannel s = s\<lparr>cn_channel := None\<rparr>"

definition stopInLoop :: "connector \<Rightarrow> connector res" where
  "stopInLoop s =
     (if cn_state s = CnConnecting then
        let s = s\<lparr>cn_state := CnDisconnected\<rparr> in
        bind_res (removeAndResetChannel s) (\<lambda>(sockfd, s). Inr (retry sockfd s))
      else Inr s)"

definition cn_start :: "bool \<Rightarrow> int \<times> connect_errno \<Rightarrow> connector \<Rightarrow> connector res" where
  "cn_start isInLoopThread a s =
     (let s = s\<lparr>cn_connect := True\<rparr> in
      if isInLoopThread then startInLoop a s else Inr (s\<lparr>cn_functors := cn_functors s @ [StartInLoop]\<rparr>))"

definition cn_stop :: "bool \<Rightarrow> connector \<Rightarrow> connector res" where
  "cn_stop isInLoopThread s =
     (let s = s\<lparr>cn_connect := False\<rparr> in
      if isInLoopThread then stopInLoop s else Inr (s\<lparr>cn_functors := cn_functors s @ [StopInLoop]\<rparr>))"

definition cn_restart :: "int \<times> connect_errno \<Rightarrow> connector \<Rightarrow> connector res" where
  "cn_restart a s =
     startInLoop a (s\<lparr>cn_state := CnDisconnected, cn_retryDelayMs := kInitRetryDelayMs, cn_connect := True\<rparr>)"

text \<open>\<open>err\<close>: the socket has an error; \<open>self\<close>: it is connected to itself.\<close>

definition cn_handleWrite :: "bool \<Rightarrow> bool \<Rightarrow> connector \<Rightarrow> connector res" where
  "cn_handleWrite err self s =
     (if cn_state s = CnConnecting then
        bind_res (removeAndResetChannel s) (\<lambda>(sockfd, s).
        if err then Inr (retry sockfd s)
        else if self then Inr (retry sockfd s)
        else let s = s\<lparr>cn_state := CnConnected\<rparr> in
          if cn_connect s then Inr (s\<lparr>cn_given := add_mset sockfd (cn_given s)\<rparr>)
          else Inr (sock_close sockfd s))
      else assert_res (cn_state s = CnDisconnected) (Inr s))"

definition cn_handleError :: "connector \<Rightarrow> connector res" where
  "cn_handleError s =
     assert_res (cn_state s = CnConnecting)
     (bind_res (removeAndResetChannel s) (\<lambda>(sockfd, s). Inr (retry sockfd s)))"

definition cn_callbacks :: "bool \<Rightarrow> bool \<Rightarrow> connector callbacks" where
  "cn_callbacks err self = \<lparr>closeCallback = None, errorCallback = Some cn_handleError, readCallback = None,
     writeCallback = Some (cn_handleWrite err self)\<rparr>"

subsection \<open>What happens to a connector\<close>

datatype cn_op =
    Start bool "int \<times> connect_errno"
  | Stop bool
  | Restart "int \<times> connect_errno"
  | CnEvent events bool bool
  | CnTimer "int \<times> connect_errno"
  | CnFunctor "int \<times> connect_errno"

fun cn_do :: "cn_op \<Rightarrow> connector \<Rightarrow> connector res" where
  "cn_do (Start own a) s = cn_start own a s"
| "cn_do (Stop own) s = cn_stop own s"
| "cn_do (Restart a) s = cn_restart a s"
| "cn_do (CnEvent r err self) s = handleEvent False False (cn_callbacks err self) r s"
| "cn_do (CnTimer a) s = (case cn_timers s of [] \<Rightarrow> Inr s | t # ts \<Rightarrow> startInLoop a (s\<lparr>cn_timers := ts\<rparr>))"
| "cn_do (CnFunctor a) s =
     (case cn_functors s of
        [] \<Rightarrow> Inr s
      | f # fs \<Rightarrow> (let s = s\<lparr>cn_functors := fs\<rparr> in
          case f of StartInLoop \<Rightarrow> startInLoop a s | StopInLoop \<Rightarrow> stopInLoop s | ResetChannel \<Rightarrow> Inr (resetChannel s)))"

text \<open>
  The client's side: \<open>start\<close> and \<open>restart\<close> only when nothing of an earlier attempt is left - no channel,
  no timer, no queued start - and not while connecting.  A poller reports events of the watched
  channel.  A timer fires in a turn of the loop after the functors of the turn before, so a channel
  that waits to be reset can only be one that \<open>stop\<close> has left.
\<close>

fun cn_can :: "cn_op \<Rightarrow> connector \<Rightarrow> bool" where
  "cn_can (Start own a) s = (cn_state s = CnDisconnected \<and> cn_channel s = None \<and> cn_timers s = [] \<and>
     StartInLoop \<notin> set (cn_functors s))"
| "cn_can (Stop own) s = True"
| "cn_can (Restart a) s = (cn_state s \<noteq> CnConnecting \<and> cn_channel s = None \<and> cn_timers s = [] \<and>
     StartInLoop \<notin> set (cn_functors s))"
| "cn_can (CnEvent r err self) s = (\<exists>fd. cn_channel s = Some (fd, True))"
| "cn_can (CnTimer a) s = (cn_timers s \<noteq> [] \<and> (cn_channel s = None \<or> \<not> cn_connect s))"
| "cn_can (CnFunctor a) s = True"

inductive cn_reach :: "connector \<Rightarrow> bool" where
  cn_new: "cn_reach Connector_new"
| cn_step: "cn_reach s \<Longrightarrow> cn_can op s \<Longrightarrow> cn_do op s = Inr s' \<Longrightarrow> cn_reach s'"

subsection \<open>The invariant\<close>

text \<open>The starts that are still to come.\<close>

definition starts :: "connector \<Rightarrow> nat" where
  "starts s = length (cn_timers s) + count_list (cn_functors s) StartInLoop"

text \<open>The sockets the connector still holds.\<close>

definition held :: "connector \<Rightarrow> int multiset" where
  "held s = (case cn_channel s of Some (fd, True) \<Rightarrow> {#fd#} | _ \<Rightarrow> {#})"

definition cn_inv :: "connector \<Rightarrow> bool" where
  "cn_inv s \<longleftrightarrow> starts s \<le> 1 \<and> (starts s = 1 \<longrightarrow> cn_state s = CnDisconnected) \<and>
     (cn_state s = CnConnecting \<longleftrightarrow> (\<exists>fd. cn_channel s = Some (fd, True))) \<and>
     (StartInLoop \<in> set (cn_functors s) \<longrightarrow> cn_channel s = None) \<and>
     count_list (cn_functors s) ResetChannel = (if \<exists>fd. cn_channel s = Some (fd, False) then 1 else 0) \<and>
     cn_created s = cn_closed s + cn_given s + held s \<and>
     kInitRetryDelayMs \<le> cn_retryDelayMs s \<and> cn_retryDelayMs s \<le> kMaxRetryDelayMs \<and>
     (\<forall>t \<in> set (cn_timers s). kInitRetryDelayMs \<le> t \<and> t \<le> kMaxRetryDelayMs)"


lemmas cn_simps = cn_inv_def starts_def held_def Let_def count_list_append

lemma delay_bounds:
  "kInitRetryDelayMs \<le> d \<Longrightarrow> d \<le> kMaxRetryDelayMs \<Longrightarrow>
     kInitRetryDelayMs \<le> min (d * 2) kMaxRetryDelayMs \<and> min (d * 2) kMaxRetryDelayMs \<le> kMaxRetryDelayMs"
  by (auto simp: kInitRetryDelayMs_def kMaxRetryDelayMs_def)

text \<open>Closing the socket and trying again later.\<close>

lemma retry_inv:
  assumes "starts s = 0" and "\<nexists>fd. cn_channel s = Some (fd, True)"
    and "count_list (cn_functors s) ResetChannel = (if \<exists>fd. cn_channel s = Some (fd, False) then 1 else 0)"
    and "cn_created s = add_mset fd (cn_closed s + cn_given s)"
    and "kInitRetryDelayMs \<le> cn_retryDelayMs s" "cn_retryDelayMs s \<le> kMaxRetryDelayMs"
  shows "cn_inv (retry fd s)"
proof -
  have h: "held s = {#}" using assms(2) by (auto simp: held_def split: option.split bool.split)
  have f: "StartInLoop \<notin> set (cn_functors s)" "cn_timers s = []"
    using assms(1) by (auto simp: starts_def count_list_0_iff)
  show ?thesis
    using assms h f delay_bounds [OF assms(5,6)]
    by (auto simp: cn_simps retry_def sock_close_def kInitRetryDelayMs_def kMaxRetryDelayMs_def)
qed

lemma startInLoop_inv:
  assumes "cn_inv s" and "cn_state s = CnDisconnected" and "starts s = 0" and "cn_channel s = None \<or> \<not> cn_connect s"
  shows "\<exists>s'. startInLoop a s = Inr s' \<and> cn_inv s'"
proof (cases "cn_connect s")
  case False
  then show ?thesis using assms(1,2) by (simp add: startInLoop_def)
next
  case True
  then have none: "cn_channel s = None" using assms(4) by simp
  obtain fd e where a: "a = (fd, e)" by fastforce
  let ?s = "s\<lparr>cn_created := add_mset fd (cn_created s)\<rparr>"
  have bal: "cn_created ?s = add_mset fd (cn_closed ?s + cn_given ?s)" using assms(1) none by (simp add: cn_simps)
  consider "e \<in> {Success, EINPROGRESS, EINTR, EISCONN}"
    | "e \<notin> {Success, EINPROGRESS, EINTR, EISCONN}" "e \<in> {EAGAIN, EADDRINUSE, EADDRNOTAVAIL, ECONNREFUSED, ENETUNREACH}"
    | "e \<notin> {Success, EINPROGRESS, EINTR, EISCONN}" "e \<notin> {EAGAIN, EADDRINUSE, EADDRNOTAVAIL, ECONNREFUSED, ENETUNREACH}"
    by blast
  then show ?thesis
  proof cases
    case 1
    have "cn_inv (?s\<lparr>cn_state := CnConnecting, cn_channel := Some (fd, True)\<rparr>)"
      using assms(1,3) none bal by (auto simp: cn_simps count_list_0_iff)
    then show ?thesis using 1 True a none assms(2) by (auto simp: startInLoop_def connect_socket_def connecting_def)
  next
    case 2
    have "cn_inv (retry fd ?s)"
      by (rule retry_inv) (use assms(1,3) none bal in \<open>auto simp: cn_simps\<close>)
    then show ?thesis using 2 True a assms(2) by (simp add: startInLoop_def connect_socket_def)
  next
    case 3
    have "cn_inv (sock_close fd ?s)"
      using assms(1) none bal by (auto simp: cn_simps sock_close_def)
    then show ?thesis using 3 True a assms(2) by (simp add: startInLoop_def connect_socket_def)
  qed
qed

text \<open>Leaving the connecting state.\<close>

lemma leave_connecting:
  assumes "cn_inv s" and "cn_channel s = Some (fd, True)"
  defines "s1 \<equiv> s\<lparr>cn_channel := Some (fd, False), cn_functors := cn_functors s @ [ResetChannel]\<rparr>"
  shows "removeAndResetChannel s = Inr (fd, s1)" "cn_inv (retry fd s1)" "cn_inv (retry fd (s1\<lparr>cn_state := x\<rparr>))"
    "cn_inv (s1\<lparr>cn_state := CnConnected, cn_given := add_mset fd (cn_given s1)\<rparr>)"
    "cn_inv (sock_close fd (s1\<lparr>cn_state := CnConnected\<rparr>))"
proof -
  have st: "cn_state s = CnConnecting" using assms(1,2) by (auto simp: cn_inv_def)
  then have zero: "starts s = 0" using assms(1) by (auto simp: cn_inv_def)
  have bal: "cn_created s = add_mset fd (cn_closed s + cn_given s)" using assms(1,2) by (simp add: cn_simps)
  show "removeAndResetChannel s = Inr (fd, s1)" using assms(2) by (simp add: removeAndResetChannel_def s1_def)
  show "cn_inv (retry fd s1)"
    by (rule retry_inv) (use assms(1,2) zero bal in \<open>auto simp: cn_simps s1_def\<close>)
  show "cn_inv (retry fd (s1\<lparr>cn_state := x\<rparr>))"
    by (rule retry_inv) (use assms(1,2) zero bal in \<open>auto simp: cn_simps s1_def\<close>)
  show "cn_inv (s1\<lparr>cn_state := CnConnected, cn_given := add_mset fd (cn_given s1)\<rparr>)"
    "cn_inv (sock_close fd (s1\<lparr>cn_state := CnConnected\<rparr>))"
    using assms(1,2) zero bal by (auto simp: cn_simps s1_def sock_close_def)
qed

lemma cn_inv_watched: "cn_inv s \<Longrightarrow> cn_state s = CnConnecting \<Longrightarrow> \<exists>fd. cn_channel s = Some (fd, True)"
  by (simp add: cn_inv_def)

lemma stopInLoop_inv:
  assumes "cn_inv s"
  shows "\<exists>s'. stopInLoop s = Inr s' \<and> cn_inv s'"
proof (cases "cn_state s = CnConnecting")
  case True
  obtain fd where fd: "cn_channel s = Some (fd, True)" using cn_inv_watched [OF assms True] by blast
  have "stopInLoop s = Inr (retry fd (s\<lparr>cn_channel := Some (fd, False), cn_functors := cn_functors s @ [ResetChannel],
      cn_state := CnDisconnected\<rparr>))"
    using True fd by (simp add: stopInLoop_def removeAndResetChannel_def) (rule arg_cong [where f = "retry fd"], simp)
  then show ?thesis using leave_connecting(3) [OF assms fd, of CnDisconnected] by simp
next
  case False
  then show ?thesis using assms by (simp add: stopInLoop_def)
qed

lemma cn_handleError_inv:
  assumes "cn_inv s" and "cn_channel s = Some (fd, True)"
  shows "\<exists>s'. cn_handleError s = Inr s' \<and> cn_inv s' \<and> cn_state s' = CnDisconnected"
proof -
  have st: "cn_state s = CnConnecting" using assms by (auto simp: cn_inv_def)
  have "cn_state (retry fd s1) = CnDisconnected" for s1 by (simp add: retry_def sock_close_def Let_def)
  then show ?thesis using st leave_connecting(1,2) [OF assms] by (simp add: cn_handleError_def)
qed

lemma cn_handleWrite_inv:
  assumes "cn_inv s" and "cn_state s \<noteq> CnConnected"
  shows "\<exists>s'. cn_handleWrite err self s = Inr s' \<and> cn_inv s'"
proof (cases "cn_state s = CnConnecting")
  case True
  obtain fd where fd: "cn_channel s = Some (fd, True)" using cn_inv_watched [OF assms(1) True] by blast
  note l = leave_connecting [OF assms(1) fd]
  show ?thesis using True l(1,2,4,5) by (simp add: cn_handleWrite_def Let_def)
next
  case False
  then have "cn_state s = CnDisconnected" using assms(2) by (cases "cn_state s") auto
  then show ?thesis using assms(1) False by (simp add: cn_handleWrite_def)
qed

lemma cn_event_inv:
  assumes "cn_inv s" and "cn_channel s = Some (fd, True)"
  shows "\<exists>s'. handleEvent False False (cn_callbacks err self) r s = Inr s' \<and> cn_inv s'"
proof -
  have st: "cn_state s = CnConnecting" using assms by (auto simp: cn_inv_def)
  obtain s1 where s1: "call_if (r AND (POLLERR OR POLLNVAL) \<noteq> 0) (Some cn_handleError) s = Inr s1" "cn_inv s1"
      "cn_state s1 \<noteq> CnConnected"
  proof (cases "r AND (POLLERR OR POLLNVAL) \<noteq> 0")
    case True
    then show ?thesis using cn_handleError_inv [OF assms] that by (auto simp: call_if_def)
  next
    case False
    then show ?thesis using that assms(1) st by (simp add: call_if_def)
  qed
  then show ?thesis
    using cn_handleWrite_inv [OF s1(2,3), of err self]
    by (auto simp: handleEvent_def handleEventWithGuard_def cn_callbacks_def)
      (auto simp: call_if_def)
qed

lemma cn_do_ok:
  assumes "cn_inv s" and "cn_can op s"
  shows "\<exists>s'. cn_do op s = Inr s' \<and> cn_inv s'"
proof (cases op)
  case (Start own a)
  then have c: "cn_state s = CnDisconnected" "cn_channel s = None" "starts s = 0"
    using assms(2) by (auto simp: starts_def count_list_0_iff)
  have "cn_inv (s\<lparr>cn_connect := True\<rparr>)" using assms(1) by (simp add: cn_simps)
  moreover have "cn_inv (s\<lparr>cn_connect := True, cn_functors := cn_functors s @ [StartInLoop]\<rparr>)"
    using assms(1) c by (auto simp: cn_simps)
  ultimately show ?thesis
    using Start c startInLoop_inv [of "s\<lparr>cn_connect := True\<rparr>" a] by (simp add: cn_start_def starts_def Let_def)
next
  case (Stop own)
  have "cn_inv (s\<lparr>cn_connect := False\<rparr>)" using assms(1) by (simp add: cn_simps)
  moreover have "cn_inv (s\<lparr>cn_connect := False, cn_functors := cn_functors s @ [StopInLoop]\<rparr>)"
    using assms(1) by (auto simp: cn_simps)
  ultimately show ?thesis
    using Stop stopInLoop_inv [of "s\<lparr>cn_connect := False\<rparr>"] by (simp add: cn_stop_def Let_def)
next
  case (Restart a)
  let ?s = "s\<lparr>cn_state := CnDisconnected, cn_retryDelayMs := kInitRetryDelayMs, cn_connect := True\<rparr>"
  have c: "cn_channel s = None" "starts s = 0"
    using assms(2) Restart by (auto simp: starts_def count_list_0_iff)
  have "cn_inv ?s" using assms(1) c by (auto simp: cn_simps kInitRetryDelayMs_def kMaxRetryDelayMs_def)
  then show ?thesis using Restart c startInLoop_inv [of ?s a] by (simp add: cn_restart_def starts_def)
next
  case (CnEvent r err self)
  then show ?thesis using cn_event_inv [OF assms(1)] assms(2) by auto
next
  case (CnTimer a)
  obtain t ts where t: "cn_timers s = t # ts" using assms(2) CnTimer by (cases "cn_timers s") auto
  have "cn_inv (s\<lparr>cn_timers := ts\<rparr>)" "starts (s\<lparr>cn_timers := ts\<rparr>) = 0" "cn_state s = CnDisconnected"
    using assms(1) t by (auto simp: cn_simps)
  then show ?thesis using CnTimer assms(2) t startInLoop_inv [of "s\<lparr>cn_timers := ts\<rparr>" a] by simp
next
  case (CnFunctor a)
  show ?thesis
  proof (cases "cn_functors s")
    case Nil
    then show ?thesis using CnFunctor assms(1) by simp
  next
    case (Cons f fs)
    show ?thesis
    proof (cases f)
      case StartInLoop
      have "cn_inv (s\<lparr>cn_functors := fs\<rparr>)" "starts (s\<lparr>cn_functors := fs\<rparr>) = 0" "cn_state s = CnDisconnected"
          "cn_channel s = None"
        using assms(1) Cons StartInLoop by (auto simp: cn_simps)
      then show ?thesis using CnFunctor Cons StartInLoop startInLoop_inv [of "s\<lparr>cn_functors := fs\<rparr>" a] by simp
    next
      case StopInLoop
      have "cn_inv (s\<lparr>cn_functors := fs\<rparr>)" using assms(1) Cons StopInLoop by (auto simp: cn_simps)
      then show ?thesis using CnFunctor Cons StopInLoop stopInLoop_inv by simp
    next
      case ResetChannel
      have "cn_inv (s\<lparr>cn_functors := fs, cn_channel := None\<rparr>)"
        using assms(1) Cons ResetChannel by (auto simp: cn_simps split: if_splits)
      then show ?thesis using CnFunctor Cons ResetChannel by (simp add: resetChannel_def)
    qed
  qed
qed

lemma cn_reach_inv: "cn_reach s \<Longrightarrow> cn_inv s"
proof (induction rule: cn_reach.induct)
  case cn_new
  then show ?case by (simp add: cn_simps Connector_new_def kInitRetryDelayMs_def kMaxRetryDelayMs_def)
next
  case (cn_step s op s')
  then show ?case using cn_do_ok [of s op] by auto
qed

subsection \<open>The connector\<close>


text \<open>A connector whose first attempt was refused, and whose second one is under way.\<close>

definition demo_connector :: connector where
  "demo_connector = \<lparr>cn_connect = True, cn_state = CnConnecting, cn_channel = Some (4, True), cn_retryDelayMs = 1000,
     cn_timers = [], cn_functors = [], cn_created = {#4, 3#}, cn_closed = {#3#}, cn_given = {#}\<rparr>"

lemma demo_connector_reach: "cn_reach demo_connector"
proof -
  let ?s1 = "Connector_new\<lparr>cn_connect := True, cn_timers := [500], cn_retryDelayMs := 1000, cn_created := {#3#}, cn_closed := {#3#}\<rparr>"
  have "cn_do (Start True (3, ECONNREFUSED)) Connector_new = Inr ?s1"
    by (simp add: cn_start_def startInLoop_def connect_socket_def retry_def sock_close_def Connector_new_def
        kInitRetryDelayMs_def kMaxRetryDelayMs_def Let_def)
  then have r: "cn_reach ?s1" by (rule cn_step [OF cn_new, rotated]) (simp add: Connector_new_def)
  have "cn_do (CnTimer (4, EINPROGRESS)) ?s1 = Inr demo_connector"
    by (simp add: startInLoop_def connect_socket_def connecting_def Connector_new_def demo_connector_def)
  then show ?thesis by (rule cn_step [OF r, rotated]) (simp add: Connector_new_def)
qed


text \<open>
  No descriptor is lost or closed twice: every socket the connector has created is closed, or
  handed to the client, or it is the one being connected, and each is exactly one of these.
\<close>

theorem connector_sockets:
  assumes "cn_reach s"
  shows "cn_created s = cn_closed s + cn_given s +
    (if cn_state s = CnConnecting then {#fst (the (cn_channel s))#} else {#})"
proof -
  note i = cn_reach_inv [OF assms, unfolded cn_inv_def]
  have "held s = (if cn_state s = CnConnecting then {#fst (the (cn_channel s))#} else {#})"
    using i by (auto simp: held_def split: option.splits bool.splits)
  then show ?thesis using i by simp
qed

theorem connector_sockets_witness:
  "cn_created demo_connector = cn_closed demo_connector + cn_given demo_connector + {#4#}"
  using connector_sockets [OF demo_connector_reach] by (simp add: demo_connector_def)

text \<open>
  The back-off: consecutive failures are retried after 0.5 seconds, 1, 2, 4 seconds and so on,
  doubling each time, and never more than 30 seconds.
\<close>

theorem retry_delays:
  assumes "cn_connect s" and "cn_retryDelayMs s = kInitRetryDelayMs"
  shows "cn_timers ((retry fd ^^ n) s) = cn_timers s @ map (\<lambda>k. min (500 * 2 ^ k) 30000) [0..<n]"
proof -
  have "cn_timers ((retry fd ^^ n) s) = cn_timers s @ map (\<lambda>k. min (500 * 2 ^ k) 30000) [0..<n] \<and>
      cn_retryDelayMs ((retry fd ^^ n) s) = min (500 * 2 ^ n) 30000 \<and> cn_connect ((retry fd ^^ n) s)"
    using assms
  proof (induction n)
    case 0
    then show ?case by (simp add: kInitRetryDelayMs_def)
  next
    case (Suc n)
    then show ?case
      by (auto simp: retry_def sock_close_def Let_def kMaxRetryDelayMs_def min_def)
  qed
  then show ?thesis by blast
qed

theorem retry_delays_witness:
  "cn_timers ((retry 3 ^^ 8) (Connector_new\<lparr>cn_connect := True\<rparr>)) = [500, 1000, 2000, 4000, 8000, 16000, 30000, 30000]"
  using retry_delays [where s = "Connector_new\<lparr>cn_connect := True\<rparr>" and fd = 3 and n = 8]
  by (simp add: Connector_new_def upt_rec)

text \<open>
  Outside the client's rules: \<open>stop()\<close> does not cancel the pending retry (the code says so), so a
  \<open>start()\<close> after it connects, and the old timer then fails the assertion of \<open>startInLoop\<close>; and a
  \<open>start()\<close> right after a \<open>stop()\<close> finds the old channel still there.
\<close>

lemma stop_start_old_timer:
  "\<exists>s1 s2 s3. cn_do (Start True (3, ECONNREFUSED)) Connector_new = Inr s1 \<and> cn_do (Stop True) s1 = Inr s2 \<and>
     cn_do (Start True (4, EINPROGRESS)) s2 = Inr s3 \<and> cn_do (CnTimer (5, EINPROGRESS)) s3 = Inl Abort"
  by (simp add: cn_start_def cn_stop_def startInLoop_def stopInLoop_def connect_socket_def connecting_def retry_def
      sock_close_def Connector_new_def Let_def)

lemma stop_start_old_channel:
  "\<exists>s1 s2. cn_do (Start True (3, EINPROGRESS)) Connector_new = Inr s1 \<and> cn_do (Stop True) s1 = Inr s2 \<and>
     cn_do (Start True (4, EINPROGRESS)) s2 = Inl Abort"
  by (simp add: cn_start_def cn_stop_def startInLoop_def stopInLoop_def connect_socket_def connecting_def retry_def
      sock_close_def removeAndResetChannel_def Connector_new_def Let_def)

end
