(* ===== verification/TcpClient.thy ===== *)
theory TcpClient imports Connector TcpServer begin

text \<open>
  \<open>muduo/net/TcpClient.cc\<close>: a client over its connector and its connections, in the model of both.  A
  \<open>TcpConnectionPtr\<close> is an index into the connections ever made.

  The lemmas show that connector and connections are used as their own theories ask for, so no assertion
  of the three classes fails; that there is at most one connection at any time; and that a client with
  \<open>enableRetry\<close> connects again when it loses its connection.
\<close>

subsection \<open>State and operations\<close>

record tcpclient =
  cl_connector :: connector
  cl_name :: bytes
  cl_hostport :: bytes
  cl_writeCompleteCallback :: bool
  cl_retry :: bool
  cl_connect :: bool
  cl_nextConnId :: nat
  cl_connection :: "nat option"
  cl_names :: "bytes list"
  cl_conns :: "tcpconn list"

definition TcpClient_new :: "bytes \<Rightarrow> bytes \<Rightarrow> bool \<Rightarrow> tcpclient" where
  "TcpClient_new hostport nm wc = \<lparr>cl_connector = Connector_new, cl_name = nm, cl_hostport = hostport,
     cl_writeCompleteCallback = wc, cl_retry = False, cl_connect = True, cl_nextConnId = 1,
     cl_connection = None, cl_names = [], cl_conns = []\<rparr>"

definition enableRetry :: "tcpclient \<Rightarrow> tcpclient" where
  "enableRetry s = s\<lparr>cl_retry := True\<rparr>"

definition on_connector :: "(connector \<Rightarrow> connector res) \<Rightarrow> tcpclient \<Rightarrow> tcpclient res" where
  "on_connector f s = bind_res (f (cl_connector s)) (\<lambda>c. Inr (s\<lparr>cl_connector := c\<rparr>))"

definition client_connect :: "bool \<Rightarrow> int \<times> connect_errno \<Rightarrow> tcpclient \<Rightarrow> tcpclient res" where
  "client_connect own a s = on_connector (cn_start own a) (s\<lparr>cl_connect := True\<rparr>)"

definition client_disconnect :: "bool \<Rightarrow> tcpclient \<Rightarrow> tcpclient" where
  "client_disconnect own s =
     (let s = s\<lparr>cl_connect := False\<rparr> in
      case cl_connection s of
        None \<Rightarrow> s
      | Some i \<Rightarrow> s\<lparr>cl_conns := (cl_conns s)[i := tc_shutdown own (cl_conns s ! i)]\<rparr>)"

definition client_stop :: "bool \<Rightarrow> tcpclient \<Rightarrow> tcpclient res" where
  "client_stop own s = on_connector (cn_stop own) (s\<lparr>cl_connect := False\<rparr>)"

definition client_newConnection :: "user_act list \<Rightarrow> tcpclient \<Rightarrow> tcpclient res" where
  "client_newConnection on_connection s =
     (let connName = cl_name s @ conn_suffix (cl_hostport s) (cl_nextConnId s);
          tc = TcpConnection_new False (cl_writeCompleteCallback s) default_highWaterMark;
          i = length (cl_conns s);
          s = s\<lparr>cl_nextConnId := cl_nextConnId s + 1, cl_names := cl_names s @ [connName], cl_connection := Some i\<rparr>
      in bind_res (connectEstablished on_connection tc) (\<lambda>tc. Inr (s\<lparr>cl_conns := cl_conns s @ [tc]\<rparr>)))"

text \<open>\<open>a\<close>: the socket of the next attempt and what \<open>connect\<close> answers.\<close>

definition client_removeConnection :: "int \<times> connect_errno \<Rightarrow> nat \<Rightarrow> tcpclient \<Rightarrow> tcpclient res" where
  "client_removeConnection a i s =
     assert_res (cl_connection s = Some i)
     (let s = s\<lparr>cl_connection := None\<rparr>;
          s = s\<lparr>cl_conns := (cl_conns s)[i := queue_functor ConnectDestroyed ((cl_conns s ! i)\<lparr>tc_removed := True\<rparr>)]\<rparr>
      in if cl_retry s \<and> cl_connect s then on_connector (cn_restart a) s else Inr s)"

text \<open>
  \<open>~TcpClient\<close>: a connection that is left gets \<open>detail::removeConnection\<close> as its close callback, which
  only queues \<open>connectDestroyed\<close>; without a connection the connector is stopped.
\<close>

definition detail_removeConnection :: "nat \<Rightarrow> tcpclient \<Rightarrow> tcpclient" where
  "detail_removeConnection i s =
     s\<lparr>cl_conns := (cl_conns s)[i := queue_functor ConnectDestroyed ((cl_conns s ! i)\<lparr>tc_removed := True\<rparr>)]\<rparr>"

definition TcpClient_dtor :: "bool \<Rightarrow> tcpclient \<Rightarrow> tcpclient res" where
  "TcpClient_dtor own s =
     (case cl_connection s of Some i \<Rightarrow> Inr s | None \<Rightarrow> on_connector (cn_stop own) s)"

subsection \<open>Steps of the client's loop and of other threads\<close>

datatype client_op =
    ClConnect bool "int \<times> connect_errno"
  | ClDisconnect bool
  | ClStop bool
  | ClEnableRetry
  | ClConnector cn_op "user_act list"
  | ClConn nat conn_op "int \<times> connect_errno"

text \<open>
  A socket the connector gives away becomes a connection; a connection that calls the close callback is
  removed.
\<close>

fun client_do :: "client_op \<Rightarrow> tcpclient \<Rightarrow> tcpclient res" where
  "client_do (ClConnect own a) s = client_connect own a s"
| "client_do (ClDisconnect own) s = Inr (client_disconnect own s)"
| "client_do (ClStop own) s = client_stop own s"
| "client_do ClEnableRetry s = Inr (enableRetry s)"
| "client_do (ClConnector op acts) s =
     bind_res (cn_do op (cl_connector s)) (\<lambda>c.
     times_res (size (cn_given c) - size (cn_given (cl_connector s))) (client_newConnection acts) (s\<lparr>cl_connector := c\<rparr>))"
| "client_do (ClConn i op a) s =
     bind_res (conn_do op (cl_conns s ! i)) (\<lambda>tc.
     times_res (closes (cl_conns s ! i) tc) (client_removeConnection a i) (s\<lparr>cl_conns := (cl_conns s)[i := tc]\<rparr>))"

text \<open>
  \<open>connect\<close> is called when nothing of an earlier attempt or connection is left, see
  \<open>connect_again_aborts\<close>.  The events of a turn of the loop come after the functors of the turn before,
  so a connection has no event before the connector has reset its channel.
\<close>

fun loop_op :: "cn_op \<Rightarrow> bool" where
  "loop_op (CnEvent r err self) = True"
| "loop_op (CnTimer a) = True"
| "loop_op (CnFunctor a) = True"
| "loop_op op = False"

fun is_event :: "conn_op \<Rightarrow> bool" where
  "is_event (Event r rd wr on_message on_connection) = True"
| "is_event op = False"

fun client_can :: "bool \<Rightarrow> client_op \<Rightarrow> tcpclient \<Rightarrow> bool" where
  "client_can others (ClConnect own a) s = cn_can (Start own a) (cl_connector s)"
| "client_can others (ClConnector op acts) s = (loop_op op \<and> cn_can op (cl_connector s))"
| "client_can others (ClConn i op a) s =
     (i < length (cl_conns s) \<and> own_op op \<and> can_happen others op (cl_conns s ! i) \<and>
      (is_event op \<longrightarrow> ResetChannel \<notin> set (cn_functors (cl_connector s))))"
| "client_can others op s = True"

inductive client_reach :: "bool \<Rightarrow> tcpclient \<Rightarrow> bool" for others where
  client_new: "client_reach others (TcpClient_new hostport nm wc)"
| client_step: "client_reach others s \<Longrightarrow> client_can others op s \<Longrightarrow> client_do op s = Inr s' \<Longrightarrow> client_reach others s'"

subsection \<open>What a connector gives\<close>

lemma startInLoop_given: "startInLoop a c = Inr c' \<Longrightarrow> cn_given c' = cn_given c"
  by (cases a) (auto simp: startInLoop_def connect_socket_def connecting_def retry_def sock_close_def assert_res_def Let_def
      split: if_splits)

lemma retry_given [simp]: "cn_given (retry fd c) = cn_given c" "cn_state (retry fd c) = CnDisconnected"
  by (simp_all add: retry_def sock_close_def Let_def)

lemma handleError_given: "cn_handleError c = Inr c' \<Longrightarrow> cn_given c' = cn_given c \<and> cn_state c' = CnDisconnected"
  by (auto simp: cn_handleError_def assert_res_def bind_res_Inr removeAndResetChannel_def split: if_splits option.splits)

lemma handleWrite_given:
  "cn_handleWrite err self c = Inr c' \<Longrightarrow> cn_given c' = cn_given c \<or>
     (\<exists>fd. cn_given c' = add_mset fd (cn_given c) \<and> cn_state c' = CnConnected \<and> cn_state c = CnConnecting)"
  by (auto simp: cn_handleWrite_def assert_res_def bind_res_Inr removeAndResetChannel_def sock_close_def Let_def
      split: if_splits option.splits)

lemma call_if_None [simp]: "call_if b None x = Inr x"
  by (simp add: call_if_def)

lemma event_given:
  assumes "handleEvent False False (cn_callbacks err self) r c = Inr c'" and "cn_state c = CnConnecting"
  shows "cn_given c' = cn_given c \<or> (\<exists>fd. cn_given c' = add_mset fd (cn_given c) \<and> cn_state c' = CnConnected)"
proof -
  obtain c1 where c1: "call_if (r AND (POLLERR OR POLLNVAL) \<noteq> 0) (Some cn_handleError) c = Inr c1"
      "call_if (r AND POLLOUT \<noteq> 0) (Some (cn_handleWrite err self)) c1 = Inr c'"
    using assms(1) by (auto simp: handleEvent_def handleEventWithGuard_def cn_callbacks_def bind_res_Inr)
  have "cn_given c1 = cn_given c \<and> (c1 = c \<or> cn_state c1 = CnDisconnected)"
    using c1(1) handleError_given [of c c1] by (auto simp: call_if_def split: if_splits)
  moreover have "c' = c1 \<or> cn_handleWrite err self c1 = Inr c'"
    using c1(2) by (auto simp: call_if_def split: if_splits)
  ultimately show ?thesis using handleWrite_given [of err self c1 c'] by auto
qed

lemma connector_gives:
  assumes "cn_inv c" and "loop_op op" and "cn_can op c" and "cn_do op c = Inr c'"
  shows "cn_given c' = cn_given c \<or>
     (\<exists>fd. cn_given c' = add_mset fd (cn_given c) \<and> cn_state c' = CnConnected \<and> cn_state c = CnConnecting)"
proof (cases op)
  case (CnEvent r err self)
  have "cn_state c = CnConnecting" using assms(1,3) CnEvent by (auto simp: cn_inv_def)
  then show ?thesis using event_given [of err self r c c'] assms(4) CnEvent by auto
next
  case (CnTimer a)
  then show ?thesis using assms(4) startInLoop_given by (fastforce split: list.splits)
next
  case (CnFunctor a)
  show ?thesis
  proof (cases "cn_functors c")
    case (Cons f fs)
    then show ?thesis
      using assms(4) CnFunctor startInLoop_given [of a "c\<lparr>cn_functors := fs\<rparr>" c']
      by (cases f) (auto simp: stopInLoop_def removeAndResetChannel_def resetChannel_def bind_res_Inr Let_def
          split: if_splits option.splits)
  qed (use assms(4) CnFunctor in simp)
qed (use assms(2) in simp_all)

text \<open>Once connected, a connector stays so until it is restarted.\<close>

lemma connected_stays:
  assumes "cn_inv c" and "loop_op op" and "cn_can op c" and "cn_do op c = Inr c'" and "cn_state c = CnConnected"
  shows "cn_state c' = CnConnected \<and> cn_given c' = cn_given c"
proof (cases op)
  case (CnEvent r err self)
  then have "cn_state c = CnConnecting" using assms(1,3) by (auto simp: cn_inv_def)
  then show ?thesis using assms(5) by simp
next
  case (CnTimer a)
  then have "starts c \<noteq> 0" using assms(3) by (auto simp: starts_def)
  then have "cn_state c = CnDisconnected" using assms(1) by (auto simp: cn_inv_def)
  then show ?thesis using assms(5) by simp
next
  case (CnFunctor a)
  show ?thesis
  proof (cases "cn_functors c")
    case (Cons f fs)
    have "f \<noteq> StartInLoop"
    proof
      assume "f = StartInLoop"
      then have "starts c \<noteq> 0" using Cons by (simp add: starts_def)
      then show False using assms(1,5) by (auto simp: cn_inv_def)
    qed
    then show ?thesis
      using assms(4,5) CnFunctor Cons by (cases f) (auto simp: stopInLoop_def resetChannel_def)
  qed (use assms(4,5) CnFunctor in simp)
qed (use assms(2) in simp_all)

lemma stop_keeps: "cn_stop own c = Inr c' \<Longrightarrow> cn_given c' = cn_given c \<and> (cn_state c = CnConnected \<longrightarrow> cn_state c' = CnConnected)"
  by (auto simp: cn_stop_def stopInLoop_def removeAndResetChannel_def bind_res_Inr Let_def split: if_splits option.splits)

lemma start_keeps: "cn_start own a c = Inr c' \<Longrightarrow> cn_given c' = cn_given c"
  using startInLoop_given by (fastforce simp: cn_start_def Let_def split: if_splits)

lemma restart_keeps: "cn_restart a c = Inr c' \<Longrightarrow> cn_given c' = cn_given c"
  unfolding cn_restart_def by (drule startInLoop_given) simp

subsection \<open>Invariant\<close>

definition client_inv :: "bool \<Rightarrow> tcpclient \<Rightarrow> bool" where
  "client_inv others s \<longleftrightarrow>
     cn_reach (cl_connector s)
   \<and> (\<forall>i < length (cl_conns s). conn_reach others (cl_conns s ! i))
   \<and> (\<forall>i. cl_connection s = Some i \<longleftrightarrow> i < length (cl_conns s) \<and> \<not> tc_removed (cl_conns s ! i))
   \<and> (cl_connection s \<noteq> None \<longrightarrow> cn_state (cl_connector s) = CnConnected)
   \<and> size (cn_given (cl_connector s)) = length (cl_conns s)
   \<and> length (cl_names s) = length (cl_conns s) \<and> cl_nextConnId s = Suc (length (cl_conns s))"

lemma client_inv_connector:
  assumes "client_inv others s" and "cn_reach c"
    and "cl_connection s \<noteq> None \<longrightarrow> cn_state c = CnConnected" and "cn_given c = cn_given (cl_connector s)"
  shows "client_inv others (s\<lparr>cl_connector := c\<rparr>)"
  using assms by (simp add: client_inv_def)

text \<open>A connection that goes on, neither closed nor removed by the step.\<close>

lemma client_inv_conn:
  assumes "client_inv others s" and "i < length (cl_conns s)" and "conn_reach others tc"
    and "tc_removed tc = tc_removed (cl_conns s ! i)"
  shows "client_inv others (s\<lparr>cl_conns := (cl_conns s)[i := tc]\<rparr>)"
proof -
  have "cl_connection s = Some j \<longleftrightarrow> j < length (cl_conns s) \<and> \<not> tc_removed ((cl_conns s)[i := tc] ! j)" for j
    using assms by (cases "j = i") (auto simp: client_inv_def)
  moreover have "\<forall>j < length (cl_conns s). conn_reach others ((cl_conns s)[i := tc] ! j)"
    using assms by (auto simp: client_inv_def nth_list_update)
  ultimately show ?thesis using assms(1) by (simp add: client_inv_def)
qed

lemma client_newConnection_ok:
  assumes "client_inv others s" and "cn_reach c" and "cn_state c = CnConnected" and "cl_connection s = None"
    and "cn_given c = add_mset fd (cn_given (cl_connector s))"
  shows "\<exists>s'. client_newConnection acts (s\<lparr>cl_connector := c\<rparr>) = Inr s' \<and> client_inv others s'"
proof -
  let ?tc = "TcpConnection_new False (cl_writeCompleteCallback s) default_highWaterMark"
  have new: "conn_reach others ?tc" "tc_state ?tc = kConnecting" "\<not> tc_removed ?tc"
    using conn_new by (simp_all add: TcpConnection_new_def)
  obtain tc where tc: "connectEstablished acts ?tc = Inr tc" "conn_reach others tc" "\<not> tc_removed tc"
    using establish_ok [OF new(1,2), of acts] new(3) by auto
  let ?s = "s\<lparr>cl_connector := c, cl_nextConnId := cl_nextConnId s + 1,
      cl_names := cl_names s @ [cl_name s @ conn_suffix (cl_hostport s) (cl_nextConnId s)],
      cl_connection := Some (length (cl_conns s)), cl_conns := cl_conns s @ [tc]\<rparr>"
  have run: "client_newConnection acts (s\<lparr>cl_connector := c\<rparr>) = Inr ?s"
    using tc(1) by (simp add: client_newConnection_def Let_def)
  have removed: "tc_removed (cl_conns s ! j)" if "j < length (cl_conns s)" for j
    using assms(1,4) that by (auto simp: client_inv_def)
  have "cl_connection ?s = Some j \<longleftrightarrow> j < length (cl_conns ?s) \<and> \<not> tc_removed (cl_conns ?s ! j)" for j
    using removed [of j] tc(3) by (cases "j < length (cl_conns s)") (auto simp: nth_append less_Suc_eq)
  moreover have "\<forall>j < length (cl_conns ?s). conn_reach others (cl_conns ?s ! j)"
    using assms(1) tc(2) by (auto simp: client_inv_def nth_append)
  ultimately have "client_inv others ?s"
    using assms unfolding client_inv_def by simp
  then show ?thesis using run by blast
qed

text \<open>The connector of a connection that just closed can be restarted.\<close>

lemma restart_can:
  assumes "cn_reach c" and "cn_state c = CnConnected" and "ResetChannel \<notin> set (cn_functors c)"
  shows "cn_can (Restart a) c"
proof -
  have inv: "cn_inv c" by (rule cn_reach_inv [OF assms(1)])
  then have "starts c = 0" using assms(2) by (auto simp: cn_inv_def)
  moreover have "cn_channel c = None"
  proof (rule ccontr)
    assume "cn_channel c \<noteq> None"
    then obtain fd w where "cn_channel c = Some (fd, w)" by auto
    then show False using inv assms(2,3) by (cases w) (auto simp: cn_inv_def count_list_0_iff)
  qed
  ultimately show ?thesis using assms(2) by (auto simp: starts_def count_list_0_iff)
qed

text \<open>A connection that closed is removed; \<open>s\<close> is the client before its last step.\<close>

lemma client_removeConnection_ok:
  assumes inv: "client_inv others s" and i: "i < length (cl_conns s)"
    and tc: "conn_reach others tc" "\<not> tc_removed tc" "0 < close_calls tc" and "\<not> tc_removed (cl_conns s ! i)"
    and reset: "ResetChannel \<notin> set (cn_functors (cl_connector s))"
  shows "\<exists>s'. client_removeConnection a i (s\<lparr>cl_conns := (cl_conns s)[i := tc]\<rparr>) = Inr s' \<and> client_inv others s'"
proof -
  let ?tc = "queue_functor ConnectDestroyed (tc\<lparr>tc_removed := True\<rparr>)"
  let ?s = "s\<lparr>cl_conns := (cl_conns s)[i := ?tc], cl_connection := None\<rparr>"
  have conn: "cl_connection s = Some i" using inv i assms(6) by (simp add: client_inv_def)
  have st: "cn_state (cl_connector s) = CnConnected" "cn_reach (cl_connector s)"
    using inv conn by (simp_all add: client_inv_def)
  have reach: "conn_reach others ?tc"
    by (rule conn_step [OF tc(1), of ServerRemoves]) (use tc(2,3) in \<open>simp_all add: close_calls_pos\<close>)
  have rem: "tc_removed ((cl_conns s)[i := ?tc] ! j)" if "j < length (cl_conns s)" for j
  proof (cases "j = i")
    case False
    have "cl_connection s \<noteq> Some j" using conn False by simp
    then have "tc_removed (cl_conns s ! j)" using inv that by (auto simp: client_inv_def)
    then show ?thesis using False by simp
  qed (use i in \<open>simp add: queue_functor_def\<close>)
  have "\<forall>j < length (cl_conns s). conn_reach others ((cl_conns s)[i := ?tc] ! j)"
  proof (intro allI impI)
    fix j
    assume "j < length (cl_conns s)"
    then show "conn_reach others ((cl_conns s)[i := ?tc] ! j)" using inv reach by (cases "j = i") (simp_all add: client_inv_def)
  qed
  moreover have "cl_connection ?s = Some j \<longleftrightarrow> j < length (cl_conns ?s) \<and> \<not> tc_removed (cl_conns ?s ! j)" for j
    using rem [of j] by auto
  ultimately have s: "client_inv others ?s" using inv unfolding client_inv_def by simp
  have can: "cn_can (Restart a) (cl_connector s)" by (rule restart_can [OF st(2,1) reset])
  obtain c where c: "cn_restart a (cl_connector s) = Inr c" using cn_do_ok [OF cn_reach_inv [OF st(2)] can] by auto
  have "cn_reach c" by (rule cn_step [OF st(2) can]) (simp add: c)
  then have sc: "client_inv others (?s\<lparr>cl_connector := c\<rparr>)"
    using client_inv_connector [OF s] restart_keeps [OF c] by simp
  have "client_removeConnection a i (s\<lparr>cl_conns := (cl_conns s)[i := tc]\<rparr>) =
      (if cl_retry s \<and> cl_connect s then Inr (?s\<lparr>cl_connector := c\<rparr>) else Inr ?s)"
    using conn i c by (simp add: client_removeConnection_def on_connector_def Let_def)
  then show ?thesis using s sc by auto
qed

lemma on_connector_ok:
  assumes "client_inv others s" and "cn_can op (cl_connector s)" and "\<And>x. cn_do op x = f x"
    and "\<And>c. f (cl_connector s) = Inr c \<Longrightarrow> cn_given c = cn_given (cl_connector s) \<and>
           (cl_connection s \<noteq> None \<longrightarrow> cn_state c = CnConnected)"
  shows "\<exists>s'. on_connector f s = Inr s' \<and> client_inv others s'"
proof -
  have r: "cn_reach (cl_connector s)" using assms(1) by (simp add: client_inv_def)
  obtain c where c: "f (cl_connector s) = Inr c" using cn_do_ok [OF cn_reach_inv [OF r] assms(2)] assms(3) by auto
  have "cn_reach c" by (rule cn_step [OF r assms(2)]) (simp add: c assms(3))
  then have "client_inv others (s\<lparr>cl_connector := c\<rparr>)"
    using client_inv_connector [OF assms(1)] assms(4) [OF c] by simp
  then show ?thesis using c by (simp add: on_connector_def)
qed

lemma client_inv_flags [simp]:
  "client_inv others (s\<lparr>cl_connect := b\<rparr>) \<longleftrightarrow> client_inv others s" "client_inv others (s\<lparr>cl_retry := b\<rparr>) \<longleftrightarrow> client_inv others s"
  by (simp_all add: client_inv_def)

lemma client_do_ok:
  assumes inv: "client_inv others s" and can: "client_can others op s"
  shows "\<exists>s'. client_do op s = Inr s' \<and> client_inv others s'"
proof (cases op)
  case (ClConnect own a)
  have "cl_connection s = None" using inv can ClConnect by (auto simp: client_inv_def)
  then show ?thesis
    using ClConnect can inv start_keeps
      on_connector_ok [of others "s\<lparr>cl_connect := True\<rparr>" "Start own a" "cn_start own a"]
    by (auto simp: client_connect_def)
next
  case (ClDisconnect own)
  show ?thesis
  proof (cases "cl_connection s")
    case None
    then show ?thesis using ClDisconnect inv by (simp add: client_disconnect_def)
  next
    case (Some i)
    then have i: "i < length (cl_conns s)" using inv unfolding client_inv_def by blast
    then have r: "conn_reach others (cl_conns s ! i)" using inv by (simp add: client_inv_def)
    let ?tc = "tc_shutdown own (cl_conns s ! i)"
    have "conn_reach others ?tc"
    proof (cases own)
      case True
      then show ?thesis by (intro conn_step [OF r, of "UserCode [Shutdown]"]) simp_all
    next
      case False
      then show ?thesis by (intro conn_step [OF r, of OtherShutdown]) simp_all
    qed
    moreover have "tc_removed ?tc = tc_removed (cl_conns s ! i)"
      using calm_tc_shutdown [of "cl_conns s ! i" own] by (simp add: calm_step_def)
    ultimately have "client_inv others (s\<lparr>cl_connect := False, cl_conns := (cl_conns s)[i := ?tc]\<rparr>)"
      using client_inv_conn [of others "s\<lparr>cl_connect := False\<rparr>" i ?tc] inv i by simp
    then show ?thesis using ClDisconnect Some by (simp add: client_disconnect_def Let_def)
  qed
next
  case (ClStop own)
  have "cl_connection s \<noteq> None \<Longrightarrow> cn_state (cl_connector s) = CnConnected" using inv by (simp add: client_inv_def)
  then show ?thesis
    using ClStop inv stop_keeps on_connector_ok [of others "s\<lparr>cl_connect := False\<rparr>" "Stop own" "cn_stop own"]
    by (auto simp: client_stop_def)
next
  case ClEnableRetry
  then show ?thesis using inv by (simp add: enableRetry_def)
next
  case (ClConnector cop acts)
  let ?c = "cl_connector s"
  have r: "cn_reach ?c" and op: "loop_op cop" "cn_can cop ?c" using inv can ClConnector by (auto simp: client_inv_def)
  note cinv = cn_reach_inv [OF r]
  obtain c where c: "cn_do cop ?c = Inr c" using cn_do_ok [OF cinv op(2)] by blast
  have rc: "cn_reach c" by (rule cn_step [OF r op(2) c])
  have stay: "cl_connection s \<noteq> None \<longrightarrow> cn_state c = CnConnected \<and> cn_given c = cn_given ?c"
    using connected_stays [OF cinv op c] inv by (simp add: client_inv_def)
  from connector_gives [OF cinv op c] show ?thesis
  proof (elim disjE exE conjE)
    assume "cn_given c = cn_given ?c"
    then show ?thesis using client_inv_connector [OF inv rc] stay ClConnector c by simp
  next
    fix fd
    assume g: "cn_given c = add_mset fd (cn_given ?c)" "cn_state c = CnConnected" "cn_state ?c = CnConnecting"
    then have none: "cl_connection s = None" using inv by (auto simp: client_inv_def)
    obtain s' where s': "client_newConnection acts (s\<lparr>cl_connector := c\<rparr>) = Inr s'" "client_inv others s'"
      using client_newConnection_ok [OF inv rc g(2) none g(1)] by blast
    then show ?thesis using ClConnector c g(1) by simp
  qed
next
  case (ClConn i cop a)
  have i: "i < length (cl_conns s)" and op: "own_op cop" "can_happen others cop (cl_conns s ! i)"
    and ev: "is_event cop \<longrightarrow> ResetChannel \<notin> set (cn_functors (cl_connector s))"
    using can ClConn by auto
  let ?tc = "cl_conns s ! i"
  have r: "conn_reach others ?tc" using inv i by (simp add: client_inv_def)
  obtain tc where tc: "conn_do cop ?tc = Inr tc" using connection_step_ok [OF r op(2)] by blast
  have rt: "conn_reach others tc" by (rule conn_step [OF r op(2) tc])
  have closes: "closes ?tc tc = close_calls tc - close_calls ?tc" by (simp add: closes_def close_calls_def)
  show ?thesis
  proof (cases "calm_step ?tc tc")
    case True
    then show ?thesis
      using client_inv_conn [OF inv i rt] tc closes ClConn by (simp add: calm_step_def)
  next
    case False
    have cl: "tc_removed tc = tc_removed ?tc" "close_calls tc = Suc (close_calls ?tc)" "is_open ?tc"
      using False live_conn_do [OF r op(1) tc op(2)] by (simp_all add: live_step_def)
    have zero: "\<not> tc_removed ?tc" using tc_conn_inv [OF r] cl(3) by (auto simp: life_def is_open_def)
    have "is_event cop"
      using op(1) tc False calm_user_run calm_tc_send calm_tc_shutdown calm_run_functor [OF r] by (cases cop) auto
    then have "ResetChannel \<notin> set (cn_functors (cl_connector s))" using ev by blast
    then obtain s' where "client_removeConnection a i (s\<lparr>cl_conns := (cl_conns s)[i := tc]\<rparr>) = Inr s'" "client_inv others s'"
      using client_removeConnection_ok [OF inv i rt, of a] zero cl by auto
    then show ?thesis using ClConn tc closes cl(2) by simp
  qed
qed

lemma client_reach_inv: "client_reach others s \<Longrightarrow> client_inv others s"
proof (induction rule: client_reach.induct)
  case (client_new hostport nm wc)
  show ?case using cn_new by (simp add: client_inv_def TcpClient_new_def Connector_new_def)
next
  case (client_step s op s')
  then show ?case using client_do_ok [of others s op] by auto
qed

subsection \<open>The client\<close>


text \<open>A client whose first attempt has succeeded at once.\<close>

definition demo_connecting :: tcpclient where
  "demo_connecting = (TcpClient_new [49] [99] False)\<lparr>cl_connector := Connector_new\<lparr>cn_connect := True, cn_state := CnConnecting,
     cn_channel := Some (7, True), cn_created := {#7#}\<rparr>\<rparr>"

definition demo_client :: tcpclient where
  "demo_client = (TcpClient_new [49] [99] False)\<lparr>cl_nextConnId := 2, cl_connection := Some 0, cl_names := [[99, 58, 49, 35, 49]],
     cl_conns := [set_events 3 (call_user (ConnectionCb True) ((TcpConnection_new False False default_highWaterMark)\<lparr>tc_state := kConnected\<rparr>))],
     cl_connector := Connector_new\<lparr>cn_connect := True, cn_state := CnConnected, cn_channel := Some (7, False),
       cn_functors := [ResetChannel], cn_created := {#7#}, cn_given := {#7#}\<rparr>\<rparr>"

lemma demo_connecting_reach: "client_reach others demo_connecting"
  by (rule client_step [OF client_new [where hostport = "[49]" and nm = "[99]" and wc = False], where op = "ClConnect True (7, EINPROGRESS)"])
    (simp_all add: demo_connecting_def TcpClient_new_def Connector_new_def client_connect_def on_connector_def cn_start_def
      startInLoop_def connect_socket_def connecting_def)


text \<open>
  There is at most one connection at any time, and every socket the connector gave away has become a
  connection: connection number \<open>i\<close> is \<open>connection_\<close> exactly until it is removed, which is when it calls
  the close callback, and while it is there the connector makes no other attempt.  Every connection is
  used as theory \<open>TcpConnection\<close> assumes.
\<close>

theorem client_one_connection:
  assumes "client_reach others s" and "i < length (cl_conns s)"
  shows "(cl_connection s = Some i \<longleftrightarrow> \<not> tc_removed (cl_conns s ! i))
       \<and> (\<not> tc_removed (cl_conns s ! i) \<longrightarrow>
            (\<forall>j < length (cl_conns s). j \<noteq> i \<longrightarrow> tc_removed (cl_conns s ! j))
          \<and> cn_timers (cl_connector s) = [] \<and> cn_state (cl_connector s) = CnConnected)
       \<and> conn_reach others (cl_conns s ! i)
       \<and> size (cn_given (cl_connector s)) = length (cl_conns s)"
proof -
  have inv: "client_inv others s" by (rule client_reach_inv [OF assms(1)])
  have conn: "cl_connection s = Some j \<longleftrightarrow> \<not> tc_removed (cl_conns s ! j)" if "j < length (cl_conns s)" for j
    using inv that unfolding client_inv_def by blast
  have "cn_timers (cl_connector s) = [] \<and> cn_state (cl_connector s) = CnConnected" if "cl_connection s = Some i"
  proof -
    have st: "cn_state (cl_connector s) = CnConnected" "cn_inv (cl_connector s)"
      using inv that cn_reach_inv by (auto simp: client_inv_def)
    then have "starts (cl_connector s) = 0" by (auto simp: cn_inv_def)
    then show ?thesis using st(1) by (simp add: starts_def)
  qed
  moreover have "tc_removed (cl_conns s ! j)" if "cl_connection s = Some i" "j < length (cl_conns s)" "j \<noteq> i" for j
    using conn [OF that(2)] that(1,3) by auto
  moreover have "conn_reach others (cl_conns s ! i)" "size (cn_given (cl_connector s)) = length (cl_conns s)"
    using inv assms(2) by (simp_all add: client_inv_def)
  ultimately show ?thesis using conn [OF assms(2)] by blast
qed

lemma demo_client_reach: "client_reach others demo_client"
  by (rule client_step [OF demo_connecting_reach, where op = "ClConnector (CnEvent POLLOUT False False) []"])
    (simp_all add: demo_connecting_def demo_client_def TcpClient_new_def Connector_new_def handleEvent_def handleEventWithGuard_def
      cn_callbacks_def call_if_def cn_handleWrite_def removeAndResetChannel_def client_newConnection_def connectEstablished_def
      TcpConnection_new_def conn_suffix_def dec_digits.simps set_events_def call_user_def enableReading_def kReadEvent_def event_defs Let_def)

theorem client_one_connection_witness: "\<not> tc_removed (cl_conns demo_client ! 0) \<and> cn_state (cl_connector demo_client) = CnConnected"
  using client_one_connection [OF demo_client_reach [of True], of 0]
  by (simp add: demo_client_def TcpClient_new_def TcpConnection_new_def set_events_def call_user_def)

lemma restart_result:
  assumes "cn_restart (fd, e) c = Inr c'" and "cn_timers c = []"
    and "e \<in> {Success, EINPROGRESS, EINTR, EISCONN, EAGAIN, EADDRINUSE, EADDRNOTAVAIL, ECONNREFUSED, ENETUNREACH}"
  shows "cn_connect c'
       \<and> (if e \<in> {Success, EINPROGRESS, EINTR, EISCONN}
          then cn_state c' = CnConnecting \<and> cn_channel c' = Some (fd, True)
          else cn_state c' = CnDisconnected \<and> cn_timers c' = [kInitRetryDelayMs])"
  using assms
  by (auto simp: cn_restart_def startInLoop_def connect_socket_def connecting_def retry_def sock_close_def assert_res_Inr Let_def)

text \<open>
  A client with \<open>enableRetry\<close> that loses its connection connects again at once: when its connection has
  called the close callback and nobody has called \<open>disconnect\<close> or \<open>stop\<close>, the connector has opened the
  next socket and waits for it, or tries again after 500 ms, unless \<open>connect\<close> fails with an error that
  cannot go away by itself.
\<close>

theorem client_reconnects:
  assumes "client_reach others s" and "client_can others (ClConn i op (fd, e)) s" and "client_do (ClConn i op (fd, e)) s = Inr s'"
    and "cl_connection s = Some i" and "cl_connection s' = None" and "cl_retry s" and "cl_connect s"
    and "e \<in> {Success, EINPROGRESS, EINTR, EISCONN, EAGAIN, EADDRINUSE, EADDRNOTAVAIL, ECONNREFUSED, ENETUNREACH}"
  shows "cn_connect (cl_connector s')
       \<and> (if e \<in> {Success, EINPROGRESS, EINTR, EISCONN}
          then cn_state (cl_connector s') = CnConnecting \<and> cn_channel (cl_connector s') = Some (fd, True)
          else cn_state (cl_connector s') = CnDisconnected \<and> cn_timers (cl_connector s') = [kInitRetryDelayMs])"
proof -
  obtain tc where tc: "conn_do op (cl_conns s ! i) = Inr tc"
      "times_res (closes (cl_conns s ! i) tc) (client_removeConnection (fd, e) i) (s\<lparr>cl_conns := (cl_conns s)[i := tc]\<rparr>) = Inr s'"
    using assms(3) by (auto simp: bind_res_Inr)
  have again: "client_removeConnection (fd, e) i t = Inr t' \<Longrightarrow> cl_connection t' = None \<and> cl_connection t = Some i" for t t'
    by (auto simp: client_removeConnection_def on_connector_def assert_res_Inr bind_res_Inr Let_def split: if_splits)
  let ?s = "s\<lparr>cl_conns := (cl_conns s)[i := tc]\<rparr>"
  have once: "client_removeConnection (fd, e) i ?s = Inr s'"
  proof (cases "closes (cl_conns s ! i) tc")
    case 0
    then have s': "s' = ?s" using tc(2) by simp
    have "cl_connection s' = Some i" unfolding s' using assms(4) by simp
    then show ?thesis using assms(5) by simp
  next
    case (Suc n)
    then obtain t where t: "client_removeConnection (fd, e) i ?s = Inr t" "times_res n (client_removeConnection (fd, e) i) t = Inr s'"
      using tc(2) by (auto simp: bind_res_Inr)
    show ?thesis
    proof (cases n)
      case (Suc m)
      then show ?thesis using again [OF t(1)] t(2) again by (auto simp: bind_res_Inr)
    qed (use t in simp)
  qed
  then obtain c where c: "cn_restart (fd, e) (cl_connector s) = Inr c" "cl_connector s' = c"
    using assms(4,6,7) by (auto simp: client_removeConnection_def on_connector_def bind_res_Inr)
  have "cn_timers (cl_connector s) = []"
    using client_one_connection [OF assms(1), of i] assms(2,4) by auto
  then show ?thesis using restart_result [OF c(1) _ assms(8)] c(2) by simp
qed

text \<open>The same client, with \<open>enableRetry\<close>, once the channel is reset; then its peer hangs up.\<close>

definition retry_client :: tcpclient where
  "retry_client = demo_client\<lparr>cl_retry := True, cl_connector := (cl_connector demo_client)\<lparr>cn_functors := [], cn_channel := None\<rparr>\<rparr>"

lemma retry_client_reach: "client_reach others retry_client"
proof -
  have "client_reach others (demo_client\<lparr>cl_retry := True\<rparr>)"
    by (rule client_step [OF demo_client_reach, where op = ClEnableRetry]) (simp_all add: enableRetry_def)
  then show ?thesis
    by (rule client_step [where op = "ClConnector (CnFunctor (0, Success)) []"])
      (simp_all add: demo_client_def retry_client_def TcpClient_new_def Connector_new_def resetChannel_def)
qed

lemma retry_client_closed:
  "\<exists>s'. client_do (ClConn 0 (Event POLLHUP (ReadErr 0) (Wrote 0) [] []) (8, EINPROGRESS)) retry_client = Inr s' \<and> cl_connection s' = None"
  by (simp add: retry_client_def demo_client_def TcpClient_new_def TcpConnection_new_def Connector_new_def handleEvent_def
      handleEventWithGuard_def conn_callbacks_def call_if_def handleClose_def set_events_def call_user_def closes_def event_defs
      client_removeConnection_def on_connector_def cn_restart_def startInLoop_def connect_socket_def connecting_def Let_def)

theorem client_reconnects_witness:
  "\<exists>s'. client_do (ClConn 0 (Event POLLHUP (ReadErr 0) (Wrote 0) [] []) (8, EINPROGRESS)) retry_client = Inr s'
     \<and> cn_channel (cl_connector s') = Some (8, True)"
proof -
  obtain s' where s': "client_do (ClConn 0 (Event POLLHUP (ReadErr 0) (Wrote 0) [] []) (8, EINPROGRESS)) retry_client = Inr s'" "cl_connection s' = None"
    using retry_client_closed by blast
  have "cn_channel (cl_connector s') = Some (8, True)"
    using client_reconnects [OF retry_client_reach [of True] _ s'(1) _ s'(2)]
    by (simp add: retry_client_def demo_client_def TcpClient_new_def TcpConnection_new_def set_events_def call_user_def revents_ok_def event_defs readv_fits_def)
  then show ?thesis using s'(1) by blast
qed

text \<open>
  A client whose connection is gone and that does not retry cannot \<open>connect\<close> again: its connector is still
  in the state \<open>kConnected\<close>, and \<open>Connector::startInLoop\<close> asserts \<open>kDisconnected\<close>.
\<close>

lemma connect_again_aborts:
  assumes "client_reach others s" and "cl_connection s = Some i" and "\<not> cl_retry s" and "client_do (ClConn i op a) s = Inr s'"
  shows "client_connect True b s' = Inl Abort"
proof -
  have st: "cn_state (cl_connector s) = CnConnected"
    using client_reach_inv [OF assms(1)] assms(2) by (auto simp: client_inv_def)
  have keep: "times_res n (client_removeConnection a i) t = Inr t' \<Longrightarrow> \<not> cl_retry t \<Longrightarrow> cl_connector t' = cl_connector t" for n t t'
    by (induction n arbitrary: t) (auto simp: client_removeConnection_def assert_res_Inr bind_res_Inr Let_def)
  have "cn_state (cl_connector s') = CnConnected"
    using assms(3,4) st by (auto simp: bind_res_Inr dest!: keep)
  then show ?thesis by (simp add: client_connect_def on_connector_def cn_start_def startInLoop_def Let_def)
qed

text \<open>Once the client is destroyed without a connection, its connector never calls it back.\<close>

lemma stopped_gives_nothing:
  assumes "\<not> cn_connect c" and "loop_op op" and "cn_do op c = Inr c'"
  shows "\<not> cn_connect c' \<and> cn_given c' = cn_given c"
proof -
  have start: "startInLoop a x = Inr y \<Longrightarrow> \<not> cn_connect x \<Longrightarrow> y = x" for a x y
    by (simp add: startInLoop_def assert_res_Inr)
  have rt: "cn_connect (retry fd x) = cn_connect x" for fd x by (simp add: retry_def sock_close_def Let_def)
  have err: "cn_handleError x = Inr y \<Longrightarrow> \<not> cn_connect x \<Longrightarrow> \<not> cn_connect y \<and> cn_given y = cn_given x" for x y
    by (auto simp: cn_handleError_def assert_res_Inr bind_res_Inr removeAndResetChannel_def rt split: option.splits)
  have wr: "cn_handleWrite e f x = Inr y \<Longrightarrow> \<not> cn_connect x \<Longrightarrow> \<not> cn_connect y \<and> cn_given y = cn_given x" for e f x y
    by (auto simp: cn_handleWrite_def assert_res_Inr bind_res_Inr removeAndResetChannel_def rt sock_close_def Let_def
        split: option.splits if_splits)
  show ?thesis
  proof (cases op)
    case (CnEvent r e f)
    then obtain x where x: "call_if (r AND (POLLERR OR POLLNVAL) \<noteq> 0) (Some cn_handleError) c = Inr x"
        "call_if (r AND POLLOUT \<noteq> 0) (Some (cn_handleWrite e f)) x = Inr c'"
      using assms(3) by (auto simp: handleEvent_def handleEventWithGuard_def cn_callbacks_def bind_res_Inr)
    have "\<not> cn_connect x \<and> cn_given x = cn_given c" using x(1) err [of c x] assms(1) by (auto simp: call_if_def split: if_splits)
    then show ?thesis using x(2) wr [of e f x c'] by (auto simp: call_if_def split: if_splits)
  next
    case (CnTimer a)
    then show ?thesis using assms(1,3) by (auto split: list.splits dest!: start)
  next
    case (CnFunctor a)
    show ?thesis
    proof (cases "cn_functors c")
      case (Cons g gs)
      then show ?thesis
        using assms(1,3) CnFunctor
        by (cases g) (auto simp: stopInLoop_def removeAndResetChannel_def resetChannel_def rt bind_res_Inr Let_def
            dest!: start split: if_splits option.splits)
    qed (use assms(1,3) CnFunctor in simp)
  qed (use assms(2) in simp_all)
qed

lemma dtor_no_callback:
  assumes "cl_connection s = None" and "TcpClient_dtor own s = Inr s'"
  shows "\<not> cn_connect (cl_connector s') \<and> cn_given (cl_connector s') = cn_given (cl_connector s)"
proof -
  obtain c where c: "cn_stop own (cl_connector s) = Inr c" "cl_connector s' = c"
    using assms by (auto simp: TcpClient_dtor_def on_connector_def bind_res_Inr)
  have "\<not> cn_connect c"
    using c(1) by (auto simp: cn_stop_def stopInLoop_def removeAndResetChannel_def retry_def sock_close_def bind_res_Inr Let_def
        split: if_splits option.splits)
  then show ?thesis using stop_keeps [OF c(1)] c(2) by simp
qed

end
