(* ===== verification/Monitors.thy ===== *)
theory Monitors imports Prelude "HOL-Library.Sublist" begin

text \<open>
  \<open>muduo/base/Condition.h\<close>, \<open>BlockingQueue.h\<close>, \<open>BoundedBlockingQueue.h\<close>, \<open>CountDownLatch.cc\<close> and
  \<open>ThreadPool.cc\<close>: threads that share a queue under a mutex.  A step is what a thread does between two
  moments at which it does not hold the mutex; a thread in \<open>Condition::wait\<close> is either \<open>waiting\<close> or
  \<open>woken\<close>, that is, it was signalled (or woke up for no reason) and still has to get the mutex back.

  The interface \<open>wakeups\<close> states what the code does to keep a thread from waiting for something that is
  there; it is interpreted on all of these classes.
\<close>

subsection \<open>Condition variables\<close>

record cond =
  waiting :: "nat list"
  woken :: "nat list"

definition cond_new :: cond where
  "cond_new = \<lparr>waiting = [], woken = []\<rparr>"

definition cond_wait :: "nat \<Rightarrow> cond \<Rightarrow> cond" where
  "cond_wait t c = c\<lparr>waiting := waiting c @ [t]\<rparr>"

text \<open>\<open>pthread_cond_signal\<close> wakes some thread if one waits; \<open>k\<close> says which.\<close>

definition notify :: "nat \<Rightarrow> cond \<Rightarrow> cond" where
  "notify k c =
     (if waiting c = [] then c
      else let t = waiting c ! (k mod length (waiting c)) in
           c\<lparr>waiting := remove1 t (waiting c), woken := woken c @ [t]\<rparr>)"

definition notifyAll :: "cond \<Rightarrow> cond" where
  "notifyAll c = c\<lparr>waiting := [], woken := woken c @ waiting c\<rparr>"

text \<open>A thread returns from the wait for no reason.\<close>

definition spurious :: "nat \<Rightarrow> cond \<Rightarrow> cond" where
  "spurious t c = (if t \<in> set (waiting c) then c\<lparr>waiting := remove1 t (waiting c), woken := woken c @ [t]\<rparr> else c)"

text \<open>A woken thread has the mutex again.\<close>

definition resumed :: "nat \<Rightarrow> cond \<Rightarrow> cond" where
  "resumed t c = c\<lparr>woken := remove1 t (woken c)\<rparr>"

lemma waiting_simps [simp]:
  "waiting cond_new = []" "waiting (cond_wait t c) = waiting c @ [t]" "waiting (notifyAll c) = []"
  "waiting (resumed t c) = waiting c"
  by (simp_all add: cond_new_def cond_wait_def notifyAll_def resumed_def)

lemma woken_simps [simp]:
  "woken cond_new = []" "woken (cond_wait t c) = woken c" "woken (notifyAll c) = woken c @ waiting c"
  "woken (resumed t c) = remove1 t (woken c)"
  by (simp_all add: cond_new_def cond_wait_def notifyAll_def resumed_def)

lemma notify_one: "waiting c \<noteq> [] \<Longrightarrow> length (woken (notify k c)) = Suc (length (woken c))"
  by (simp add: notify_def Let_def)

lemma notify_none [simp]: "waiting c = [] \<Longrightarrow> notify k c = c"
  by (simp add: notify_def)

lemma spurious_more: "length (woken c) \<le> length (woken (spurious t c))"
  by (simp add: spurious_def)

lemma waiting_before: "waiting (notify k c) \<noteq> [] \<Longrightarrow> waiting c \<noteq> []" "waiting (spurious t c) \<noteq> [] \<Longrightarrow> waiting c \<noteq> []"
  by (auto simp: spurious_def split: if_splits)

lemma length_resumed: "t \<in> set (woken c) \<Longrightarrow> Suc (length (remove1 t (woken c))) = length (woken c)"
  using length_pos_if_in_set [of t "woken c"] by (simp add: length_remove1)

subsection \<open>The interface\<close>

text \<open>
  \<open>avail\<close>: how much there is of what the threads on the condition wait for.  Each step leaves nobody
  waiting, or leaves nothing, or wakes a thread for what it adds and takes a unit for each wake-up it
  uses.
\<close>

locale wakeups =
  fixes init :: "'s \<Rightarrow> bool" and step :: "'s \<Rightarrow> 's \<Rightarrow> bool" and avail :: "'s \<Rightarrow> nat" and cnd :: "'s \<Rightarrow> cond"
  assumes init_none: "init s \<Longrightarrow> waiting (cnd s) = []"
    and step_wakes: "step s s' \<Longrightarrow> waiting (cnd s') = [] \<or> avail s' = 0 \<or>
      waiting (cnd s) \<noteq> [] \<and> avail s' + length (woken (cnd s)) \<le> avail s + length (woken (cnd s'))"
begin

lemma enough_woken:
  "step\<^sup>*\<^sup>* s0 s \<Longrightarrow> init s0 \<Longrightarrow> waiting (cnd s) \<noteq> [] \<Longrightarrow> avail s \<le> length (woken (cnd s))"
proof (induction rule: rtranclp_induct)
  case base
  then show ?case using init_none by simp
next
  case (step s s')
  consider "avail s' = 0"
    | "waiting (cnd s) \<noteq> []" "avail s' + length (woken (cnd s)) \<le> avail s + length (woken (cnd s'))"
    using step_wakes [OF step.hyps(2)] step.prems by auto
  then show ?case
  proof cases
    case 2
    then have "avail s \<le> length (woken (cnd s))" using step.IH step.prems by simp
    then show ?thesis using 2(2) by linarith
  qed simp
qed

lemma none_waits_in_vain:
  assumes "step\<^sup>*\<^sup>* s0 s" and "init s0" and "woken (cnd s) = []" and "waiting (cnd s) \<noteq> []"
  shows "avail s = 0"
  using enough_woken [OF assms(1,2,4)] assms(3) by simp

end

subsection \<open>BlockingQueue\<close>

text \<open>\<open>bq_puts\<close> and \<open>bq_takes\<close> record what was put and what \<open>take\<close> returned, in order.\<close>

record 'a blocking_queue =
  bq_queue :: "'a list"
  bq_notEmpty :: cond
  bq_puts :: "'a list"
  bq_takes :: "'a list"

definition BlockingQueue_new :: "'a blocking_queue" where
  "BlockingQueue_new = \<lparr>bq_queue = [], bq_notEmpty = cond_new, bq_puts = [], bq_takes = []\<rparr>"

definition bq_put :: "nat \<Rightarrow> 'a \<Rightarrow> 'a blocking_queue \<Rightarrow> 'a blocking_queue" where
  "bq_put k x q = q\<lparr>bq_queue := bq_queue q @ [x], bq_notEmpty := notify k (bq_notEmpty q), bq_puts := bq_puts q @ [x]\<rparr>"

text \<open>Thread \<open>t\<close> at the head of the loop of \<open>take\<close>, holding the mutex.\<close>

definition bq_take :: "nat \<Rightarrow> 'a blocking_queue \<Rightarrow> 'a blocking_queue" where
  "bq_take t q =
     (case bq_queue q of
        [] \<Rightarrow> q\<lparr>bq_notEmpty := cond_wait t (bq_notEmpty q)\<rparr>
      | front # rest \<Rightarrow> q\<lparr>bq_queue := rest, bq_takes := bq_takes q @ [front]\<rparr>)"

definition bq_size :: "'a blocking_queue \<Rightarrow> nat" where
  "bq_size q = length (bq_queue q)"

inductive bq_step :: "'a blocking_queue \<Rightarrow> 'a blocking_queue \<Rightarrow> bool" where
  bq_puts: "bq_step q (bq_put k x q)"
| bq_takes: "bq_step q (bq_take t q)"
| bq_wakes: "t \<in> set (woken (bq_notEmpty q)) \<Longrightarrow>
    bq_step q (bq_take t (q\<lparr>bq_notEmpty := resumed t (bq_notEmpty q)\<rparr>))"
| bq_spurious: "bq_step q (q\<lparr>bq_notEmpty := spurious t (bq_notEmpty q)\<rparr>)"

interpretation bq: wakeups "\<lambda>q. q = BlockingQueue_new" bq_step "\<lambda>q. length (bq_queue q)" bq_notEmpty
proof unfold_locales
  fix q :: "'a blocking_queue"
  assume "q = BlockingQueue_new"
  then show "waiting (bq_notEmpty q) = []" by (simp add: BlockingQueue_new_def)
next
  fix q q' :: "'a blocking_queue"
  assume "bq_step q q'"
  then show "waiting (bq_notEmpty q') = [] \<or> length (bq_queue q') = 0 \<or> waiting (bq_notEmpty q) \<noteq> [] \<and>
      length (bq_queue q') + length (woken (bq_notEmpty q)) \<le> length (bq_queue q) + length (woken (bq_notEmpty q'))"
  proof cases
    case (bq_puts k x)
    then show ?thesis using notify_one [of "bq_notEmpty q" k] by (cases "waiting (bq_notEmpty q) = []") (simp_all add: bq_put_def)
  next
    case (bq_takes t)
    then show ?thesis by (cases "waiting (bq_notEmpty q) = []"; cases "bq_queue q"; simp add: bq_take_def)
  next
    case (bq_wakes t)
    then show ?thesis using length_resumed [OF bq_wakes(2)] by (cases "waiting (bq_notEmpty q) = []"; cases "bq_queue q"; simp add: bq_take_def)
  next
    case (bq_spurious t)
    then show ?thesis using spurious_more [of "bq_notEmpty q" t] waiting_before(2) [of t "bq_notEmpty q"] by auto
  qed
qed


lemma bq_fifo: "bq_step\<^sup>*\<^sup>* BlockingQueue_new q \<Longrightarrow> bq_puts q = bq_takes q @ bq_queue q"
proof (induction rule: rtranclp_induct)
  case base
  then show ?case by (simp add: BlockingQueue_new_def)
next
  case (step q q')
  from step.hyps(2) show ?case
    by cases (use step.IH in \<open>auto simp: bq_put_def bq_take_def split: list.splits\<close>)
qed

subsection \<open>BoundedBlockingQueue\<close>

text \<open>
  The circular buffer as the list of its elements; \<open>push_back\<close> on a full one would overwrite the
  oldest element.  \<open>bbq_pending\<close> are the values of the threads that wait in \<open>put\<close>.
\<close>

record 'a bounded_queue =
  bbq_capacity :: nat
  bbq_queue :: "'a list"
  bbq_notEmpty :: cond
  bbq_notFull :: cond
  bbq_pending :: "nat \<Rightarrow> 'a option"
  bbq_puts :: "'a list"
  bbq_takes :: "'a list"

definition BoundedBlockingQueue_new :: "nat \<Rightarrow> 'a bounded_queue" where
  "BoundedBlockingQueue_new maxSize = \<lparr>bbq_capacity = maxSize, bbq_queue = [], bbq_notEmpty = cond_new,
     bbq_notFull = cond_new, bbq_pending = Map.empty, bbq_puts = [], bbq_takes = []\<rparr>"

definition circular_push_back :: "nat \<Rightarrow> 'a \<Rightarrow> 'a list \<Rightarrow> 'a list" where
  "circular_push_back n x xs = (if n = 0 then xs else if length xs = n then tl xs @ [x] else xs @ [x])"

definition bbq_full :: "'a bounded_queue \<Rightarrow> bool" where
  "bbq_full q \<longleftrightarrow> length (bbq_queue q) = bbq_capacity q"

definition bbq_empty :: "'a bounded_queue \<Rightarrow> bool" where
  "bbq_empty q \<longleftrightarrow> bbq_queue q = []"

text \<open>Thread \<open>t\<close> at the head of the loop of \<open>put\<close>, and of \<open>take\<close>, holding the mutex.\<close>

definition bbq_put :: "nat \<Rightarrow> nat \<Rightarrow> 'a \<Rightarrow> 'a bounded_queue \<Rightarrow> 'a bounded_queue" where
  "bbq_put k t x q =
     (if bbq_full q then q\<lparr>bbq_notFull := cond_wait t (bbq_notFull q), bbq_pending := (bbq_pending q)(t \<mapsto> x)\<rparr>
      else q\<lparr>bbq_queue := circular_push_back (bbq_capacity q) x (bbq_queue q),
             bbq_notEmpty := notify k (bbq_notEmpty q), bbq_puts := bbq_puts q @ [x]\<rparr>)"

definition bbq_take :: "nat \<Rightarrow> nat \<Rightarrow> 'a bounded_queue \<Rightarrow> 'a bounded_queue" where
  "bbq_take k t q =
     (case bbq_queue q of
        [] \<Rightarrow> q\<lparr>bbq_notEmpty := cond_wait t (bbq_notEmpty q)\<rparr>
      | front # rest \<Rightarrow> q\<lparr>bbq_queue := rest, bbq_takes := bbq_takes q @ [front],
                        bbq_notFull := notify k (bbq_notFull q)\<rparr>)"

inductive bbq_step :: "'a bounded_queue \<Rightarrow> 'a bounded_queue \<Rightarrow> bool" where
  bbq_puts: "bbq_step q (bbq_put k t x q)"
| bbq_put_wakes: "t \<in> set (woken (bbq_notFull q)) \<Longrightarrow> bbq_pending q t = Some x \<Longrightarrow>
    bbq_step q (bbq_put k t x (q\<lparr>bbq_notFull := resumed t (bbq_notFull q), bbq_pending := (bbq_pending q)(t := None)\<rparr>))"
| bbq_takes: "bbq_step q (bbq_take k t q)"
| bbq_take_wakes: "t \<in> set (woken (bbq_notEmpty q)) \<Longrightarrow>
    bbq_step q (bbq_take k t (q\<lparr>bbq_notEmpty := resumed t (bbq_notEmpty q)\<rparr>))"
| bbq_put_spurious: "bbq_step q (q\<lparr>bbq_notFull := spurious t (bbq_notFull q)\<rparr>)"
| bbq_take_spurious: "bbq_step q (q\<lparr>bbq_notEmpty := spurious t (bbq_notEmpty q)\<rparr>)"

text \<open>What a \<open>notify\<close> does to the count of the woken, in the form the interface asks for.\<close>

lemma notify_gives:
  "waiting (notify k c) = [] \<or> n = 0 \<or> waiting c \<noteq> [] \<and> Suc m + length (woken c) \<le> m + length (woken (notify k c))"
  using notify_one [of c k] by (cases "waiting c = []") simp_all

interpretation bbq_not_empty: wakeups "\<lambda>q. \<exists>n. q = BoundedBlockingQueue_new n" bbq_step "\<lambda>q. length (bbq_queue q)" bbq_notEmpty
proof unfold_locales
  fix q :: "'a bounded_queue"
  assume "\<exists>n. q = BoundedBlockingQueue_new n"
  then show "waiting (bbq_notEmpty q) = []" by (auto simp: BoundedBlockingQueue_new_def)
next
  fix q q' :: "'a bounded_queue"
  let ?c = "bbq_notEmpty q"
  have put: "waiting (bbq_notEmpty (bbq_put k t x p)) = [] \<or> length (bbq_queue (bbq_put k t x p)) = 0 \<or> waiting (bbq_notEmpty p) \<noteq> [] \<and>
      length (bbq_queue (bbq_put k t x p)) + length (woken (bbq_notEmpty p)) \<le>
        length (bbq_queue p) + length (woken (bbq_notEmpty (bbq_put k t x p)))" for k t x and p :: "'a bounded_queue"
    using notify_one [of "bbq_notEmpty p" k]
    by (cases "waiting (bbq_notEmpty p) = []"; cases "bbq_full p"; simp add: bbq_put_def circular_push_back_def bbq_full_def)
  assume "bbq_step q q'"
  then show "waiting (bbq_notEmpty q') = [] \<or> length (bbq_queue q') = 0 \<or> waiting ?c \<noteq> [] \<and>
      length (bbq_queue q') + length (woken ?c) \<le> length (bbq_queue q) + length (woken (bbq_notEmpty q'))"
  proof cases
    case (bbq_puts k t x)
    then show ?thesis using put [of k t x q] by simp
  next
    case (bbq_put_wakes t x k)
    then show ?thesis
      using put [of k t x "q\<lparr>bbq_notFull := resumed t (bbq_notFull q), bbq_pending := (bbq_pending q)(t := None)\<rparr>"] by simp
  next
    case (bbq_takes k t)
    then show ?thesis by (cases "waiting ?c = []"; cases "bbq_queue q"; simp add: bbq_take_def)
  next
    case (bbq_take_wakes t k)
    then show ?thesis using length_resumed [OF bbq_take_wakes(2)]
      by (cases "waiting ?c = []"; cases "bbq_queue q"; simp add: bbq_take_def)
  next
    case (bbq_put_spurious t)
    then show ?thesis by (cases "waiting ?c = []") simp_all
  next
    case (bbq_take_spurious t)
    then show ?thesis using spurious_more [of ?c t] waiting_before(2) [of t ?c] by auto
  qed
qed


interpretation bbq_not_full: wakeups "\<lambda>q. \<exists>n. q = BoundedBlockingQueue_new n" bbq_step
  "\<lambda>q. bbq_capacity q - length (bbq_queue q)" bbq_notFull
proof unfold_locales
  fix q :: "'a bounded_queue"
  assume "\<exists>n. q = BoundedBlockingQueue_new n"
  then show "waiting (bbq_notFull q) = []" by (auto simp: BoundedBlockingQueue_new_def)
next
  fix q q' :: "'a bounded_queue"
  let ?c = "bbq_notFull q"
  have take: "waiting (bbq_notFull (bbq_take k t p)) = [] \<or>
      bbq_capacity (bbq_take k t p) - length (bbq_queue (bbq_take k t p)) = 0 \<or> waiting (bbq_notFull p) \<noteq> [] \<and>
      bbq_capacity (bbq_take k t p) - length (bbq_queue (bbq_take k t p)) + length (woken (bbq_notFull p)) \<le>
        bbq_capacity p - length (bbq_queue p) + length (woken (bbq_notFull (bbq_take k t p)))" for k t and p :: "'a bounded_queue"
    using notify_one [of "bbq_notFull p" k]
    by (cases "waiting (bbq_notFull p) = []"; cases "bbq_queue p"; simp add: bbq_take_def; arith)
  assume "bbq_step q q'"
  then show "waiting (bbq_notFull q') = [] \<or> bbq_capacity q' - length (bbq_queue q') = 0 \<or> waiting ?c \<noteq> [] \<and>
      bbq_capacity q' - length (bbq_queue q') + length (woken ?c) \<le>
        bbq_capacity q - length (bbq_queue q) + length (woken (bbq_notFull q'))"
  proof cases
    case (bbq_puts k t x)
    then show ?thesis
      by (cases "waiting ?c = []"; cases "bbq_full q"; simp add: bbq_put_def circular_push_back_def bbq_full_def; arith)
  next
    case (bbq_put_wakes t x k)
    then show ?thesis using length_resumed [OF bbq_put_wakes(2)]
      by (cases "waiting ?c = []"; cases "bbq_full q"; simp add: bbq_put_def circular_push_back_def bbq_full_def; arith)
  next
    case (bbq_takes k t)
    then show ?thesis using take [of k t q] by simp
  next
    case (bbq_take_wakes t k)
    then show ?thesis using take [of k t "q\<lparr>bbq_notEmpty := resumed t (bbq_notEmpty q)\<rparr>"] by simp
  next
    case (bbq_put_spurious t)
    then show ?thesis using spurious_more [of ?c t] waiting_before(2) [of t ?c] by auto
  next
    case (bbq_take_spurious t)
    then show ?thesis by (cases "waiting ?c = []") simp_all
  qed
qed

lemma bbq_fifo:
  "bbq_step\<^sup>*\<^sup>* (BoundedBlockingQueue_new n) q \<Longrightarrow>
     bbq_puts q = bbq_takes q @ bbq_queue q \<and> length (bbq_queue q) \<le> n \<and> bbq_capacity q = n"
proof (induction rule: rtranclp_induct)
  case base
  then show ?case by (simp add: BoundedBlockingQueue_new_def)
next
  case (step q q')
  have put: "bbq_puts (bbq_put k t x p) = bbq_takes (bbq_put k t x p) @ bbq_queue (bbq_put k t x p) \<and>
      length (bbq_queue (bbq_put k t x p)) \<le> n \<and> bbq_capacity (bbq_put k t x p) = n"
    if "bbq_puts p = bbq_takes p @ bbq_queue p" "length (bbq_queue p) \<le> n" "bbq_capacity p = n" for k t x and p :: "'a bounded_queue"
    using that by (cases "bbq_full p") (auto simp: bbq_put_def bbq_full_def circular_push_back_def)
  have take: "bbq_puts (bbq_take k t p) = bbq_takes (bbq_take k t p) @ bbq_queue (bbq_take k t p) \<and>
      length (bbq_queue (bbq_take k t p)) \<le> n \<and> bbq_capacity (bbq_take k t p) = n"
    if "bbq_puts p = bbq_takes p @ bbq_queue p" "length (bbq_queue p) \<le> n" "bbq_capacity p = n" for k t and p :: "'a bounded_queue"
    using that by (cases "bbq_queue p") (auto simp: bbq_take_def)
  from step.hyps(2) show ?case
    by cases (use step.IH put take in \<open>simp_all\<close>)
qed


subsection \<open>CountDownLatch\<close>

record latch =
  la_count :: int
  la_condition :: cond
  la_passed :: "nat list"

definition CountDownLatch_new :: "int \<Rightarrow> latch" where
  "CountDownLatch_new n = \<lparr>la_count = n, la_condition = cond_new, la_passed = []\<rparr>"

text \<open>Thread \<open>t\<close> at the head of the loop of \<open>wait\<close>.\<close>

definition latch_wait :: "nat \<Rightarrow> latch \<Rightarrow> latch" where
  "latch_wait t l =
     (if la_count l > 0 then l\<lparr>la_condition := cond_wait t (la_condition l)\<rparr>
      else l\<lparr>la_passed := la_passed l @ [t]\<rparr>)"

definition countDown :: "latch \<Rightarrow> latch" where
  "countDown l =
     (let l = l\<lparr>la_count := la_count l - 1\<rparr> in
      if la_count l = 0 then l\<lparr>la_condition := notifyAll (la_condition l)\<rparr> else l)"

inductive latch_step :: "latch \<Rightarrow> latch \<Rightarrow> bool" where
  latch_waits: "latch_step l (latch_wait t l)"
| latch_wakes: "t \<in> set (woken (la_condition l)) \<Longrightarrow>
    latch_step l (latch_wait t (l\<lparr>la_condition := resumed t (la_condition l)\<rparr>))"
| latch_downs: "latch_step l (countDown l)"
| latch_spurious: "latch_step l (l\<lparr>la_condition := spurious t (la_condition l)\<rparr>)"

lemma latch_steps:
  "latch_step\<^sup>*\<^sup>* (CountDownLatch_new n) l \<Longrightarrow>
     (waiting (la_condition l) \<noteq> [] \<longrightarrow> 0 < la_count l) \<and> (la_passed l \<noteq> [] \<longrightarrow> la_count l \<le> 0) \<and> la_count l \<le> n"
proof (induction rule: rtranclp_induct)
  case base
  then show ?case by (simp add: CountDownLatch_new_def)
next
  case (step l l')
  from step.hyps(2) show ?case
  proof cases
    case (latch_waits t)
    then show ?thesis using step.IH by (auto simp: latch_wait_def)
  next
    case (latch_wakes t)
    then show ?thesis using step.IH by (auto simp: latch_wait_def)
  next
    case latch_downs
    then show ?thesis using step.IH by (auto simp: countDown_def Let_def)
  next
    case (latch_spurious t)
    then show ?thesis using step.IH waiting_before(2) [of t "la_condition l"] by auto
  qed
qed

subsection \<open>ThreadPool\<close>

text \<open>
  Where a thread of the pool is: about to read \<open>running_\<close>, about to lock the mutex in \<open>take\<close>, waiting
  (in \<open>po_cond\<close>), running a task, or gone.  \<open>po_given\<close> are the tasks queued by \<open>run\<close>, \<open>po_taken\<close>
  those handed to a thread.
\<close>

datatype 'a pool_at = PTop | PTake | PWait | PTask 'a | PExited

record 'a thread_pool =
  po_queue :: "'a list"
  po_running :: bool
  po_cond :: cond
  po_threads :: "'a pool_at list"
  po_given :: "'a list"
  po_taken :: "'a list"

definition pool_start :: "nat \<Rightarrow> 'a thread_pool" where
  "pool_start numThreads = \<lparr>po_queue = [], po_running = True, po_cond = cond_new,
     po_threads = replicate numThreads PTop, po_given = [], po_taken = []\<rparr>"

text \<open>Without threads the task runs at once, in the calling thread.\<close>

definition pool_run :: "nat \<Rightarrow> 'a \<Rightarrow> 'a thread_pool \<Rightarrow> 'a thread_pool" where
  "pool_run k task p =
     (if po_threads p = [] then p\<lparr>po_given := po_given p @ [task], po_taken := po_taken p @ [task]\<rparr>
      else p\<lparr>po_queue := po_queue p @ [task], po_cond := notify k (po_cond p), po_given := po_given p @ [task]\<rparr>)"

definition pool_stop :: "'a thread_pool \<Rightarrow> 'a thread_pool" where
  "pool_stop p = p\<lparr>po_running := False, po_cond := notifyAll (po_cond p)\<rparr>"

definition po_goes :: "nat \<Rightarrow> 'a pool_at \<Rightarrow> 'a thread_pool \<Rightarrow> 'a thread_pool" where
  "po_goes t at p = p\<lparr>po_threads := (po_threads p)[t := at]\<rparr>"

text \<open>Thread \<open>t\<close> at the head of the loop of \<open>take\<close>, holding the mutex; an empty task goes back to the top.\<close>

definition pool_take :: "nat \<Rightarrow> 'a thread_pool \<Rightarrow> 'a thread_pool" where
  "pool_take t p =
     (case po_queue p of
        [] \<Rightarrow> if po_running p then po_goes t PWait (p\<lparr>po_cond := cond_wait t (po_cond p)\<rparr>) else po_goes t PTop p
      | task # rest \<Rightarrow> po_goes t (PTask task) (p\<lparr>po_queue := rest, po_taken := po_taken p @ [task]\<rparr>))"

inductive pool_thread :: "nat \<Rightarrow> 'a thread_pool \<Rightarrow> 'a thread_pool \<Rightarrow> bool" where
  po_top: "t < length (po_threads p) \<Longrightarrow> po_threads p ! t = PTop \<Longrightarrow>
    pool_thread t p (po_goes t (if po_running p then PTake else PExited) p)"
| po_takes: "t < length (po_threads p) \<Longrightarrow> po_threads p ! t = PTake \<Longrightarrow> pool_thread t p (pool_take t p)"
| po_wakes: "t < length (po_threads p) \<Longrightarrow> t \<in> set (woken (po_cond p)) \<Longrightarrow>
    pool_thread t p (pool_take t (p\<lparr>po_cond := resumed t (po_cond p)\<rparr>))"
| po_done: "t < length (po_threads p) \<Longrightarrow> po_threads p ! t = PTask task \<Longrightarrow> pool_thread t p (po_goes t PTop p)"

inductive pool_step :: "'a thread_pool \<Rightarrow> 'a thread_pool \<Rightarrow> bool" where
  po_thread: "pool_thread t p p' \<Longrightarrow> pool_step p p'"
| po_run: "pool_step p (pool_run k task p)"
| po_stop: "pool_step p (pool_stop p)"
| po_spurious: "pool_step p (p\<lparr>po_cond := spurious t (po_cond p)\<rparr>)"

lemma po_goes_simps [simp]:
  "po_queue (po_goes t a p) = po_queue p" "po_running (po_goes t a p) = po_running p" "po_cond (po_goes t a p) = po_cond p"
  "po_given (po_goes t a p) = po_given p" "po_taken (po_goes t a p) = po_taken p"
  "po_threads (po_goes t a p) = (po_threads p)[t := a]"
  by (simp_all add: po_goes_def)

interpretation pool: wakeups "\<lambda>p. \<exists>n. p = pool_start n" pool_step "\<lambda>p. length (po_queue p)" po_cond
proof unfold_locales
  fix p :: "'a thread_pool"
  assume "\<exists>n. p = pool_start n"
  then show "waiting (po_cond p) = []" by (auto simp: pool_start_def)
next
  fix p p' :: "'a thread_pool"
  let ?c = "po_cond p"
  assume "pool_step p p'"
  then show "waiting (po_cond p') = [] \<or> length (po_queue p') = 0 \<or> waiting ?c \<noteq> [] \<and>
      length (po_queue p') + length (woken ?c) \<le> length (po_queue p) + length (woken (po_cond p'))"
  proof cases
    case (po_thread t)
    then show ?thesis
    proof cases
      case po_top
      then show ?thesis by (cases "waiting ?c = []") simp_all
    next
      case po_takes
      then show ?thesis by (cases "waiting ?c = []"; cases "po_queue p"; simp add: pool_take_def)
    next
      case po_wakes
      then show ?thesis using length_resumed [OF po_wakes(3)]
        by (cases "waiting ?c = []"; cases "po_queue p"; simp add: pool_take_def)
    next
      case (po_done task)
      then show ?thesis by (cases "waiting ?c = []") simp_all
    qed
  next
    case (po_run k task)
    then show ?thesis using notify_one [of ?c k]
      by (cases "waiting ?c = []"; cases "po_threads p = []"; simp add: pool_run_def)
  next
    case po_stop
    then show ?thesis by (simp add: pool_stop_def)
  next
    case (po_spurious t)
    then show ?thesis using spurious_more [of ?c t] waiting_before(2) [of t ?c] by auto
  qed
qed


definition tasks_inv :: "'a thread_pool \<Rightarrow> bool" where
  "tasks_inv p \<longleftrightarrow> po_given p = po_taken p @ po_queue p \<and> (\<not> po_running p \<longrightarrow> waiting (po_cond p) = []) \<and>
     distinct (waiting (po_cond p) @ woken (po_cond p)) \<and> (po_threads p = [] \<longrightarrow> po_queue p = []) \<and>
     (\<forall>t < length (po_threads p). po_threads p ! t = PWait \<longleftrightarrow> t \<in> set (waiting (po_cond p) @ woken (po_cond p))) \<and>
     (\<forall>t \<in> set (waiting (po_cond p) @ woken (po_cond p)). t < length (po_threads p))"

lemma cond_sets:
  "set (waiting (notify k c) @ woken (notify k c)) = set (waiting c @ woken c)"
  "set (waiting (spurious t c) @ woken (spurious t c)) = set (waiting c @ woken c)"
  "distinct (waiting c @ woken c) \<Longrightarrow> distinct (waiting (notify k c) @ woken (notify k c))"
  "distinct (waiting c @ woken c) \<Longrightarrow> distinct (waiting (spurious t c) @ woken (spurious t c))"
proof -
  have "insert t (set (remove1 t xs)) = set xs" if "t \<in> set xs" for t :: nat and xs
    using that by (induction xs) auto
  then have move: "set (remove1 t xs @ ys @ [t]) = set (xs @ ys)" if "t \<in> set xs" for t :: nat and xs ys
    using that by auto
  show "set (waiting (notify k c) @ woken (notify k c)) = set (waiting c @ woken c)"
    using move by (simp add: notify_def Let_def)
  show "set (waiting (spurious t c) @ woken (spurious t c)) = set (waiting c @ woken c)"
    using move by (simp add: spurious_def)
  assume d: "distinct (waiting c @ woken c)"
  show "distinct (waiting (notify k c) @ woken (notify k c))"
  proof (cases "waiting c = []")
    case False
    then have "waiting c ! (k mod length (waiting c)) \<in> set (waiting c)" by simp
    then have "waiting c ! (k mod length (waiting c)) \<notin> set (woken c)" using d by auto
    then show ?thesis using d by (auto simp: notify_def Let_def)
  qed (use d in simp)
  show "distinct (waiting (spurious t c) @ woken (spurious t c))"
    using d by (auto simp: spurious_def)
qed


lemma pool_take_inv:
  assumes "tasks_inv p" and "t < length (po_threads p)" and "po_threads p ! t = PTake"
  shows "tasks_inv (pool_take t p)"
proof (cases "po_queue p")
  case Nil
  have "t \<notin> set (waiting (po_cond p) @ woken (po_cond p))" using assms by (auto simp: tasks_inv_def)
  then show ?thesis using assms Nil by (auto simp: tasks_inv_def pool_take_def nth_list_update)
next
  case (Cons task rest)
  have "t \<notin> set (waiting (po_cond p) @ woken (po_cond p))" using assms by (auto simp: tasks_inv_def)
  then show ?thesis using assms Cons by (auto simp: tasks_inv_def pool_take_def nth_list_update)
qed

lemma pool_wake_inv:
  assumes "tasks_inv p" and "t \<in> set (woken (po_cond p))"
  shows "tasks_inv (pool_take t (p\<lparr>po_cond := resumed t (po_cond p)\<rparr>))"
proof -
  let ?p = "po_goes t PTake (p\<lparr>po_cond := resumed t (po_cond p)\<rparr>)"
  have t: "t < length (po_threads p)" using assms by (auto simp: tasks_inv_def)
  have "distinct (woken (po_cond p))" "t \<notin> set (waiting (po_cond p))" using assms by (auto simp: tasks_inv_def)
  then have "tasks_inv ?p"
    using assms t by (auto simp: tasks_inv_def nth_list_update distinct_remove1)
  then have "tasks_inv (pool_take t ?p)" by (rule pool_take_inv) (use t in simp_all)
  moreover have "pool_take t ?p = pool_take t (p\<lparr>po_cond := resumed t (po_cond p)\<rparr>)"
    by (simp add: pool_take_def po_goes_def split: list.splits)
  ultimately show ?thesis by simp
qed

lemma pool_step_inv:
  assumes "tasks_inv p" and "pool_step p p'"
  shows "tasks_inv p'"
  using assms(2)
proof cases
  case (po_thread t)
  then show ?thesis
  proof cases
    case po_top
    have "t \<notin> set (waiting (po_cond p) @ woken (po_cond p))" using assms(1) po_top by (auto simp: tasks_inv_def)
    then show ?thesis using assms(1) po_top by (auto simp: tasks_inv_def nth_list_update)
  next
    case po_takes
    then show ?thesis using pool_take_inv assms(1) by simp
  next
    case po_wakes
    then show ?thesis using pool_wake_inv assms(1) by simp
  next
    case (po_done task)
    have "t \<notin> set (waiting (po_cond p) @ woken (po_cond p))" using assms(1) po_done by (auto simp: tasks_inv_def)
    then show ?thesis using assms(1) po_done by (auto simp: tasks_inv_def nth_list_update)
  qed
next
  case (po_run k task)
  let ?c = "po_cond p"
  have "\<not> po_running p \<Longrightarrow> waiting (notify k ?c) = []" using assms(1) by (simp add: tasks_inv_def)
  then show ?thesis
    using assms(1) po_run cond_sets(1,3) [where k = k and c = ?c] unfolding tasks_inv_def pool_run_def by auto
next
  case po_stop
  then show ?thesis using assms(1) by (auto simp: tasks_inv_def pool_stop_def)
next
  case (po_spurious t)
  have "\<not> po_running p \<Longrightarrow> waiting (spurious t (po_cond p)) = []" using assms(1) by (simp add: tasks_inv_def spurious_def)
  then show ?thesis using assms(1) po_spurious cond_sets(2,4) [where t = t and c = "po_cond p"] unfolding tasks_inv_def by simp
qed


lemma pool_reach_inv: "pool_step\<^sup>*\<^sup>* (pool_start n) p \<Longrightarrow> tasks_inv p"
proof (induction rule: rtranclp_induct)
  case base
  then show ?case by (simp add: tasks_inv_def pool_start_def)
next
  case (step p p')
  then show ?case using pool_step_inv by blast
qed

text \<open>How much a thread can still do once the pool is stopped.\<close>

fun pool_rank :: "'a pool_at \<Rightarrow> nat" where
  "pool_rank PExited = 0"
| "pool_rank PTop = 1"
| "pool_rank (PTask task) = 2"
| "pool_rank PTake = 3"
| "pool_rank PWait = 3"

definition pool_work :: "'a thread_pool \<Rightarrow> nat" where
  "pool_work p = sum_list (map pool_rank (po_threads p))"

lemma pool_work_goes:
  assumes "t < length (po_threads p)" and "pool_rank a < pool_rank (po_threads p ! t)"
  shows "pool_work (po_goes t a p) < pool_work p"
proof -
  have "pool_rank (po_threads p ! t) \<le> sum_list (map pool_rank (po_threads p))"
    using assms(1) by (intro member_le_sum_list) simp_all
  then show ?thesis
    using assms by (simp add: pool_work_def map_update sum_list_update)
qed

lemma pool_thread_works:
  assumes "tasks_inv p" and "\<not> po_running p" and "pool_thread t p p'"
  shows "pool_work p' < pool_work p \<and> \<not> po_running p'"
  using assms(3)
proof cases
  case po_top
  then show ?thesis using assms(2) pool_work_goes [of t p PExited] by simp
next
  case po_takes
  then show ?thesis using assms(2) pool_work_goes [of t p PTop] pool_work_goes [of t p]
    by (auto simp: pool_take_def pool_work_def split: list.splits)
next
  case po_wakes
  then have "po_threads p ! t = PWait" using assms(1) by (auto simp: tasks_inv_def)
  then show ?thesis using po_wakes assms(2) pool_work_goes [of t p PTop] pool_work_goes [of t p]
    by (auto simp: pool_take_def pool_work_def split: list.splits)
next
  case (po_done task)
  then show ?thesis using assms(2) pool_work_goes [of t p PTop] by simp
qed

subsection \<open>Properties\<close>

text \<open>
  The blocking queues hand over every element once and in the order it was put in; a bounded queue
  never holds more than its capacity, and so never overwrites an element that nobody has taken.
\<close>

theorem bounded_queue_fifo:
  assumes "bbq_step\<^sup>*\<^sup>* (BoundedBlockingQueue_new n) q"
  shows "bbq_puts q = bbq_takes q @ bbq_queue q \<and> length (bbq_queue q) \<le> n"
  using bbq_fifo [OF assms] by simp

text \<open>A queue for one element that is full, and a second thread that waits to put its own.\<close>

definition demo_bounded :: "nat bounded_queue" where
  "demo_bounded = (BoundedBlockingQueue_new 1)\<lparr>bbq_queue := [7], bbq_puts := [7],
     bbq_notFull := \<lparr>waiting = [2], woken = []\<rparr>, bbq_pending := [2 \<mapsto> 8]\<rparr>"

lemma demo_bounded_reach: "bbq_step\<^sup>*\<^sup>* (BoundedBlockingQueue_new 1) demo_bounded"
proof -
  let ?q0 = "BoundedBlockingQueue_new 1 :: nat bounded_queue"
  let ?q1 = "?q0\<lparr>bbq_queue := [7], bbq_puts := [7]\<rparr>"
  have "bbq_put 0 1 7 ?q0 = ?q1"
    by (simp add: bbq_put_def bbq_full_def BoundedBlockingQueue_new_def circular_push_back_def cond_new_def notify_def)
  moreover have "bbq_put 0 2 8 ?q1 = demo_bounded"
    by (simp add: bbq_put_def bbq_full_def BoundedBlockingQueue_new_def demo_bounded_def cond_new_def cond_wait_def)
  ultimately have "bbq_step ?q0 ?q1" "bbq_step ?q1 demo_bounded"
    using bbq_puts [of ?q0 0 1 7] bbq_puts [of ?q1 0 2 8] by simp_all
  then show ?thesis by simp
qed

theorem bounded_queue_fifo_witness: "bbq_puts demo_bounded = bbq_takes demo_bounded @ [7]"
  using bounded_queue_fifo [OF demo_bounded_reach] by (simp add: demo_bounded_def)

text \<open>
  C40: no wake-up is lost: when every thread that was woken has run again, a thread waits in \<open>take\<close> only
  if the queue is empty, and in \<open>put\<close> only if it is full, also when other threads get in between or a
  wait ends for no reason.
\<close>

theorem bounded_queue_wakes:
  assumes "bbq_step\<^sup>*\<^sup>* (BoundedBlockingQueue_new n) q"
  shows "(woken (bbq_notEmpty q) = [] \<and> waiting (bbq_notEmpty q) \<noteq> [] \<longrightarrow> bbq_queue q = []) \<and>
    (woken (bbq_notFull q) = [] \<and> waiting (bbq_notFull q) \<noteq> [] \<longrightarrow> length (bbq_queue q) = n)"
proof -
  have new: "\<exists>m. BoundedBlockingQueue_new n = BoundedBlockingQueue_new m" by blast
  note empty = bbq_not_empty.none_waits_in_vain [OF assms new] and full = bbq_not_full.none_waits_in_vain [OF assms new]
  show ?thesis using empty full bbq_fifo [OF assms] by (auto intro: le_antisym)
qed

theorem bounded_queue_wakes_witness: "length (bbq_queue demo_bounded) = 1"
  using bounded_queue_wakes [OF demo_bounded_reach] by (simp add: demo_bounded_def)

text \<open>
  After \<open>stop()\<close> the threads of the pool end, and \<open>join\<close> returns: no thread waits any more, each step
  of a thread brings it nearer to its end, and as long as one has not ended some thread can go on.
\<close>

theorem pool_stops:
  assumes "pool_step\<^sup>*\<^sup>* (pool_start n) p" and "\<not> po_running p"
  shows "waiting (po_cond p) = [] \<and>
    (\<forall>t p'. pool_thread t p p' \<longrightarrow> pool_work p' < pool_work p \<and> \<not> po_running p') \<and>
    ((\<exists>t < length (po_threads p). po_threads p ! t \<noteq> PExited) \<longrightarrow> (\<exists>t p'. pool_thread t p p'))"
proof -
  have inv: "tasks_inv p" by (rule pool_reach_inv [OF assms(1)])
  have none: "waiting (po_cond p) = []" using inv assms(2) by (simp add: tasks_inv_def)
  have goes_on: "\<exists>p'. pool_thread t p p'" if "t < length (po_threads p)" "po_threads p ! t \<noteq> PExited" for t
  proof (cases "po_threads p ! t")
    case PTop
    then show ?thesis using po_top that by blast
  next
    case PTake
    then show ?thesis using po_takes that by blast
  next
    case PWait
    then have "t \<in> set (woken (po_cond p))" using inv none that by (auto simp: tasks_inv_def)
    then show ?thesis using po_wakes that by blast
  next
    case (PTask task)
    show ?thesis by (rule exI, rule po_done [OF that(1) PTask])
  qed (use that in simp)
  show ?thesis
  proof (intro conjI allI impI)
    fix t p'
    assume "pool_thread t p p'"
    then show "pool_work p' < pool_work p" "\<not> po_running p'" using pool_thread_works [OF inv assms(2)] by simp_all
  next
    assume "\<exists>t < length (po_threads p). po_threads p ! t \<noteq> PExited"
    then obtain t where "t < length (po_threads p)" "po_threads p ! t \<noteq> PExited" by (elim exE conjE)
    from goes_on [OF this] show "\<exists>t p'. pool_thread t p p'" by (rule exI)
  qed (rule none)
qed

text \<open>A pool of one thread that was stopped while a task was waiting.\<close>

definition demo_pool :: "nat thread_pool" where
  "demo_pool = \<lparr>po_queue = [5], po_running = False, po_cond = cond_new, po_threads = [PTop], po_given = [5], po_taken = []\<rparr>"

lemma demo_pool_reach: "pool_step\<^sup>*\<^sup>* (pool_start 1) demo_pool"
proof -
  have "pool_stop (pool_run 0 5 (pool_start 1)) = demo_pool"
    by (simp add: pool_stop_def pool_run_def pool_start_def demo_pool_def notify_def notifyAll_def cond_new_def)
  then show ?thesis
    using po_run [of "pool_start 1" 0 5] po_stop [of "pool_run 0 5 (pool_start 1)"] by (metis converse_rtranclp_into_rtranclp rtranclp.rtrancl_refl)
qed

theorem pool_stops_witness: "\<exists>t p'. pool_thread t demo_pool p' \<and> pool_work p' < pool_work demo_pool"
  using pool_stops [OF demo_pool_reach] by (auto simp: demo_pool_def)

text \<open>
  The tasks are taken in the order of \<open>run\<close>.  One that is still queued at \<open>stop()\<close> need not run at all:
  here the only thread ends and leaves it behind.
\<close>

lemma pool_fifo: "pool_step\<^sup>*\<^sup>* (pool_start n) p \<Longrightarrow> po_given p = po_taken p @ po_queue p"
  using pool_reach_inv by (auto simp: tasks_inv_def)

lemma stopped_pool_leaves_task: "pool_thread 0 demo_pool (demo_pool\<lparr>po_threads := [PExited]\<rparr>)"
  using po_top [of 0 demo_pool] by (simp add: demo_pool_def po_goes_def)

text \<open>A thread passes the latch only when the count is down, and does not wait on after that.\<close>

lemma latch_opens:
  assumes "latch_step\<^sup>*\<^sup>* (CountDownLatch_new n) l"
  shows "(la_passed l \<noteq> [] \<longrightarrow> la_count l \<le> 0) \<and> (la_count l \<le> 0 \<longrightarrow> waiting (la_condition l) = [])"
  using latch_steps [OF assms] by auto

text \<open>The unbounded queue.\<close>

lemma blocking_queue_wakes:
  assumes "bq_step\<^sup>*\<^sup>* BlockingQueue_new q" and "woken (bq_notEmpty q) = []" and "waiting (bq_notEmpty q) \<noteq> []"
  shows "bq_queue q = [] \<and> bq_puts q = bq_takes q"
  using bq.none_waits_in_vain [OF assms(1) refl assms(2,3)] bq_fifo [OF assms(1)] by simp

end
