(* ===== verification/LogStream.thy ===== *)
theory LogStream imports Prog "HOL-Library.Signed_Division" "HOL-Library.Sublist" begin

text \<open>
  \<open>muduo/base/LogStream.h\<close> and \<open>LogStream.cc\<close>: the stream a log line is composed in, with its own
  conversion of integers.  A buffer is its array and the index \<open>cur_\<close>; the text of a \<open>double\<close> is a
  parameter.

  The lemmas show that an integer's text reads back as the integer, that nothing is written outside of
  the array, and that each insertion is taken whole or not at all.
\<close>

subsection \<open>Buffers of fixed size\<close>

definition kSmallBuffer :: nat where "kSmallBuffer = 4000"
definition kLargeBuffer :: nat where "kLargeBuffer = 4000 * 1000"
definition kMaxNumericSize :: nat where "kMaxNumericSize = 32"

record fixed_buffer =
  fb_data :: bytes
  fb_cur :: nat

definition FixedBuffer_new :: "nat \<Rightarrow> fixed_buffer" where
  "FixedBuffer_new n = \<lparr>fb_data = replicate n 0, fb_cur = 0\<rparr>"

definition fb_avail :: "fixed_buffer \<Rightarrow> nat" where
  "fb_avail b = length (fb_data b) - fb_cur b"

definition fb_append :: "bytes \<Rightarrow> fixed_buffer \<Rightarrow> fixed_buffer res" where
  "fb_append buf b =
     (if fb_avail b > length buf then
        bind_res (mem_write (fb_data b) (fb_cur b) buf) (\<lambda>m.
        Inr (b\<lparr>fb_data := m, fb_cur := fb_cur b + length buf\<rparr>))
      else Inr b)"

definition fb_add :: "nat \<Rightarrow> fixed_buffer \<Rightarrow> fixed_buffer" where
  "fb_add len b = b\<lparr>fb_cur := fb_cur b + len\<rparr>"

definition fb_reset :: "fixed_buffer \<Rightarrow> fixed_buffer" where
  "fb_reset b = b\<lparr>fb_cur := 0\<rparr>"

definition fb_bzero :: "fixed_buffer \<Rightarrow> fixed_buffer" where
  "fb_bzero b = b\<lparr>fb_data := replicate (length (fb_data b)) 0\<rparr>"

definition asString :: "fixed_buffer \<Rightarrow> bytes" where
  "asString b = take (fb_cur b) (fb_data b)"

subsection \<open>Integers\<close>

definition digits_table :: bytes where "digits_table = lit ''9876543210123456789''"
definition digitsHex :: bytes where "digitsHex = lit ''0123456789ABCDEF''"

text \<open>
  The loop of \<open>convert\<close>: the last digit first.  \<open>/\<close> and \<open>%\<close> truncate, so the last digit of a negative
  number is negative, and \<open>zero\<close> points to the middle of the table.
\<close>

function convert_loop :: "int \<Rightarrow> bytes" where
  "convert_loop i =
     (let lsd = i smod 10; i = i sdiv 10
      in digits_table ! nat (9 + lsd) # (if i \<noteq> 0 then convert_loop i else []))"
  by pat_completeness auto
termination
  by (relation "measure (\<lambda>i. nat \<bar>i\<bar>)") (auto simp: signed_divide_int_def abs_mult sgn_if split: if_splits)

declare convert_loop.simps [simp del]

definition convert :: "int \<Rightarrow> bytes" where
  "convert v = rev (convert_loop v @ (if v < 0 then [45] else []))"

function convertHex_loop :: "nat \<Rightarrow> bytes" where
  "convertHex_loop i =
     (let lsd = i mod 16; i = i div 16
      in digitsHex ! lsd # (if i \<noteq> 0 then convertHex_loop i else []))"
  by pat_completeness auto
termination
  by (relation "measure id") auto

declare convertHex_loop.simps [simp del]

definition convertHex :: "64 word \<Rightarrow> bytes" where
  "convertHex v = rev (convertHex_loop (unat v))"

subsection \<open>The stream\<close>

text \<open>The conversion writes the text and a NUL at the current place.\<close>

definition write_numeric :: "bytes \<Rightarrow> fixed_buffer \<Rightarrow> fixed_buffer res" where
  "write_numeric txt b =
     (if fb_avail b \<ge> kMaxNumericSize then
        bind_res (mem_write (fb_data b) (fb_cur b) (txt @ [0])) (\<lambda>m.
        Inr (fb_add (length txt) (b\<lparr>fb_data := m\<rparr>)))
      else Inr b)"

definition formatInteger :: "int \<Rightarrow> fixed_buffer \<Rightarrow> fixed_buffer res" where
  "formatInteger v b = write_numeric (convert v) b"

text \<open>The values that are inserted, each kind with the type of its \<open>operator<<\<close>.\<close>

datatype log_item =
    LBool bool
  | LShort "16 word" | LUShort "16 word"
  | LInt "32 word" | LUInt "32 word"
  | LLong "64 word" | LULong "64 word"
  | LPtr "64 word"
  | LDouble bytes
  | LChar byte
  | LStr bytes

text \<open>\<open>snprintf(\<dots>, 32, "%.12g", v)\<close> returns the length of the whole text, which the caller adds.\<close>

fun log_insert :: "log_item \<Rightarrow> fixed_buffer \<Rightarrow> fixed_buffer res" where
  "log_insert (LBool v) b = fb_append (if v then [49] else [48]) b"
| "log_insert (LShort v) b = formatInteger (sint (scast v :: 32 word)) b"
| "log_insert (LUShort v) b = formatInteger (uint (ucast v :: 32 word)) b"
| "log_insert (LInt v) b = formatInteger (sint v) b"
| "log_insert (LUInt v) b = formatInteger (uint v) b"
| "log_insert (LLong v) b = formatInteger (sint v) b"
| "log_insert (LULong v) b = formatInteger (uint v) b"
| "log_insert (LPtr v) b = write_numeric (lit ''0x'' @ convertHex v) b"
| "log_insert (LDouble txt) b =
     (if fb_avail b \<ge> kMaxNumericSize then
        bind_res (mem_write (fb_data b) (fb_cur b) (take 31 txt @ [0])) (\<lambda>m.
        Inr (fb_add (length txt) (b\<lparr>fb_data := m\<rparr>)))
      else Inr b)"
| "log_insert (LChar v) b = fb_append [v] b"
| "log_insert (LStr v) b = fb_append v b"

fun log_inserts :: "log_item list \<Rightarrow> fixed_buffer \<Rightarrow> fixed_buffer res" where
  "log_inserts [] b = Inr b"
| "log_inserts (x # xs) b = bind_res (log_insert x b) (log_inserts xs)"


subsection \<open>The text of an integer\<close>

lemma table_digit: "- 9 \<le> d \<Longrightarrow> d \<le> 9 \<Longrightarrow> digits_table ! nat (9 + d) = of_nat (48 + nat \<bar>d\<bar>)"
proof -
  assume "- 9 \<le> d" "d \<le> 9"
  then have "d \<in> set [- 9..9]" by (simp only: set_upto atLeastAtMost_iff)
  moreover have "list_all (\<lambda>d. digits_table ! nat (9 + d) = of_nat (48 + nat \<bar>d\<bar>)) [- 9..9]"
    by (simp add: digits_table_def lit_def of_char_def upto.simps)
  ultimately show ?thesis by (simp only: list_all_iff)
qed

lemma sdiv_smod_abs: "nat \<bar>i sdiv 10\<bar> = nat \<bar>i\<bar> div 10" "nat \<bar>i smod 10\<bar> = nat \<bar>i\<bar> mod 10" for i :: int
  by (auto simp: signed_divide_int_def signed_modulo_int_def abs_mult sgn_if nat_div_distrib nat_mod_distrib)

lemma convert_loop_digits: "convert_loop i = rev (dec_digits (nat \<bar>i\<bar>))"
proof (induction i rule: convert_loop.induct)
  case (1 i)
  have range: "- 9 \<le> i smod 10" "i smod 10 \<le> 9" using smod_int_range [where a = i and b = 10] by auto
  have d: "digits_table ! nat (9 + i smod 10) = of_nat (48 + nat \<bar>i\<bar> mod 10)"
    using table_digit [OF range] by (simp add: sdiv_smod_abs(2))
  show ?case
  proof (cases "i sdiv 10 = 0")
    case True
    then have "nat \<bar>i\<bar> div 10 = 0" using sdiv_smod_abs(1) [of i] by simp
    then have "nat \<bar>i\<bar> < 10" by (simp add: div_eq_0_iff)
    then show ?thesis using True d by (simp add: convert_loop.simps [of i] dec_digits.simps [of "nat \<bar>i\<bar>"] Let_def)
  next
    case False
    then have "nat \<bar>i\<bar> div 10 \<noteq> 0" using sdiv_smod_abs(1) [of i] by linarith
    then have "\<not> nat \<bar>i\<bar> < 10" by (simp add: div_eq_0_iff)
    then show ?thesis
      using False d 1 [OF refl refl] sdiv_smod_abs(1) [of i]
      by (simp add: convert_loop.simps [of i] dec_digits.simps [of "nat \<bar>i\<bar>"] Let_def)
  qed
qed

lemma convert_text: "convert v = (if v < 0 then [45] else []) @ dec_digits (nat \<bar>v\<bar>)"
  by (simp add: convert_def convert_loop_digits)

lemma convert_short: "- (2 ^ 63) \<le> v \<Longrightarrow> v < 2 ^ 64 \<Longrightarrow> length (convert v) \<le> 20"
proof -
  assume v: "- (2 ^ 63) \<le> v" "v < 2 ^ 64"
  show ?thesis
  proof (cases "v < 0")
    case True
    then have "nat \<bar>v\<bar> < 10 ^ Suc 18" using v by (simp add: nat_less_iff)
    then show ?thesis using dec_digits_length [of "nat \<bar>v\<bar>" 18] True by (simp add: convert_text)
  next
    case False
    then have "nat \<bar>v\<bar> < 10 ^ Suc 19" using v by (simp add: nat_less_iff)
    then show ?thesis using dec_digits_length [of "nat \<bar>v\<bar>" 19] False by (simp add: convert_text)
  qed
qed

lemma convertHex_short: "length (convertHex v) \<le> 16"
proof -
  have "length (convertHex_loop n) \<le> Suc k" if "n < 16 ^ Suc k" for n k
    using that
  proof (induction k arbitrary: n)
    case 0
    then show ?case by (simp add: convertHex_loop.simps)
  next
    case (Suc k)
    then have "n div 16 < 16 ^ Suc k" by (simp add: less_mult_imp_div_less mult.commute)
    then show ?case using Suc.IH [of "n div 16"] by (subst convertHex_loop.simps) (simp add: Let_def)
  qed
  from this [of "unat v" 15] show ?thesis using unsigned_less [of v] by (simp add: convertHex_def)
qed

text \<open>The value of a hexadecimal text.\<close>

definition hex_digit :: "byte \<Rightarrow> nat" where
  "hex_digit c = (if c < 58 then unat c - 48 else unat c - 55)"

definition hex_value :: "bytes \<Rightarrow> nat" where
  "hex_value = foldl (\<lambda>v c. 16 * v + hex_digit c) 0"

lemma convertHex_value: "hex_value (convertHex v) = unat v"
proof -
  have digit: "hex_digit (digitsHex ! d) = d" if "d < 16" for d
  proof -
    have "list_all (\<lambda>d. hex_digit (digitsHex ! d) = d) [0..<16]"
      by (simp add: digitsHex_def lit_def of_char_def hex_digit_def word_less_nat_alt upt_rec)
    then show ?thesis using that by (simp add: list_all_iff)
  qed
  have "hex_value (rev (convertHex_loop n)) = n" for n
  proof (induction n rule: convertHex_loop.induct)
    case (1 n)
    show ?case
    proof (cases "n div 16 = 0")
      case True
      then show ?thesis using digit [of "n mod 16"] by (simp add: convertHex_loop.simps [of n] hex_value_def div_eq_0_iff)
    next
      case False
      then have "hex_value (rev (convertHex_loop (n div 16))) = n div 16" using 1 by simp
      then show ?thesis using False digit [of "n mod 16"]
        by (simp add: convertHex_loop.simps [of n] hex_value_def Let_def)
    qed
  qed
  then show ?thesis by (simp add: convertHex_def)
qed

lemma convert_parses:
  assumes "lo \<le> v" "v \<le> hi"
  shows "parse_int lo hi (convert v) = Some v"
proof -
  have ds: "takeWhile is_digit (dec_digits n) = dec_digits n" for n
    by (rule takeWhile_all) (rule dec_digits_digit)
  have hd: "\<not> is_space (hd (dec_digits n)) \<and> hd (dec_digits n) \<noteq> 45 \<and> hd (dec_digits n) \<noteq> 43" for n
    using digit_not_space [OF dec_digits_digit [of "hd (dec_digits n)" n]] dec_digits_not_Nil [of n] by simp
  have keep: "dropWhile is_space (convert v) = convert v"
    using hd [of "nat \<bar>v\<bar>"] dec_digits_not_Nil [of "nat \<bar>v\<bar>"]
    by (cases "dec_digits (nat \<bar>v\<bar>)") (auto simp: convert_text is_space_def)
  show ?thesis
  proof (cases "v < 0")
    case True
    then show ?thesis unfolding parse_int_def keep using assms
      by (simp add: convert_text Let_def ds digits_value_dec dec_digits_not_Nil)
  next
    case False
    then show ?thesis unfolding parse_int_def keep using assms hd [of "nat v"]
      by (simp add: convert_text Let_def ds digits_value_dec dec_digits_not_Nil)
  qed
qed

subsection \<open>What a line holds\<close>

fun item_text :: "log_item \<Rightarrow> bytes" where
  "item_text (LBool v) = (if v then [49] else [48])"
| "item_text (LShort v) = convert (sint v)"
| "item_text (LUShort v) = convert (uint v)"
| "item_text (LInt v) = convert (sint v)"
| "item_text (LUInt v) = convert (uint v)"
| "item_text (LLong v) = convert (sint v)"
| "item_text (LULong v) = convert (uint v)"
| "item_text (LPtr v) = lit ''0x'' @ convertHex v"
| "item_text (LDouble txt) = txt"
| "item_text (LChar v) = [v]"
| "item_text (LStr v) = v"

text \<open>Numbers need the room of the longest number, everything else its own length and a byte.\<close>

fun item_room :: "log_item \<Rightarrow> nat" where
  "item_room (LBool v) = 2"
| "item_room (LChar v) = 2"
| "item_room (LStr v) = length v + 1"
| "item_room _ = kMaxNumericSize"

text \<open>\<open>%.12g\<close> prints at most 19 characters, and what a value of the parameter must fit in is 31.\<close>

fun item_ok :: "log_item \<Rightarrow> bool" where
  "item_ok (LDouble txt) \<longleftrightarrow> length txt < kMaxNumericSize"
| "item_ok _ \<longleftrightarrow> True"

definition fb_inv :: "fixed_buffer \<Rightarrow> bool" where
  "fb_inv b \<longleftrightarrow> fb_cur b \<le> length (fb_data b)"

lemma fb_written:
  assumes "fb_cur b + length txt + length zs \<le> length (fb_data b)"
  shows "\<exists>m. mem_write (fb_data b) (fb_cur b) (txt @ zs) = Inr m \<and> length m = length (fb_data b)
           \<and> take (fb_cur b + length txt) m = asString b @ txt"
proof -
  have "min (length (fb_data b)) (fb_cur b) = fb_cur b" using assms by simp
  then show ?thesis using assms by (simp add: mem_write_def asString_def)
qed

lemma fb_append_spec:
  assumes "fb_inv b"
  shows "\<exists>b'. fb_append buf b = Inr b' \<and> fb_inv b' \<and> length (fb_data b') = length (fb_data b)
           \<and> asString b' = asString b @ (if length buf < fb_avail b then buf else [])"
proof (cases "length buf < fb_avail b")
  case True
  then have fits: "fb_cur b + length buf + length [] \<le> length (fb_data b)" by (simp add: fb_avail_def)
  obtain m where "mem_write (fb_data b) (fb_cur b) buf = Inr m" "length m = length (fb_data b)"
      "take (fb_cur b + length buf) m = asString b @ buf"
    using fb_written [OF fits] by auto
  then show ?thesis using True fits by (simp add: fb_append_def fb_inv_def asString_def)
qed (simp add: fb_append_def assms)

lemma write_numeric_spec:
  assumes "fb_inv b" and "length txt < kMaxNumericSize"
  shows "\<exists>b'. write_numeric txt b = Inr b' \<and> fb_inv b' \<and> length (fb_data b') = length (fb_data b)
           \<and> asString b' = asString b @ (if kMaxNumericSize \<le> fb_avail b then txt else [])"
proof (cases "kMaxNumericSize \<le> fb_avail b")
  case True
  then have fits: "fb_cur b + length txt + length [0::byte] \<le> length (fb_data b)"
    using assms(2) by (simp add: fb_avail_def)
  obtain m where "mem_write (fb_data b) (fb_cur b) (txt @ [0]) = Inr m" "length m = length (fb_data b)"
      "take (fb_cur b + length txt) m = asString b @ txt"
    using fb_written [OF fits] by auto
  then show ?thesis using True fits by (simp add: write_numeric_def fb_add_def fb_inv_def asString_def)
qed (simp add: write_numeric_def assms)

lemma item_room: "item_ok x \<Longrightarrow> length (item_text x) < item_room x \<and> item_room x \<le> length (item_text x) + kMaxNumericSize"
proof -
  assume ok: "item_ok x"
  have s: "length (convert (sint w)) \<le> 20" if "LENGTH('b) \<le> 64" for w :: "'b::len word"
  proof -
    have "(2::int) ^ (LENGTH('b) - 1) \<le> 2 ^ 63" using that by (intro power_increasing) auto
    then show ?thesis using sint_ge [of w] sint_lt [of w] by (intro convert_short) simp_all
  qed
  have u: "length (convert (uint w)) \<le> 20" if "LENGTH('b) \<le> 64" for w :: "'b::len word"
  proof -
    have "(2::int) ^ LENGTH('b) \<le> 2 ^ 64" using that by (intro power_increasing) auto
    then have "uint w < 2 ^ 64" by (rule less_le_trans [OF uint_bounded])
    moreover have "- (2 ^ 63) \<le> uint w" by (rule order_trans [OF _ uint_ge_0]) simp
    ultimately show ?thesis by (intro convert_short)
  qed
  show ?thesis
    by (cases x) (use ok convertHex_short s u in \<open>auto simp: kMaxNumericSize_def lit_def intro!: le_less_trans [OF s] le_less_trans [OF u] le_less_trans [OF convertHex_short]\<close>)
qed

lemma log_insert_spec:
  assumes "fb_inv b" and "item_ok x"
  shows "\<exists>b'. log_insert x b = Inr b' \<and> fb_inv b' \<and> length (fb_data b') = length (fb_data b)
           \<and> asString b' = asString b @ (if item_room x \<le> fb_avail b then item_text x else [])"
proof -
  have number: "\<exists>b'. write_numeric tx b = Inr b' \<and> fb_inv b' \<and> length (fb_data b') = length (fb_data b)
      \<and> asString b' = asString b @ (if item_room x \<le> fb_avail b then item_text x else [])"
    if "item_room x = kMaxNumericSize" "item_text x = tx" for tx
    using write_numeric_spec [OF assms(1), of tx] item_room [OF assms(2)] that by force
  have textual: "\<exists>b'. fb_append tx b = Inr b' \<and> fb_inv b' \<and> length (fb_data b') = length (fb_data b)
      \<and> asString b' = asString b @ (if item_room x \<le> fb_avail b then item_text x else [])"
    if "item_room x = length tx + 1" "item_text x = tx" for tx
    using fb_append_spec [OF assms(1), of tx] that by (force simp: less_eq_Suc_le)
  show ?thesis
  proof (cases x)
    case (LBool v) then show ?thesis using textual [of "if v then [49] else [48]"] by simp
  next
    case (LChar v) then show ?thesis using textual [of "[v]"] by simp
  next
    case (LStr v) then show ?thesis using textual [of v] by simp
  next
    case (LDouble v)
    then have "take 31 v = v" using assms(2) by (simp add: kMaxNumericSize_def)
    then have "log_insert x b = write_numeric v b" using LDouble by (simp add: write_numeric_def)
    then show ?thesis using number [of v] LDouble by simp
  next
    case (LShort v)
    have "sint (scast v :: 32 word) = sint v" by (rule sint_up_scast) (simp add: is_up)
    then show ?thesis using number [OF _ refl] LShort by (simp add: formatInteger_def)
  next
    case (LUShort v)
    have "uint (ucast v :: 32 word) = uint v" by (rule uint_up_ucast) (simp add: is_up)
    then show ?thesis using number [OF _ refl] LUShort by (simp add: formatInteger_def)
  qed (use number [OF _ refl] in \<open>simp_all add: formatInteger_def\<close>)
qed

text \<open>
  A log line of at most \<open>avail() - 32\<close> bytes holds everything that was inserted, in order: the
  text of each value one after the other.  A longer line loses values, but only whole ones: the line
  is the text of a subsequence of what was inserted.  Nothing is ever written outside of the buffer.
\<close>

theorem log_line:
  assumes "fb_inv b" and "\<And>x. x \<in> set xs \<Longrightarrow> item_ok x"
  shows "\<exists>ys b'. log_inserts xs b = Inr b' \<and> fb_inv b' \<and> subseq ys xs
           \<and> asString b' = asString b @ concat (map item_text ys)
           \<and> (length (concat (map item_text xs)) + kMaxNumericSize \<le> fb_avail b \<longrightarrow> ys = xs)"
  using assms
proof (induction xs arbitrary: b)
  case Nil
  then show ?case by (intro exI [of _ "[]"]) simp
next
  case (Cons x xs)
  have ok: "item_ok x" using Cons.prems by simp
  obtain c where c: "log_insert x b = Inr c" "fb_inv c" "length (fb_data c) = length (fb_data b)"
      "asString c = asString b @ (if item_room x \<le> fb_avail b then item_text x else [])"
    using log_insert_spec [OF Cons.prems(1) ok] by blast
  obtain ys d where d: "log_inserts xs c = Inr d" "fb_inv d" "subseq ys xs"
      "asString d = asString c @ concat (map item_text ys)"
      "length (concat (map item_text xs)) + kMaxNumericSize \<le> fb_avail c \<longrightarrow> ys = xs"
    using Cons.IH [OF c(2)] Cons.prems(2) by auto
  have room: "item_room x \<le> fb_avail b \<Longrightarrow> fb_avail c = fb_avail b - length (item_text x)"
    using arg_cong [OF c(4), of length] c(2,3) Cons.prems(1) by (simp add: asString_def fb_inv_def fb_avail_def)
  show ?case
  proof (cases "item_room x \<le> fb_avail b")
    case True
    have "length (concat (map item_text (x # xs))) + kMaxNumericSize \<le> fb_avail b \<longrightarrow> x # ys = x # xs"
      using d(5) room [OF True] by auto
    moreover have "subseq (x # ys) (x # xs)" using d(3) by simp
    ultimately show ?thesis using c d True by (intro exI [of _ "x # ys"] exI [of _ d]) simp
  next
    case False
    have "\<not> length (concat (map item_text (x # xs))) + kMaxNumericSize \<le> fb_avail b"
      using False item_room [OF ok] by simp
    moreover have "subseq ys (x # xs)" using d(3) by (rule list_emb_Cons)
    ultimately show ?thesis using c d False by (intro exI [of _ ys] exI [of _ d]) simp
  qed
qed

theorem log_line_witness:
  "\<exists>b'. log_inserts [LInt (- 2), LChar 32, LStr [65]] (FixedBuffer_new 40) = Inr b'
     \<and> asString b' = [45, 50, 32, 65]"
proof -
  let ?xs = "[LInt (- 2), LChar 32, LStr [65]]"
  have inv: "fb_inv (FixedBuffer_new 40)" by (simp add: fb_inv_def FixedBuffer_new_def)
  have ok: "item_ok x" if "x \<in> set ?xs" for x using that by auto
  have whole: "concat (map item_text ?xs) = [45, 50, 32, 65]"
    by (simp add: convert_text dec_digits.simps)
  obtain ys b' where b': "log_inserts ?xs (FixedBuffer_new 40) = Inr b'"
      "asString b' = asString (FixedBuffer_new 40) @ concat (map item_text ys)"
      "length (concat (map item_text ?xs)) + kMaxNumericSize \<le> fb_avail (FixedBuffer_new 40) \<longrightarrow> ys = ?xs"
    using log_line [where xs = ?xs, OF inv] ok by blast
  have "ys = ?xs" using b'(3) whole by (simp add: kMaxNumericSize_def fb_avail_def FixedBuffer_new_def)
  then show ?thesis using b'(1,2) whole by (auto simp: asString_def FixedBuffer_new_def)
qed

text \<open>A line that is too long: the long string is left out, what comes after it is not.\<close>

lemma line_loses_long_string:
  "length s \<ge> kSmallBuffer \<Longrightarrow>
     \<exists>b'. log_inserts [LChar 65, LStr s, LChar 66] (FixedBuffer_new kSmallBuffer) = Inr b' \<and> asString b' = [65, 66]"
  by (simp add: fb_append_def fb_avail_def FixedBuffer_new_def mem_write_def asString_def kSmallBuffer_def)

end
