(* ===== verification/LogFile.thy ===== *)
theory LogFile imports Prog begin

text \<open>
  \<open>muduo/base/LogFile.cc\<close>: the log file and how it is rolled.  \<open>time(NULL)\<close> is the parameter
  \<open>le_clock\<close>, whose \<open>k\<close>-th value is what the \<open>k\<close>-th call returns, in seconds; the text of a time
  (\<open>gmtime_r\<close> and \<open>strftime\<close>), the host's name and the process id are parameters too.

  The lemmas show that the files hold the lines in order with none split between two files, and when a
  file that has grown past \<open>rollSize\<close> is replaced.
\<close>

record log_env =
  le_clock :: "nat \<Rightarrow> nat"
  le_stamp :: "nat \<Rightarrow> bytes"
  le_hostname :: bytes
  le_pid :: nat

subsection \<open>LogFile::File\<close>

text \<open>
  \<open>fl_data\<close> is what this object handed to \<open>fwrite_unlocked\<close>, \<open>fl_flushed\<close> how much of it a flush or the
  \<open>fclose\<close> of the destructor has passed on.
\<close>

record File =
  fl_name :: bytes
  fl_data :: bytes
  fl_flushed :: nat
  fl_writtenBytes :: nat

definition File_new :: "bytes \<Rightarrow> File" where
  "File_new filename = \<lparr>fl_name = filename, fl_data = [], fl_flushed = 0, fl_writtenBytes = 0\<rparr>"

definition File_flush :: "File \<Rightarrow> File" where
  "File_flush f = f\<lparr>fl_flushed := length (fl_data f)\<rparr>"

definition File_close :: "File \<Rightarrow> File" where
  "File_close f = f\<lparr>fl_flushed := length (fl_data f)\<rparr>"

text \<open>
  \<open>ws\<close> are the numbers of bytes the coming calls of \<open>fwrite_unlocked\<close> can take; when it is empty they
  take everything.
\<close>

fun File_write :: "nat list \<Rightarrow> bytes \<Rightarrow> File \<Rightarrow> nat \<times> nat list \<times> File" where
  "File_write [] line f = (length line, [], f\<lparr>fl_data := fl_data f @ line\<rparr>)"
| "File_write (w # ws) line f = (min w (length line), ws, f\<lparr>fl_data := fl_data f @ take w line\<rparr>)"

function append_rest :: "nat list \<Rightarrow> bytes \<Rightarrow> File \<Rightarrow> nat list \<times> File" where
  "append_rest ws line f =
     (if line = [] then (ws, f)
      else case File_write ws line f of
             (x, ws, f) \<Rightarrow> if x = 0 then (ws, f) else append_rest ws (drop x line) f)"
  by pat_completeness auto
termination
  by (relation "measure (\<lambda>(ws, line, f). length line)") auto

declare append_rest.simps [simp del]

definition File_append :: "nat list \<Rightarrow> bytes \<Rightarrow> File \<Rightarrow> nat list \<times> File" where
  "File_append ws line f =
     (case File_write ws line f of (n, ws, f) \<Rightarrow>
      case append_rest ws (drop n line) f of (ws, f) \<Rightarrow>
        (ws, f\<lparr>fl_writtenBytes := fl_writtenBytes f + length line\<rparr>))"

subsection \<open>LogFile\<close>

definition kCheckTimeRoll :: nat where "kCheckTimeRoll = 1024"
definition kRollPerSeconds :: nat where "kRollPerSeconds = 60 * 60 * 24"

text \<open>
  \<open>lf_reads\<close> counts the calls of \<open>time\<close>, \<open>lf_closed\<close> are the files that were replaced and \<open>lf_writes\<close>
  is what \<open>fwrite_unlocked\<close> can take.
\<close>

record log_file =
  lf_basename :: bytes
  lf_rollSize :: nat
  lf_flushInterval :: nat
  lf_count :: nat
  lf_startOfPeriod :: nat
  lf_lastRoll :: nat
  lf_lastFlush :: nat
  lf_file :: "File option"
  lf_reads :: nat
  lf_closed :: "File list"
  lf_writes :: "nat list"

definition time_now :: "log_env \<Rightarrow> log_file \<Rightarrow> nat \<times> log_file" where
  "time_now env lf = (le_clock env (lf_reads lf), lf\<lparr>lf_reads := lf_reads lf + 1\<rparr>)"

definition getLogFileName :: "log_env \<Rightarrow> log_file \<Rightarrow> bytes \<times> nat \<times> log_file" where
  "getLogFileName env lf =
     (case time_now env lf of (now, lf) \<Rightarrow>
        (lf_basename lf @ le_stamp env now @ le_hostname env @ lit ''.'' @ dec_digits (le_pid env) @ lit ''.log'',
         now, lf))"

definition rollFile :: "log_env \<Rightarrow> log_file \<Rightarrow> log_file" where
  "rollFile env lf =
     (case getLogFileName env lf of (filename, now, lf) \<Rightarrow>
      let start = now div kRollPerSeconds * kRollPerSeconds in
      if now > lf_lastRoll lf then
        lf\<lparr>lf_lastRoll := now, lf_lastFlush := now, lf_startOfPeriod := start,
           lf_file := Some (File_new filename),
           lf_closed := lf_closed lf @ (case lf_file lf of None \<Rightarrow> [] | Some f \<Rightarrow> [File_close f])\<rparr>
      else lf)"

definition LogFile_new :: "log_env \<Rightarrow> bytes \<Rightarrow> nat \<Rightarrow> nat \<Rightarrow> nat list \<Rightarrow> log_file res" where
  "LogFile_new env basename rollSize flushInterval ws =
     assert_res (47 \<notin> set basename)
       (Inr (rollFile env
          \<lparr>lf_basename = basename, lf_rollSize = rollSize, lf_flushInterval = flushInterval, lf_count = 0,
           lf_startOfPeriod = 0, lf_lastRoll = 0, lf_lastFlush = 0, lf_file = None, lf_reads = 0,
           lf_closed = [], lf_writes = ws\<rparr>))"

text \<open>\<open>file_->\<close> of an empty \<open>scoped_ptr\<close> is a failed assertion.\<close>

definition LogFile_flush :: "log_file \<Rightarrow> log_file res" where
  "LogFile_flush lf =
     (case lf_file lf of
        None \<Rightarrow> Inl Abort
      | Some f \<Rightarrow> Inr (lf\<lparr>lf_file := Some (File_flush f)\<rparr>))"

definition append_unlocked :: "log_env \<Rightarrow> bytes \<Rightarrow> log_file \<Rightarrow> log_file res" where
  "append_unlocked env line lf =
     (case lf_file lf of
        None \<Rightarrow> Inl Abort
      | Some f \<Rightarrow>
          (case File_append (lf_writes lf) line f of (ws, f) \<Rightarrow>
           let lf = lf\<lparr>lf_file := Some f, lf_writes := ws\<rparr> in
           if fl_writtenBytes f > lf_rollSize lf then Inr (rollFile env lf)
           else if lf_count lf > kCheckTimeRoll then
             (case time_now env (lf\<lparr>lf_count := 0\<rparr>) of (now, lf) \<Rightarrow>
              let thisPeriod = now div kRollPerSeconds * kRollPerSeconds in
              if thisPeriod \<noteq> lf_startOfPeriod lf then Inr (rollFile env lf)
              else if now - lf_lastFlush lf > lf_flushInterval lf
                   then LogFile_flush (lf\<lparr>lf_lastFlush := now\<rparr>)
                   else Inr lf)
           else Inr (lf\<lparr>lf_count := lf_count lf + 1\<rparr>)))"

definition LogFile_append :: "log_env \<Rightarrow> bytes \<Rightarrow> log_file \<Rightarrow> log_file res" where
  "LogFile_append env line lf = append_unlocked env line lf"

fun LogFile_appends :: "log_env \<Rightarrow> bytes list \<Rightarrow> log_file \<Rightarrow> log_file res" where
  "LogFile_appends env [] lf = Inr lf"
| "LogFile_appends env (l # ls) lf = bind_res (LogFile_append env l lf) (LogFile_appends env ls)"

subsection \<open>One append of a file\<close>

text \<open>What is written is a prefix of the line, and the whole line unless a call takes nothing.\<close>

lemma append_rest_data:
  "append_rest ws line f = (ws', f') \<Longrightarrow>
     \<exists>n. fl_data f' = fl_data f @ take n line \<and> (0 \<notin> set ws \<longrightarrow> take n line = line)
       \<and> fl_name f' = fl_name f \<and> fl_writtenBytes f' = fl_writtenBytes f \<and> fl_flushed f' = fl_flushed f"
proof (induction ws line f rule: append_rest.induct)
  case (1 ws line f)
  show ?case
  proof (cases "line = []")
    case True
    then show ?thesis using 1(2) by (simp add: append_rest.simps [of _ "[]"])
  next
    case False
    show ?thesis
    proof (cases ws)
      case Nil
      then have "f' = f\<lparr>fl_data := fl_data f @ line\<rparr>"
        using False 1(2) Nil by (simp add: append_rest.simps [of "[]" line] append_rest.simps [of _ "[]"])
      then show ?thesis by (intro exI [of _ "length line"]) simp
    next
      case (Cons w vs)
      show ?thesis
      proof (cases "w = 0")
        case True
        then show ?thesis using 1(2) False Cons
          by (intro exI [of _ 0]) (auto simp: append_rest.simps [of "0 # vs" line])
      next
        case pos: False
        let ?g = "f\<lparr>fl_data := fl_data f @ take w line\<rparr>"
        have w: "File_write ws line f = (min w (length line), vs, ?g)" using Cons by simp
        have nz: "min w (length line) \<noteq> 0" using pos False by simp
        have "append_rest vs (drop (min w (length line)) line) ?g = (ws', f')"
          using 1(2) False w nz by (simp add: append_rest.simps [of ws line])
        from 1(1) [OF False w [symmetric] refl nz this]
        obtain n where n: "fl_data f' = fl_data f @ take w line @ take n (drop (min w (length line)) line)"
            "0 \<notin> set vs \<longrightarrow> take n (drop (min w (length line)) line) = drop (min w (length line)) line"
            "fl_name f' = fl_name f" "fl_writtenBytes f' = fl_writtenBytes f" "fl_flushed f' = fl_flushed f"
          by auto
        have "take w line = take (min w (length line)) line" by (simp add: min_def)
        then show ?thesis
          using n Cons by (intro exI [of _ "min w (length line) + n"]) (auto simp: take_add)
      qed
    qed
  qed
qed

lemma append_rest_writes: "append_rest ws line f = (ws', f') \<Longrightarrow> set ws' \<subseteq> set ws"
proof (induction ws line f rule: append_rest.induct)
  case (1 ws line f)
  obtain x vs g where w: "File_write ws line f = (x, vs, g)" by (cases "File_write ws line f")
  have sub: "set vs \<subseteq> set ws" using w by (cases ws) auto
  show ?case
  proof (cases "line = [] \<or> x = 0")
    case True
    then show ?thesis using 1(2) w sub by (auto simp: append_rest.simps [of ws line] split: if_splits)
  next
    case False
    then have "append_rest vs (drop x line) g = (ws', f')" using 1(2) w by (simp add: append_rest.simps [of ws line])
    then have "set ws' \<subseteq> set vs" using 1(1) [OF _ w [symmetric] refl] False by blast
    then show ?thesis using sub by blast
  qed
qed

lemma File_append_spec:
  assumes "File_append ws line f = (ws', f')"
  shows "(\<exists>n. fl_data f' = fl_data f @ take n line \<and> (0 \<notin> set ws \<longrightarrow> take n line = line))
       \<and> fl_name f' = fl_name f \<and> fl_writtenBytes f' = fl_writtenBytes f + length line
       \<and> fl_flushed f' = fl_flushed f \<and> set ws' \<subseteq> set ws"
proof -
  obtain x vs g where w: "File_write ws line f = (x, vs, g)" by (cases "File_write ws line f")
  obtain us h where r: "append_rest vs (drop x line) g = (us, h)" by (cases "append_rest vs (drop x line) g")
  have f': "us = ws'" "f' = h\<lparr>fl_writtenBytes := fl_writtenBytes h + length line\<rparr>"
    using assms w r by (simp_all add: File_append_def)
  have g: "fl_data g = fl_data f @ take x line" "fl_name g = fl_name f" "fl_flushed g = fl_flushed f"
      "fl_writtenBytes g = fl_writtenBytes f" "set vs \<subseteq> set ws"
    using w by (cases ws; auto simp: min_def)+
  obtain n where n: "fl_data h = fl_data g @ take n (drop x line)"
      "0 \<notin> set vs \<longrightarrow> take n (drop x line) = drop x line"
      "fl_name h = fl_name g" "fl_writtenBytes h = fl_writtenBytes g" "fl_flushed h = fl_flushed g"
    using append_rest_data [OF r] by blast
  have "fl_data f' = fl_data f @ take (x + n) line \<and> (0 \<notin> set ws \<longrightarrow> take (x + n) line = line)"
    using n(1,2) g(1,5) f'(2) by (auto simp: take_add)
  then show ?thesis using n(3-5) g f' append_rest_writes [OF r] by auto
qed

subsection \<open>The lines in the files\<close>

definition log_holds :: "bytes list list \<Rightarrow> bytes list \<Rightarrow> log_file \<Rightarrow> bool" where
  "log_holds gs cur lf \<longleftrightarrow>
     map fl_data (lf_closed lf) = map concat gs \<and> (\<exists>f. lf_file lf = Some f \<and> fl_data f = concat cur)"

lemma rollFile_holds:
  "log_holds gs cur lf \<Longrightarrow>
     \<exists>gs' cur'. log_holds gs' cur' (rollFile env lf) \<and> concat gs' @ cur' = concat gs @ cur
       \<and> lf_writes (rollFile env lf) = lf_writes lf"
proof -
  assume h: "log_holds gs cur lf"
  let ?now = "le_clock env (lf_reads lf)"
  show ?thesis
  proof (cases "?now > lf_lastRoll lf")
    case True
    have "log_holds (gs @ [cur]) [] (rollFile env lf)"
      using h True by (auto simp: log_holds_def rollFile_def getLogFileName_def time_now_def File_new_def File_close_def Let_def)
    then show ?thesis
      by (intro exI [of _ "gs @ [cur]"] exI [of _ "[]"])
        (simp add: rollFile_def getLogFileName_def time_now_def Let_def)
  next
    case False
    have "log_holds gs cur (rollFile env lf)"
      using h False by (simp add: log_holds_def rollFile_def getLogFileName_def time_now_def Let_def)
    then show ?thesis
      by (intro exI [of _ gs] exI [of _ cur]) (simp add: rollFile_def getLogFileName_def time_now_def Let_def)
  qed
qed

lemma LogFile_append_holds:
  assumes h: "log_holds gs cur lf" and ws: "0 \<notin> set (lf_writes lf)"
  shows "\<exists>lf' gs' cur'. LogFile_append env l lf = Inr lf' \<and> log_holds gs' cur' lf'
           \<and> concat gs' @ cur' = concat gs @ cur @ [l] \<and> 0 \<notin> set (lf_writes lf')"
proof -
  obtain f where f: "lf_file lf = Some f" "fl_data f = concat cur" using h by (auto simp: log_holds_def)
  obtain vs g where g: "File_append (lf_writes lf) l f = (vs, g)" by (cases "File_append (lf_writes lf) l f")
  have d: "fl_data g = concat (cur @ [l])" "0 \<notin> set vs"
    using File_append_spec [OF g] ws f(2) by auto
  let ?lf = "lf\<lparr>lf_file := Some g, lf_writes := vs\<rparr>"
  have keep: "log_holds gs (cur @ [l]) ?lf" using h d(1) by (simp add: log_holds_def)
  let ?now = "le_clock env (lf_reads lf)"
  let ?read = "?lf\<lparr>lf_count := 0, lf_reads := lf_reads lf + 1\<rparr>"
  let ?flushed = "?read\<lparr>lf_lastFlush := ?now, lf_file := Some (File_flush g)\<rparr>"
  have kept: "log_holds gs (cur @ [l]) (?lf\<lparr>lf_count := n\<rparr>)" "log_holds gs (cur @ [l]) ?read"
      "log_holds gs (cur @ [l]) ?flushed" for n
    using keep by (simp_all add: log_holds_def File_flush_def)
  have a: "LogFile_append env l lf =
      (if fl_writtenBytes g > lf_rollSize lf then Inr (rollFile env ?lf)
       else if lf_count lf > kCheckTimeRoll then
         (if ?now div kRollPerSeconds * kRollPerSeconds \<noteq> lf_startOfPeriod lf then Inr (rollFile env ?read)
          else if ?now - lf_lastFlush lf > lf_flushInterval lf then Inr ?flushed else Inr ?read)
       else Inr (?lf\<lparr>lf_count := lf_count lf + 1\<rparr>))"
    using f(1) g by (simp add: LogFile_append_def append_unlocked_def LogFile_flush_def time_now_def Let_def)
  have roll: "\<exists>gs' cur'. log_holds gs' cur' (rollFile env x) \<and> concat gs' @ cur' = concat gs @ cur @ [l]
      \<and> 0 \<notin> set (lf_writes (rollFile env x))"
    if "log_holds gs (cur @ [l]) x" "lf_writes x = vs" for x
  proof -
    note st = that
    obtain gs' cur' where "log_holds gs' cur' (rollFile env x)" "concat gs' @ cur' = concat gs @ cur @ [l]"
        "lf_writes (rollFile env x) = vs"
      using rollFile_holds [OF st(1), of env] st(2) by auto
    then show ?thesis using d(2) by (intro exI [of _ gs'] exI [of _ cur']) simp
  qed
  have stay: "?thesis" if "LogFile_append env l lf = Inr x" "log_holds gs (cur @ [l]) x" "lf_writes x = vs" for x
    using that d(2) by (intro exI [of _ x] exI [of _ gs] exI [of _ "cur @ [l]"]) simp
  have rolled: "?thesis" if "LogFile_append env l lf = Inr (rollFile env x)" "log_holds gs (cur @ [l]) x" "lf_writes x = vs" for x
    using that(1) roll [OF that(2,3)] by blast
  show ?thesis
  proof (cases "fl_writtenBytes g > lf_rollSize lf")
    case True
    then show ?thesis using rolled [of ?lf] a keep by simp
  next
    case small: False
    show ?thesis
    proof (cases "lf_count lf > kCheckTimeRoll")
      case True
      then show ?thesis using small a rolled [of ?read] stay [of ?read] stay [of ?flushed] kept by (simp split: if_splits)
    next
      case False
      then show ?thesis using small a stay [of "?lf\<lparr>lf_count := lf_count lf + 1\<rparr>"] kept(1) by simp
    qed
  qed
qed

lemma LogFile_appends_hold:
  assumes "log_holds gs cur lf" and "0 \<notin> set (lf_writes lf)"
  shows "\<exists>lf' gs' cur'. LogFile_appends env ls lf = Inr lf' \<and> log_holds gs' cur' lf'
           \<and> concat gs' @ cur' = concat gs @ cur @ ls \<and> 0 \<notin> set (lf_writes lf')"
  using assms
proof (induction ls arbitrary: gs cur lf)
  case Nil
  then show ?case by auto
next
  case (Cons l ls)
  obtain lf1 gs1 cur1 where 1: "LogFile_append env l lf = Inr lf1" "log_holds gs1 cur1 lf1"
      "concat gs1 @ cur1 = concat gs @ cur @ [l]" "0 \<notin> set (lf_writes lf1)"
    using LogFile_append_holds [OF Cons.prems] by blast
  obtain lf' gs' cur' where "LogFile_appends env ls lf1 = Inr lf'" "log_holds gs' cur' lf'"
      "concat gs' @ cur' = concat gs1 @ cur1 @ ls" "0 \<notin> set (lf_writes lf')"
    using Cons.IH [OF 1(2,4)] by blast
  then show ?case using 1(1,3) by (intro exI [of _ lf'] exI [of _ gs'] exI [of _ cur']) simp
qed

lemma LogFile_flush_holds:
  assumes "log_holds gs cur lf"
  shows "\<exists>lf'. LogFile_flush lf = Inr lf' \<and> log_holds gs cur lf' \<and> lf_writes lf' = lf_writes lf"
  using assms by (auto simp: log_holds_def LogFile_flush_def File_flush_def)

lemma LogFile_new_holds:
  assumes "47 \<notin> set basename" and "le_clock env 0 > 0"
  shows "\<exists>lf. LogFile_new env basename rollSize flushInterval ws = Inr lf \<and> log_holds [] [] lf \<and> lf_writes lf = ws"
  using assms
  by (simp add: LogFile_new_def rollFile_def getLogFileName_def time_now_def log_holds_def File_new_def Let_def)

text \<open>
  The log files hold the lines that were appended, in order, and no line is split between two files:
  each file, from the first to the current one, is the concatenation of a run of consecutive lines.
  Appending never fails, provided the clock had left zero when the log was opened and the disk takes what
  is written.
\<close>

theorem log_files_hold_lines:
  assumes "47 \<notin> set basename" and "le_clock env 0 > 0"
  shows "\<exists>lf0 lf gs cur f.
           LogFile_new env basename rollSize flushInterval [] = Inr lf0
         \<and> LogFile_appends env lines lf0 = Inr lf
         \<and> concat gs @ cur = lines
         \<and> map fl_data (lf_closed lf) = map concat gs
         \<and> lf_file lf = Some f \<and> fl_data f = concat cur"
proof -
  obtain lf0 where new: "LogFile_new env basename rollSize flushInterval [] = Inr lf0"
      "log_holds [] [] lf0" "lf_writes lf0 = []"
    using LogFile_new_holds [OF assms] by blast
  obtain lf gs cur where "LogFile_appends env lines lf0 = Inr lf" "log_holds gs cur lf" "concat gs @ cur = lines"
    using LogFile_appends_hold [OF new(2), of env lines] new(3) by auto
  then show ?thesis using new(1) unfolding log_holds_def by blast
qed

definition log_env_demo :: log_env where
  "log_env_demo = \<lparr>le_clock = (\<lambda>k. k + 5), le_stamp = (\<lambda>t. dec_digits t), le_hostname = [104], le_pid = 7\<rparr>"

theorem log_files_hold_lines_witness:
  "\<exists>lf0 lf gs cur f.
     LogFile_new log_env_demo [97] 3 3 [] = Inr lf0 \<and> LogFile_appends log_env_demo [[65, 66], [67, 68], [69]] lf0 = Inr lf
   \<and> concat gs @ cur = [[65, 66], [67, 68], [69]]
   \<and> map fl_data (lf_closed lf) = map concat gs \<and> lf_file lf = Some f \<and> fl_data f = concat cur"
  by (rule log_files_hold_lines) (simp_all add: log_env_demo_def)

text \<open>
  Once a file has grown past \<open>rollSize\<close> it is replaced, unless the clock still shows the second in which it
  was opened: then the log goes on in the large file.
\<close>

lemma log_file_rolls:
  assumes "LogFile_append env line lf = Inr lf'" and "lf_file lf' = Some f'"
    and "\<And>f. lf_file lf = Some f \<Longrightarrow> fl_writtenBytes f \<le> lf_rollSize lf"
    and "le_clock env (lf_reads lf) > lf_lastRoll lf"
  shows "fl_writtenBytes f' \<le> lf_rollSize lf"
proof -
  obtain f where f: "lf_file lf = Some f" using assms(1) by (cases "lf_file lf") (simp_all add: LogFile_append_def append_unlocked_def)
  obtain vs g where g: "File_append (lf_writes lf) line f = (vs, g)" by (cases "File_append (lf_writes lf) line f")
  show ?thesis
    using assms(1,2,4) f g
    by (auto simp: LogFile_append_def append_unlocked_def LogFile_flush_def rollFile_def getLogFileName_def time_now_def
        File_new_def File_flush_def Let_def split: if_splits)
qed

end
