(* ===== verification/AsyncLogging.thy ===== *)
theory AsyncLogging imports LogStream LogFile begin

text \<open>
  \<open>muduo/base/AsyncLogging.cc\<close>: log lines that any thread appends to large buffers in memory, and the
  back end, a thread that writes full buffers to the log file.  The state is the object together with
  the locals of the back end; the mutex makes a call of \<open>append\<close> one step, and one step of the back end
  ends where it gives up or does not hold the mutex.

  The lemmas show that no assertion of the code fails in any interleaving, and that, as long as the
  back end keeps up, every line goes through memory to the files in order, once, and in one piece.
\<close>

subsection \<open>The object and its back end\<close>

datatype al_pc = NotStarted | Entered | AtHead | Waiting | Writing | Finished

text \<open>
  A \<open>BufferPtr\<close> that was released or moved from is \<open>None\<close>.  \<open>al_lines\<close> are the lines given to \<open>append\<close> and
  \<open>al_dropped\<close> counts how often the back end threw buffers away.  The unspecified content of a
  \<open>new Buffer\<close> is zeros here: no byte after \<open>cur_\<close> is ever read.
\<close>

record async_logging =
  al_basename :: bytes
  al_rollSize :: nat
  al_running :: bool
  al_currentBuffer :: "fixed_buffer option"
  al_nextBuffer :: "fixed_buffer option"
  al_buffers :: "fixed_buffer list"
  al_pc :: al_pc
  al_newBuffer1 :: "fixed_buffer option"
  al_newBuffer2 :: "fixed_buffer option"
  al_buffersToWrite :: "fixed_buffer list"
  al_output :: "log_file option"
  al_lines :: "bytes list"
  al_dropped :: nat

definition new_Buffer :: fixed_buffer where
  "new_Buffer = FixedBuffer_new kLargeBuffer"

definition AsyncLogging_new :: "bytes \<Rightarrow> nat \<Rightarrow> async_logging" where
  "AsyncLogging_new basename rollSize =
     \<lparr>al_basename = basename, al_rollSize = rollSize, al_running = False,
      al_currentBuffer = Some (fb_bzero new_Buffer), al_nextBuffer = Some (fb_bzero new_Buffer), al_buffers = [],
      al_pc = NotStarted, al_newBuffer1 = None, al_newBuffer2 = None, al_buffersToWrite = [],
      al_output = None, al_lines = [], al_dropped = 0\<rparr>"

definition al_append :: "bytes \<Rightarrow> async_logging \<Rightarrow> async_logging res" where
  "al_append logline s =
     (case al_currentBuffer s of
        None \<Rightarrow> Inl Abort
      | Some current \<Rightarrow>
          let s = s\<lparr>al_lines := al_lines s @ [logline]\<rparr> in
          if fb_avail current > length logline then
            bind_res (fb_append logline current) (\<lambda>b. Inr (s\<lparr>al_currentBuffer := Some b\<rparr>))
          else
            bind_res (fb_append logline (case al_nextBuffer s of Some next \<Rightarrow> next | None \<Rightarrow> new_Buffer)) (\<lambda>b.
            Inr (s\<lparr>al_buffers := al_buffers s @ [current], al_nextBuffer := None, al_currentBuffer := Some b\<rparr>)))"

definition al_start :: "async_logging \<Rightarrow> async_logging" where
  "al_start s = s\<lparr>al_running := True, al_pc := Entered\<rparr>"

text \<open>The \<open>join\<close> of \<open>stop\<close> returns when the back end has finished.\<close>

definition al_stop :: "async_logging \<Rightarrow> async_logging" where
  "al_stop s = s\<lparr>al_running := False\<rparr>"

definition al_enter :: "log_env \<Rightarrow> async_logging \<Rightarrow> async_logging res" where
  "al_enter env s =
     assert_res (al_running s)
       (bind_res (LogFile_new env (al_basename s) (al_rollSize s) 3 []) (\<lambda>output.
        Inr (s\<lparr>al_output := Some output, al_newBuffer1 := Some (fb_bzero new_Buffer),
               al_newBuffer2 := Some (fb_bzero new_Buffer), al_buffersToWrite := [], al_pc := AtHead\<rparr>)))"

text \<open>The rest of the critical section, once the wait is over or when there was none.\<close>

definition al_swap :: "async_logging \<Rightarrow> async_logging" where
  "al_swap s =
     (let bufs = al_buffers s @ (case al_currentBuffer s of Some b \<Rightarrow> [b] | None \<Rightarrow> []);
          s = s\<lparr>al_currentBuffer := al_newBuffer1 s, al_newBuffer1 := None,
                al_buffersToWrite := bufs, al_buffers := al_buffersToWrite s, al_pc := Writing\<rparr>
      in case al_nextBuffer s of
           Some _ \<Rightarrow> s
         | None \<Rightarrow> s\<lparr>al_nextBuffer := al_newBuffer2 s, al_newBuffer2 := None\<rparr>)"

definition empty_buffer :: "fixed_buffer option \<Rightarrow> bool" where
  "empty_buffer p \<longleftrightarrow> (case p of None \<Rightarrow> False | Some b \<Rightarrow> fb_cur b = 0)"

definition al_lock :: "async_logging \<Rightarrow> async_logging res" where
  "al_lock s =
     (if \<not> al_running s then
        (case al_output s of
           None \<Rightarrow> Inl Abort
         | Some output \<Rightarrow> bind_res (LogFile_flush output) (\<lambda>output.
             Inr (s\<lparr>al_output := Some output, al_pc := Finished\<rparr>)))
      else
        assert_res (empty_buffer (al_newBuffer1 s) \<and> empty_buffer (al_newBuffer2 s) \<and> al_buffersToWrite s = [])
          (Inr (if al_buffers s = [] then s\<lparr>al_pc := Waiting\<rparr> else al_swap s)))"

text \<open>A spare buffer that was given away is replaced by the last one that was written.\<close>

definition take_back :: "fixed_buffer option \<Rightarrow> fixed_buffer list \<Rightarrow> (fixed_buffer option \<times> fixed_buffer list) res" where
  "take_back p bufs =
     (case p of
        Some b \<Rightarrow> Inr (Some b, bufs)
      | None \<Rightarrow> assert_res (bufs \<noteq> []) (Inr (Some (fb_reset (last bufs)), butlast bufs)))"

text \<open>\<open>msg k\<close> is the text \<open>Dropped log messages at \<dots>, k larger buffers\<close>.\<close>

definition al_write :: "log_env \<Rightarrow> (nat \<Rightarrow> bytes) \<Rightarrow> async_logging \<Rightarrow> async_logging res" where
  "al_write env msg s =
     (let bufs = al_buffersToWrite s; many = length bufs > 25 in
      assert_res (bufs \<noteq> [])
       (case al_output s of
          None \<Rightarrow> Inl Abort
        | Some output \<Rightarrow>
            bind_res (if many then LogFile_append env (msg (length bufs - 2)) output else Inr output) (\<lambda>output.
            let bufs = (if many then take 2 bufs else bufs) in
            bind_res (LogFile_appends env (map asString bufs) output) (\<lambda>output.
            let bufs = (if length bufs > 2 then take 2 bufs else bufs) in
            bind_res (take_back (al_newBuffer1 s) bufs) (\<lambda>(new1, bufs).
            bind_res (take_back (al_newBuffer2 s) bufs) (\<lambda>(new2, bufs).
            bind_res (LogFile_flush output) (\<lambda>output.
            Inr (s\<lparr>al_newBuffer1 := new1, al_newBuffer2 := new2, al_buffersToWrite := [], al_output := Some output,
                   al_dropped := al_dropped s + (if many then 1 else 0), al_pc := AtHead\<rparr>))))))))"

definition al_thread :: "log_env \<Rightarrow> (nat \<Rightarrow> bytes) \<Rightarrow> async_logging \<Rightarrow> async_logging res" where
  "al_thread env msg s =
     (case al_pc s of
        NotStarted \<Rightarrow> Inr s
      | Entered \<Rightarrow> al_enter env s
      | AtHead \<Rightarrow> al_lock s
      | Waiting \<Rightarrow> Inr (al_swap s)
      | Writing \<Rightarrow> al_write env msg s
      | Finished \<Rightarrow> Inr s)"

text \<open>
  What can happen: any thread appends; the owner starts the object, once, and stops it after \<open>start\<close> has
  returned, which waits for the latch; the back end makes a step.  The wait for \<open>flushInterval\<close> seconds can
  end anytime.
\<close>

datatype al_event = Append bytes | Start | Stop | Run

definition al_allowed :: "al_event \<Rightarrow> async_logging \<Rightarrow> bool" where
  "al_allowed e s \<longleftrightarrow>
     (case e of
        Start \<Rightarrow> al_pc s = NotStarted
      | Stop \<Rightarrow> al_pc s \<noteq> NotStarted \<and> al_pc s \<noteq> Entered
      | _ \<Rightarrow> True)"

definition al_exec :: "log_env \<Rightarrow> (nat \<Rightarrow> bytes) \<Rightarrow> al_event \<Rightarrow> async_logging \<Rightarrow> async_logging res" where
  "al_exec env msg e s =
     (case e of
        Append l \<Rightarrow> al_append l s
      | Start \<Rightarrow> Inr (al_start s)
      | Stop \<Rightarrow> Inr (al_stop s)
      | Run \<Rightarrow> al_thread env msg s)"

inductive al_reach :: "log_env \<Rightarrow> (nat \<Rightarrow> bytes) \<Rightarrow> bytes \<Rightarrow> nat \<Rightarrow> async_logging \<Rightarrow> bool"
  for env msg basename rollSize where
  al_init: "al_reach env msg basename rollSize (AsyncLogging_new basename rollSize)"
| al_step: "al_reach env msg basename rollSize s \<Longrightarrow> al_allowed e s \<Longrightarrow> al_exec env msg e s = Inr s'
    \<Longrightarrow> al_reach env msg basename rollSize s'"

subsection \<open>Invariant\<close>

definition al_buf :: "fixed_buffer \<Rightarrow> bool" where
  "al_buf b \<longleftrightarrow> fb_inv b \<and> length (fb_data b) = kLargeBuffer"

definition al_spare :: "fixed_buffer option \<Rightarrow> bool" where
  "al_spare p \<longleftrightarrow> (case p of None \<Rightarrow> False | Some b \<Rightarrow> al_buf b \<and> fb_cur b = 0)"

definition al_local :: "async_logging \<Rightarrow> bool" where
  "al_local s \<longleftrightarrow>
     (case al_pc s of
        NotStarted \<Rightarrow> al_buffersToWrite s = []
      | Entered \<Rightarrow> al_running s \<and> al_buffersToWrite s = []
      | AtHead \<Rightarrow> al_spare (al_newBuffer1 s) \<and> al_spare (al_newBuffer2 s) \<and> al_buffersToWrite s = []
      | Waiting \<Rightarrow> al_spare (al_newBuffer1 s) \<and> al_spare (al_newBuffer2 s) \<and> al_buffersToWrite s = []
      | Writing \<Rightarrow> al_newBuffer1 s = None \<and> al_buffersToWrite s \<noteq> []
          \<and> (al_spare (al_newBuffer2 s) \<or> al_newBuffer2 s = None \<and> 2 \<le> length (al_buffersToWrite s))
      | Finished \<Rightarrow> al_buffersToWrite s = [])"

text \<open>The front ends always have a buffer to go on with, or the back end has work to do.\<close>

definition al_front :: "async_logging \<Rightarrow> bool" where
  "al_front s \<longleftrightarrow>
     (\<exists>c. al_currentBuffer s = Some c \<and> al_buf c)
   \<and> (\<forall>b \<in> set (al_buffers s) \<union> set (al_buffersToWrite s). al_buf b)
   \<and> (al_spare (al_nextBuffer s) \<or> al_nextBuffer s = None \<and> al_buffers s \<noteq> [])"

definition kept_lines :: "bytes list \<Rightarrow> bytes list" where
  "kept_lines ls = filter (\<lambda>l. length l < kLargeBuffer) ls"

text \<open>\<open>W\<close> are the lines of each write to the log file, \<open>T\<close>, \<open>B\<close> and \<open>C\<close> those of the buffers in memory.\<close>

definition al_written :: "bytes list list \<Rightarrow> async_logging \<Rightarrow> bool" where
  "al_written W s \<longleftrightarrow>
     (case al_output s of
        None \<Rightarrow> W = [] \<and> (al_pc s = NotStarted \<or> al_pc s = Entered)
      | Some out \<Rightarrow> (\<exists>gs cur. log_holds gs cur out \<and> concat gs @ cur = map concat W)
          \<and> 0 \<notin> set (lf_writes out) \<and> al_pc s \<noteq> NotStarted \<and> al_pc s \<noteq> Entered)"

definition al_content :: "bytes list list \<Rightarrow> bytes list list \<Rightarrow> bytes list list \<Rightarrow> bytes list \<Rightarrow> async_logging \<Rightarrow> bool" where
  "al_content W T B C s \<longleftrightarrow>
     map asString (al_buffersToWrite s) = map concat T
   \<and> map asString (al_buffers s) = map concat B
   \<and> (\<forall>c. al_currentBuffer s = Some c \<longrightarrow> asString c = concat C)
   \<and> (al_dropped s = 0 \<longrightarrow> concat W @ concat T @ concat B @ C = kept_lines (al_lines s))"

definition al_ok :: "bytes \<Rightarrow> async_logging \<Rightarrow> bool" where
  "al_ok basename s \<longleftrightarrow>
     al_local s \<and> al_front s \<and> al_basename s = basename
   \<and> (\<exists>W T B C. al_written W s \<and> al_content W T B C s)"

lemma al_okI:
  "al_written W s \<Longrightarrow> al_content W T B C s \<Longrightarrow> al_local s \<Longrightarrow> al_front s \<Longrightarrow> al_basename s = basename
     \<Longrightarrow> al_ok basename s"
  unfolding al_ok_def by blast

lemma al_writtenI:
  "log_holds gs cur out \<Longrightarrow> concat gs @ cur = map concat W \<Longrightarrow> 0 \<notin> set (lf_writes out) \<Longrightarrow> al_output s = Some out
     \<Longrightarrow> al_pc s \<noteq> NotStarted \<Longrightarrow> al_pc s \<noteq> Entered \<Longrightarrow> al_written W s"
  unfolding al_written_def by auto

lemma al_buf_new [simp]: "al_buf new_Buffer" "al_buf (fb_bzero new_Buffer)"
    "fb_cur new_Buffer = 0" "fb_cur (fb_bzero new_Buffer) = 0"
    "asString (fb_bzero new_Buffer) = []" "asString new_Buffer = []"
  by (simp_all add: al_buf_def fb_inv_def new_Buffer_def FixedBuffer_new_def fb_bzero_def asString_def)

lemma al_append_ok:
  assumes "al_ok basename s"
  shows "\<exists>s'. al_append l s = Inr s' \<and> al_ok basename s'"
proof -
  obtain c where c: "al_currentBuffer s = Some c" "al_buf c" using assms by (auto simp: al_ok_def al_front_def)
  obtain W T B C where wc: "al_written W s" "al_content W T B C s" using assms by (auto simp: al_ok_def)
  have loc: "al_local s" and fr: "al_front s" and bn: "al_basename s = basename" using assms by (auto simp: al_ok_def)
  show ?thesis
  proof (cases "fb_avail c > length l")
    case True
    obtain b where b: "fb_append l c = Inr b" "al_buf b" "asString b = asString c @ l"
      using fb_append_spec [of c l] c(2) True by (auto simp: al_buf_def)
    let ?s = "s\<lparr>al_lines := al_lines s @ [l], al_currentBuffer := Some b\<rparr>"
    have "length l < kLargeBuffer" using True c(2) by (simp add: al_buf_def fb_avail_def)
    then have "al_content W T B (C @ [l]) ?s" using wc(2) b(3) c(1) by (simp add: al_content_def kept_lines_def)
    moreover have "al_written W ?s" using wc(1) by (simp add: al_written_def split: option.splits)
    moreover have "al_local ?s" using loc by (simp add: al_local_def cong: al_pc.case_cong)
    moreover have "al_front ?s" using fr b(2) by (simp add: al_front_def)
    moreover have "al_basename ?s = basename" using bn by simp
    ultimately have "al_ok basename ?s" by (metis al_okI)
    then show ?thesis using c(1) b(1) True by (simp add: al_append_def Let_def)
  next
    case False
    let ?n = "case al_nextBuffer s of Some next \<Rightarrow> next | None \<Rightarrow> new_Buffer"
    have n: "al_buf ?n" "fb_cur ?n = 0"
      using fr by (cases "al_nextBuffer s"; simp add: al_front_def al_spare_def)+
    have e: "asString ?n = []" "fb_avail ?n = kLargeBuffer"
      using n by (simp_all add: asString_def fb_avail_def al_buf_def)
    obtain b where b: "fb_append l ?n = Inr b" "al_buf b" "asString b = (if length l < kLargeBuffer then l else [])"
      using fb_append_spec [of ?n l] n(1) e by (auto simp: al_buf_def)
    let ?s = "s\<lparr>al_lines := al_lines s @ [l], al_buffers := al_buffers s @ [c], al_nextBuffer := None, al_currentBuffer := Some b\<rparr>"
    have "al_content W T (B @ [C]) (if length l < kLargeBuffer then [l] else []) ?s"
      using wc(2) b(3) c(1) by (simp add: al_content_def kept_lines_def)
    moreover have "al_written W ?s" using wc(1) by (simp add: al_written_def split: option.splits)
    moreover have "al_local ?s" using loc by (simp add: al_local_def cong: al_pc.case_cong)
    moreover have "al_front ?s" using fr b(2) c(2) by (auto simp: al_front_def)
    moreover have "al_basename ?s = basename" using bn by simp
    ultimately have "al_ok basename ?s" by (metis al_okI)
    then show ?thesis using c(1) b(1) False by (simp add: al_append_def Let_def)
  qed
qed

lemma al_swap_ok:
  assumes "al_ok basename s" and "al_pc s = AtHead \<or> al_pc s = Waiting"
  shows "al_ok basename (al_swap s)"
proof -
  obtain c where c: "al_currentBuffer s = Some c" "al_buf c" using assms by (auto simp: al_ok_def al_front_def)
  obtain W T B C where wc: "al_written W s" "al_content W T B C s" using assms by (auto simp: al_ok_def)
  have fr: "al_front s" and bn: "al_basename s = basename" using assms by (auto simp: al_ok_def)
  have sp: "al_spare (al_newBuffer1 s)" "al_spare (al_newBuffer2 s)" "al_buffersToWrite s = []"
    using assms by (auto simp: al_ok_def al_local_def)
  obtain d where d: "al_newBuffer1 s = Some d" "al_buf d" "fb_cur d = 0"
    using sp(1) by (cases "al_newBuffer1 s") (simp_all add: al_spare_def)
  have swap: "al_swap s = (if al_nextBuffer s = None
      then s\<lparr>al_currentBuffer := Some d, al_newBuffer1 := None, al_buffersToWrite := al_buffers s @ [c], al_buffers := [],
             al_pc := Writing, al_nextBuffer := al_newBuffer2 s, al_newBuffer2 := None\<rparr>
      else s\<lparr>al_currentBuffer := Some d, al_newBuffer1 := None, al_buffersToWrite := al_buffers s @ [c], al_buffers := [],
             al_pc := Writing\<rparr>)"
    using c(1) d(1) sp(3) by (auto simp: al_swap_def Let_def split: option.splits)
  have "T = []" using wc(2) sp(3) by (simp add: al_content_def)
  then have "al_content W (B @ [C]) [] [] (al_swap s)"
    using wc(2) c(1) d(3) by (simp add: swap al_content_def asString_def)
  moreover have "al_written W (al_swap s)"
    using wc(1) assms(2) by (auto simp: swap al_written_def split: option.splits)
  moreover have "al_local (al_swap s)"
    using sp(2) fr by (auto simp: swap al_local_def al_front_def al_spare_def Suc_le_eq split: option.splits)
  moreover have "al_front (al_swap s)"
    using fr sp(2) c(2) d(2) by (auto simp: swap al_front_def)
  moreover have "al_basename (al_swap s) = basename" using bn by (simp add: swap)
  ultimately show ?thesis by (metis al_okI)
qed

lemma take_back_ok:
  assumes "al_spare p \<or> p = None \<and> bufs \<noteq> []" and "\<forall>b \<in> set bufs. al_buf b"
  shows "\<exists>q bufs'. take_back p bufs = Inr (q, bufs') \<and> al_spare q
           \<and> set bufs' \<subseteq> set bufs \<and> length bufs \<le> length bufs' + 1"
  using assms
  by (cases p) (auto simp: take_back_def al_spare_def al_buf_def fb_reset_def fb_inv_def assert_res_def dest: in_set_butlastD)

lemma al_write_ok:
  assumes "al_ok basename s" and pc: "al_pc s = Writing"
  shows "\<exists>s'. al_write env msg s = Inr s' \<and> al_ok basename s'"
proof -
  obtain W T B C where wc: "al_written W s" "al_content W T B C s" using assms by (auto simp: al_ok_def)
  have fr: "al_front s" and bn: "al_basename s = basename" using assms by (auto simp: al_ok_def)
  let ?bufs = "al_buffersToWrite s"
  let ?many = "length ?bufs > 25"
  let ?put = "if ?many then take 2 ?bufs else ?bufs"
  have loc: "al_newBuffer1 s = None" "?bufs \<noteq> []"
      "al_spare (al_newBuffer2 s) \<or> al_newBuffer2 s = None \<and> 2 \<le> length ?bufs"
    using assms by (auto simp: al_ok_def al_local_def)
  obtain out gs cur where out: "al_output s = Some out" "log_holds gs cur out" "concat gs @ cur = map concat W"
      "0 \<notin> set (lf_writes out)"
    using wc(1) pc by (auto simp: al_written_def split: option.splits)
  let ?M = "if ?many then [[msg (length ?bufs - 2)]] else []"
  obtain out1 gs1 cur1 where out1: "(if ?many then LogFile_append env (msg (length ?bufs - 2)) out else Inr out) = Inr out1"
      "log_holds gs1 cur1 out1" "concat gs1 @ cur1 = map concat (W @ ?M)" "0 \<notin> set (lf_writes out1)"
    using LogFile_append_holds [OF out(2,4), of env "msg (length ?bufs - 2)"] out(2-4) by (cases ?many) auto
  let ?P = "if ?many then take 2 T else T"
  have put: "map asString ?put = map concat ?P" using wc(2) by (simp add: al_content_def take_map [symmetric])
  obtain out2 gs2 cur2 where out2: "LogFile_appends env (map asString ?put) out1 = Inr out2"
      "log_holds gs2 cur2 out2" "concat gs2 @ cur2 = map concat (W @ ?M @ ?P)" "0 \<notin> set (lf_writes out2)"
    using LogFile_appends_hold [OF out1(2,4), of env "map asString ?put"] out1(3) put by auto
  obtain out3 where out3: "LogFile_flush out2 = Inr out3" "log_holds gs2 cur2 out3" "lf_writes out3 = lf_writes out2"
    using LogFile_flush_holds [OF out2(2)] by blast
  let ?two = "if length ?put > 2 then take 2 ?put else ?put"
  have bufs: "\<forall>b \<in> set ?bufs. al_buf b" using fr by (simp add: al_front_def)
  then have two: "\<forall>b \<in> set ?two. al_buf b" by (auto dest: in_set_takeD)
  have len: "length ?two = min 2 (length ?bufs)" by simp
  have "length ?two \<noteq> 0" using len loc(2) by simp
  then have ne: "al_spare (al_newBuffer1 s) \<or> al_newBuffer1 s = None \<and> ?two \<noteq> []" using loc(1) by simp
  obtain n1 two1 where n1: "take_back (al_newBuffer1 s) ?two = Inr (n1, two1)" "al_spare n1"
      "set two1 \<subseteq> set ?two" "length ?two \<le> length two1 + 1"
    using take_back_ok [OF ne two] by blast
  have two1: "al_spare (al_newBuffer2 s) \<or> al_newBuffer2 s = None \<and> two1 \<noteq> []" using loc(3) n1(4) len by auto
  obtain n2 two2 where n2: "take_back (al_newBuffer2 s) two1 = Inr (n2, two2)" "al_spare n2"
    using take_back_ok [OF two1] n1(3) two by blast
  let ?s = "s\<lparr>al_newBuffer1 := n1, al_newBuffer2 := n2, al_buffersToWrite := [], al_output := Some out3,
      al_dropped := al_dropped s + (if ?many then 1 else 0), al_pc := AtHead\<rparr>"
  have step: "al_write env msg s = Inr ?s"
    unfolding al_write_def Let_def using loc(2) out(1) out1(1) out2(1) n1(1) n2(1) out3(1) by simp
  have "al_written (W @ ?M @ ?P) ?s" by (rule al_writtenI [OF out3(2) out2(3)]) (simp_all add: out3(3) out2(4))
  moreover have "al_content (W @ ?M @ ?P) [] B C ?s" using wc(2) by (simp add: al_content_def)
  moreover have "al_local ?s" using n1(2) n2(2) by (simp add: al_local_def)
  moreover have "al_front ?s" using fr by (simp add: al_front_def)
  moreover have "al_basename ?s = basename" using bn by simp
  ultimately show ?thesis using step by (metis al_okI)
qed

lemma al_lock_ok:
  assumes "al_ok basename s" and pc: "al_pc s = AtHead"
  shows "\<exists>s'. al_lock s = Inr s' \<and> al_ok basename s'"
proof -
  obtain W T B C where wc: "al_written W s" "al_content W T B C s" using assms by (auto simp: al_ok_def)
  have fr: "al_front s" and bn: "al_basename s = basename" using assms by (auto simp: al_ok_def)
  have sp: "al_spare (al_newBuffer1 s)" "al_spare (al_newBuffer2 s)" "al_buffersToWrite s = []"
    using assms by (auto simp: al_ok_def al_local_def)
  obtain out gs cur where out: "al_output s = Some out" "log_holds gs cur out" "concat gs @ cur = map concat W"
      "0 \<notin> set (lf_writes out)"
    using wc(1) pc by (auto simp: al_written_def split: option.splits)
  obtain out' where out': "LogFile_flush out = Inr out'" "log_holds gs cur out'" "lf_writes out' = lf_writes out"
    using LogFile_flush_holds [OF out(2)] by blast
  have empty: "empty_buffer (al_newBuffer1 s)" "empty_buffer (al_newBuffer2 s)"
    using sp by (auto simp: al_spare_def empty_buffer_def split: option.splits)
  let ?f = "s\<lparr>al_output := Some out', al_pc := Finished\<rparr>"
  let ?w = "s\<lparr>al_pc := Waiting\<rparr>"
  have "al_ok basename ?f"
  proof (rule al_okI)
    show "al_written W ?f" using out' out(3,4) by (auto simp: al_written_def)
    show "al_content W T B C ?f" using wc(2) by (simp add: al_content_def)
    show "al_local ?f" using sp by (simp add: al_local_def)
    show "al_front ?f" using fr by (simp add: al_front_def)
  qed (simp add: bn)
  moreover have "al_ok basename ?w"
  proof (rule al_okI)
    show "al_written W ?w" using wc(1) out(1) by (simp add: al_written_def)
    show "al_content W T B C ?w" using wc(2) by (simp add: al_content_def)
    show "al_local ?w" using sp by (simp add: al_local_def)
    show "al_front ?w" using fr by (simp add: al_front_def)
  qed (simp add: bn)
  moreover have "al_ok basename (al_swap s)" using al_swap_ok assms by blast
  ultimately show ?thesis using out(1) out'(1) empty sp(3) by (simp add: al_lock_def)
qed

lemma al_enter_ok:
  assumes "al_ok basename s" and pc: "al_pc s = Entered" and "47 \<notin> set basename" and "le_clock env 0 > 0"
  shows "\<exists>s'. al_enter env s = Inr s' \<and> al_ok basename s'"
proof -
  obtain W T B C where wc: "al_written W s" "al_content W T B C s" using assms by (auto simp: al_ok_def)
  have fr: "al_front s" and bn: "al_basename s = basename" and running: "al_running s" "al_buffersToWrite s = []"
    using assms by (auto simp: al_ok_def al_local_def)
  obtain out where out: "LogFile_new env (al_basename s) (al_rollSize s) 3 [] = Inr out" "log_holds [] [] out" "lf_writes out = []"
    using LogFile_new_holds [of "al_basename s" env] assms(3,4) bn by blast
  let ?s = "s\<lparr>al_output := Some out, al_newBuffer1 := Some (fb_bzero new_Buffer),
               al_newBuffer2 := Some (fb_bzero new_Buffer), al_buffersToWrite := [], al_pc := AtHead\<rparr>"
  have "W = []" using wc(1) pc by (auto simp: al_written_def split: option.splits)
  have "T = []" using wc(2) running(2) by (simp add: al_content_def)
  have "al_written [] ?s" by (rule al_writtenI [OF out(2)]) (simp_all add: out(3))
  moreover have "al_content [] T B C ?s" using wc(2) \<open>T = []\<close> \<open>W = []\<close> by (simp add: al_content_def)
  moreover have "al_local ?s" by (simp add: al_local_def al_spare_def)
  moreover have "al_front ?s" using fr by (simp add: al_front_def)
  moreover have "al_basename ?s = basename" using bn by simp
  ultimately have "al_ok basename ?s" by (metis al_okI)
  then show ?thesis using running(1) out(1) by (simp add: al_enter_def)
qed

lemma al_exec_ok:
  assumes "al_ok basename s" and "al_allowed e s" and "47 \<notin> set basename" and "le_clock env 0 > 0"
  shows "\<exists>s'. al_exec env msg e s = Inr s' \<and> al_ok basename s'"
proof (cases e)
  case (Append l)
  then show ?thesis using al_append_ok [OF assms(1)] by (simp add: al_exec_def)
next
  case Start
  obtain W T B C where wc: "al_written W s" "al_content W T B C s" using assms by (auto simp: al_ok_def)
  have pc: "al_pc s = NotStarted" using assms(2) Start by (simp add: al_allowed_def)
  have loc: "al_local s" "al_front s" "al_basename s = basename" using assms(1) by (auto simp: al_ok_def)
  have "al_written W (al_start s)" using wc(1) pc by (auto simp: al_start_def al_written_def split: option.splits)
  moreover have "al_content W T B C (al_start s)" using wc(2) by (simp add: al_content_def al_start_def)
  moreover have "al_local (al_start s)" using loc(1) pc by (simp add: al_local_def al_start_def)
  moreover have "al_front (al_start s)" using loc(2) by (simp add: al_front_def al_start_def)
  moreover have "al_basename (al_start s) = basename" using loc(3) by (simp add: al_start_def)
  ultimately have "al_ok basename (al_start s)" by (metis al_okI)
  then show ?thesis using Start by (simp add: al_exec_def)
next
  case Stop
  obtain W T B C where wc: "al_written W s" "al_content W T B C s" using assms by (auto simp: al_ok_def)
  have pc: "al_pc s \<noteq> NotStarted" "al_pc s \<noteq> Entered" using assms(2) Stop by (simp_all add: al_allowed_def)
  have loc: "al_local s" "al_front s" "al_basename s = basename" using assms(1) by (auto simp: al_ok_def)
  have "al_written W (al_stop s)" using wc(1) by (simp add: al_stop_def al_written_def split: option.splits)
  moreover have "al_content W T B C (al_stop s)" using wc(2) by (simp add: al_content_def al_stop_def)
  moreover have "al_local (al_stop s)" using loc(1) pc by (cases "al_pc s") (simp_all add: al_local_def al_stop_def)
  moreover have "al_front (al_stop s)" using loc(2) by (simp add: al_front_def al_stop_def)
  moreover have "al_basename (al_stop s) = basename" using loc(3) by (simp add: al_stop_def)
  ultimately have "al_ok basename (al_stop s)" by (metis al_okI)
  then show ?thesis using Stop by (simp add: al_exec_def)
next
  case Run
  show ?thesis
  proof (cases "al_pc s")
    case Entered
    then show ?thesis using al_enter_ok [OF assms(1) _ assms(3,4)] Run by (simp add: al_exec_def al_thread_def)
  next
    case AtHead
    then show ?thesis using al_lock_ok [OF assms(1)] Run by (simp add: al_exec_def al_thread_def)
  next
    case Waiting
    then show ?thesis using al_swap_ok [OF assms(1)] Run by (simp add: al_exec_def al_thread_def)
  next
    case Writing
    then show ?thesis using al_write_ok [OF assms(1)] Run by (simp add: al_exec_def al_thread_def)
  qed (use assms(1) Run in \<open>simp_all add: al_exec_def al_thread_def\<close>)
qed

lemma al_new_ok: "al_ok basename (AsyncLogging_new basename rollSize)"
proof (rule al_okI)
  let ?s = "AsyncLogging_new basename rollSize"
  show "al_written [] ?s" "al_content [] [] [] [] ?s" "al_local ?s" "al_front ?s" "al_basename ?s = basename"
    by (simp_all add: AsyncLogging_new_def al_written_def al_content_def al_local_def al_front_def al_spare_def kept_lines_def)
qed

lemma al_reach_ok:
  assumes "al_reach env msg basename rollSize s" and "47 \<notin> set basename" and "le_clock env 0 > 0"
  shows "al_ok basename s"
  using assms(1)
proof (induction rule: al_reach.induct)
  case al_init
  then show ?case by (rule al_new_ok)
next
  case (al_step s e s')
  then show ?case using al_exec_ok [OF al_step.IH al_step.hyps(2) assms(2,3), of msg] by auto
qed

subsection \<open>What the back end promises\<close>

lemma concat_map_concat: "concat (map concat xs) = concat (concat xs)"
  by (induction xs) simp_all

lemma regroup:
  "concat gs @ cur = map concat W \<Longrightarrow>
     \<exists>Gs Cur. gs = map (map concat) Gs \<and> cur = map concat Cur \<and> concat Gs @ Cur = W"
proof (induction gs arbitrary: W)
  case Nil
  then show ?case by (intro exI [of _ "[]"] exI [of _ W]) simp
next
  case (Cons g gs)
  then obtain G V where "W = G @ V" "g = map concat G" "concat gs @ cur = map concat V"
    by (auto simp: append_eq_map_conv)
  moreover then obtain Gs Cur where "gs = map (map concat) Gs" "cur = map concat Cur" "concat Gs @ Cur = V"
    using Cons.IH by blast
  ultimately show ?case by (intro exI [of _ "G # Gs"] exI [of _ Cur]) simp
qed




text \<open>The witness: a line that was appended before the back end has seen it is in memory.\<close>

lemma demo_reach:
  "\<exists>s. al_reach log_env_demo (\<lambda>k. []) [97] 100 s \<and> al_lines s = [[65]] \<and> al_dropped s = 0 \<and> al_output s = None"
proof -
  let ?s = "AsyncLogging_new [97] 100"
  obtain b where b: "fb_append [65] (fb_bzero new_Buffer) = Inr b"
    using fb_append_spec [of "fb_bzero new_Buffer" "[65]"] al_buf_new(2) unfolding al_buf_def by blast
  have a: "fb_avail (fb_bzero new_Buffer) > length [65::byte]"
    by (simp add: fb_avail_def fb_bzero_def new_Buffer_def FixedBuffer_new_def kLargeBuffer_def)
  have "al_append [65] ?s = Inr (?s\<lparr>al_lines := [[65]], al_currentBuffer := Some b\<rparr>)"
    using a b by (simp add: al_append_def AsyncLogging_new_def)
  then show ?thesis
    using al_step [OF al_init, of "Append [65]" "[97]" 100 log_env_demo "\<lambda>k. []"]
    by (intro exI [of _ "?s\<lparr>al_lines := [[65]], al_currentBuffer := Some b\<rparr>"])
      (simp add: al_allowed_def al_exec_def AsyncLogging_new_def)
qed


subsection \<open>The lines get to the files\<close>

fun al_runs :: "log_env \<Rightarrow> (nat \<Rightarrow> bytes) \<Rightarrow> nat \<Rightarrow> async_logging \<Rightarrow> async_logging res" where
  "al_runs env msg 0 s = Inr s"
| "al_runs env msg (Suc k) s = bind_res (al_thread env msg s) (al_runs env msg k)"

definition al_memory :: "async_logging \<Rightarrow> bytes" where
  "al_memory s = concat (map asString (al_buffers s)) @ (case al_currentBuffer s of None \<Rightarrow> [] | Some b \<Rightarrow> asString b)"

lemma al_swap_memory:
  assumes "al_ok basename s" and "al_pc s = AtHead \<or> al_pc s = Waiting"
  shows "al_memory (al_swap s) = []" "al_pc (al_swap s) = Writing"
proof -
  obtain d where "al_newBuffer1 s = Some d" "fb_cur d = 0" "al_buffersToWrite s = []"
    using assms by (cases "al_newBuffer1 s") (auto simp: al_ok_def al_local_def al_spare_def)
  then show "al_memory (al_swap s) = []" "al_pc (al_swap s) = Writing"
    by (simp_all add: al_memory_def al_swap_def asString_def Let_def split: option.splits)
qed

lemma al_write_memory:
  fixes s :: async_logging
  assumes "al_write env msg s = Inr s'"
  shows "al_memory s' = al_memory s" "al_buffersToWrite s' = []" "al_pc s' = AtHead" "al_running s' = al_running s"
  using assms
  by (auto simp: al_write_def al_memory_def Let_def assert_res_def bind_res_Inr split: option.splits if_splits)

lemma al_writing_steps:
  assumes "al_ok basename s" "al_pc s = Writing"
  shows "\<exists>s'. al_runs env msg 1 s = Inr s' \<and> al_ok basename s' \<and> al_pc s' = AtHead \<and> al_buffersToWrite s' = [] \<and>
    al_memory s' = al_memory s \<and> al_running s' = al_running s"
proof -
  obtain s' where "al_write env msg s = Inr s'" "al_ok basename s'" using al_write_ok [OF assms, of env msg] by blast
  then show ?thesis using assms(2) al_write_memory [of env msg s s'] by (simp add: al_thread_def)
qed

lemma al_runs_add: "al_runs env msg (j + k) s = bind_res (al_runs env msg j s) (al_runs env msg k)"
proof (induction j arbitrary: s)
  case (Suc j)
  then show ?case by (cases "al_thread env msg s") simp_all
qed simp

lemma al_waiting_steps:
  assumes "al_ok basename s" "al_pc s = Waiting"
  shows "\<exists>s'. al_runs env msg 2 s = Inr s' \<and> al_pc s' = AtHead \<and> al_buffersToWrite s' = [] \<and> al_memory s' = []"
  using al_writing_steps [OF al_swap_ok [OF assms(1)]] al_swap_memory [OF assms(1)] assms(2)
  by (force simp add: al_thread_def numeral_2_eq_2)

lemma al_head_steps:
  assumes ok: "al_ok basename s" and pc: "al_pc s = AtHead" and run: "al_running s"
  shows "\<exists>k s'. k \<le> 3 \<and> al_runs env msg k s = Inr s' \<and> al_pc s' = AtHead \<and> al_buffersToWrite s' = [] \<and> al_memory s' = []"
proof -
  obtain t where t: "al_lock s = Inr t" "al_ok basename t" using al_lock_ok [OF ok pc] by blast
  show ?thesis
  proof (cases "al_buffers s = []")
    case True
    then have "al_pc t = Waiting" using t(1) run by (auto simp: al_lock_def assert_res_def split: if_splits)
    then obtain s' where "al_runs env msg 2 t = Inr s'" "al_pc s' = AtHead" "al_buffersToWrite s' = []" "al_memory s' = []"
      using al_waiting_steps [OF t(2)] by blast
    moreover then have "al_runs env msg (Suc 2) s = Inr s'" using t(1) pc by (simp only: al_runs.simps al_thread_def) simp
    ultimately show ?thesis by (intro exI [of _ "Suc 2"] exI [of _ s']) simp
  next
    case False
    then have tt: "t = al_swap s" using t(1) run by (auto simp: al_lock_def assert_res_def split: if_splits)
    then have "al_pc t = Writing" "al_memory t = []" using al_swap_memory [OF ok] pc by simp_all
    then obtain s' where "al_runs env msg 1 t = Inr s'" "al_pc s' = AtHead" "al_buffersToWrite s' = []" "al_memory s' = []"
      using al_writing_steps [OF t(2)] by auto
    moreover then have "al_runs env msg (Suc 1) s = Inr s'" using t(1) pc by (simp only: al_runs.simps al_thread_def) simp
    ultimately show ?thesis by (intro exI [of _ "Suc 1"] exI [of _ s']) simp
  qed
qed



text \<open>
  What was appended since the last swap is lost when the logger is stopped: the back end leaves its loop
  without another look at the buffers.
\<close>

lemma stop_loses_lines:
  assumes "al_ok basename s" and "al_pc s = AtHead" and "\<not> al_running s"
  shows "\<exists>s'. al_thread env msg s = Inr s' \<and> al_pc s' = Finished \<and> al_memory s' = al_memory s \<and> al_thread env msg s' = Inr s'"
  using al_lock_ok [OF assms(1,2)] assms(2,3)
  by (auto simp: al_thread_def al_lock_def al_memory_def bind_res_Inr split: option.splits)

end
